(* ===== verification/Go_Prelude.thy ===== *)
theory Go_Prelude
  imports Main "HOL-Library.Sublist" "HOL-Library.Char_ord" "HOL-Library.List_Lexorder"
begin

text \<open>
  What the components share: the Go vocabulary the sources are written in. A Go string is a
  sequence of bytes, so it is a HOL \<^typ>\<open>string\<close> (\<^typ>\<open>char\<close> is a byte); a
  \<^verbatim>\<open>time.Time\<close> is the number of nanoseconds since Go's zero time, so that
  \<^verbatim>\<open>IsZero\<close> is equality with 0; a \<^verbatim>\<open>time.Duration\<close> is a number of
  nanoseconds. An \<^verbatim>\<open>error\<close> is its message together with the sentinels that
  \<^verbatim>\<open>errors.Is\<close> finds in its chain, outermost first, and the network errors that
  \<^verbatim>\<open>errors.As\<close> finds there; \<^verbatim>\<open>nil\<close> is \<^const>\<open>None\<close> where
  a function returns only an error, and \<^const>\<open>Inr\<close> carries the value where it returns both.
\<close>

named_theorems go_simps \<open>rewrite rules for the Go string and error vocabulary\<close>
named_theorems keeps \<open>operations that leave a component of the state alone\<close>

section \<open>Types\<close>

type_synonym gotime = int
type_synonym duration = int

datatype sentinel =
    ErrCredentialsRefused
  | ErrUploadUnavailable
  | ErrOffline
  | ErrTicketExpired
  | ErrAlreadyPresent
  | ErrLocked
  | ErrSchemaMismatch
  | ErrNotExist
  | ErrNoTarget
  | ErrCanceled
  | ErrNotRegular
  | ErrTooLarge
  | ErrAuthorizeUnavailable
  | DNSError
  | OpError string

record goerr =
  err_msg :: string
  err_chain :: "sentinel list"

type_synonym 'a result = "goerr + 'a"

definition new_error :: "string \<Rightarrow> goerr" where
  "new_error m = \<lparr>err_msg = m, err_chain = []\<rparr>"

text \<open>\<^verbatim>\<open>errors.Is\<close>; nothing is found in a nil error.\<close>

definition errors_is :: "goerr option \<Rightarrow> sentinel \<Rightarrow> bool" where
  "errors_is e s = (case e of None \<Rightarrow> False | Some x \<Rightarrow> s \<in> set (err_chain x))"

definition err_of_sentinel :: "sentinel \<Rightarrow> string \<Rightarrow> goerr" where
  "err_of_sentinel s m = \<lparr>err_msg = m, err_chain = [s]\<rparr>"

lemma errors_is_None [simp, go_simps]: "\<not> errors_is None s"
  by (simp add: errors_is_def)

lemma errors_is_Some [simp, go_simps]: "errors_is (Some e) s \<longleftrightarrow> s \<in> set (err_chain e)"
  by (simp add: errors_is_def)

lemma err_chain_simps [simp, go_simps]:
  "err_chain (new_error m) = []"
  "err_chain (err_of_sentinel s m) = [s]"
  by (simp_all add: new_error_def err_of_sentinel_def)

section \<open>Durations\<close>

definition second :: duration where "second = 1000000000"
definition minute :: duration where "minute = 60 * second"
definition hour :: duration where "hour = 60 * minute"

lemmas duration_defs = second_def minute_def hour_def

text \<open>
  The second a time falls in: what a format without fractional seconds keeps. Go's
  \<^verbatim>\<open>Format\<close> drops the fraction, which is rounding down because its own
  representation counts nanoseconds forward from a whole second.
\<close>

definition trunc_second :: "gotime \<Rightarrow> gotime" where
  "trunc_second t = (t div second) * second"

lemma trunc_second_le: "trunc_second t \<le> t"
  by (simp add: trunc_second_def second_def)

lemma trunc_second_near: "t < trunc_second t + second"
proof -
  have "t = (t div second) * second + t mod second" by simp
  moreover have "t mod second < second" by (simp add: second_def)
  ultimately show ?thesis unfolding trunc_second_def by linarith
qed

lemma trunc_second_idem [simp]: "trunc_second (trunc_second t) = trunc_second t"
  by (simp add: trunc_second_def second_def)

section \<open>Strings\<close>

text \<open>\<^verbatim>\<open>cmp.Or\<close> on strings: the first that is not empty, or the empty string.\<close>

fun cmp_or :: "string list \<Rightarrow> string" where
  "cmp_or [] = []"
| "cmp_or (s # ss) = (if s \<noteq> [] then s else cmp_or ss)"

text \<open>\<^verbatim>\<open>strings.Split\<close> by one byte: never empty, the empty string has one empty part.\<close>

fun split_on :: "char \<Rightarrow> string \<Rightarrow> string list" where
  "split_on c [] = [[]]"
| "split_on c (x # xs) =
     (if x = c then [] # split_on c xs
      else (case split_on c xs of [] \<Rightarrow> [[x]] | p # ps \<Rightarrow> (x # p) # ps))"

text \<open>\<^verbatim>\<open>strings.Join\<close>.\<close>

fun join_with :: "'a list \<Rightarrow> 'a list list \<Rightarrow> 'a list" where
  "join_with sep [] = []"
| "join_with sep [s] = s"
| "join_with sep (s # t # ts) = s @ sep @ join_with sep (t # ts)"

text \<open>\<^verbatim>\<open>strings.ReplaceAll\<close> of one byte by another.\<close>

definition replace_char :: "char \<Rightarrow> char \<Rightarrow> string \<Rightarrow> string" where
  "replace_char a b = map (\<lambda>c. if c = a then b else c)"

definition trim_prefix :: "string \<Rightarrow> string \<Rightarrow> string" where
  "trim_prefix p s = (if prefix p s then drop (length p) s else s)"

text \<open>\<^verbatim>\<open>strings.CutSuffix\<close>: what is before the suffix, or nothing.\<close>

definition cut_suffix :: "string \<Rightarrow> string \<Rightarrow> string option" where
  "cut_suffix s suf = (if suffix suf s then Some (take (length s - length suf) s) else None)"

definition to_lower_char :: "char \<Rightarrow> char" where
  "to_lower_char c = (if CHR ''A'' \<le> c \<and> c \<le> CHR ''Z'' then char_of (of_char c + 32 :: nat) else c)"

definition to_lower :: "string \<Rightarrow> string" where
  "to_lower = map to_lower_char"

fun nat_digits :: "nat \<Rightarrow> string" where
  "nat_digits n = (if n < 10 then [char_of (48 + n)]
                   else nat_digits (n div 10) @ [char_of (48 + n mod 10)])"

declare nat_digits.simps [simp del]

text \<open>\<^verbatim>\<open>strconv.Itoa\<close>, and what \<^verbatim>\<open>%d\<close> prints.\<close>

definition itoa :: "int \<Rightarrow> string" where
  "itoa i = (if i < 0 then ''-'' @ nat_digits (nat (- i)) else nat_digits (nat i))"

text \<open>
  What \<^verbatim>\<open>%q\<close> prints, without the escapes inside the quotes: such texts are messages,
  and no code branches on them.
\<close>

definition quote :: "string \<Rightarrow> string" where
  "quote s = CHR 0x22 # s @ [CHR 0x22]"

definition is_lower :: "char \<Rightarrow> bool" where
  "is_lower c \<longleftrightarrow> CHR ''a'' \<le> c \<and> c \<le> CHR ''z''"

definition is_upper :: "char \<Rightarrow> bool" where
  "is_upper c \<longleftrightarrow> CHR ''A'' \<le> c \<and> c \<le> CHR ''Z''"

definition is_digit :: "char \<Rightarrow> bool" where
  "is_digit c \<longleftrightarrow> CHR ''0'' \<le> c \<and> c \<le> CHR ''9''"

subsection \<open>Splitting and joining\<close>

lemma split_on_nonempty [simp]: "split_on c s \<noteq> []"
  by (cases s) (auto split: list.splits)

lemma split_on_exhaust: "\<exists>p ps. split_on c s = p # ps"
  by (cases "split_on c s") auto

lemma join_with_Cons: "ss \<noteq> [] \<Longrightarrow> join_with sep (s # ss) = s @ sep @ join_with sep ss"
  by (cases ss) auto

lemma join_split_on [simp]: "join_with [c] (split_on c s) = s"
proof (induction s)
  case (Cons x xs)
  obtain p ps where p: "split_on c xs = p # ps" using split_on_exhaust by blast
  with Cons show ?case by (cases ps) auto
qed simp

lemma split_on_no_sep: "p \<in> set (split_on c s) \<Longrightarrow> c \<notin> set p"
proof (induction s arbitrary: p)
  case (Cons x xs)
  then show ?case by (auto split: if_splits list.splits)
qed simp

lemma split_on_append_sep [go_simps]:
  "c \<notin> set p \<Longrightarrow> split_on c (p @ c # s) = p # split_on c s"
  by (induction p) auto

lemma split_on_append:
  "split_on c (a @ c # b) = split_on c a @ split_on c b"
  by (induction a) (auto split: list.splits)

text \<open>A string whose parts after the first are not empty has no doubled separator.\<close>

lemma no_double_sep:
  "(\<forall>p \<in> set (tl (split_on c s)). p \<noteq> []) \<Longrightarrow> \<not> sublist [c, c] s"
proof (induction s)
  case (Cons x xs)
  obtain p ps where ps: "split_on c xs = p # ps" using split_on_exhaust by blast
  show ?case
  proof (cases "x = c")
    case True
    with Cons.prems ps have ne: "p \<noteq> []" "\<forall>q \<in> set ps. q \<noteq> []" by auto
    with ps have "xs = [] \<or> hd xs \<noteq> c" by (cases xs) auto
    with Cons.IH ne(2) ps True show ?thesis
      by (cases xs) (auto simp: sublist_Cons_right)
  next
    case False
    with Cons ps show ?thesis by (auto simp: sublist_Cons_right)
  qed
qed simp

lemma split_on_none: "c \<notin> set p \<Longrightarrow> split_on c p = [p]"
  by (induction p) auto

lemma split_on_join:
  fixes c :: char
  assumes "ps \<noteq> []" and "\<And>p. p \<in> set ps \<Longrightarrow> c \<notin> set p"
  shows "split_on c (join_with [c] ps) = ps"
  using assms
proof (induction ps rule: induct_list012)
  case (3 s t ts)
  then show ?case by (simp add: split_on_append_sep)
qed (auto simp: split_on_none)

lemma join_with_inj:
  fixes c :: char
  assumes "join_with [c] ps = join_with [c] qs" "ps \<noteq> []" "qs \<noteq> []"
    and "\<forall>p \<in> set ps \<union> set qs. c \<notin> set p"
  shows "ps = qs"
  using assms split_on_join [of ps c] split_on_join [of qs c] by (metis UnI1 UnI2)

lemma split_on_inj: "split_on c s = split_on c t \<longleftrightarrow> s = t"
  by (metis join_split_on)

lemma sep_free_append_inj:
  assumes "a @ c # s = b @ c # t" and "c \<notin> set a" and "c \<notin> set b"
  shows "a = b \<and> s = t"
  using assms
proof (induction a arbitrary: b)
  case Nil
  then show ?case by (cases b) auto
next
  case (Cons x xs)
  then show ?case by (cases b) auto
qed

lemma cut_suffix_Some_iff: "cut_suffix s suf = Some b \<longleftrightarrow> s = b @ suf"
  by (auto simp: cut_suffix_def suffix_def)

lemma trim_prefix_append [simp]: "trim_prefix p (p @ s) = s"
  by (simp add: trim_prefix_def)

lemma cmp_or_nonempty: "cmp_or ss \<noteq> [] \<longleftrightarrow> (\<exists>s \<in> set ss. s \<noteq> [])"
  by (induction ss) auto

end
