(* ===== verification/Go_Map.thy ===== *)
theory Go_Map
  imports Go_Prelude "HOL-Library.AList"
begin

text \<open>
  Go's built-in map as an association list with distinct keys. The interface \<open>dict\<close> says what
  the components rely on: what a lookup returns after an assignment or a deletion, and that
  every operation keeps the representation well formed. Its interpretation on the list
  operations carries the laws to every map of the model. The order of the list stands for one
  iteration order; the code that ranges over a map does so only where the order does not
  matter, or sorts the keys first.
\<close>

type_synonym ('k, 'v) gomap = "('k \<times> 'v) list"

definition map_get :: "('k, 'v) gomap \<Rightarrow> 'k \<Rightarrow> 'v option" where
  "map_get m k = map_of m k"

definition map_put :: "'k \<Rightarrow> 'v \<Rightarrow> ('k, 'v) gomap \<Rightarrow> ('k, 'v) gomap" where
  "map_put k v m = AList.update k v m"

text \<open>The deletion loop \<^verbatim>\<open>for k, v := range m { if p(k, v) { delete(m, k) } }\<close>.\<close>

definition map_drop :: "('k \<Rightarrow> 'v \<Rightarrow> bool) \<Rightarrow> ('k, 'v) gomap \<Rightarrow> ('k, 'v) gomap" where
  "map_drop p m = filter (\<lambda>(k, v). \<not> p k v) m"

definition map_del :: "'k \<Rightarrow> ('k, 'v) gomap \<Rightarrow> ('k, 'v) gomap" where
  "map_del k m = map_drop (\<lambda>k' _. k' = k) m"

definition map_ok :: "('k, 'v) gomap \<Rightarrow> bool" where
  "map_ok m \<longleftrightarrow> distinct (map fst m)"

text \<open>Assigning every entry of one map to another, as a range loop does.\<close>

definition map_put_all :: "('k, 'v) gomap \<Rightarrow> ('k, 'v) gomap \<Rightarrow> ('k, 'v) gomap" where
  "map_put_all upd m = foldl (\<lambda>m (k, v). map_put k v m) m upd"

locale dict =
  fixes empty :: 'm
    and get :: "'m \<Rightarrow> 'k \<Rightarrow> 'v option"
    and put :: "'k \<Rightarrow> 'v \<Rightarrow> 'm \<Rightarrow> 'm"
    and drop_if :: "('k \<Rightarrow> 'v \<Rightarrow> bool) \<Rightarrow> 'm \<Rightarrow> 'm"
    and ok :: "'m \<Rightarrow> bool"
  assumes get_empty: "get empty k = None"
    and ok_empty: "ok empty"
    and get_put: "ok m \<Longrightarrow> get (put k v m) k' = (if k' = k then Some v else get m k')"
    and ok_put: "ok m \<Longrightarrow> ok (put k v m)"
    and get_drop_if:
      "ok m \<Longrightarrow> get (drop_if p m) k = (case get m k of None \<Rightarrow> None
                                      | Some v \<Rightarrow> if p k v then None else Some v)"
    and ok_drop_if: "ok m \<Longrightarrow> ok (drop_if p m)"
begin

lemma get_put_same: "ok m \<Longrightarrow> get (put k v m) k = Some v"
  by (simp add: get_put)

lemma put_absorbs: "ok m \<Longrightarrow> get (put k v (put k w m)) = get (put k v m)"
  by (rule ext) (simp add: get_put ok_put)

lemma put_commutes:
  "ok m \<Longrightarrow> k \<noteq> k' \<Longrightarrow> get (put k v (put k' v' m)) = get (put k' v' (put k v m))"
  by (rule ext) (simp add: get_put ok_put)

lemma ok_foldl_put: "ok m \<Longrightarrow> ok (foldl (\<lambda>m (k, v). put k v m) m upd)"
  by (induction upd arbitrary: m) (auto simp: ok_put)

lemma get_foldl_put:
  assumes "ok m" "distinct (map fst upd)"
  shows "get (foldl (\<lambda>m (k, v). put k v m) m upd) k' =
         (case map_of upd k' of None \<Rightarrow> get m k' | Some v \<Rightarrow> Some v)"
  using assms
proof (induction upd arbitrary: m)
  case (Cons kv upd)
  obtain k v where kv: "kv = (k, v)" by (cases kv)
  from Cons.prems kv have fresh: "map_of upd k = None" by (auto simp: map_of_eq_None_iff)
  have "get (foldl (\<lambda>m (k, v). put k v m) m (kv # upd)) k' =
      (case map_of upd k' of None \<Rightarrow> get (put k v m) k' | Some v \<Rightarrow> Some v)"
    using Cons kv by (simp add: ok_put)
  then show ?case using fresh Cons.prems(1) kv by (auto simp: get_put split: option.splits)
qed simp

lemma drop_if_put_other:
  assumes "ok m" "\<not> p k v"
  shows "get (drop_if p (put k v m)) k = Some v"
  using assms by (simp add: get_drop_if get_put ok_put)

end

interpretation gomap: dict "[]" map_get map_put map_drop map_ok
proof unfold_locales
  fix m :: "('a, 'b) gomap" and k k' :: 'a and v :: 'b and p :: "'a \<Rightarrow> 'b \<Rightarrow> bool"
  show "map_get [] k = (None :: 'b option)" by (simp add: map_get_def)
  show "map_ok ([] :: ('a, 'b) gomap)" by (simp add: map_ok_def)
  show "map_get (map_put k v m) k' = (if k' = k then Some v else map_get m k')"
    by (simp add: map_get_def map_put_def update_conv)
  show "map_ok m \<Longrightarrow> map_ok (map_put k v m)"
    by (simp add: map_ok_def map_put_def distinct_update)
  show "map_get (map_drop p m) k = (case map_get m k of None \<Rightarrow> None
            | Some v \<Rightarrow> if p k v then None else Some v)" if "map_ok m"
    using that by (induction m) (auto simp: map_get_def map_drop_def map_ok_def
        map_of_eq_None_iff split: option.splits)
  show "map_ok m \<Longrightarrow> map_ok (map_drop p m)"
    unfolding map_ok_def map_drop_def by (induction m) auto
qed

lemmas gomap_simps [simp, go_simps] =
  gomap.get_empty gomap.ok_empty gomap.get_put gomap.ok_put gomap.get_drop_if gomap.ok_drop_if

lemma map_ok_put_all [simp]: "map_ok m \<Longrightarrow> map_ok (map_put_all upd m)"
  unfolding map_put_all_def by (rule gomap.ok_foldl_put)

lemma map_get_put_all [simp]:
  "map_ok m \<Longrightarrow> map_ok upd \<Longrightarrow>
   map_get (map_put_all upd m) k = (case map_get upd k of None \<Rightarrow> map_get m k | Some v \<Rightarrow> Some v)"
  unfolding map_put_all_def map_get_def [of upd] by (rule gomap.get_foldl_put) (simp_all add: map_ok_def)

lemma map_get_del [simp]:
  "map_ok m \<Longrightarrow> map_get (map_del k m) k' = (if k' = k then None else map_get m k')"
  by (auto simp: map_del_def split: option.splits)

lemma map_get_Some_iff: "map_ok m \<Longrightarrow> map_get m k = Some v \<longleftrightarrow> (k, v) \<in> set m"
  by (simp add: map_get_def map_ok_def)

lemma map_get_None_iff: "map_get m k = None \<longleftrightarrow> k \<notin> fst ` set m"
  by (simp add: map_get_def map_of_eq_None_iff)

lemma map_drop_none: "(\<And>k v. (k, v) \<in> set m \<Longrightarrow> \<not> p k v) \<Longrightarrow> map_drop p m = m"
  unfolding map_drop_def by (induction m) auto

lemma length_map_put:
  "length (map_put k v m) = (if map_get m k = None then Suc (length m) else length m)"
  by (induction m) (auto simp: map_put_def map_get_def)

lemma set_map_put_subset: "set (map_put k v m) \<subseteq> insert (k, v) (set m)"
  by (induction m) (auto simp: map_put_def)

lemma map_drop_length_eq: "length (map_drop p m) = length m \<longleftrightarrow> map_drop p m = m"
proof (induction m)
  case (Cons kv m)
  have "length (map_drop p m) \<le> length m" by (simp add: map_drop_def)
  then have "length (map_drop p m) \<noteq> Suc (length m)" "map_drop p m \<noteq> kv # m" by auto
  with Cons show ?case by (cases kv) (simp add: map_drop_def)
qed (simp add: map_drop_def)

end
