(* ===== verification/Sha256.thy ===== *)
theory Sha256
  imports Go_Prelude "HOL-Library.Word"
begin

text \<open>
  The digests the sources take from Go's standard library: SHA-256 (\<^verbatim>\<open>crypto/sha256\<close>),
  HMAC over it (\<^verbatim>\<open>crypto/hmac\<close>) and the two spellings of a byte in hexadecimal
  (\<^verbatim>\<open>encoding/hex\<close> writes lower case, the path escapers write upper case). They are
  executable on 32-bit words, so a key or a checksum of the model is the one the program
  computes; the lemmas give the length and the alphabet of the result, which is what the
  key grammar relies on.
\<close>

unbundle bit_operations_syntax

type_synonym u32 = "32 word"

section \<open>SHA-256\<close>

definition sha_k :: "u32 list" where
  "sha_k = [
    1116352408, 1899447441, 3049323471, 3921009573, 961987163, 1508970993,
    2453635748, 2870763221, 3624381080, 310598401, 607225278, 1426881987,
    1925078388, 2162078206, 2614888103, 3248222580, 3835390401, 4022224774,
    264347078, 604807628, 770255983, 1249150122, 1555081692, 1996064986,
    2554220882, 2821834349, 2952996808, 3210313671, 3336571891, 3584528711,
    113926993, 338241895, 666307205, 773529912, 1294757372, 1396182291,
    1695183700, 1986661051, 2177026350, 2456956037, 2730485921, 2820302411,
    3259730800, 3345764771, 3516065817, 3600352804, 4094571909, 275423344,
    430227734, 506948616, 659060556, 883997877, 958139571, 1322822218,
    1537002063, 1747873779, 1955562222, 2024104815, 2227730452, 2361852424,
    2428436474, 2756734187, 3204031479, 3329325298]"

type_synonym sha_state = "u32 \<times> u32 \<times> u32 \<times> u32 \<times> u32 \<times> u32 \<times> u32 \<times> u32"

definition sha_init :: sha_state where
  "sha_init = (0x6a09e667, 0xbb67ae85, 0x3c6ef372, 0xa54ff53a,
               0x510e527f, 0x9b05688c, 0x1f83d9ab, 0x5be0cd19)"

text \<open>Rotation to the right by \<open>0 < n < 32\<close>.\<close>

definition rotr :: "nat \<Rightarrow> u32 \<Rightarrow> u32" where
  "rotr n x = drop_bit n x OR push_bit (32 - n) x"

definition ssig0 :: "u32 \<Rightarrow> u32" where
  "ssig0 x = rotr 7 x XOR rotr 18 x XOR drop_bit 3 x"

definition ssig1 :: "u32 \<Rightarrow> u32" where
  "ssig1 x = rotr 17 x XOR rotr 19 x XOR drop_bit 10 x"

definition bsig0 :: "u32 \<Rightarrow> u32" where
  "bsig0 x = rotr 2 x XOR rotr 13 x XOR rotr 22 x"

definition bsig1 :: "u32 \<Rightarrow> u32" where
  "bsig1 x = rotr 6 x XOR rotr 11 x XOR rotr 25 x"

definition sha_ch :: "u32 \<Rightarrow> u32 \<Rightarrow> u32 \<Rightarrow> u32" where
  "sha_ch x y z = (x AND y) XOR (NOT x AND z)"

definition sha_maj :: "u32 \<Rightarrow> u32 \<Rightarrow> u32 \<Rightarrow> u32" where
  "sha_maj x y z = (x AND y) XOR (x AND z) XOR (y AND z)"

fun sha_round :: "sha_state \<Rightarrow> u32 \<times> u32 \<Rightarrow> sha_state" where
  "sha_round (a, b, c, d, e, f, g, h) (k, w) =
     (let t1 = h + bsig1 e + sha_ch e f g + k + w;
          t2 = bsig0 a + sha_maj a b c
      in (t1 + t2, a, b, c, d + t1, e, f, g))"

text \<open>The schedule is kept newest first, so that the four words it reads are at fixed places.\<close>

fun sha_schedule :: "nat \<Rightarrow> u32 list \<Rightarrow> u32 list" where
  "sha_schedule 0 ws = rev ws"
| "sha_schedule (Suc n) ws =
     sha_schedule n ((ssig1 (ws ! 1) + ws ! 6 + ssig0 (ws ! 14) + ws ! 15) # ws)"

fun sha_add :: "sha_state \<Rightarrow> sha_state \<Rightarrow> sha_state" where
  "sha_add (a, b, c, d, e, f, g, h) (a', b', c', d', e', f', g', h') =
     (a + a', b + b', c + c', d + d', e + e', f + f', g + g', h + h')"

definition sha_block :: "sha_state \<Rightarrow> u32 list \<Rightarrow> sha_state" where
  "sha_block st ws = sha_add st (foldl sha_round st (zip sha_k (sha_schedule 48 (rev ws))))"

fun be_words :: "string \<Rightarrow> u32 list" where
  "be_words (a # b # c # d # rest) =
     word_of_int (((of_char a * 256 + of_char b) * 256 + of_char c) * 256 + of_char d)
       # be_words rest"
| "be_words _ = []"

fun sha_blocks :: "sha_state \<Rightarrow> u32 list \<Rightarrow> sha_state" where
  "sha_blocks st ws =
     (if ws = [] then st else sha_blocks (sha_block st (take 16 ws)) (drop 16 ws))"

declare sha_blocks.simps [simp del]

fun be_bytes :: "nat \<Rightarrow> int \<Rightarrow> string" where
  "be_bytes 0 n = []"
| "be_bytes (Suc k) n = be_bytes k (n div 256) @ [char_of (n mod 256)]"

definition sha_pad :: "string \<Rightarrow> string" where
  "sha_pad m = m @ [char_of (128 :: nat)]
     @ replicate ((119 - length m mod 64) mod 64) (char_of (0 :: nat))
     @ be_bytes 8 (8 * int (length m))"

fun sha_bytes :: "sha_state \<Rightarrow> string" where
  "sha_bytes (a, b, c, d, e, f, g, h) =
     concat (map (\<lambda>x. be_bytes 4 (uint x)) [a, b, c, d, e, f, g, h])"

definition sha256 :: "string \<Rightarrow> string" where
  "sha256 m = sha_bytes (sha_blocks sha_init (be_words (sha_pad m)))"

section \<open>HMAC\<close>

definition xor_byte :: "nat \<Rightarrow> char \<Rightarrow> char" where
  "xor_byte n c = char_of ((of_char c :: nat) XOR n)"

definition hmac_key :: "string \<Rightarrow> string" where
  "hmac_key k = (let k' = (if length k > 64 then sha256 k else k)
                 in k' @ replicate (64 - length k') (char_of (0 :: nat)))"

definition hmac_sha256 :: "string \<Rightarrow> string \<Rightarrow> string" where
  "hmac_sha256 k m =
     sha256 (map (xor_byte 0x5c) (hmac_key k) @ sha256 (map (xor_byte 0x36) (hmac_key k) @ m))"

section \<open>Hexadecimal\<close>

definition hex_lower :: string where "hex_lower = ''0123456789abcdef''"
definition hex_upper :: string where "hex_upper = ''0123456789ABCDEF''"

definition byte_hi :: "char \<Rightarrow> nat" where "byte_hi c = of_char c div 16"
definition byte_lo :: "char \<Rightarrow> nat" where "byte_lo c = of_char c mod 16"

definition hex_encode :: "string \<Rightarrow> string" where
  "hex_encode s = concat (map (\<lambda>c. [hex_lower ! byte_hi c, hex_lower ! byte_lo c]) s)"

definition is_hex_lower :: "char \<Rightarrow> bool" where
  "is_hex_lower c \<longleftrightarrow> c \<in> set hex_lower"

section \<open>Lengths and alphabets\<close>

lemma length_be_bytes [simp]: "length (be_bytes k n) = k"
  by (induction k arbitrary: n) auto

lemma length_sha_bytes [simp]: "length (sha_bytes st) = 32"
  by (cases st) auto

lemma length_sha256 [simp]: "length (sha256 m) = 32"
  by (simp add: sha256_def)

lemma length_hmac_sha256 [simp]: "length (hmac_sha256 k m) = 32"
  by (simp add: hmac_sha256_def)

lemma length_hmac_key [simp]: "length (hmac_key k) = 64"
  by (simp add: hmac_key_def Let_def)

lemma byte_nibble_less [simp]: "byte_hi c < 16" "byte_lo c < 16"
proof -
  show "byte_hi c < 16"
    using nat_of_char_less_256 [of c] unfolding byte_hi_def by linarith
  show "byte_lo c < 16" by (simp add: byte_lo_def)
qed

lemma byte_of_nibbles [simp]: "char_of (16 * byte_hi c + byte_lo c) = c"
  by (simp add: byte_hi_def byte_lo_def)

lemma length_hex_encode [simp]: "length (hex_encode s) = 2 * length s"
  by (induction s) (auto simp: hex_encode_def)

lemma hex_lower_nth: "n < 16 \<Longrightarrow> is_hex_lower (hex_lower ! n)"
proof -
  assume "n < 16"
  then have "n < length hex_lower" by (simp add: hex_lower_def)
  then show ?thesis unfolding is_hex_lower_def by (rule nth_mem)
qed

lemma hex_encode_alphabet: "c \<in> set (hex_encode s) \<Longrightarrow> is_hex_lower c"
  by (auto simp: hex_encode_def hex_lower_nth)

lemma hex_nth_inj:
  assumes "n < 16" "m < 16"
  shows "hex_lower ! n = hex_lower ! m \<longleftrightarrow> n = m" and "hex_upper ! n = hex_upper ! m \<longleftrightarrow> n = m"
proof -
  have "distinct hex_lower" "distinct hex_upper" "length hex_lower = 16" "length hex_upper = 16"
    by (simp_all add: hex_lower_def hex_upper_def)
  with assms show "hex_lower ! n = hex_lower ! m \<longleftrightarrow> n = m"
    and "hex_upper ! n = hex_upper ! m \<longleftrightarrow> n = m"
    by (simp_all add: nth_eq_iff_index_eq)
qed

lemma nibbles_inj: "byte_hi c = byte_hi d \<Longrightarrow> byte_lo c = byte_lo d \<Longrightarrow> c = d"
  by (metis byte_of_nibbles)

lemma hex_encode_inj: "hex_encode s = hex_encode t \<longleftrightarrow> s = t"
proof (induction s arbitrary: t)
  case Nil
  then show ?case by (cases t) (auto simp: hex_encode_def)
next
  case (Cons c s)
  then show ?case
    by (cases t) (auto simp: hex_encode_def hex_nth_inj intro: nibbles_inj)
qed

end
