(* ===== verification/Naming.thy ===== *)
theory Naming
  imports Sha256
begin

text \<open>
  The object-key naming grammar, \<^verbatim>\<open>src/internal/formats/naming.go\<close>: the canonical path a
  name is derived from, the keyed leaf name, and the key composed from organization, install
  and source. The lemmas show that the segment escaping is injective, that a key determines
  the organization, install and source it was composed for, and that the subtrees two
  installs own are disjoint.
\<close>

section \<open>Go's path.Clean\<close>

text \<open>
  \<^verbatim>\<open>path.Clean\<close> of the standard library, on the elements of the path: empty and dot elements
  vanish, dot-dot removes the element before it, and at the root of a rooted path it vanishes.
\<close>

fun clean_step :: "bool \<Rightarrow> string list \<Rightarrow> string \<Rightarrow> string list" where
  "clean_step rooted stack seg =
     (if seg = [] \<or> seg = ''.'' then stack
      else if seg = ''..'' then
        (case stack of
           [] \<Rightarrow> (if rooted then [] else [''..''])
         | seg' # rest \<Rightarrow> (if seg' = ''..'' then ''..'' # stack else rest))
      else seg # stack)"

definition path_clean :: "string \<Rightarrow> string" where
  "path_clean p =
     (let rooted = prefix ''/'' p;
          body = join_with ''/'' (rev (foldl (clean_step rooted) [] (split_on CHR ''/'' p)));
          out = (if rooted then ''/'' @ body else body)
      in if out = [] then ''.'' else out)"

section \<open>The code\<close>

definition NameKeySize :: nat where "NameKeySize = 32"

definition mirrorDomain :: string where "mirrorDomain = ''mirror:''"

definition UserPlaceholder :: string where "UserPlaceholder = ''__USER__''"

definition isAlnum :: "char \<Rightarrow> bool" where
  "isAlnum c \<longleftrightarrow> is_lower c \<or> is_upper c \<or> is_digit c"

text \<open>The grammar \<^verbatim>\<open>^[a-z0-9][a-z0-9._-]{0,63}$\<close>.\<close>

definition ident_start :: "char \<Rightarrow> bool" where
  "ident_start c \<longleftrightarrow> is_lower c \<or> is_digit c"

definition ident_char :: "char \<Rightarrow> bool" where
  "ident_char c \<longleftrightarrow> is_lower c \<or> is_digit c \<or> c = CHR ''.'' \<or> c = CHR ''_'' \<or> c = CHR ''-''"

fun identifierRe :: "string \<Rightarrow> bool" where
  "identifierRe [] = False"
| "identifierRe (c # cs) = (ident_start c \<and> list_all ident_char cs \<and> length cs \<le> 63)"

definition checkSegment :: "string \<Rightarrow> string \<Rightarrow> goerr option" where
  "checkSegment kind v =
     (if identifierRe v then None
      else Some (new_error (''identity: '' @ kind @ '' segment '' @ quote v @ '' is not a legal key segment'')))"

text \<open>
  The loop of \<^verbatim>\<open>ApplyUserPlaceholder\<close>: \<open>prev\<close> is the byte before the index, \<open>s\<close> the
  rest of the string from it on. With a non-empty user name, \<open>drop (length u - 1) cs\<close> is the
  string from \<^verbatim>\<open>end\<close> on.
\<close>

function placeholder_loop :: "string \<Rightarrow> char option \<Rightarrow> string \<Rightarrow> string" where
  "placeholder_loop u prev [] = []"
| "placeholder_loop u prev (c # cs) =
     (let leftOK = (case prev of None \<Rightarrow> True | Some p \<Rightarrow> \<not> isAlnum p);
          rest = drop (length u - 1) cs;
          rightOK = (rest = [] \<or> \<not> isAlnum (hd rest))
      in if prefix u (c # cs) \<and> leftOK \<and> rightOK
         then UserPlaceholder @ placeholder_loop u (Some (last u)) rest
         else c # placeholder_loop u (Some c) cs)"
  by pat_completeness auto
termination
  by (relation "measure (\<lambda>(u, p, s). length s)") auto

definition ApplyUserPlaceholder :: "string \<Rightarrow> string \<Rightarrow> string" where
  "ApplyUserPlaceholder s username =
     (if length username < 2 \<or> s = [] then s else placeholder_loop username None s)"

definition unreserved :: "char \<Rightarrow> bool" where
  "unreserved c \<longleftrightarrow> isAlnum c \<or> c = CHR ''.'' \<or> c = CHR ''_'' \<or> c = CHR ''~'' \<or> c = CHR ''-''"

definition encodeByte :: "char \<Rightarrow> string" where
  "encodeByte c = (if unreserved c then [c]
                   else [CHR ''%'', hex_upper ! byte_hi c, hex_upper ! byte_lo c])"

definition encodeSegment :: "string \<Rightarrow> string" where
  "encodeSegment s = concat (map encodeByte s)"

definition CanonicalPath :: "string \<Rightarrow> string \<Rightarrow> string" where
  "CanonicalPath sourceRelPath username =
     (let p = path_clean (replace_char CHR 0x5C CHR ''/'' sourceRelPath);
          p = trim_prefix ''/'' p;
          p = (if p = ''.'' then [] else p);
          p = ApplyUserPlaceholder p username
      in join_with ''/'' (map encodeSegment (split_on CHR ''/'' p)))"

definition MirrorName :: "string \<Rightarrow> string \<Rightarrow> string" where
  "MirrorName nameKey canonicalPath = hex_encode (hmac_sha256 nameKey (mirrorDomain @ canonicalPath))"

definition InstallRoot :: "string \<Rightarrow> string \<Rightarrow> string result" where
  "InstallRoot org installID =
     (case checkSegment ''organization'' org of
        Some e \<Rightarrow> Inl e
      | None \<Rightarrow>
     (case checkSegment ''install'' installID of
        Some e \<Rightarrow> Inl e
      | None \<Rightarrow> Inr (''v1/organization='' @ org @ ''/install='' @ installID)))"

definition MirrorKey :: "string \<Rightarrow> string \<Rightarrow> string \<Rightarrow> string \<Rightarrow> string \<Rightarrow> string result" where
  "MirrorKey org installID sourceID nameKey canonicalPath =
     (case InstallRoot org installID of
        Inl e \<Rightarrow> Inl e
      | Inr root \<Rightarrow>
     (case checkSegment ''source'' sourceID of
        Some e \<Rightarrow> Inl e
      | None \<Rightarrow>
        if length nameKey \<noteq> NameKeySize
        then Inl (new_error (''identity: name_key is '' @ itoa (int (length nameKey)) @ '' bytes, want '' @ itoa (int NameKeySize)))
        else Inr (root @ ''/mirror/source='' @ sourceID @ ''/'' @ MirrorName nameKey canonicalPath @ ''.age'')))"

definition StateKey :: "string \<Rightarrow> string \<Rightarrow> string \<Rightarrow> string result" where
  "StateKey org installID name =
     (case InstallRoot org installID of
        Inl e \<Rightarrow> Inl e
      | Inr root \<Rightarrow>
        if name = [] \<or> CHR ''/'' \<in> set name
        then Inl (new_error (''identity: state object name '' @ quote name @ '' must be non-empty and contain no slash''))
        else Inr (root @ ''/state/'' @ name))"

fun username_scan :: "string list \<Rightarrow> string" where
  "username_scan (seg # nxt # rest) =
     (if seg = ''Users'' \<or> seg = ''home'' then nxt else username_scan (nxt # rest))"
| "username_scan _ = []"

definition UsernameFromPath :: "string \<Rightarrow> string" where
  "UsernameFromPath p = username_scan (split_on CHR ''/'' (replace_char CHR 0x5C CHR ''/'' p))"


section \<open>Escaping is injective\<close>

lemma unreserved_not_percent: "unreserved c \<Longrightarrow> c \<noteq> CHR ''%''"
  by (auto simp: unreserved_def isAlnum_def is_lower_def is_upper_def is_digit_def)

lemma unreserved_not_slash: "unreserved c \<Longrightarrow> c \<noteq> CHR ''/''"
  by (auto simp: unreserved_def isAlnum_def is_lower_def is_upper_def is_digit_def)

lemma hex_upper_unreserved: "n < 16 \<Longrightarrow> unreserved (hex_upper ! n)"
proof -
  assume "n < 16"
  then have "hex_upper ! n \<in> set hex_upper" by (intro nth_mem) (simp add: hex_upper_def)
  moreover have "\<forall>c \<in> set hex_upper. unreserved c"
    by (simp add: hex_upper_def unreserved_def isAlnum_def is_lower_def is_upper_def is_digit_def)
  ultimately show ?thesis by blast
qed

lemma encodeByte_append_inj:
  "encodeByte c @ s = encodeByte d @ t \<longleftrightarrow> c = d \<and> s = t"
  by (auto simp: encodeByte_def hex_nth_inj dest: unreserved_not_percent intro: nibbles_inj)

lemma encodeByte_nonempty [simp]: "encodeByte c \<noteq> []"
  by (simp add: encodeByte_def)

lemma encodeSegment_inj: "encodeSegment s = encodeSegment t \<longleftrightarrow> s = t"
proof (induction s arbitrary: t)
  case Nil
  then show ?case by (cases t) (auto simp: encodeSegment_def)
next
  case (Cons c s)
  then show ?case
    by (cases t) (auto simp: encodeSegment_def encodeByte_append_inj)
qed

lemma encodeSegment_alphabet:
  "c \<in> set (encodeSegment s) \<Longrightarrow> unreserved c \<or> c = CHR ''%''"
  by (auto simp: encodeSegment_def encodeByte_def hex_upper_unreserved split: if_splits)

lemma encodeSegment_no_slash: "CHR ''/'' \<notin> set (encodeSegment s)"
  using encodeSegment_alphabet [of "CHR ''/''" s] unreserved_not_slash by auto

text \<open>Two paths have one canonical form exactly when they agree before the escaping.\<close>

lemma join_encode_inj:
  "join_with ''/'' (map encodeSegment (split_on CHR ''/'' s)) =
   join_with ''/'' (map encodeSegment (split_on CHR ''/'' t)) \<longleftrightarrow> s = t"
proof -
  have "inj encodeSegment" by (auto simp: inj_def encodeSegment_inj)
  then show ?thesis
    by (auto dest!: join_with_inj simp: encodeSegment_no_slash inj_map_eq_map split_on_inj)
qed

section \<open>Identifiers\<close>

lemma checkSegment_None [simp]: "checkSegment k v = None \<longleftrightarrow> identifierRe v"
  by (simp add: checkSegment_def)

lemma identifierRe_nonempty: "identifierRe v \<Longrightarrow> v \<noteq> []"
  by (cases v) auto

lemma identifierRe_length: "identifierRe v \<Longrightarrow> length v \<le> 64"
  by (cases v) auto

lemma identifierRe_chars: "identifierRe v \<Longrightarrow> c \<in> set v \<Longrightarrow> ident_char c"
  by (cases v) (auto simp: ident_start_def ident_char_def list_all_iff)

lemma ident_char_simps [simp]:
  "\<not> ident_char CHR ''/''" "\<not> ident_char CHR ''=''" "\<not> ident_char CHR ''%''" "\<not> ident_char CHR 0x5C"
  by (auto simp: ident_char_def is_lower_def is_digit_def)

lemma identifierRe_no_sep:
  assumes "identifierRe v"
  shows "CHR ''/'' \<notin> set v" and "CHR ''='' \<notin> set v" and "CHR 0x5C \<notin> set v"
  using identifierRe_chars [OF assms] ident_char_simps by blast+

section \<open>Keys\<close>

lemma InstallRoot_Inr_iff:
  "InstallRoot org inst = Inr r \<longleftrightarrow>
     identifierRe org \<and> identifierRe inst \<and> r = ''v1/organization='' @ org @ ''/install='' @ inst"
  by (auto simp: InstallRoot_def checkSegment_def split: option.splits if_splits)

lemma MirrorName_length [simp]: "length (MirrorName nk p) = 64"
  by (simp add: MirrorName_def)

lemma MirrorName_alphabet: "c \<in> set (MirrorName nk p) \<Longrightarrow> is_hex_lower c"
  by (auto simp: MirrorName_def dest: hex_encode_alphabet)

lemma is_hex_lower_simps [simp]:
  "\<not> is_hex_lower CHR ''/''" "\<not> is_hex_lower CHR 0x5C" "\<not> is_hex_lower CHR ''.''"
  by (simp_all add: is_hex_lower_def hex_lower_def)

lemma MirrorName_no_slash [simp]: "CHR ''/'' \<notin> set (MirrorName nk p)"
  using MirrorName_alphabet by fastforce

lemma MirrorKey_Inr_iff:
  "MirrorKey org inst src nk p = Inr k \<longleftrightarrow>
     identifierRe org \<and> identifierRe inst \<and> identifierRe src \<and> length nk = NameKeySize \<and>
     k = ''v1/organization='' @ org @ ''/install='' @ inst @ ''/mirror/source='' @ src @ ''/''
           @ MirrorName nk p @ ''.age''"
  by (auto simp: MirrorKey_def InstallRoot_def checkSegment_def split: if_splits)

lemma StateKey_Inr_iff:
  "StateKey org inst name = Inr k \<longleftrightarrow>
     identifierRe org \<and> identifierRe inst \<and> name \<noteq> [] \<and> CHR ''/'' \<notin> set name \<and>
     k = ''v1/organization='' @ org @ ''/install='' @ inst @ ''/state/'' @ name"
  by (auto simp: StateKey_def InstallRoot_def checkSegment_def split: if_splits)

text \<open>The segments of a key, read back from it.\<close>

definition key_segments :: "string \<Rightarrow> string list" where
  "key_segments = split_on CHR ''/''"

lemmas segment_simps = key_segments_def split_on_append_sep split_on_none

lemma root_segments:
  assumes "InstallRoot org inst = Inr r"
  shows "key_segments (r @ ''/'' @ rest) =
    ''v1'' # (''organization='' @ org) # (''install='' @ inst) # key_segments rest"
proof -
  from assms have "CHR ''/'' \<notin> set org" "CHR ''/'' \<notin> set inst"
    and r: "r = ''v1/organization='' @ org @ ''/install='' @ inst"
    by (simp_all add: InstallRoot_Inr_iff identifierRe_no_sep)
  then show ?thesis unfolding r by (simp add: segment_simps)
qed

lemma MirrorKey_root:
  assumes "MirrorKey org inst src nk p = Inr k"
  shows "\<exists>r. InstallRoot org inst = Inr r \<and>
             k = r @ ''/'' @ ''mirror/source='' @ src @ ''/'' @ MirrorName nk p @ ''.age''"
  using assms by (auto simp: MirrorKey_Inr_iff InstallRoot_Inr_iff)

lemma MirrorKey_segments:
  assumes "MirrorKey org inst src nk p = Inr k"
  shows "key_segments k = [''v1'', ''organization='' @ org, ''install='' @ inst, ''mirror'',
                           ''source='' @ src, MirrorName nk p @ ''.age'']"
proof -
  from assms have "CHR ''/'' \<notin> set org" "CHR ''/'' \<notin> set inst" "CHR ''/'' \<notin> set src"
    and k: "k = ''v1/organization='' @ org @ ''/install='' @ inst @ ''/mirror/source='' @ src @ ''/''
                 @ MirrorName nk p @ ''.age''"
    by (simp_all add: MirrorKey_Inr_iff identifierRe_no_sep)
  then show ?thesis unfolding k by (simp add: segment_simps)
qed

text \<open>
  A key names its install: no key of the grammar can be read as another organization's,
  another install's or another source's.
\<close>

lemma MirrorKey_determines:
  assumes "MirrorKey org inst src nk p = Inr k" "MirrorKey org' inst' src' nk' p' = Inr k"
  shows "org = org' \<and> inst = inst' \<and> src = src' \<and> MirrorName nk p = MirrorName nk' p'"
  using MirrorKey_segments [OF assms(1)] MirrorKey_segments [OF assms(2)] by simp

lemma install_subtrees_disjoint:
  assumes "InstallRoot org inst = Inr r" "InstallRoot org' inst' = Inr r'"
    and "prefix (r @ ''/'') k" "prefix (r' @ ''/'') k"
  shows "org = org' \<and> inst = inst'"
proof -
  from assms(3) obtain a where a: "k = r @ ''/'' @ a" by (auto simp: prefix_def)
  from assms(4) obtain b where b: "k = r' @ ''/'' @ b" by (auto simp: prefix_def)
  from root_segments [OF assms(1), of a] root_segments [OF assms(2), of b] a b
  show ?thesis by simp
qed

lemma MirrorKey_in_root:
  assumes "MirrorKey org inst src nk p = Inr k"
  shows "\<exists>r. InstallRoot org inst = Inr r \<and> prefix (r @ ''/'') k"
  using MirrorKey_root [OF assms] by (auto simp: prefix_def)

lemma StateKey_in_root:
  assumes "StateKey org inst name = Inr k"
  shows "\<exists>r. InstallRoot org inst = Inr r \<and> prefix (r @ ''/'') k"
  using assms by (auto simp: StateKey_Inr_iff InstallRoot_Inr_iff prefix_def)

text \<open>The bytes of a key and its length.\<close>

lemma is_hex_lower_unreserved: "is_hex_lower c \<Longrightarrow> unreserved c"
proof -
  have "\<forall>c \<in> set hex_lower. unreserved c"
    by (simp add: hex_lower_def unreserved_def isAlnum_def is_lower_def is_upper_def is_digit_def)
  then show "is_hex_lower c \<Longrightarrow> unreserved c" by (simp add: is_hex_lower_def)
qed

lemma ident_char_unreserved: "ident_char c \<Longrightarrow> unreserved c"
  by (auto simp: ident_char_def unreserved_def isAlnum_def)

definition key_char :: "char \<Rightarrow> bool" where
  "key_char c \<longleftrightarrow> unreserved c \<or> c = CHR ''='' \<or> c = CHR ''/''"

lemma key_literals:
  "list_all key_char ''v1/organization=''" "list_all key_char ''/install=''"
  "list_all key_char ''/mirror/source=''" "list_all key_char ''/''" "list_all key_char ''.age''"
  by (simp_all add: key_char_def unreserved_def isAlnum_def is_lower_def is_upper_def is_digit_def)

lemma identifierRe_key_chars: "identifierRe v \<Longrightarrow> list_all key_char v"
  by (auto simp: list_all_iff key_char_def intro: ident_char_unreserved identifierRe_chars)

lemma MirrorName_key_chars: "list_all key_char (MirrorName nk p)"
  by (auto simp: list_all_iff key_char_def intro: is_hex_lower_unreserved MirrorName_alphabet)

lemma MirrorKey_alphabet:
  assumes "MirrorKey org inst src nk p = Inr k"
  shows "list_all key_char k"
  using assms unfolding MirrorKey_Inr_iff
  by (simp only: list_all_append key_literals identifierRe_key_chars MirrorName_key_chars)

lemma MirrorKey_length:
  assumes "MirrorKey org inst src nk p = Inr k"
  shows "length k \<le> 305"
  using assms identifierRe_length [of org] identifierRe_length [of inst] identifierRe_length [of src]
  by (auto simp: MirrorKey_Inr_iff)

end
