(* ===== verification/Ticket.thy ===== *)
theory Ticket
  imports Go_Map Naming
begin

text \<open>
  Local validation of an upload ticket, \<^verbatim>\<open>src/internal/upload/target.go\<close> and
  \<^verbatim>\<open>src/internal/upload/ticket.go\<close>: the machine owner's list of upload targets, and the checks
  that bind a presigned PUT to exactly the object this machine prepared. The standard library's
  \<^verbatim>\<open>url.Parse\<close> and the loopback test of \<^verbatim>\<open>net.ParseIP\<close> are arguments of the definitions
  that call them: a URL is the record of the components the code reads.
\<close>

section \<open>Targets\<close>

record URL =
  u_Scheme :: string
  u_Opaque :: string
  u_User :: bool
  u_Host :: string
  u_Hostname :: string
  u_Port :: string
  u_Path :: string
  u_EscapedPath :: string
  u_RawQuery :: string
  u_Fragment :: string
  u_RawFragment :: string

text \<open>\<^verbatim>\<open>Addressing\<close> is a string in the source; the last constructor is every other value.\<close>

datatype Addressing = VirtualHosted | PathStyle | AddressingUnpinned | AddressingOther string

record TargetSpec =
  ts_Origin :: string
  ts_Addressing :: Addressing
  ts_PathPrefix :: string
  ts_AllowLoopbackHTTP :: bool

record UploadTarget =
  tg_scheme :: string
  tg_host :: string
  tg_port :: string
  tg_addressing :: Addressing
  tg_pathPrefix :: string

definition effectivePort :: "URL \<Rightarrow> string" where
  "effectivePort u = (if u_Port u \<noteq> [] then u_Port u
                      else if to_lower (u_Scheme u) = ''http'' then ''80'' else ''443'')"

text \<open>\<^verbatim>\<open>net.JoinHostPort\<close>: an IPv6 host is bracketed.\<close>

definition JoinHostPort :: "string \<Rightarrow> string \<Rightarrow> string" where
  "JoinHostPort host port =
     (if CHR '':'' \<in> set host then ''['' @ host @ '']:'' @ port else host @ '':'' @ port)"

definition Origin :: "UploadTarget \<Rightarrow> string" where
  "Origin t = tg_scheme t @ ''://'' @ JoinHostPort (tg_host t) (tg_port t)"

definition originOf :: "URL \<Rightarrow> string" where
  "originOf u = to_lower (u_Scheme u) @ ''://'' @ JoinHostPort (to_lower (u_Hostname u)) (effectivePort u)"

definition matchesOrigin :: "UploadTarget \<Rightarrow> URL \<Rightarrow> bool" where
  "matchesOrigin t u \<longleftrightarrow> Origin t = originOf u"

definition isLoopbackHost :: "(string \<Rightarrow> bool) \<Rightarrow> string \<Rightarrow> bool" where
  "isLoopbackHost ipLoopback host \<longleftrightarrow> host = ''localhost'' \<or> ipLoopback host"

fun validateSegs :: "string list \<Rightarrow> goerr option" where
  "validateSegs [] = None"
| "validateSegs (seg # segs) =
     (if seg = [] then Some (new_error ''has an empty segment'')
      else if seg = ''.'' \<or> seg = ''..'' then Some (new_error ''has a dot segment'')
      else validateSegs segs)"

definition validateSegments :: "string \<Rightarrow> goerr option" where
  "validateSegments p = validateSegs (split_on CHR ''/'' p)"

definition hasDotSegment :: "string \<Rightarrow> bool" where
  "hasDotSegment escaped \<longleftrightarrow>
     ''.'' \<in> set (split_on CHR ''/'' escaped) \<or> ''..'' \<in> set (split_on CHR ''/'' escaped)"

definition canonByte :: "char \<Rightarrow> string" where
  "canonByte c = (if unreserved c \<or> c = CHR ''/'' then [c]
                  else [CHR ''%'', hex_upper ! byte_hi c, hex_upper ! byte_lo c])"

definition canonicalPath :: "string \<Rightarrow> string" where
  "canonicalPath key = concat (map canonByte key)"

definition validatePathPrefix :: "Addressing \<Rightarrow> string \<Rightarrow> string result" where
  "validatePathPrefix addressing pfx =
     (case addressing of
        VirtualHosted \<Rightarrow>
          if pfx \<noteq> [] then Inl (new_error (''upload: virtual-hosted target declares path prefix '' @ quote pfx))
          else Inr []
      | PathStyle \<Rightarrow>
          if \<not> prefix ''/'' pfx \<or> pfx = ''/''
          then Inl (new_error (''upload: path-style target needs a /bucket path prefix, got '' @ quote pfx))
          else if suffix ''/'' pfx
          then Inl (new_error (''upload: path prefix '' @ quote pfx @ '' ends in a slash''))
          else (let body = trim_prefix ''/'' pfx
                in case validateSegments body of
                     Some e \<Rightarrow> Inl (e\<lparr>err_msg := ''upload: path prefix: '' @ err_msg e\<rparr>)
                   | None \<Rightarrow> if canonicalPath body \<noteq> body
                             then Inl (new_error (''upload: path prefix '' @ quote pfx @ '' is not literal''))
                             else Inr pfx)
      | _ \<Rightarrow> Inl (new_error ''upload: unknown addressing form''))"

text \<open>\<open>parse\<close> is \<^verbatim>\<open>url.Parse\<close>; \<open>trim\<close> is \<^verbatim>\<open>strings.TrimSpace\<close>.\<close>

definition NewUploadTarget ::
  "(string \<Rightarrow> URL option) \<Rightarrow> (string \<Rightarrow> string) \<Rightarrow> (string \<Rightarrow> bool) \<Rightarrow> TargetSpec \<Rightarrow> UploadTarget result" where
  "NewUploadTarget parse trim ipLoopback spec =
     (let bad = (\<lambda>why. Inl (new_error (''upload: target origin '' @ quote (ts_Origin spec) @ why)))
      in case parse (trim (ts_Origin spec)) of
           None \<Rightarrow> bad '' does not parse''
         | Some u \<Rightarrow>
             if u_Opaque u \<noteq> [] then bad '' is opaque''
             else if u_Host u = [] then bad '' names no host''
             else if u_User u then bad '' carries user information''
             else if u_Fragment u \<noteq> [] then bad '' carries a fragment''
             else if u_RawQuery u \<noteq> [] then bad '' carries a query''
             else if u_Path u \<noteq> [] \<and> u_Path u \<noteq> ''/'' then bad '' carries a path''
             else
               (let host = to_lower (u_Hostname u); scheme = to_lower (u_Scheme u)
                in if CHR ''*'' \<in> set host then bad '' is a wildcard host''
                   else if scheme = ''http'' \<and> \<not> ts_AllowLoopbackHTTP spec
                     then bad '' is http and loopback development mode is off''
                   else if scheme = ''http'' \<and> \<not> isLoopbackHost ipLoopback host
                     then bad '' is http but not loopback''
                   else if scheme \<noteq> ''https'' \<and> scheme \<noteq> ''http'' then bad '' uses another scheme''
                   else (case validatePathPrefix (ts_Addressing spec) (ts_PathPrefix spec) of
                           Inl e \<Rightarrow> Inl e
                         | Inr pfx \<Rightarrow> Inr \<lparr>tg_scheme = scheme, tg_host = host, tg_port = effectivePort u,
                                         tg_addressing = ts_Addressing spec, tg_pathPrefix = pfx\<rparr>)))"

definition parseTicketURL :: "(string \<Rightarrow> URL option) \<Rightarrow> string \<Rightarrow> URL result" where
  "parseTicketURL parse raw =
     (case parse raw of
        None \<Rightarrow> Inl (new_error ''upload: ticket url does not parse'')
      | Some u \<Rightarrow>
          if u_Opaque u \<noteq> [] then Inl (new_error ''upload: ticket url is opaque'')
          else if u_Host u = [] then Inl (new_error ''upload: ticket url names no host'')
          else if u_User u then Inl (new_error ''upload: ticket url carries user information'')
          else if u_Fragment u \<noteq> [] \<or> u_RawFragment u \<noteq> []
            then Inl (new_error ''upload: ticket url carries a fragment'')
          else if u_Scheme u \<noteq> ''https'' \<and> u_Scheme u \<noteq> ''http''
            then Inl (new_error (''upload: ticket url uses scheme '' @ quote (u_Scheme u)))
          else Inr u)"

definition unpinnedTarget :: "URL \<Rightarrow> UploadTarget result" where
  "unpinnedTarget u =
     (if u_Scheme u \<noteq> ''https''
      then Inl (new_error ''upload: ticket url is http and no upload targets are configured'')
      else Inr \<lparr>tg_scheme = ''https'', tg_host = to_lower (u_Hostname u), tg_port = effectivePort u,
                tg_addressing = AddressingUnpinned, tg_pathPrefix = []\<rparr>)"

definition match_target :: "(string \<Rightarrow> URL option) \<Rightarrow> UploadTarget list \<Rightarrow> string \<Rightarrow> (UploadTarget \<times> URL) result" where
  "match_target parse l rawURL =
     (case parseTicketURL parse rawURL of
        Inl e \<Rightarrow> Inl e
      | Inr u \<Rightarrow>
          if l = [] then (case unpinnedTarget u of Inl e \<Rightarrow> Inl e | Inr t \<Rightarrow> Inr (t, u))
          else (case find (\<lambda>t. matchesOrigin t u) l of
                  Some t \<Rightarrow> Inr (t, u)
                | None \<Rightarrow> Inl (err_of_sentinel ErrNoTarget
                     (''upload: ticket origin is not an allowed upload target: '' @ originOf u))))"

section \<open>Tickets\<close>

record headerDialect =
  hd_metadataPrefix :: string
  hd_sourceHash :: string
  hd_ticketID :: string
  hd_tagging :: string
  hd_azure :: bool

definition headerDialects :: "headerDialect list" where
  "headerDialects = [
    \<lparr>hd_metadataPrefix = ''x-amz-meta-'', hd_sourceHash = ''x-amz-meta-source-hash'',
     hd_ticketID = ''x-amz-meta-ticket-id'', hd_tagging = ''x-amz-tagging'', hd_azure = False\<rparr>,
    \<lparr>hd_metadataPrefix = ''x-goog-meta-'', hd_sourceHash = ''x-goog-meta-source-hash'',
     hd_ticketID = ''x-goog-meta-ticket-id'', hd_tagging = [], hd_azure = False\<rparr>,
    \<lparr>hd_metadataPrefix = ''x-ms-meta-'', hd_sourceHash = ''x-ms-meta-source_hash'',
     hd_ticketID = ''x-ms-meta-ticket_id'', hd_tagging = ''x-ms-tags'', hd_azure = True\<rparr>]"

definition MetadataNames :: "string list" where
  "MetadataNames = [''manifest-version'', ''source-id'', ''shipped-hash'', ''artifact-class'',
     ''agent-version'', ''shape-sniff'', ''derived'', ''enrich-status'', ''kind'']"

definition taggingValues :: "string list" where
  "taggingValues = [''class=trajectory'', ''class=context'']"

definition maxKeyLength :: nat where "maxKeyLength = 1024"

record PreparedUpload =
  pu_ObjectID :: string
  pu_Key :: string
  pu_Body :: string
  pu_SourceHash :: string
  pu_Metadata :: "(string, string) gomap"

record Ticket =
  tk_TicketID :: string
  tk_ObjectID :: string
  tk_Method :: string
  tk_URL :: string
  tk_ExpiresAt :: gotime
  tk_RequiredHeaders :: "(string, string) gomap"
  tk_ContentLength :: int
  tk_ContentLengthSigned :: bool

definition is_control :: "char \<Rightarrow> bool" where
  "is_control c \<longleftrightarrow> (of_char c :: nat) < 32 \<or> (of_char c :: nat) = 127"

definition validateKey :: "string \<Rightarrow> goerr option" where
  "validateKey key =
     (if key = [] then Some (new_error ''key is empty'')
      else if length key > maxKeyLength
        then Some (new_error (''key is '' @ itoa (int (length key)) @ '' bytes, over the ceiling''))
      else if prefix ''/'' key \<or> suffix ''/'' key then Some (new_error ''key starts or ends with a slash'')
      else if CHR 0x5C \<in> set key then Some (new_error ''key contains a backslash'')
      else if list_ex is_control key then Some (new_error ''key contains a control byte'')
      else validateSegments key)"

definition validatePath :: "UploadTarget \<Rightarrow> PreparedUpload \<Rightarrow> string \<Rightarrow> goerr option" where
  "validatePath target prepared escaped =
     (case validateKey (pu_Key prepared) of
        Some e \<Rightarrow> Some (e\<lparr>err_msg := ''upload: prepared object '' @ quote (pu_ObjectID prepared) @ '': '' @ err_msg e\<rparr>)
      | None \<Rightarrow>
          (let lower = to_lower escaped;
               refuse = (\<lambda>why. Some (new_error (''upload: ticket path for object '' @ quote (pu_ObjectID prepared) @ why)));
               want = tg_pathPrefix target @ ''/'' @ canonicalPath (pu_Key prepared)
           in if sublist ''//'' escaped then refuse '' has an empty segment''
              else if hasDotSegment escaped then refuse '' has a dot segment''
              else if sublist ''%2f'' lower then refuse '' encodes a slash''
              else if sublist ''%5c'' lower then refuse '' encodes a backslash''
              else (case tg_addressing target of
                      AddressingUnpinned \<Rightarrow>
                        (case cut_suffix escaped want of
                           None \<Rightarrow> refuse '' does not name the prepared key''
                         | Some bucket \<Rightarrow>
                             if count_list bucket CHR ''/'' > 1 then refuse '' does not name the prepared key'' else None)
                    | AddressingOther a \<Rightarrow> Some (new_error ''upload: target declares unknown addressing'')
                    | _ \<Rightarrow> if escaped \<noteq> want then refuse '' does not name the prepared key'' else None)))"

definition metadataHeader :: "headerDialect \<Rightarrow> string \<Rightarrow> string" where
  "metadataHeader d name =
     hd_metadataPrefix d @ (if hd_azure d then replace_char CHR ''-'' CHR ''_'' name else name)"

definition metadataName :: "headerDialect \<Rightarrow> string \<Rightarrow> string" where
  "metadataName d header =
     (let name = trim_prefix (hd_metadataPrefix d) header
      in if hd_azure d then replace_char CHR ''_'' CHR ''-'' name else name)"

definition ticketHeaderDialect :: "(string, string) gomap \<Rightarrow> headerDialect result" where
  "ticketHeaderDialect headers =
     (case filter (\<lambda>d. map_get headers (hd_sourceHash d) \<noteq> None) headerDialects of
        [] \<Rightarrow> Inl (new_error ''carries no recognized source-hash header'')
      | [d] \<Rightarrow> Inr d
      | _ \<Rightarrow> Inl (new_error ''mixes provider header dialects''))"

text \<open>A range loop that returns at the first entry with an error.\<close>

fun first_err :: "('a \<Rightarrow> goerr option) \<Rightarrow> 'a list \<Rightarrow> goerr option" where
  "first_err f [] = None"
| "first_err f (x # xs) = (case f x of Some e \<Rightarrow> Some e | None \<Rightarrow> first_err f xs)"

definition checkDeclared ::
  "headerDialect \<Rightarrow> (string, string) gomap \<Rightarrow> string \<times> string \<Rightarrow> goerr option" where
  "checkDeclared d h = (\<lambda>(name, want).
     if name \<notin> set MetadataNames then Some (new_error (''upload: prepared object declares metadata '' @ quote name @ '' outside the closed set''))
     else (case map_get h (metadataHeader d name) of
             None \<Rightarrow> Some (new_error (''upload: ticket requires no '' @ metadataHeader d name @ '' header''))
           | Some got \<Rightarrow> if got \<noteq> want then Some (new_error (''upload: ticket requires '' @ metadataHeader d name @ ''='' @ quote got)) else None))"

definition checkRequired ::
  "headerDialect \<Rightarrow> (string, string) gomap \<Rightarrow> string \<times> string \<Rightarrow> goerr option" where
  "checkRequired d metadata = (\<lambda>(name, got).
     if got = [] then Some (new_error (''upload: ticket requires header '' @ quote name @ '' with an empty value''))
     else if name = hd_sourceHash d \<or> name = hd_ticketID d then None
     else if name = hd_tagging d \<and> hd_tagging d \<noteq> [] then
       (if got \<in> set taggingValues then None else Some (new_error (''upload: ticket requires tag '' @ quote got)))
     else if hd_azure d \<and> name = ''x-ms-blob-type'' then None
     else if prefix (hd_metadataPrefix d) name \<and> metadataName d name \<in> set MetadataNames then
       (if (case map_get metadata (metadataName d name) of None \<Rightarrow> [] | Some v \<Rightarrow> v) \<noteq> got
        then Some (new_error (''upload: ticket requires '' @ name @ '' which the prepared object did not declare''))
        else None)
     else Some (new_error (''upload: ticket requires header '' @ quote name @ '' outside the closed provider set'')))"

definition validateHeaders :: "PreparedUpload \<Rightarrow> Ticket \<Rightarrow> goerr option" where
  "validateHeaders prepared ticket =
     (let h = tk_RequiredHeaders ticket
      in case ticketHeaderDialect h of
           Inl e \<Rightarrow> Some e
         | Inr d \<Rightarrow>
             if pu_SourceHash prepared = [] then Some (new_error ''upload: prepared object carries no source hash'')
             else if tk_TicketID ticket = [] then Some (new_error ''upload: ticket carries no ticket id'')
             else if map_get h (hd_sourceHash d) = None then Some (new_error ''upload: ticket requires no source-hash header'')
             else if map_get h (hd_sourceHash d) \<noteq> Some (pu_SourceHash prepared)
               then Some (new_error ''upload: ticket requires another source hash'')
             else if map_get h (hd_ticketID d) = None then Some (new_error ''upload: ticket requires no ticket-id header'')
             else if map_get h (hd_ticketID d) \<noteq> Some (tk_TicketID ticket)
               then Some (new_error ''upload: ticket requires another ticket-id header'')
             else (case first_err (checkDeclared d h) (pu_Metadata prepared) of
                     Some e \<Rightarrow> Some e
                   | None \<Rightarrow>
                       if hd_azure d \<and> map_get h ''x-ms-blob-type'' \<noteq> Some ''BlockBlob''
                       then Some (new_error ''upload: ticket does not require x-ms-blob-type=BlockBlob'')
                       else first_err (checkRequired d (pu_Metadata prepared)) h))"

definition ValidateTicket ::
  "(string \<Rightarrow> URL option) \<Rightarrow> UploadTarget list \<Rightarrow> PreparedUpload \<Rightarrow> Ticket \<Rightarrow> goerr option" where
  "ValidateTicket parse targets prepared ticket =
     (case match_target parse targets (tk_URL ticket) of
        Inl e \<Rightarrow> Some e
      | Inr (target, u) \<Rightarrow>
          if pu_ObjectID prepared = [] then Some (new_error ''upload: prepared object carries no object id'')
          else if tk_ObjectID ticket \<noteq> pu_ObjectID prepared
            then Some (new_error (''upload: ticket names object '' @ quote (tk_ObjectID ticket)))
          else if tk_Method ticket \<noteq> ''PUT''
            then Some (new_error (''upload: ticket authorizes method '' @ quote (tk_Method ticket)))
          else if tk_ContentLength ticket \<noteq> int (length (pu_Body prepared))
            then Some (new_error (''upload: ticket authorizes '' @ itoa (tk_ContentLength ticket) @ '' bytes''))
          else if \<not> tk_ContentLengthSigned ticket
            then Some (new_error ''upload: ticket does not sign its content length'')
          else (case validatePath target prepared (u_EscapedPath u) of
                  Some e \<Rightarrow> Some e
                | None \<Rightarrow> validateHeaders prepared ticket))"


section \<open>The escaped path names one key\<close>

lemma canonByte_append_inj: "canonByte c @ s = canonByte d @ t \<longleftrightarrow> c = d \<and> s = t"
  by (auto simp: canonByte_def hex_nth_inj dest: unreserved_not_percent intro: nibbles_inj)

lemma canonicalPath_simps [simp]:
  "canonicalPath [] = []" "canonicalPath (c # s) = canonByte c @ canonicalPath s"
  "canonicalPath (s @ t) = canonicalPath s @ canonicalPath t"
  by (simp_all add: canonicalPath_def)

lemma canonByte_nonempty [simp]: "canonByte c \<noteq> []"
  by (simp add: canonByte_def)

lemma canonicalPath_Nil_iff [simp]: "canonicalPath s = [] \<longleftrightarrow> s = []"
  by (cases s) auto

lemma canonicalPath_inj: "canonicalPath s = canonicalPath t \<longleftrightarrow> s = t"
proof (induction s arbitrary: t)
  case Nil
  then show ?case by (cases t) auto
next
  case (Cons c s)
  then show ?case by (cases t) (auto simp: canonByte_append_inj)
qed

lemma canonByte_no_slash: "c \<noteq> CHR ''/'' \<Longrightarrow> CHR ''/'' \<notin> set (canonByte c)"
  by (auto simp: canonByte_def dest!: unreserved_not_slash hex_upper_unreserved)
     (metis byte_nibble_less hex_upper_unreserved unreserved_not_slash)+

lemma split_on_prepend:
  assumes "c \<notin> set a"
  shows "split_on c (a @ s) = (case split_on c s of [] \<Rightarrow> [a] | p # ps \<Rightarrow> (a @ p) # ps)"
  using assms by (induction a) (auto split: list.splits)

text \<open>Escaping keeps the segments apart: it acts on each of them.\<close>

lemma split_canonicalPath:
  "split_on CHR ''/'' (canonicalPath s) = map canonicalPath (split_on CHR ''/'' s)"
proof (induction s)
  case (Cons c s)
  show ?case
  proof (cases "c = CHR ''/''")
    case True
    with Cons show ?thesis by (simp add: canonByte_def)
  next
    case False
    obtain p ps where "split_on CHR ''/'' s = p # ps" using split_on_exhaust by blast
    with Cons False canonByte_no_slash [OF False] show ?thesis
      by (simp add: split_on_prepend)
  qed
qed simp

lemma canonicalPath_literal_iff:
  "canonicalPath s = s \<longleftrightarrow> list_all (\<lambda>c. unreserved c \<or> c = CHR ''/'') s"
proof -
  have le: "length s \<le> length (canonicalPath s)" for s
    by (induction s) (auto simp: canonByte_def)
  show ?thesis
  proof (induction s)
    case (Cons c s)
    then show ?case using le [of s] by (auto simp: canonByte_def dest: arg_cong [where f = length])
  qed simp
qed

section \<open>What an accepted ticket says\<close>

lemma first_err_None_iff: "first_err f xs = None \<longleftrightarrow> (\<forall>x \<in> set xs. f x = None)"
  by (induction xs) (auto split: option.splits)

lemma ValidateTicket_None:
  assumes "ValidateTicket parse targets p t = None"
  obtains target u where "match_target parse targets (tk_URL t) = Inr (target, u)"
    and "tk_ObjectID t = pu_ObjectID p" and "tk_Method t = ''PUT''"
    and "tk_ContentLength t = int (length (pu_Body p))" and "tk_ContentLengthSigned t"
    and "validatePath target p (u_EscapedPath u) = None" and "validateHeaders p t = None"
  using assms
  by (auto simp: ValidateTicket_def split: sum.splits prod.splits if_splits option.splits)

lemma validatePath_None:
  assumes "validatePath target p escaped = None"
  shows "validateKey (pu_Key p) = None \<and>
         (tg_addressing target \<in> {VirtualHosted, PathStyle} \<and>
            escaped = tg_pathPrefix target @ ''/'' @ canonicalPath (pu_Key p) \<or>
          tg_addressing target = AddressingUnpinned \<and>
            (\<exists>bucket. escaped = bucket @ tg_pathPrefix target @ ''/'' @ canonicalPath (pu_Key p) \<and>
                      count_list bucket CHR ''/'' \<le> 1))"
  using assms
  by (auto simp: validatePath_def Let_def cut_suffix_Some_iff
           split: option.splits if_splits Addressing.splits)

lemma match_target_Inr:
  assumes "match_target parse targets raw = Inr (target, u)"
  shows "parseTicketURL parse raw = Inr u \<and>
         (if targets = [] then unpinnedTarget u = Inr target
          else target \<in> set targets \<and> Origin target = originOf u)"
  using assms
  by (auto simp: match_target_def matchesOrigin_def find_Some_iff
           split: sum.splits if_splits option.splits)

lemma match_target_addressing:
  assumes "match_target parse targets raw = Inr (target, u)"
    and "\<forall>t \<in> set targets. tg_addressing t \<in> {VirtualHosted, PathStyle}" "targets \<noteq> []"
  shows "tg_addressing target \<in> {VirtualHosted, PathStyle}"
  using match_target_Inr [OF assms(1)] assms(2,3) by auto


section \<open>Every key of the grammar is accepted at its own path\<close>

text \<open>Every percent sign is followed by a 3: the only byte of a key that is escaped is the equals sign.\<close>

fun percent3 :: "string \<Rightarrow> bool" where
  "percent3 [] = True"
| "percent3 (c # cs) = ((c = CHR ''%'' \<longrightarrow> (case cs of [] \<Rightarrow> False | d # _ \<Rightarrow> d = CHR ''3'')) \<and> percent3 cs)"

lemma percent3_append: "percent3 a \<Longrightarrow> percent3 b \<Longrightarrow> percent3 (a @ b)"
  by (induction a) (auto split: list.splits)

lemma to_lower_char_simps [simp]:
  "to_lower_char c = CHR ''%'' \<longleftrightarrow> c = CHR ''%''" "CHR ''%'' = to_lower_char c \<longleftrightarrow> c = CHR ''%''"
  "to_lower_char CHR ''3'' = CHR ''3''"
proof -
  have "to_lower_char c = CHR ''%'' \<Longrightarrow> c = CHR ''%''"
  proof -
    assume a: "to_lower_char c = CHR ''%''"
    show ?thesis
    proof (cases "CHR ''A'' \<le> c \<and> c \<le> CHR ''Z''")
      case True
      then have r: "65 \<le> (of_char c :: nat)" "(of_char c :: nat) \<le> 90" by (simp_all add: less_eq_char_def)
      from a True have "char_of (of_char c + 32 :: nat) = CHR ''%''" by (simp add: to_lower_char_def)
      then have "of_char (char_of (of_char c + 32 :: nat)) = (of_char (CHR ''%'') :: nat)" by simp
      with r show ?thesis by simp
    next
      case False
      with a show ?thesis by (simp add: to_lower_char_def)
    qed
  qed
  then show "to_lower_char c = CHR ''%'' \<longleftrightarrow> c = CHR ''%''"
    by (auto simp: to_lower_char_def less_eq_char_def)
  then show "CHR ''%'' = to_lower_char c \<longleftrightarrow> c = CHR ''%''" by auto
  show "to_lower_char CHR ''3'' = CHR ''3''" by (simp add: to_lower_char_def less_eq_char_def)
qed

lemma percent3_no_escape:
  "percent3 s \<Longrightarrow> d \<noteq> CHR ''3'' \<Longrightarrow> \<not> sublist [CHR ''%'', d, e] (to_lower s)"
proof (induction s)
  case (Cons c cs)
  then show ?case
    by (cases cs) (auto simp: to_lower_def sublist_Cons_right)
qed (simp add: to_lower_def)

lemma percent3_literal: "list_all (\<lambda>c. unreserved c \<or> c = CHR ''/'') s \<Longrightarrow> percent3 s"
  by (induction s) (auto dest: unreserved_not_percent)

lemma percent3_canonicalPath: "list_all key_char k \<Longrightarrow> percent3 (canonicalPath k)"
proof (induction k)
  case (Cons c k)
  have "percent3 (canonByte c)"
  proof (cases "unreserved c \<or> c = CHR ''/''")
    case True
    then show ?thesis by (auto simp: canonByte_def dest: unreserved_not_percent)
  next
    case False
    with Cons.prems have c: "c = CHR ''=''" by (simp add: key_char_def)
    show ?thesis unfolding c
      by (simp add: canonByte_def byte_hi_def byte_lo_def hex_upper_def unreserved_def isAlnum_def
          is_lower_def is_upper_def is_digit_def less_eq_char_def)
  qed
  with Cons show ?case by (simp add: percent3_append)
qed simp

lemma key_char_range: "key_char c \<Longrightarrow> 45 \<le> (of_char c :: nat) \<and> (of_char c :: nat) \<le> 126"
  by (auto simp: key_char_def unreserved_def isAlnum_def is_lower_def is_upper_def is_digit_def
      less_eq_char_def)

lemma MirrorKey_valid:
  assumes "MirrorKey org inst src nk p = Inr k"
  shows "validateKey k = None"
proof -
  let ?segs = "[''v1'', ''organization='' @ org, ''install='' @ inst, ''mirror'',
                ''source='' @ src, MirrorName nk p @ ''.age'']"
  have segs: "split_on CHR ''/'' k = ?segs"
    using MirrorKey_segments [OF assms] by (simp add: key_segments_def)
  have name: "MirrorName nk p \<noteq> []" using MirrorName_length [of nk p] by force
  have vs: "validateSegments k = None" by (simp add: validateSegments_def segs name)
  have chars: "list_all key_char k" by (rule MirrorKey_alphabet [OF assms])
  have noctl: "\<not> key_char c" if "is_control c" for c
    using that key_char_range [of c] by (auto simp: is_control_def)
  have "\<not> list_ex is_control k" "CHR 0x5C \<notin> set k"
    using chars noctl by (auto simp: list_all_iff list_ex_iff key_char_def unreserved_def isAlnum_def
        is_lower_def is_upper_def is_digit_def less_eq_char_def)
  moreover have "\<not> prefix ''/'' k" "k \<noteq> []" "\<not> suffix ''/'' k" "length k \<le> maxKeyLength"
    using assms MirrorKey_length [OF assms]
    by (auto simp: MirrorKey_Inr_iff maxKeyLength_def suffix_def append_eq_append_conv2
             append_eq_Cons_conv Cons_eq_append_conv)
  ultimately show ?thesis using vs by (simp add: validateKey_def)
qed


lemma validateSegs_None_iff:
  "validateSegs segs = None \<longleftrightarrow> (\<forall>s \<in> set segs. s \<noteq> [] \<and> s \<noteq> ''.'' \<and> s \<noteq> ''..'')"
  by (induction segs) auto

lemma canonicalPath_dots: "canonicalPath s = ''.'' \<longleftrightarrow> s = ''.''" "canonicalPath s = ''..'' \<longleftrightarrow> s = ''..''"
proof -
  have "canonicalPath ''.'' = ''.''" "canonicalPath ''..'' = ''..''"
    by (simp_all add: canonByte_def unreserved_def)
  then show "canonicalPath s = ''.'' \<longleftrightarrow> s = ''.''" "canonicalPath s = ''..'' \<longleftrightarrow> s = ''..''"
    by (metis canonicalPath_inj)+
qed

lemma validatePathPrefix_Inr:
  assumes "validatePathPrefix a q = Inr pfx"
  shows "a \<in> {VirtualHosted, PathStyle}"
    and "list_all (\<lambda>c. unreserved c \<or> c = CHR ''/'') pfx"
    and "pfx = [] \<or> (\<exists>b. pfx = CHR ''/'' # b \<and> validateSegments b = None)"
  using assms
  by (auto simp: validatePathPrefix_def Let_def canonicalPath_literal_iff trim_prefix_def
           split: Addressing.splits if_splits option.splits elim!: prefixE)

text \<open>The segments of the path a pinned target wants for a key.\<close>

lemma wanted_segments:
  assumes "validatePathPrefix a q = Inr pfx" "validateSegments k = None"
  shows "\<exists>segs. split_on CHR ''/'' (pfx @ ''/'' @ canonicalPath k) = [] # segs \<and>
                (\<forall>s \<in> set segs. s \<noteq> [] \<and> s \<noteq> ''.'' \<and> s \<noteq> ''..'')"
proof -
  let ?ks = "map canonicalPath (split_on CHR ''/'' k)"
  have ks: "\<forall>s \<in> set ?ks. s \<noteq> [] \<and> s \<noteq> ''.'' \<and> s \<noteq> ''..''"
    using assms(2) by (auto simp: validateSegments_def validateSegs_None_iff canonicalPath_dots)
  have split: "split_on CHR ''/'' (pfx @ ''/'' @ canonicalPath k) = split_on CHR ''/'' pfx @ ?ks"
    using split_on_append [of "CHR ''/''" pfx "canonicalPath k"] by (simp add: split_canonicalPath)
  from validatePathPrefix_Inr(3) [OF assms(1)] show ?thesis
  proof
    assume "pfx = []"
    then show ?thesis using split ks by simp
  next
    assume "\<exists>b. pfx = CHR ''/'' # b \<and> validateSegments b = None"
    then obtain b where b: "pfx = CHR ''/'' # b" "validateSegments b = None" by blast
    then have "split_on CHR ''/'' pfx = [] # split_on CHR ''/'' b" by simp
    moreover have "\<forall>s \<in> set (split_on CHR ''/'' b). s \<noteq> [] \<and> s \<noteq> ''.'' \<and> s \<noteq> ''..''"
      using b(2) by (simp add: validateSegments_def validateSegs_None_iff)
    ultimately show ?thesis
      using split ks by (intro exI [of _ "split_on CHR ''/'' b @ ?ks"]) (simp add: ball_Un)
  qed
qed

lemma wanted_not_refused:
  assumes "MirrorKey org inst src nk c = Inr k" "validatePathPrefix a q = Inr pfx"
  shows "\<not> sublist ''//'' (pfx @ ''/'' @ canonicalPath k)" "\<not> hasDotSegment (pfx @ ''/'' @ canonicalPath k)"
    "\<not> sublist ''%2f'' (to_lower (pfx @ ''/'' @ canonicalPath k))"
    "\<not> sublist ''%5c'' (to_lower (pfx @ ''/'' @ canonicalPath k))"
proof -
  let ?e = "pfx @ ''/'' @ canonicalPath k"
  have "validateSegments k = None"
    using MirrorKey_valid [OF assms(1)] by (auto simp: validateKey_def split: if_splits)
  from wanted_segments [OF assms(2) this] obtain segs
    where segs: "split_on CHR ''/'' ?e = [] # segs"
      and ok: "\<forall>s \<in> set segs. s \<noteq> [] \<and> s \<noteq> ''.'' \<and> s \<noteq> ''..''" by blast
  show "\<not> sublist ''//'' ?e" using no_double_sep [of "CHR ''/''" ?e] segs ok by simp
  show "\<not> hasDotSegment ?e" using segs ok by (auto simp: hasDotSegment_def)
  have "percent3 ?e"
    using percent3_literal [OF validatePathPrefix_Inr(2) [OF assms(2)]]
      percent3_canonicalPath [OF MirrorKey_alphabet [OF assms(1)]] by (simp add: percent3_append)
  then show "\<not> sublist ''%2f'' (to_lower ?e)" "\<not> sublist ''%5c'' (to_lower ?e)"
    by (simp_all add: percent3_no_escape)
qed

section \<open>A concrete ticket\<close>

definition demo_name_key :: string where "demo_name_key = replicate 32 CHR ''k''"

definition demo_mirror_key :: string where
  "demo_mirror_key = ''v1/organization=acme/install=i1/mirror/source=codex/''
     @ MirrorName demo_name_key ''a'' @ ''.age''"

lemma demo_MirrorKey: "MirrorKey ''acme'' ''i1'' ''codex'' demo_name_key ''a'' = Inr demo_mirror_key"
  by (simp add: MirrorKey_Inr_iff demo_mirror_key_def demo_name_key_def NameKeySize_def
      ident_start_def ident_char_def is_lower_def is_digit_def less_eq_char_def)

definition demo_parse :: "string \<Rightarrow> URL option" where
  "demo_parse raw = Some \<lparr>u_Scheme = ''https'', u_Opaque = [], u_User = False, u_Host = ''s3'',
     u_Hostname = ''s3'', u_Port = [], u_Path = raw, u_EscapedPath = raw, u_RawQuery = [],
     u_Fragment = [], u_RawFragment = []\<rparr>"

definition demo_prepared :: PreparedUpload where
  "demo_prepared = \<lparr>pu_ObjectID = ''0'', pu_Key = demo_mirror_key, pu_Body = ''xy'',
     pu_SourceHash = ''h'', pu_Metadata = [(''kind'', ''raw'')]\<rparr>"

definition demo_target :: UploadTarget where
  "demo_target = \<lparr>tg_scheme = ''https'', tg_host = ''s3'', tg_port = ''443'',
     tg_addressing = VirtualHosted, tg_pathPrefix = []\<rparr>"

definition demo_ticket :: Ticket where
  "demo_ticket = \<lparr>tk_TicketID = ''t'', tk_ObjectID = ''0'', tk_Method = ''PUT'',
     tk_URL = ''/'' @ canonicalPath demo_mirror_key, tk_ExpiresAt = 0,
     tk_RequiredHeaders = [(''x-amz-meta-source-hash'', ''h''), (''x-amz-meta-ticket-id'', ''t''),
       (''x-amz-meta-kind'', ''raw'')],
     tk_ContentLength = 2, tk_ContentLengthSigned = True\<rparr>"

lemma demo_headers: "validateHeaders demo_prepared demo_ticket = None"
  by (simp add: validateHeaders_def demo_prepared_def demo_ticket_def ticketHeaderDialect_def
      headerDialects_def map_get_def checkDeclared_def checkRequired_def metadataHeader_def metadataName_def
      MetadataNames_def trim_prefix_def Let_def)

lemma demo_wanted:
  "\<not> sublist ''//'' (''/'' @ canonicalPath demo_mirror_key)" "\<not> hasDotSegment (''/'' @ canonicalPath demo_mirror_key)"
  "\<not> sublist ''%2f'' (to_lower (''/'' @ canonicalPath demo_mirror_key))"
  "\<not> sublist ''%5c'' (to_lower (''/'' @ canonicalPath demo_mirror_key))"
  using wanted_not_refused [OF demo_MirrorKey, of VirtualHosted "[]" "[]"]
  by (simp_all add: validatePathPrefix_def)

lemma demo_path:
  "validatePath \<lparr>tg_scheme = s, tg_host = h, tg_port = q, tg_addressing = AddressingUnpinned, tg_pathPrefix = []\<rparr>
     demo_prepared (''/'' @ canonicalPath demo_mirror_key) = None"
  "validatePath demo_target demo_prepared (''/'' @ canonicalPath demo_mirror_key) = None"
  using demo_wanted MirrorKey_valid [OF demo_MirrorKey]
  by (simp_all add: validatePath_def Let_def demo_prepared_def demo_target_def cut_suffix_def)

lemma demo_validate:
  "ValidateTicket demo_parse [] demo_prepared demo_ticket = None"
  "ValidateTicket demo_parse [demo_target] demo_prepared demo_ticket = None"
  using demo_headers demo_path
  by (simp_all add: ValidateTicket_def match_target_def parseTicketURL_def demo_parse_def unpinnedTarget_def
      demo_ticket_def demo_prepared_def matchesOrigin_def Origin_def originOf_def demo_target_def
      effectivePort_def to_lower_def to_lower_char_def less_eq_char_def)

section \<open>Properties\<close>

text \<open>C24: an accepted ticket binds the upload to the prepared object: it is a PUT whose signed
  length is the body's, it names the object, its URL is at an origin the machine owner listed
  (or, with nothing listed, an https origin), and the path is exactly the escaped key below the
  target's prefix, or, with nothing listed, below at most one bucket segment.\<close>

theorem accepted_ticket_binds_object:
  assumes "ValidateTicket parse targets p t = None"
  shows "\<exists>target u. parseTicketURL parse (tk_URL t) = Inr u \<and>
     tk_Method t = ''PUT'' \<and> tk_ObjectID t = pu_ObjectID p \<and>
     tk_ContentLength t = int (length (pu_Body p)) \<and> tk_ContentLengthSigned t \<and>
     (if targets = [] then u_Scheme u = ''https'' else target \<in> set targets \<and> Origin target = originOf u) \<and>
     (\<exists>bucket. u_EscapedPath u = bucket @ tg_pathPrefix target @ ''/'' @ canonicalPath (pu_Key p) \<and>
               (targets \<noteq> [] \<and> tg_addressing target \<noteq> AddressingUnpinned \<longrightarrow> bucket = []) \<and>
               count_list bucket CHR ''/'' \<le> 1)"
proof -
  from assms obtain target u where m: "match_target parse targets (tk_URL t) = Inr (target, u)"
    and f: "tk_ObjectID t = pu_ObjectID p" "tk_Method t = ''PUT''"
      "tk_ContentLength t = int (length (pu_Body p))" "tk_ContentLengthSigned t"
    and path: "validatePath target p (u_EscapedPath u) = None"
    by (rule ValidateTicket_None)
  have bucket: "\<exists>bucket. u_EscapedPath u = bucket @ tg_pathPrefix target @ ''/'' @ canonicalPath (pu_Key p) \<and>
               (targets \<noteq> [] \<and> tg_addressing target \<noteq> AddressingUnpinned \<longrightarrow> bucket = []) \<and>
               count_list bucket CHR ''/'' \<le> 1"
    using validatePath_None [OF path] by auto
  have https: "targets = [] \<Longrightarrow> u_Scheme u = ''https''"
    using match_target_Inr [OF m] by (simp add: unpinnedTarget_def split: if_splits)
  show ?thesis
    using f bucket https match_target_Inr [OF m] by (intro exI [of _ target] exI [of _ u]) auto
qed

theorem accepted_ticket_binds_object_witness:
  "tk_Method demo_ticket = ''PUT'' \<and> tk_ContentLength demo_ticket = int (length (pu_Body demo_prepared))"
  using accepted_ticket_binds_object [OF demo_validate(2)] by auto

text \<open>with a pinned target list a ticket is good for one key only: if it is accepted for two
  prepared objects, they have the same key, so a ticket for another install's object, or for
  another object of this one, is refused.\<close>

theorem pinned_ticket_one_key:
  assumes "targets \<noteq> []" "\<forall>t \<in> set targets. tg_addressing t \<in> {VirtualHosted, PathStyle}"
    and "ValidateTicket parse targets p t = None" "ValidateTicket parse targets p' t = None"
  shows "pu_Key p = pu_Key p'"
proof -
  from assms(3) obtain target u where m: "match_target parse targets (tk_URL t) = Inr (target, u)"
    and v: "validatePath target p (u_EscapedPath u) = None" by (rule ValidateTicket_None)
  from assms(4) obtain target' u' where m': "match_target parse targets (tk_URL t) = Inr (target', u')"
    and v': "validatePath target' p' (u_EscapedPath u') = None" by (rule ValidateTicket_None)
  have a: "tg_addressing target \<in> {VirtualHosted, PathStyle}"
    using match_target_addressing [OF m assms(2,1)] .
  from m m' have "target' = target" "u' = u" by simp_all
  with validatePath_None [OF v] validatePath_None [OF v'] a show ?thesis
    by (auto simp: canonicalPath_inj)
qed

theorem pinned_ticket_one_key_witness:
  "ValidateTicket demo_parse [demo_target] (demo_prepared\<lparr>pu_Key := ''v1/other.age''\<rparr>) demo_ticket \<noteq> None"
proof
  assume "ValidateTicket demo_parse [demo_target] (demo_prepared\<lparr>pu_Key := ''v1/other.age''\<rparr>) demo_ticket = None"
  from pinned_ticket_one_key [OF _ _ demo_validate(2) this] show False
    by (simp add: demo_prepared_def demo_target_def demo_mirror_key_def)
qed

text \<open>C25: without a pinned list, a ticket is still good for one object of the whole fleet: if it is
  accepted for two keys of the naming grammar, of whatever organizations and installs, they are
  the same key.\<close>

theorem unpinned_ticket_one_mirror_key:
  assumes "ValidateTicket parse [] p t = None" "ValidateTicket parse [] p' t = None"
    and "MirrorKey org inst src nk c = Inr (pu_Key p)"
    and "MirrorKey org' inst' src' nk' c' = Inr (pu_Key p')"
  shows "pu_Key p = pu_Key p'"
proof -
  from assms(1) obtain target u where m: "match_target parse [] (tk_URL t) = Inr (target, u)"
    and v: "validatePath target p (u_EscapedPath u) = None" by (rule ValidateTicket_None)
  from assms(2) obtain target' u' where m': "match_target parse [] (tk_URL t) = Inr (target', u')"
    and v': "validatePath target' p' (u_EscapedPath u') = None" by (rule ValidateTicket_None)
  from m m' have eq: "target' = target" "u' = u" by simp_all
  have tg: "tg_pathPrefix target = []" "tg_addressing target = AddressingUnpinned"
    using match_target_Inr [OF m] by (auto simp: unpinnedTarget_def split: if_splits)
  obtain b where b: "u_EscapedPath u = b @ ''/'' @ canonicalPath (pu_Key p)"
    using validatePath_None [OF v] tg by auto
  obtain b' where b': "u_EscapedPath u = b' @ ''/'' @ canonicalPath (pu_Key p')"
    using validatePath_None [OF v'] tg eq by auto
  let ?S = "split_on CHR ''/''"
  have "?S b @ map canonicalPath (?S (pu_Key p)) = ?S b' @ map canonicalPath (?S (pu_Key p'))"
    using b b' split_on_append [of "CHR ''/''" b "canonicalPath (pu_Key p)"]
      split_on_append [of "CHR ''/''" b' "canonicalPath (pu_Key p')"]
    by (simp add: split_canonicalPath)
  moreover have "length (?S (pu_Key p)) = 6" "length (?S (pu_Key p')) = 6"
    using MirrorKey_segments [OF assms(3)] MirrorKey_segments [OF assms(4)]
    by (simp_all add: key_segments_def)
  ultimately have "map canonicalPath (?S (pu_Key p)) = map canonicalPath (?S (pu_Key p'))"
    by (simp add: append_eq_append_conv)
  then have "?S (pu_Key p) = ?S (pu_Key p')"
    by (auto simp: canonicalPath_inj inj_def intro: map_injective [of canonicalPath])
  then show ?thesis by (simp add: split_on_inj)
qed

theorem unpinned_ticket_one_mirror_key_witness:
  "ValidateTicket demo_parse [] (demo_prepared\<lparr>pu_Key :=
      ''v1/organization=acme/install=i2/mirror/source=codex/'' @ MirrorName demo_name_key ''a'' @ ''.age''\<rparr>)
    demo_ticket \<noteq> None"
proof
  let ?k2 = "''v1/organization=acme/install=i2/mirror/source=codex/'' @ MirrorName demo_name_key ''a'' @ ''.age''"
  have k2: "MirrorKey ''acme'' ''i2'' ''codex'' demo_name_key ''a'' = Inr ?k2"
    by (simp add: MirrorKey_Inr_iff demo_name_key_def NameKeySize_def
        ident_start_def ident_char_def is_lower_def is_digit_def less_eq_char_def)
  assume "ValidateTicket demo_parse [] (demo_prepared\<lparr>pu_Key := ?k2\<rparr>) demo_ticket = None"
  from unpinned_ticket_one_mirror_key [OF demo_validate(1) this] demo_MirrorKey k2 show False
    by (simp add: demo_prepared_def demo_mirror_key_def)
qed

text \<open>the checks refuse no honest ticket: for every key of the naming grammar, the escaped key
  below the prefix of a target the owner could declare passes the path check.\<close>

theorem honest_path_accepted:
  assumes "MirrorKey org inst src nk c = Inr (pu_Key p)"
    and "validatePathPrefix (tg_addressing target) q = Inr (tg_pathPrefix target)"
  shows "validatePath target p (tg_pathPrefix target @ ''/'' @ canonicalPath (pu_Key p)) = None"
  using wanted_not_refused [OF assms] MirrorKey_valid [OF assms(1)] validatePathPrefix_Inr(1) [OF assms(2)]
  by (auto simp: validatePath_def Let_def)

theorem honest_path_accepted_witness:
  "validatePath demo_target demo_prepared (''/'' @ canonicalPath demo_mirror_key) = None"
  using honest_path_accepted [of "''acme''" "''i1''" "''codex''" demo_name_key "''a''" demo_prepared demo_target "[]"]
    demo_MirrorKey
  by (simp add: demo_prepared_def demo_target_def validatePathPrefix_def)

end
