(* ===== verification/Failure_Log.thy ===== *)
theory Failure_Log
  imports Go_Prelude
begin

text \<open>
  The failure record an install keeps (\<^verbatim>\<open>formats/model.go\<close>): the bounded log of recent
  failures, the standing entries that are refreshed in place, and which events the streak of
  consecutive failures counts. A Go slice is a list, oldest entry first; the backward loops of
  \<^verbatim>\<open>Stand\<close> and \<^verbatim>\<open>LatestCounted\<close> are recursions over the reversed list.
\<close>

section \<open>Events\<close>

definition FailureTick :: string where "FailureTick = ''tick_failed''"
definition FailurePanic :: string where "FailurePanic = ''panic''"
definition FailureStoreCorrupt :: string where "FailureStoreCorrupt = ''store_corrupt''"
definition FailureConfigRejected :: string where "FailureConfigRejected = ''config_rejected''"
definition FailureInit :: string where "FailureInit = ''init_failed''"
definition FailureUpdate :: string where "FailureUpdate = ''update_failed''"
definition FailureShutdown :: string where "FailureShutdown = ''shutdown_failed''"
definition FailureCrash :: string where "FailureCrash = ''crashed''"
definition FailureStalled :: string where "FailureStalled = ''tick_stalled''"
definition FailureOffline :: string where "FailureOffline = ''offline''"

lemmas failure_kinds =
  FailureTick_def FailurePanic_def FailureStoreCorrupt_def FailureConfigRejected_def
  FailureInit_def FailureUpdate_def FailureShutdown_def FailureCrash_def
  FailureStalled_def FailureOffline_def

record FailureEvent =
  ev_At :: string
  ev_Kind :: string
  ev_RunID :: string
  ev_Message :: string

record LastCrash =
  lc_RunID :: string
  lc_Phase :: string
  lc_Consecutive :: int

record FailureRecord =
  fr_LastCrash :: "LastCrash option"
  fr_Recent :: "FailureEvent list"
  fr_ConsecutiveFailures :: int

definition MaxRecentFailures :: nat where "MaxRecentFailures = 20"

definition Standing :: "FailureEvent \<Rightarrow> bool" where
  "Standing e = (ev_Kind e = FailureOffline \<or> ev_Kind e = FailureStalled)"

definition Counted :: "FailureEvent \<Rightarrow> bool" where
  "Counted e =
     (if ev_Kind e \<in> {FailureTick, FailureShutdown, FailureInit} then True
      else if ev_Kind e = FailurePanic then ev_RunID e \<noteq> []
      else False)"

section \<open>Operations\<close>

definition bounded_append :: "FailureEvent list \<Rightarrow> FailureEvent \<Rightarrow> FailureEvent list" where
  "bounded_append xs e =
     (let ys = xs @ [e]; n = length ys
      in if n > MaxRecentFailures then drop (n - MaxRecentFailures) ys else ys)"

definition Append :: "FailureRecord \<Rightarrow> FailureEvent \<Rightarrow> FailureRecord" where
  "Append r e = r\<lparr>fr_Recent := bounded_append (fr_Recent r) e\<rparr>"

fun refresh :: "FailureEvent \<Rightarrow> FailureEvent list \<Rightarrow> FailureEvent list option" where
  "refresh e [] = None"
| "refresh e (x # xs) =
     (if \<not> Standing x then None
      else if ev_Kind x = ev_Kind e then Some (e # xs)
      else map_option ((#) x) (refresh e xs))"

definition Stand :: "FailureRecord \<Rightarrow> FailureEvent \<Rightarrow> FailureRecord" where
  "Stand r e =
     (case refresh e (rev (fr_Recent r)) of
        Some xs \<Rightarrow> r\<lparr>fr_Recent := rev xs\<rparr>
      | None \<Rightarrow> Append r e)"

definition LatestCounted :: "FailureRecord \<Rightarrow> FailureEvent option" where
  "LatestCounted r = List.find Counted (rev (fr_Recent r))"

definition Latest :: "FailureRecord \<Rightarrow> FailureEvent option" where
  "Latest r = (if fr_Recent r = [] then None else Some (last (fr_Recent r)))"

section \<open>The bound\<close>

lemma bounded_append_length: "length (bounded_append xs e) \<le> MaxRecentFailures"
  by (simp add: bounded_append_def Let_def MaxRecentFailures_def)

lemma bounded_append_last: "last (bounded_append xs e) = e" "bounded_append xs e \<noteq> []"
  by (simp_all add: bounded_append_def Let_def MaxRecentFailures_def last_drop)

lemma bounded_append_drop:
  assumes "length xs \<le> MaxRecentFailures"
  shows "\<exists>n \<le> 1. bounded_append xs e = drop n xs @ [e]"
  using assms
  by (cases "length xs = MaxRecentFailures")
     (auto simp: bounded_append_def Let_def MaxRecentFailures_def intro: exI [of _ 0] exI [of _ 1])

lemma standing_not_counted: "Standing e \<Longrightarrow> \<not> Counted e"
  by (auto simp: Standing_def Counted_def failure_kinds)

lemma refresh_length: "refresh e xs = Some ys \<Longrightarrow> length ys = length xs"
  by (induction xs arbitrary: ys) (auto split: if_splits)

lemma Stand_length:
  "length (fr_Recent r) \<le> MaxRecentFailures \<Longrightarrow> length (fr_Recent (Stand r e)) \<le> MaxRecentFailures"
  by (auto simp: Stand_def Append_def bounded_append_length dest!: refresh_length split: option.splits)

section \<open>Standing entries\<close>

text \<open>The kinds that stand: those among the standing entries that end the log.\<close>

definition standing_kinds :: "FailureEvent list \<Rightarrow> string list" where
  "standing_kinds xs = map ev_Kind (takeWhile Standing (rev xs))"

definition lasting :: "FailureEvent list \<Rightarrow> FailureEvent list" where
  "lasting = filter (\<lambda>x. \<not> Standing x)"

lemma refresh_Some:
  "refresh e xs = Some ys \<Longrightarrow> Standing e \<Longrightarrow>
   map ev_Kind (takeWhile Standing ys) = map ev_Kind (takeWhile Standing xs) \<and>
   filter (\<lambda>x. \<not> Standing x) ys = filter (\<lambda>x. \<not> Standing x) xs"
  by (induction xs arbitrary: ys) (auto split: if_splits)

lemma refresh_None:
  "refresh e xs = None \<longleftrightarrow> ev_Kind e \<notin> set (map ev_Kind (takeWhile Standing xs))"
proof (induction xs)
  case (Cons x xs)
  then show ?case by (cases "ev_Kind x = ev_Kind e") (simp_all del: set_map)
qed simp

lemma Stand_standing:
  assumes "Standing e" "ev_Kind e \<in> set (standing_kinds (fr_Recent r))"
  shows "standing_kinds (fr_Recent (Stand r e)) = standing_kinds (fr_Recent r)"
    and "lasting (fr_Recent (Stand r e)) = lasting (fr_Recent r)"
proof -
  from assms(2) refresh_None [of e "rev (fr_Recent r)"] obtain ys
    where ys: "refresh e (rev (fr_Recent r)) = Some ys"
    by (auto simp: standing_kinds_def)
  note r = refresh_Some [OF ys assms(1)]
  from r ys show "standing_kinds (fr_Recent (Stand r e)) = standing_kinds (fr_Recent r)"
    by (simp add: Stand_def standing_kinds_def)
  from r ys have "rev (lasting ys) = lasting (fr_Recent r)"
    by (simp add: lasting_def rev_filter [symmetric])
  with ys show "lasting (fr_Recent (Stand r e)) = lasting (fr_Recent r)"
    by (simp add: Stand_def lasting_def rev_filter)
qed

lemma standing_kind_range:
  "k \<in> set (standing_kinds xs) \<Longrightarrow> k \<in> {FailureOffline, FailureStalled}"
  by (auto simp: standing_kinds_def Standing_def dest: set_takeWhileD)

lemma other_kind_last:
  assumes "Standing e" "ev_Kind e \<notin> set (standing_kinds xs)" "k \<in> set (standing_kinds xs)"
  shows "xs \<noteq> [] \<and> Standing (last xs) \<and> ev_Kind (last xs) = k"
proof -
  obtain y ys where y: "rev xs = y # ys" "Standing y"
    using assms(3) by (cases "rev xs") (auto simp: standing_kinds_def split: if_splits)
  then have last: "last xs = y" "xs \<noteq> []" by (auto simp: last_rev [of "rev xs", simplified])
  from y have "ev_Kind y \<in> set (standing_kinds xs)" by (simp add: standing_kinds_def)
  with assms(2) have "ev_Kind y \<noteq> ev_Kind e" by metis
  moreover from assms(2,3) have "k \<noteq> ev_Kind e" by metis
  ultimately have "ev_Kind y = k"
    using standing_kind_range [OF assms(3)] \<open>Standing y\<close> assms(1) by (auto simp: Standing_def)
  with last y show ?thesis by simp
qed

lemma Stand_appends:
  assumes e: "Standing e" and new: "ev_Kind e \<notin> set (standing_kinds (fr_Recent r))"
    and len: "length (fr_Recent r) \<le> MaxRecentFailures"
  obtains n where "n \<le> 1" "fr_Recent (Stand r e) = drop n (fr_Recent r) @ [e]"
    "insert (ev_Kind e) (set (standing_kinds (fr_Recent r))) \<subseteq> set (standing_kinds (fr_Recent (Stand r e)))"
proof -
  let ?xs = "fr_Recent r"
  from new have "refresh e (rev ?xs) = None"
    by (simp add: refresh_None standing_kinds_def)
  then have st: "fr_Recent (Stand r e) = bounded_append ?xs e"
    by (simp add: Stand_def Append_def)
  obtain n where n: "n \<le> 1" "bounded_append ?xs e = drop n ?xs @ [e]" "n = 0 \<or> length ?xs = MaxRecentFailures"
    using len by (cases "length ?xs = MaxRecentFailures")
      (auto simp: bounded_append_def Let_def MaxRecentFailures_def)
  have "k \<in> set (standing_kinds (drop n ?xs @ [e]))" if "k \<in> set (standing_kinds ?xs)" for k
  proof -
    note l = other_kind_last [OF e new that]
    from l n(1,3) have "drop n ?xs \<noteq> []" by (auto simp: MaxRecentFailures_def)
    with l have "last (drop n ?xs) = last ?xs" "drop n ?xs \<noteq> []" by auto
    then obtain ys where "drop n ?xs = ys @ [last ?xs]" by (metis append_butlast_last_id)
    with l e show ?thesis by (simp add: standing_kinds_def)
  qed
  with that [of n] n st e show ?thesis by (auto simp: standing_kinds_def)
qed

text \<open>How many kinds may still be appended while only standing events arrive.\<close>

definition unstood :: "FailureEvent list \<Rightarrow> nat" where
  "unstood xs = card ({FailureOffline, FailureStalled} - set (standing_kinds xs))"

lemma lasting_drop:
  assumes "n \<le> (1 :: nat)"
  shows "\<exists>j \<le> 1. lasting (drop n xs) = drop j (lasting xs)"
proof (cases "n = 0")
  case False
  with assms have "n = 1" by simp
  then show ?thesis
    by (cases xs) (auto simp: lasting_def intro: exI [of _ 0] exI [of _ 1])
qed (auto intro: exI [of _ 0])

lemma Stand_lasting:
  assumes e: "Standing e" and len: "length (fr_Recent r) \<le> MaxRecentFailures"
  shows "\<exists>n. n + unstood (fr_Recent (Stand r e)) \<le> unstood (fr_Recent r) \<and>
             (\<exists>j \<le> n. lasting (fr_Recent (Stand r e)) = drop j (lasting (fr_Recent r)))"
proof (cases "ev_Kind e \<in> set (standing_kinds (fr_Recent r))")
  case True
  from Stand_standing [OF e True] show ?thesis by (auto simp: unstood_def intro!: exI [of _ 0])
next
  case False
  from Stand_appends [OF e False len] obtain n where n: "n \<le> 1"
    "fr_Recent (Stand r e) = drop n (fr_Recent r) @ [e]"
    "insert (ev_Kind e) (set (standing_kinds (fr_Recent r))) \<subseteq> set (standing_kinds (fr_Recent (Stand r e)))"
    by blast
  have "unstood (fr_Recent (Stand r e)) < unstood (fr_Recent r)"
    unfolding unstood_def using n(3) False e
    by (intro psubset_card_mono) (auto simp: Standing_def)
  moreover have "\<exists>j \<le> 1. lasting (fr_Recent (Stand r e)) = drop j (lasting (fr_Recent r))"
    using n(2) e lasting_drop [OF n(1)] by (simp add: lasting_def)
  ultimately show ?thesis by (intro exI [of _ 1]) auto
qed

lemma fold_Stand_lasting:
  assumes "\<forall>e \<in> set es. Standing e" "length (fr_Recent r) \<le> MaxRecentFailures"
  shows "\<exists>j \<le> unstood (fr_Recent r). lasting (fr_Recent (fold (\<lambda>e r. Stand r e) es r)) = drop j (lasting (fr_Recent r))"
  using assms
proof (induction es arbitrary: r)
  case (Cons e es)
  then obtain n j where n: "n + unstood (fr_Recent (Stand r e)) \<le> unstood (fr_Recent r)" "j \<le> n"
    "lasting (fr_Recent (Stand r e)) = drop j (lasting (fr_Recent r))"
    using Stand_lasting [of e r] by auto
  obtain i where i: "i \<le> unstood (fr_Recent (Stand r e))"
    "lasting (fr_Recent (fold (\<lambda>e r. Stand r e) es (Stand r e))) = drop i (lasting (fr_Recent (Stand r e)))"
    using Cons.IH [of "Stand r e"] Cons.prems by (auto simp: Stand_length)
  with n have "lasting (fr_Recent (fold (\<lambda>e r. Stand r e) (e # es) r)) = drop (i + j) (lasting (fr_Recent r))"
    by simp
  moreover have "i + j \<le> unstood (fr_Recent r)" using i(1) n(1,2) by linarith
  ultimately show ?case by blast
qed (auto intro: exI [of _ 0])

lemma unstood_le: "unstood xs \<le> 2"
proof -
  have "card ({FailureOffline, FailureStalled} - set (standing_kinds xs)) \<le> card {FailureOffline, FailureStalled}"
    by (intro card_mono) auto
  also have "\<dots> \<le> 2" by (simp add: card_insert_if)
  finally show ?thesis unfolding unstood_def .
qed

lemma fold_Stand_length:
  "length (fr_Recent r) \<le> MaxRecentFailures \<Longrightarrow>
   length (fr_Recent (fold (\<lambda>e r. Stand r e) es r)) \<le> MaxRecentFailures"
  by (induction es arbitrary: r) (auto simp: Stand_length)

lemma Stand_keeps [keeps]:
  "fr_ConsecutiveFailures (Stand r e) = fr_ConsecutiveFailures r"
  "fr_LastCrash (Stand r e) = fr_LastCrash r"
  by (simp_all add: Stand_def Append_def split: option.split)

section \<open>Properties\<close>

text \<open>
  A condition that persists cannot flush the failure history. However many standing events (the
  machine is offline, a tick has stalled) are recorded in a row, at most the two oldest of the other
  entries leave the log, those that remain keep their order, and the log stays within its bound.
\<close>

theorem standing_events_spare_the_log:
  assumes "length (fr_Recent r) \<le> MaxRecentFailures" and "\<forall>e \<in> set es. Standing e"
  shows "length (fr_Recent (fold (\<lambda>e r. Stand r e) es r)) \<le> MaxRecentFailures \<and>
    (\<exists>j \<le> 2. filter (\<lambda>x. \<not> Standing x) (fr_Recent (fold (\<lambda>e r. Stand r e) es r))
             = drop j (filter (\<lambda>x. \<not> Standing x) (fr_Recent r)))"
  using fold_Stand_lasting [OF assms(2,1)] unstood_le [of "fr_Recent r"]
    fold_Stand_length [OF assms(1)]
  unfolding lasting_def by (meson order_trans)

definition demo_event :: "string \<Rightarrow> string \<Rightarrow> FailureEvent" where
  "demo_event k m = \<lparr>ev_At = ''2026-01-01T00:00:00Z'', ev_Kind = k, ev_RunID = ''r1'', ev_Message = m\<rparr>"

definition demo_record :: FailureRecord where
  "demo_record = \<lparr>fr_LastCrash = None,
     fr_Recent = map (\<lambda>i. demo_event FailureTick [char_of (48 + i)]) [0..<20],
     fr_ConsecutiveFailures = 20\<rparr>"

theorem standing_events_spare_the_log_witness:
  "length (fr_Recent (fold (\<lambda>e r. Stand r e)
      [demo_event FailureOffline ''a'', demo_event FailureStalled ''b'', demo_event FailureOffline ''c'']
      demo_record)) \<le> MaxRecentFailures \<and>
   (\<exists>j \<le> 2. filter (\<lambda>x. \<not> Standing x) (fr_Recent (fold (\<lambda>e r. Stand r e)
      [demo_event FailureOffline ''a'', demo_event FailureStalled ''b'', demo_event FailureOffline ''c'']
      demo_record)) = drop j (filter (\<lambda>x. \<not> Standing x) (fr_Recent demo_record)))"
proof -
  have "length (fr_Recent demo_record) \<le> MaxRecentFailures"
    by (simp add: demo_record_def MaxRecentFailures_def)
  moreover have "\<forall>e \<in> set [demo_event FailureOffline ''a'', demo_event FailureStalled ''b'',
                         demo_event FailureOffline ''c'']. Standing e"
    by (simp add: demo_event_def Standing_def)
  ultimately show ?thesis by (rule standing_events_spare_the_log)
qed

end
