(* ===== verification/Outcome.thy ===== *)
theory Outcome
  imports Go_Map "HOL-Library.Multiset"
begin

text \<open>
  The vocabulary of a run, \<^verbatim>\<open>src/internal/formats/model.go\<close>: what was decided about one file, what one
  source contributed, the report of a run, and the totals \<^verbatim>\<open>engine.go\<close> computes over it. A string
  type with a closed set of values is a datatype; \<^verbatim>\<open>DecisionNone\<close> is the zero value, the empty
  string. A density is kept as the two byte counts whose quotient it is.
\<close>

section \<open>Types\<close>

datatype HealthState = HealthNone | AgentAbsent | RootPresentNoMatch | MatchPresentUnreadable | Collected

datatype SniffResult = SniffNone | SniffOK | SniffEmpty | SniffUnexpectedShape | SniffUnreadable

datatype Decision =
    DecisionNone | DecisionShipped | DecisionUnchanged | DecisionSkipped | DecisionParked | DecisionFailed

fun sniff_string :: "SniffResult \<Rightarrow> string" where
  "sniff_string SniffNone = []"
| "sniff_string SniffOK = ''ok''"
| "sniff_string SniffEmpty = ''empty''"
| "sniff_string SniffUnexpectedShape = ''unexpected_shape''"
| "sniff_string SniffUnreadable = ''unreadable''"

type_synonym density = "int \<times> int"

record Remote =
  rm_Name :: string
  rm_Host :: string
  rm_Path :: string

record Repository =
  repo_GitDir :: string
  repo_MainWorktree :: string
  repo_Remotes :: "Remote list"

record FileOutcome =
  fo_Fatal :: bool
  fo_Derived :: bool
  fo_SourceID :: string
  fo_NativePath :: string
  fo_RelPath :: string
  fo_ObjectKey :: string
  fo_Decision :: Decision
  fo_BytesIn :: int
  fo_BytesOut :: int
  fo_Density :: density
  fo_RuleHits :: "(string, int) gomap"
  fo_Reason :: string

definition zero_outcome :: FileOutcome where
  "zero_outcome = \<lparr>fo_Fatal = False, fo_Derived = False, fo_SourceID = [], fo_NativePath = [],
     fo_RelPath = [], fo_ObjectKey = [], fo_Decision = DecisionNone, fo_BytesIn = 0, fo_BytesOut = 0,
     fo_Density = (0, 0), fo_RuleHits = [], fo_Reason = []\<rparr>"

record SourceOutcome =
  so_SourceID :: string
  so_Family :: string
  so_Health :: HealthState
  so_Sniff :: SniffResult
  so_AgentVersion :: string
  so_Reason :: string
  so_Root :: string
  so_Remaining :: int
  so_Emitted :: bool
  so_Oversize :: int
  so_OversizeLargest :: int
  so_OversizeExample :: string
  so_OversizeLimit :: int
  so_Unreadable :: int
  so_UnreadableExample :: string
  so_UnreadableReason :: string
  so_Files :: "FileOutcome list"
  so_Enriched :: int
  so_EnrichSkipped :: int
  so_EnrichMismatch :: int
  so_EnrichErrors :: int
  so_EnrichNotes :: "string list"
  so_EnricherID :: string
  so_EnricherVersion :: int
  so_EnrichInfos :: "string list"

definition zero_source_outcome :: SourceOutcome where
  "zero_source_outcome = \<lparr>so_SourceID = [], so_Family = [], so_Health = HealthNone, so_Sniff = SniffNone,
     so_AgentVersion = [], so_Reason = [], so_Root = [], so_Remaining = 0, so_Emitted = False,
     so_Oversize = 0, so_OversizeLargest = 0, so_OversizeExample = [], so_OversizeLimit = 0,
     so_Unreadable = 0, so_UnreadableExample = [], so_UnreadableReason = [], so_Files = [],
     so_Enriched = 0, so_EnrichSkipped = 0, so_EnrichMismatch = 0, so_EnrichErrors = 0,
     so_EnrichNotes = [], so_EnricherID = [], so_EnricherVersion = 0, so_EnrichInfos = []\<rparr>"

record Report =
  rp_StartedAt :: gotime
  rp_FinishedAt :: gotime
  rp_Sources :: "SourceOutcome list"
  rp_Shipped :: int
  rp_Unchanged :: int
  rp_Skipped :: int
  rp_Parked :: int
  rp_Failed :: int
  rp_Truncated :: bool
  rp_Remaining :: int
  rp_BytesRead :: int
  rp_BytesSealed :: int
  rp_MedianFileBytes :: int
  rp_EnrichMismatch :: int
  rp_Paused :: bool
  rp_PauseReason :: string
  rp_StoreCorrupt :: bool
  rp_SlowestScrubNanos :: int
  rp_SlowestScrubBytes :: int

definition zero_report :: Report where
  "zero_report = \<lparr>rp_StartedAt = 0, rp_FinishedAt = 0, rp_Sources = [], rp_Shipped = 0, rp_Unchanged = 0,
     rp_Skipped = 0, rp_Parked = 0, rp_Failed = 0, rp_Truncated = False, rp_Remaining = 0,
     rp_BytesRead = 0, rp_BytesSealed = 0, rp_MedianFileBytes = 0, rp_EnrichMismatch = 0,
     rp_Paused = False, rp_PauseReason = [], rp_StoreCorrupt = False, rp_SlowestScrubNanos = 0,
     rp_SlowestScrubBytes = 0\<rparr>"

text \<open>One line of the audit log, without the two fields the log stamps itself (\<^verbatim>\<open>At\<close>, \<^verbatim>\<open>RunID\<close>).\<close>

record Entry =
  en_Decision :: Decision
  en_SourceID :: string
  en_File :: string
  en_BytesIn :: int
  en_BytesOut :: int
  en_RedactionDensity :: density
  en_RuleHits :: "(string, int) gomap"
  en_ObjectKey :: string
  en_ConfigVersion :: int
  en_Reason :: string

definition zero_entry :: Entry where
  "zero_entry = \<lparr>en_Decision = DecisionNone, en_SourceID = [], en_File = [], en_BytesIn = 0,
     en_BytesOut = 0, en_RedactionDensity = (0, 0), en_RuleHits = [], en_ObjectKey = [],
     en_ConfigVersion = 0, en_Reason = []\<rparr>"

section \<open>Totals of a run\<close>

definition median :: "int list \<Rightarrow> int" where
  "median v = (if v = [] then 0 else sort v ! (length v div 2))"

text \<open>The files the byte totals are about: read off disk by a source that does not emit them itself.\<close>

definition counted_files :: "SourceOutcome list \<Rightarrow> FileOutcome list" where
  "counted_files ss = filter (\<lambda>f. \<not> fo_Derived f) (concat (map so_Files (filter (\<lambda>s. \<not> so_Emitted s) ss)))"

text \<open>The loop of \<^verbatim>\<open>summarize\<close>: one file after another, the shipped sizes collected.\<close>

fun summarize_file :: "FileOutcome \<Rightarrow> Report \<times> int list \<Rightarrow> Report \<times> int list" where
  "summarize_file f (rep, shippedIn) =
     (if fo_Derived f then (rep, shippedIn)
      else (rep\<lparr>rp_BytesRead := rp_BytesRead rep + fo_BytesIn f,
                rp_BytesSealed := rp_BytesSealed rep + fo_BytesOut f\<rparr>,
            if fo_Decision f = DecisionShipped then shippedIn @ [fo_BytesIn f] else shippedIn))"

definition summarize_source :: "SourceOutcome \<Rightarrow> Report \<times> int list \<Rightarrow> Report \<times> int list" where
  "summarize_source s acc = (if so_Emitted s then acc else fold summarize_file (so_Files s) acc)"

definition summarize :: "Report \<Rightarrow> Report" where
  "summarize rep =
     (case fold summarize_source (rp_Sources rep) (rep, []) of
        (r, shippedIn) \<Rightarrow> r\<lparr>rp_MedianFileBytes := median shippedIn\<rparr>)"

lemma summarize_files:
  "fold summarize_file fs (rep, xs) =
     (rep\<lparr>rp_BytesRead := rp_BytesRead rep + sum_list (map fo_BytesIn (filter (\<lambda>f. \<not> fo_Derived f) fs)),
          rp_BytesSealed := rp_BytesSealed rep + sum_list (map fo_BytesOut (filter (\<lambda>f. \<not> fo_Derived f) fs))\<rparr>,
      xs @ map fo_BytesIn (filter (\<lambda>f. \<not> fo_Derived f \<and> fo_Decision f = DecisionShipped) fs))"
  by (induction fs arbitrary: rep xs) (auto simp: algebra_simps)

lemma summarize_sources:
  "fold summarize_source ss (rep, xs) =
     (rep\<lparr>rp_BytesRead := rp_BytesRead rep + sum_list (map fo_BytesIn (counted_files ss)),
          rp_BytesSealed := rp_BytesSealed rep + sum_list (map fo_BytesOut (counted_files ss))\<rparr>,
      xs @ map fo_BytesIn (filter (\<lambda>f. fo_Decision f = DecisionShipped) (counted_files ss)))"
  by (induction ss arbitrary: rep xs)
     (auto simp: summarize_source_def summarize_files counted_files_def algebra_simps conj_commute)

text \<open>The loop over the outcomes computes the three totals over the counted files.\<close>

lemma summarize_spec:
  "summarize rep = rep\<lparr>
     rp_BytesRead := rp_BytesRead rep + sum_list (map fo_BytesIn (counted_files (rp_Sources rep))),
     rp_BytesSealed := rp_BytesSealed rep + sum_list (map fo_BytesOut (counted_files (rp_Sources rep))),
     rp_MedianFileBytes := median (map fo_BytesIn (filter (\<lambda>f. fo_Decision f = DecisionShipped)
                                     (counted_files (rp_Sources rep))))\<rparr>"
  by (simp add: summarize_def summarize_sources)

lemma sorted_half:
  assumes "sorted xs" "k < length xs"
  shows "length (filter (\<lambda>x. x \<le> xs ! k) xs) \<ge> Suc k" "length (filter (\<lambda>x. xs ! k \<le> x) xs) \<ge> length xs - k"
proof -
  have "filter (\<lambda>x. x \<le> xs ! k) (take (Suc k) xs) = take (Suc k) xs"
    using assms by (auto simp: filter_id_conv in_set_conv_nth intro!: sorted_nth_mono)
  then have "length (filter (\<lambda>x. x \<le> xs ! k) (take (Suc k) xs @ drop (Suc k) xs)) \<ge> Suc k"
    unfolding filter_append using assms(2) by simp
  then show "length (filter (\<lambda>x. x \<le> xs ! k) xs) \<ge> Suc k" by simp
  have "filter (\<lambda>x. xs ! k \<le> x) (drop k xs) = drop k xs"
    using assms by (auto simp: filter_id_conv in_set_conv_nth intro!: sorted_nth_mono)
  then have "length (filter (\<lambda>x. xs ! k \<le> x) (take k xs @ drop k xs)) \<ge> length xs - k"
    unfolding filter_append by simp
  then show "length (filter (\<lambda>x. xs ! k \<le> x) xs) \<ge> length xs - k" by simp
qed

lemma length_filter_sort: "length (filter P (sort xs)) = length (filter P xs)"
proof -
  have "mset (filter P (sort xs)) = mset (filter P xs)" by simp
  then show ?thesis by (metis size_mset)
qed

lemma median_middle:
  assumes "v \<noteq> []"
  shows "median v \<in> set v \<and> 2 * length (filter (\<lambda>x. x \<le> median v) v) > length v \<and>
         2 * length (filter (\<lambda>x. median v \<le> x) v) \<ge> length v"
proof -
  let ?k = "length v div 2"
  have k: "?k < length (sort v)" using assms by (cases v) auto
  note h = sorted_half [OF sorted_sort k, unfolded length_filter_sort]
  have "median v \<in> set v"
    using assms k nth_mem [OF k] by (simp add: median_def)
  moreover have "median v = sort v ! ?k" using assms by (simp add: median_def)
  moreover have "length v < 2 * Suc ?k" "length v \<le> 2 * (length v - ?k)" by presburger+
  ultimately show ?thesis using h by simp
qed

end
