(* ===== verification/Go_Time.thy ===== *)
theory Go_Time
  imports Go_Prelude
begin

text \<open>
  What the sources use of the \<^verbatim>\<open>time\<close> package beyond arithmetic: printing an instant as RFC 3339 in
  UTC, with second precision. The calendar is the proleptic Gregorian one, counted from
  1 January of year 1, which is Go's zero time.
\<close>

definition days_before_month :: "int list" where
  "days_before_month = [0, 31, 59, 90, 120, 151, 181, 212, 243, 273, 304, 334]"

definition leap_year :: "int \<Rightarrow> bool" where
  "leap_year y \<longleftrightarrow> y mod 4 = 0 \<and> (y mod 100 \<noteq> 0 \<or> y mod 400 = 0)"

text \<open>The days before the first day of a month.\<close>

definition month_start :: "bool \<Rightarrow> nat \<Rightarrow> int" where
  "month_start leap m = days_before_month ! (m - 1) + (if leap \<and> 3 \<le> m then 1 else 0)"

text \<open>The month (1 to 12) of a day of the year counted from 0, and the day in that month from 1.\<close>

definition month_day :: "bool \<Rightarrow> int \<Rightarrow> int \<times> int" where
  "month_day leap yday =
     (let m = last (filter (\<lambda>m. month_start leap m \<le> yday) [1..<13])
      in (int m, yday - month_start leap m + 1))"

definition civil_of_days :: "int \<Rightarrow> int \<times> int \<times> int" where
  "civil_of_days d =
     (let n400 = d div 146097; d1 = d mod 146097;
          n100 = min 3 (d1 div 36524); d2 = d1 - n100 * 36524;
          n4 = d2 div 1461; d3 = d2 mod 1461;
          n1 = min 3 (d3 div 365); d4 = d3 - n1 * 365;
          y = 400 * n400 + 100 * n100 + 4 * n4 + n1 + 1
      in (y, month_day (leap_year y) d4))"

text \<open>\<^verbatim>\<open>%02d\<close> and \<^verbatim>\<open>%04d\<close> for numbers that are not negative.\<close>

definition pad_digits :: "nat \<Rightarrow> int \<Rightarrow> string" where
  "pad_digits w n = (let s = itoa n in replicate (w - length s) CHR ''0'' @ s)"

definition format_rfc3339 :: "gotime \<Rightarrow> string" where
  "format_rfc3339 t =
     (let s = t div second;
          days = s div 86400; sod = s mod 86400;
          (y, m, d) = civil_of_days days
      in pad_digits 4 y @ ''-'' @ pad_digits 2 m @ ''-'' @ pad_digits 2 d @ ''T'' @
         pad_digits 2 (sod div 3600) @ '':'' @ pad_digits 2 (sod mod 3600 div 60) @ '':'' @
         pad_digits 2 (sod mod 60) @ ''Z'')"

lemma format_rfc3339_nonempty [simp]: "format_rfc3339 t \<noteq> []"
  by (simp add: format_rfc3339_def Let_def split: prod.split)

text \<open>Formatting keeps the second and nothing finer.\<close>

lemma format_rfc3339_trunc [simp]: "format_rfc3339 (trunc_second t) = format_rfc3339 t"
  by (simp add: format_rfc3339_def trunc_second_def second_def)

end
