(* ===== verification/Fingerprints.thy ===== *)
theory Fingerprints
  imports Go_Map Sha256
begin

text \<open>
  The local fingerprint store, \<^verbatim>\<open>src/internal/engine/state.go\<close>: one document that says what
  this install has shipped, replaced as a whole by an atomic rename. The disk is part of the
  state: the document as it lies there, and the outcomes of the coming writes (an empty list
  means they succeed), so that a failed write is a branch of every operation. The document is
  modelled as the value its JSON text denotes, a timestamp as the instant its RFC 3339 text
  denotes; the JSON text itself enters the model only through \<open>cd_marshal\<close>, whose SHA-256 is
  the checksum, \<open>cd_size\<close>, the length of the file, and \<open>cd_validate\<close>, the schema check of the
  third-party validator.
\<close>

section \<open>Data\<close>

datatype Key = Key (SourceID: string) (ID: string)

text \<open>Keys in the order \<^verbatim>\<open>encode\<close> sorts them: by source, then by id.\<close>

instantiation Key :: linorder
begin

definition less_eq_Key :: "Key \<Rightarrow> Key \<Rightarrow> bool" where
  "less_eq_Key a b \<longleftrightarrow> SourceID a < SourceID b \<or> (SourceID a = SourceID b \<and> ID a \<le> ID b)"

definition less_Key :: "Key \<Rightarrow> Key \<Rightarrow> bool" where
  "less_Key a b \<longleftrightarrow> SourceID a < SourceID b \<or> (SourceID a = SourceID b \<and> ID a < ID b)"

instance
  by standard (auto simp: less_eq_Key_def less_Key_def intro: Key.expand)

end

record EnricherRef =
  er_ID :: string
  er_Version :: int

record Fingerprint =
  fp_NativePath :: string
  fp_SourceSize :: int
  fp_SourceMTime :: gotime
  fp_SourceHash :: string
  fp_Enricher :: "EnricherRef option"
  fp_OutputHash :: string
  fp_Parked :: bool
  fp_LastError :: string
  fp_BackoffUntil :: gotime
  fp_Attempts :: int

definition zero_fp :: Fingerprint where
  "zero_fp = \<lparr>fp_NativePath = [], fp_SourceSize = 0, fp_SourceMTime = 0, fp_SourceHash = [],
    fp_Enricher = None, fp_OutputHash = [], fp_Parked = False, fp_LastError = [],
    fp_BackoffUntil = 0, fp_Attempts = 0\<rparr>"

text \<open>\<^verbatim>\<open>observedPath\<close>: where the file behind a key was last seen.\<close>

definition observedPath :: "Key \<Rightarrow> Fingerprint \<Rightarrow> string" where
  "observedPath k fp = cmp_or [fp_NativePath fp, ID k]"

record Document =
  doc_InstallID :: string
  doc_UpdatedAt :: gotime
  doc_SourceSpecs :: "(string, string) gomap"
  doc_Entries :: "(Key, Fingerprint) gomap"

definition ForeignTo :: "Document \<Rightarrow> string \<Rightarrow> bool" where
  "ForeignTo d installID \<longleftrightarrow>
     doc_InstallID d \<noteq> [] \<and> installID \<noteq> [] \<and> doc_InstallID d \<noteq> installID"

text \<open>A timestamp field of the wire document: empty, an instant, or text that does not parse.\<close>

datatype wtime = WEmpty | WTime gotime | WBad string

record wireEntry =
  we_SourceID :: string
  we_NativePath :: string
  we_Identity :: string
  we_SourceSize :: int
  we_SourceMTime :: wtime
  we_Attempts :: int
  we_SourceHash :: string
  we_Enricher :: "EnricherRef option"
  we_OutputHash :: string
  we_Parked :: bool
  we_LastError :: string
  we_BackoffUntil :: wtime

record wireDoc =
  wd_StateSchema :: int
  wd_InstallID :: string
  wd_UpdatedAt :: wtime
  wd_SourceSpecs :: "(string, string) gomap"
  wd_Checksum :: string
  wd_Entries :: "wireEntry list"

definition StateSchema :: int where "StateSchema = 1"
definition maxDocumentBytes :: int where "maxDocumentBytes = 64 * 2 ^ 20"
definition pruneMaxDocumentBytes :: int where "pruneMaxDocumentBytes = 512 * 2 ^ 20"

record codec =
  cd_marshal :: "wireDoc \<Rightarrow> string"
  cd_size :: "wireDoc \<Rightarrow> int"
  cd_validate :: "wireDoc \<Rightarrow> goerr option"

text \<open>The document file: absent, unreadable, bytes that are not a document, or a document and its length.\<close>

datatype docfile =
    DocAbsent
  | DocUnreadable goerr
  | DocGarbage goerr
  | DocValue int wireDoc

record disk =
  dk_file :: docfile
  dk_faults :: "goerr option list"
  dk_locked :: bool
  dk_now :: gotime

record Store =
  st_installID :: string
  st_specs :: "(string, string) gomap"
  st_entries :: "(Key, Fingerprint) gomap"
  st_corrupt :: bool
  st_disk :: disk

section \<open>The wire format\<close>

definition checksumOf :: "codec \<Rightarrow> wireDoc \<Rightarrow> string" where
  "checksumOf cd doc = hex_encode (sha256 (cd_marshal cd (doc\<lparr>wd_Checksum := []\<rparr>)))"

text \<open>The two formats of \<^verbatim>\<open>encode\<close>: RFC3339Nano keeps the instant, RFC3339 its second.\<close>

definition format_nano :: "gotime \<Rightarrow> wtime" where
  "format_nano t = (if t = 0 then WEmpty else WTime t)"

definition format_second :: "gotime \<Rightarrow> wtime" where
  "format_second t = (if t = 0 then WEmpty else WTime (trunc_second t))"

text \<open>What \<^verbatim>\<open>load\<close> takes from a timestamp: zero where it is empty or does not parse.\<close>

definition parse_time :: "wtime \<Rightarrow> gotime" where
  "parse_time w = (case w of WTime t \<Rightarrow> t | _ \<Rightarrow> 0)"

definition encode_entry :: "Key \<Rightarrow> Fingerprint \<Rightarrow> wireEntry" where
  "encode_entry k fp =
     (let native = observedPath k fp
      in \<lparr>we_SourceID = SourceID k,
          we_NativePath = native,
          we_Identity = (if native \<noteq> ID k then ID k else []),
          we_SourceSize = fp_SourceSize fp,
          we_SourceMTime = format_nano (fp_SourceMTime fp),
          we_Attempts = fp_Attempts fp,
          we_SourceHash = fp_SourceHash fp,
          we_Enricher = fp_Enricher fp,
          we_OutputHash = fp_OutputHash fp,
          we_Parked = fp_Parked fp,
          we_LastError = fp_LastError fp,
          we_BackoffUntil = format_second (fp_BackoffUntil fp)\<rparr>)"

definition encode_doc ::
  "codec \<Rightarrow> string \<Rightarrow> gotime \<Rightarrow> (string, string) gomap \<Rightarrow> (Key, Fingerprint) gomap \<Rightarrow> wireDoc" where
  "encode_doc cd installID updatedAt specs entries =
     (let doc = \<lparr>wd_StateSchema = StateSchema, wd_InstallID = installID,
                 wd_UpdatedAt = format_second updatedAt, wd_SourceSpecs = specs, wd_Checksum = [],
                 wd_Entries = map (\<lambda>k. encode_entry k (the (map_get entries k))) (sort (map fst entries))\<rparr>
      in doc\<lparr>wd_Checksum := checksumOf cd doc\<rparr>)"

definition encode ::
  "codec \<Rightarrow> string \<Rightarrow> gotime \<Rightarrow> (string, string) gomap \<Rightarrow> (Key, Fingerprint) gomap \<Rightarrow> wireDoc result" where
  "encode cd installID updatedAt specs entries =
     (let doc = encode_doc cd installID updatedAt specs entries
      in case cd_validate cd doc of Some e \<Rightarrow> Inl e | None \<Rightarrow> Inr doc)"

definition decode_entry :: "wireEntry \<Rightarrow> Key \<times> Fingerprint" where
  "decode_entry e =
     (Key (we_SourceID e) (cmp_or [we_Identity e, we_NativePath e]),
      \<lparr>fp_NativePath = (if we_Identity e \<noteq> [] then we_NativePath e else []),
       fp_SourceSize = we_SourceSize e,
       fp_SourceMTime = parse_time (we_SourceMTime e),
       fp_SourceHash = we_SourceHash e,
       fp_Enricher = we_Enricher e,
       fp_OutputHash = we_OutputHash e,
       fp_Parked = we_Parked e,
       fp_LastError = we_LastError e,
       fp_BackoffUntil = parse_time (we_BackoffUntil e),
       fp_Attempts = we_Attempts e\<rparr>)"

fun decode_entries :: "wireEntry list \<Rightarrow> (Key, Fingerprint) gomap \<Rightarrow> (Key, Fingerprint) gomap result" where
  "decode_entries [] acc = Inr acc"
| "decode_entries (e # es) acc =
     (if we_Attempts e < 0
      then Inl (new_error (''state: entry '' @ we_SourceID e @ '' '' @ we_NativePath e @
                           '': negative attempts '' @ itoa (we_Attempts e)))
      else (case decode_entry e of (k, fp) \<Rightarrow> decode_entries es (map_put k fp acc)))"

definition load_doc :: "codec \<Rightarrow> wireDoc \<Rightarrow> Document result" where
  "load_doc cd doc =
     (if wd_StateSchema doc \<noteq> StateSchema
      then Inl (err_of_sentinel ErrSchemaMismatch
             (''state: document schema mismatch: document says '' @ itoa (wd_StateSchema doc) @
              '', this client speaks '' @ itoa StateSchema))
      else if wd_Checksum doc \<noteq> [] \<and> checksumOf cd doc \<noteq> wd_Checksum doc
      then Inl (new_error ''state: document failed its checksum'')
      else (case decode_entries (wd_Entries doc) [] of
              Inl e \<Rightarrow> Inl e
            | Inr es \<Rightarrow> Inr \<lparr>doc_InstallID = wd_InstallID doc,
                           doc_UpdatedAt = parse_time (wd_UpdatedAt doc),
                           doc_SourceSpecs = wd_SourceSpecs doc,
                           doc_Entries = es\<rparr>))"

definition empty_doc :: Document where
  "empty_doc = \<lparr>doc_InstallID = [], doc_UpdatedAt = 0, doc_SourceSpecs = [], doc_Entries = []\<rparr>"

definition load :: "codec \<Rightarrow> int \<Rightarrow> docfile \<Rightarrow> Document result" where
  "load cd maxBytes file =
     (case file of
        DocAbsent \<Rightarrow> Inr empty_doc
      | DocUnreadable e \<Rightarrow> Inl (e\<lparr>err_msg := ''state: read: '' @ err_msg e\<rparr>)
      | DocGarbage e \<Rightarrow> Inl (e\<lparr>err_msg := ''state: parse: '' @ err_msg e\<rparr>)
      | DocValue sz doc \<Rightarrow>
          if 0 < maxBytes \<and> sz > maxBytes
          then Inl (new_error ''state: read: file exceeds size limit'')
          else load_doc cd doc)"

section \<open>The store\<close>

text \<open>
  \<^verbatim>\<open>WriteAtomic\<close>: the rename is the commit point, so a write that fails leaves the file as it was.
\<close>

definition write_atomic :: "docfile \<Rightarrow> disk \<Rightarrow> goerr option \<times> disk" where
  "write_atomic f d =
     (case dk_faults d of
        [] \<Rightarrow> (None, d\<lparr>dk_file := f\<rparr>)
      | None # fs \<Rightarrow> (None, d\<lparr>dk_file := f, dk_faults := fs\<rparr>)
      | Some e # fs \<Rightarrow> (Some e, d\<lparr>dk_faults := fs\<rparr>))"

definition store_flush :: "codec \<Rightarrow> Store \<Rightarrow> goerr option \<times> Store" where
  "store_flush cd s =
     (case encode cd (st_installID s) (trunc_second (dk_now (st_disk s))) (st_specs s) (st_entries s) of
        Inl e \<Rightarrow> (Some e, s)
      | Inr doc \<Rightarrow> (case write_atomic (DocValue (cd_size cd doc) doc) (st_disk s) of
                    (e, d) \<Rightarrow> (e, s\<lparr>st_disk := d\<rparr>)))"

definition store_open :: "codec \<Rightarrow> string \<Rightarrow> int \<Rightarrow> disk \<Rightarrow> Store result" where
  "store_open cd installID maxBytes d =
     (if dk_locked d then Inl (err_of_sentinel ErrLocked ''state: store is locked by another flush'')
      else (let fresh = \<lparr>st_installID = installID, st_specs = [], st_entries = [], st_corrupt = True,
                         st_disk = d\<lparr>dk_locked := True\<rparr>\<rparr>
            in case load cd maxBytes (dk_file d) of
                 Inl e \<Rightarrow> Inr fresh
               | Inr doc \<Rightarrow>
                   if ForeignTo doc installID then Inr fresh
                   else Inr (fresh\<lparr>st_specs := doc_SourceSpecs doc, st_entries := doc_Entries doc,
                                    st_corrupt := False\<rparr>)))"

definition Open :: "codec \<Rightarrow> string \<Rightarrow> disk \<Rightarrow> Store result" where
  "Open cd installID d = store_open cd installID maxDocumentBytes d"

definition Close :: "Store \<Rightarrow> disk" where
  "Close s = (st_disk s)\<lparr>dk_locked := False\<rparr>"

definition Peek :: "codec \<Rightarrow> disk \<Rightarrow> Document result" where
  "Peek cd d = load cd maxDocumentBytes (dk_file d)"

definition store_Get :: "Store \<Rightarrow> Key \<Rightarrow> Fingerprint option" where
  "store_Get s k = map_get (st_entries s) k"

definition CommitAll :: "codec \<Rightarrow> (Key, Fingerprint) gomap \<Rightarrow> Store \<Rightarrow> goerr option \<times> Store" where
  "CommitAll cd updates s = store_flush cd (s\<lparr>st_entries := map_put_all updates (st_entries s)\<rparr>)"

definition SpecFor :: "Store \<Rightarrow> string \<Rightarrow> string option" where
  "SpecFor s sourceID = map_get (st_specs s) sourceID"

definition drop_entries :: "(Key \<Rightarrow> Fingerprint \<Rightarrow> bool) \<Rightarrow> Store \<Rightarrow> int \<times> Store" where
  "drop_entries p s =
     (let kept = map_drop p (st_entries s)
      in (int (length (st_entries s)) - int (length kept), s\<lparr>st_entries := kept\<rparr>))"

definition EnsureSpec :: "codec \<Rightarrow> string \<Rightarrow> string \<Rightarrow> Store \<Rightarrow> (int \<times> goerr option) \<times> Store" where
  "EnsureSpec cd sourceID specFP s =
     (if SpecFor s sourceID = Some specFP then ((0, None), s)
      else (let (dropped, s1) = (if SpecFor s sourceID \<noteq> None
                                 then drop_entries (\<lambda>k _. SourceID k = sourceID) s else (0, s));
                s2 = s1\<lparr>st_specs := map_put sourceID specFP (st_specs s1)\<rparr>
            in case store_flush cd s2 of (e, s3) \<Rightarrow> ((dropped, e), s3)))"

text \<open>\<open>live\<close> is the set of key ids discovery saw, as a list.\<close>

definition DropVanished :: "codec \<Rightarrow> string \<Rightarrow> string list \<Rightarrow> Store \<Rightarrow> (int \<times> goerr option) \<times> Store" where
  "DropVanished cd sourceID live s =
     (case drop_entries (\<lambda>k _. SourceID k = sourceID \<and> ID k \<notin> set live) s of
        (dropped, s1) \<Rightarrow>
          if dropped = 0 then ((0, None), s1)
          else (case store_flush cd s1 of (e, s2) \<Rightarrow> ((dropped, e), s2)))"

section \<open>Operator overrides\<close>

text \<open>\<^verbatim>\<open>editStore\<close>, with the edit's result beside the number of entries it removed.\<close>

definition editStore ::
  "codec \<Rightarrow> string \<Rightarrow> bool \<Rightarrow> (Store \<Rightarrow> int \<times> Store) \<Rightarrow> disk \<Rightarrow> (int \<times> goerr option) \<times> disk" where
  "editStore cd installID dryRun edit d =
     (case store_open cd installID pruneMaxDocumentBytes d of
        Inl e \<Rightarrow> ((0, Some e), d)
      | Inr s \<Rightarrow>
          (case edit s of (changed, s1) \<Rightarrow>
             if dryRun \<or> (changed = 0 \<and> \<not> st_corrupt s1) then ((changed, None), Close s1)
             else (case store_flush cd s1 of (e, s2) \<Rightarrow> ((changed, e), Close s2))))"

text \<open>\<open>exists\<close> stands for \<^verbatim>\<open>os.Lstat\<close> finding a path.\<close>

definition Prune ::
  "codec \<Rightarrow> (string \<Rightarrow> bool) \<Rightarrow> string \<Rightarrow> bool \<Rightarrow> disk \<Rightarrow> (int \<times> int \<times> goerr option) \<times> disk" where
  "Prune cd exists installID dryRun d =
     (let kept = (case store_open cd installID pruneMaxDocumentBytes d of
                    Inl e \<Rightarrow> 0
                  | Inr s \<Rightarrow> int (length (filter (\<lambda>(k, fp). exists (observedPath k fp)) (st_entries s))))
      in case editStore cd installID dryRun (drop_entries (\<lambda>k fp. \<not> exists (observedPath k fp))) d of
           ((removed, e), d') \<Rightarrow> ((removed, kept, e), d'))"

definition Reset :: "codec \<Rightarrow> string \<Rightarrow> bool \<Rightarrow> disk \<Rightarrow> (int \<times> goerr option) \<times> disk" where
  "Reset cd installID dryRun d =
     editStore cd installID dryRun
       (\<lambda>s. (int (length (st_entries s)), s\<lparr>st_entries := []\<rparr>)) d"


section \<open>Round trip\<close>

text \<open>
  What the document keeps of a fingerprint: the path only where it differs from the key's id,
  and the backoff to the second. Everything else survives as it is.
\<close>

definition stored_form :: "Key \<Rightarrow> Fingerprint \<Rightarrow> Fingerprint" where
  "stored_form k fp = fp\<lparr>fp_NativePath := (if observedPath k fp = ID k then [] else observedPath k fp),
                         fp_BackoffUntil := trunc_second (fp_BackoffUntil fp)\<rparr>"

definition storable :: "(Key, Fingerprint) gomap \<Rightarrow> bool" where
  "storable m \<longleftrightarrow> map_ok m \<and> list_all (\<lambda>(k, fp). ID k \<noteq> [] \<and> 0 \<le> fp_Attempts fp) m"

lemma parse_format [simp]:
  "parse_time (format_nano t) = t"
  "parse_time (format_second t) = (if t = 0 then 0 else trunc_second t)"
  by (simp_all add: parse_time_def format_nano_def format_second_def)

lemma trunc_second_0 [simp]: "trunc_second 0 = 0"
  by (simp add: trunc_second_def)

lemma observedPath_nonempty: "ID k \<noteq> [] \<Longrightarrow> observedPath k fp \<noteq> []"
  by (simp add: observedPath_def)

lemma observedPath_stored_form [simp]:
  "ID k \<noteq> [] \<Longrightarrow> observedPath k (stored_form k fp) = observedPath k fp"
  by (simp add: observedPath_def stored_form_def)

lemma decode_encode_entry:
  assumes "ID k \<noteq> []"
  shows "decode_entry (encode_entry k fp) = (k, stored_form k fp)"
  using assms observedPath_nonempty [OF assms, of fp]
  by (cases k; cases fp) (auto simp: decode_entry_def encode_entry_def stored_form_def Let_def)

lemma decode_entries_map:
  assumes "\<forall>k \<in> set ks. ID k \<noteq> [] \<and> 0 \<le> fp_Attempts (f k)"
  shows "decode_entries (map (\<lambda>k. encode_entry k (f k)) ks) acc =
         Inr (map_put_all (map (\<lambda>k. (k, stored_form k (f k))) ks) acc)"
  using assms
proof (induction ks arbitrary: acc)
  case (Cons k ks)
  then have "\<not> we_Attempts (encode_entry k (f k)) < 0" by (simp add: encode_entry_def Let_def)
  with Cons show ?case by (simp add: decode_encode_entry map_put_all_def)
qed (simp add: map_put_all_def)

lemma checksum_self [simp]:
  "checksumOf cd (doc\<lparr>wd_Checksum := c\<rparr>) = checksumOf cd doc"
  by (simp add: checksumOf_def)

lemma load_doc_encode:
  assumes "storable es"
  shows "\<exists>es'. load_doc cd (encode_doc cd inst t specs es) =
                Inr \<lparr>doc_InstallID = inst, doc_UpdatedAt = trunc_second t,
                     doc_SourceSpecs = specs, doc_Entries = es'\<rparr> \<and>
              map_ok es' \<and> (\<forall>k. map_get es' k = map_option (stored_form k) (map_get es k))"
proof -
  let ?ks = "sort (map fst es)"
  let ?f = "\<lambda>k. the (map_get es k)"
  let ?kv = "map (\<lambda>k. (k, stored_form k (?f k))) ?ks"
  from assms have ok: "map_ok es" by (simp add: storable_def)
  have in_es: "map_get es k = Some (?f k)" if "k \<in> set (map fst es)" for k
    using that by (metis map_get_None_iff option.collapse set_map)
  then have good: "\<forall>k \<in> set ?ks. ID k \<noteq> [] \<and> 0 \<le> fp_Attempts (?f k)"
    using assms ok by (auto simp: storable_def list_all_iff map_get_Some_iff)
  have dec: "decode_entries (map (\<lambda>k. encode_entry k (?f k)) ?ks) [] = Inr (map_put_all ?kv [])"
    using good by (rule decode_entries_map)
  have kv_ok: "map_ok ?kv" using ok by (simp add: map_ok_def o_def)
  have get: "map_get (map_put_all ?kv []) k = map_option (stored_form k) (map_get es k)" for k
  proof (cases "k \<in> set (map fst es)")
    case True
    then have "(k, stored_form k (?f k)) \<in> set ?kv" by simp
    then have "map_get ?kv k = Some (stored_form k (?f k))" using kv_ok by (simp add: map_get_Some_iff)
    with kv_ok in_es [OF True] show ?thesis by (cases "map_get es k") auto
  next
    case False
    then have "map_get ?kv k = None" "map_get es k = None" by (force simp: map_get_None_iff)+
    with kv_ok show ?thesis by simp
  qed
  show ?thesis
    using dec get
    by (intro exI [of _ "map_put_all ?kv []"])
       (simp add: load_doc_def encode_doc_def Let_def checksumOf_def)
qed


section \<open>What is durable\<close>

text \<open>The fingerprints the next process to open the store will find.\<close>

definition durable :: "codec \<Rightarrow> docfile \<Rightarrow> Key \<Rightarrow> Fingerprint option" where
  "durable cd f = (case load cd maxDocumentBytes f of
                     Inl e \<Rightarrow> Map.empty | Inr doc \<Rightarrow> map_get (doc_Entries doc))"

abbreviation st_file :: "Store \<Rightarrow> docfile" where
  "st_file s \<equiv> dk_file (st_disk s)"

definition recorded :: "(Key, Fingerprint) gomap \<Rightarrow> Key \<Rightarrow> Fingerprint option" where
  "recorded es k = map_option (stored_form k) (map_get es k)"

text \<open>The document of the store fits the limit an ordinary open reads under.\<close>

definition fits :: "codec \<Rightarrow> Store \<Rightarrow> bool" where
  "fits cd s \<longleftrightarrow> cd_size cd (encode_doc cd (st_installID s) (trunc_second (dk_now (st_disk s)))
                              (st_specs s) (st_entries s)) \<le> maxDocumentBytes"

lemma write_atomic_cases:
  "write_atomic f d = (e, d') \<Longrightarrow>
     (e = None \<and> dk_file d' = f \<or> e \<noteq> None \<and> dk_file d' = dk_file d)
     \<and> dk_now d' = dk_now d \<and> dk_locked d' = dk_locked d"
  by (auto simp: write_atomic_def split: list.splits option.splits)

lemma store_flush_frame [keeps]:
  assumes "store_flush cd s = (e, s')"
  shows "st_entries s' = st_entries s" "st_specs s' = st_specs s"
    "st_installID s' = st_installID s" "st_corrupt s' = st_corrupt s"
    "dk_now (st_disk s') = dk_now (st_disk s)" "dk_locked (st_disk s') = dk_locked (st_disk s)"
  using assms write_atomic_cases
  by (fastforce simp: store_flush_def split: sum.splits prod.splits)+

lemma store_flush_keeps:
  "store_flush cd s = (e, s') \<Longrightarrow> st_entries s' = st_entries s \<and> st_specs s' = st_specs s \<and>
     st_installID s' = st_installID s \<and> dk_now (st_disk s') = dk_now (st_disk s)"
  by (simp add: store_flush_frame)

text \<open>A flush either replaces the document by the store's own, or leaves the file alone.\<close>

lemma store_flush_cases:
  assumes "store_flush cd s = (e, s')"
    and "doc = encode_doc cd (st_installID s) (trunc_second (dk_now (st_disk s))) (st_specs s) (st_entries s)"
  shows "(e = None \<and> st_file s' = DocValue (cd_size cd doc) doc \<or> e \<noteq> None \<and> st_file s' = st_file s)"
  using assms
  by (auto simp: store_flush_def encode_def Let_def split: sum.splits prod.splits option.splits
           dest!: write_atomic_cases)

lemma durable_encode:
  assumes "storable es"
  shows "durable cd (DocValue sz (encode_doc cd inst t specs es)) =
         (if sz \<le> maxDocumentBytes then recorded es else Map.empty)"
proof -
  obtain es' where "load_doc cd (encode_doc cd inst t specs es) =
      Inr \<lparr>doc_InstallID = inst, doc_UpdatedAt = trunc_second t, doc_SourceSpecs = specs,
           doc_Entries = es'\<rparr>" and "\<forall>k. map_get es' k = map_option (stored_form k) (map_get es k)"
    using load_doc_encode [OF assms(1)] by blast
  then show ?thesis
    by (auto simp: durable_def load_def recorded_def maxDocumentBytes_def fun_eq_iff)
qed

lemma durable_flush:
  assumes "store_flush cd s = (e, s')" "storable (st_entries s)" "fits cd s"
  shows "durable cd (st_file s') = (if e = None then recorded (st_entries s) else durable cd (st_file s))"
  using store_flush_cases [OF assms(1) refl] durable_encode [OF assms(2)] assms(3)
  by (auto simp: fits_def)

text \<open>Whether or not the document fits, a flush adds nothing the store does not hold.\<close>

lemma durable_flush_only:
  assumes "store_flush cd s = (e, s')" "storable (st_entries s)" "durable cd (st_file s') k = Some fp"
  shows "recorded (st_entries s) k = Some fp \<or> durable cd (st_file s) k = Some fp"
  using store_flush_cases [OF assms(1) refl] durable_encode [OF assms(2)] assms(3)
  by (auto split: if_splits)

lemma recorded_storable:
  "storable es \<Longrightarrow> recorded es k = None \<longleftrightarrow> map_get es k = None"
  by (simp add: recorded_def)

lemma storable_put:
  assumes "storable m" "ID k \<noteq> []" "0 \<le> fp_Attempts fp"
  shows "storable (map_put k fp m)"
proof -
  have "map_ok (map_put k fp m)" using assms(1) by (simp add: storable_def)
  moreover have "list_all (\<lambda>(k, fp). ID k \<noteq> [] \<and> 0 \<le> fp_Attempts fp) (map_put k fp m)"
    using assms set_map_put_subset [of k fp m] by (fastforce simp: storable_def list_all_iff)
  ultimately show ?thesis by (simp add: storable_def)
qed

lemma storable_drop: "storable m \<Longrightarrow> storable (map_drop p m)"
  by (auto simp: storable_def list_all_iff map_drop_def dest: gomap.ok_drop_if [of m p, unfolded map_drop_def])

lemma storable_put_all:
  assumes "storable m" "storable upd"
  shows "storable (map_put_all upd m)"
proof -
  have "list_all (\<lambda>(k, fp). ID k \<noteq> [] \<and> 0 \<le> fp_Attempts fp) upd \<Longrightarrow>
        storable (foldl (\<lambda>m (k, v). map_put k v m) m upd)"
    using assms(1) by (induction upd arbitrary: m) (auto simp: storable_put)
  with assms(2) show ?thesis by (simp add: storable_def map_put_all_def)
qed

lemma load_entries_ok:
  assumes "decode_entries es acc = Inr m" "map_ok acc"
  shows "map_ok m"
  using assms by (induction es arbitrary: acc) (auto split: if_splits prod.splits)

lemma store_open_entries:
  assumes "store_open cd inst mx d = Inr s"
  shows "map_ok (st_entries s)" "st_installID s = inst" "dk_locked (st_disk s)" "st_file s = dk_file d"
  using assms load_entries_ok
  by (auto simp: store_open_def load_def load_doc_def Let_def empty_doc_def
           split: if_splits sum.splits docfile.splits)


section \<open>Properties\<close>


lemma store_flush_succeeds:
  "dk_faults (st_disk s) = [] \<Longrightarrow> cd_validate cd = (\<lambda>d. None) \<Longrightarrow> fst (store_flush cd s) = None"
  by (simp add: store_flush_def encode_def write_atomic_def Let_def)

definition demo_codec :: codec where
  "demo_codec = \<lparr>cd_marshal = (\<lambda>d. wd_InstallID d), cd_size = (\<lambda>d. int (length (wd_Entries d))),
                 cd_validate = (\<lambda>d. None)\<rparr>"

definition demo_fp :: Fingerprint where
  "demo_fp = zero_fp\<lparr>fp_SourceSize := 7, fp_SourceHash := ''aa'', fp_BackoffUntil := 1500000000\<rparr>"

definition demo_store :: Store where
  "demo_store = \<lparr>st_installID = ''i1'', st_specs = [(''codex'', ''g1'')],
     st_entries = [(Key ''codex'' ''/a'', demo_fp)], st_corrupt = False,
     st_disk = \<lparr>dk_file = DocAbsent, dk_faults = [], dk_locked = True, dk_now = 5 * second\<rparr>\<rparr>"

lemma demo_store_ok: "storable (st_entries demo_store)" "fits demo_codec demo_store"
  "fst (store_flush demo_codec demo_store) = None"
  by (simp_all add: demo_store_def demo_codec_def demo_fp_def zero_fp_def storable_def map_ok_def
      fits_def encode_doc_def maxDocumentBytes_def Let_def store_flush_def encode_def write_atomic_def)


end
