(* ===== verification/Seal.thy ===== *)
theory Seal
  imports Naming Outcome Go_Time Fingerprints
begin

text \<open>
  The object container, \<^verbatim>\<open>src/internal/transforms/seal.go\<close> and \<^verbatim>\<open>manifest.go\<close>: a manifest and a payload
  as the two entries of a tar archive, compressed and encrypted. The three byte layers (tar, zstd
  and age) are one parameter that takes the entries and the recipients to the object's bytes and
  back; the JSON form of the manifest with its schema check is another. What is modelled is what
  the code decides between them: which payloads it accepts, what it fills in, the order of
  the entries, the limits it enforces on reading, and the metadata that leaves in plaintext.
\<close>

section \<open>The manifest\<close>

record RedactionSummary =
  rs_Density :: density
  rs_RuleHits :: "(string, int) gomap"
  rs_ScanMode :: string

record Encryption =
  ec_Scheme :: string
  ec_RecipientKeyIDs :: "string list"

record Client =
  cl_Version :: string
  cl_Commit :: string
  cl_Modified :: bool
  cl_GoVersion :: string
  cl_OS :: string
  cl_Arch :: string

record DBProvenance =
  db_DBPath :: string
  db_ReadMethod :: string
  db_Keyspaces :: "string list"
  db_RowsRead :: int

record Manifest =
  mf_ManifestVersion :: int
  mf_OrganizationID :: string
  mf_InstallID :: string
  mf_SourceID :: string
  mf_SourceFamily :: string
  mf_NativePath :: string
  mf_Gather :: string
  mf_ArtifactClass :: string
  mf_SourceHash :: string
  mf_ShippedHash :: string
  mf_PayloadSize :: int
  mf_PayloadMTime :: "gotime option"
  mf_AgentVersion :: string
  mf_ShapeSniff :: string
  mf_Repository :: "Repository option"
  mf_Redaction :: "RedactionSummary option"
  mf_Encryption :: "Encryption option"
  mf_Client :: Client
  mf_ConfigVersion :: int
  mf_ConfigExpired :: bool
  mf_SealedAt :: string
  mf_RunID :: string
  mf_Derived :: bool
  mf_Enricher :: "EnricherRef option"
  mf_DerivedFrom :: "string list"
  mf_EnrichStatus :: string
  mf_EnrichMismatches :: int
  mf_DBProvenance :: "DBProvenance option"
  mf_EnrichRepeats :: int
  mf_EnrichTail :: int
  mf_EnrichAmbiguous :: int
  mf_EnrichLineDecodeErrors :: int

definition ManifestVersion :: int where "ManifestVersion = 1"

text \<open>The plaintext metadata of a PUT. The native path is not among it.\<close>

definition ObjectMetadata :: "Manifest \<Rightarrow> (string, string) gomap" where
  "ObjectMetadata m =
     (let md = [(''manifest-version'', itoa (mf_ManifestVersion m)),
                (''source-id'', mf_SourceID m),
                (''source-hash'', mf_SourceHash m),
                (''shipped-hash'', mf_ShippedHash m),
                (''artifact-class'', mf_ArtifactClass m)];
          md = (if mf_AgentVersion m \<noteq> [] then map_put ''agent-version'' (mf_AgentVersion m) md else md);
          md = (if mf_ShapeSniff m \<noteq> [] then map_put ''shape-sniff'' (mf_ShapeSniff m) md else md);
          md = (if mf_Derived m then map_put ''derived'' ''true'' md else md);
          md = (if mf_EnrichStatus m \<noteq> [] then map_put ''enrich-status'' (mf_EnrichStatus m) md else md)
      in md)"

section \<open>Parameters: JSON with its schema, and the byte layers\<close>

text \<open>
  \<^verbatim>\<open>json.Marshal\<close>, the schema check and \<^verbatim>\<open>json.Unmarshal\<close> on a manifest. The schema check says
  whether what it refuses is JSON at all.
\<close>

record manifest_codec =
  mc_marshal :: "Manifest \<Rightarrow> string result"
  mc_validate :: "string \<Rightarrow> (bool \<times> goerr) option"
  mc_unmarshal :: "string \<Rightarrow> Manifest result"

record tar_entry =
  te_name :: string
  te_size :: int
  te_mtime :: gotime
  te_body :: string

text \<open>A recipient prints as its public key when it has a \<^verbatim>\<open>String\<close> method, else as its type.\<close>

record Recipient =
  rc_String :: "string option"
  rc_Type :: string

definition recipientID :: "Recipient \<Rightarrow> string" where
  "recipientID r = (case rc_String r of Some s \<Rightarrow> s | None \<Rightarrow> rc_Type r)"

text \<open>
  Writing yields the object or the error of a layer. Reading yields the entries that decode, in
  order, and the error that ended the stream when it was not its proper end; the body of the last
  entry may be short.
\<close>

record 'id layers =
  ly_write :: "tar_entry list \<Rightarrow> Recipient list \<Rightarrow> string result"
  ly_read :: "string \<Rightarrow> 'id list \<Rightarrow> (tar_entry list \<times> goerr option) result"

section \<open>Encoding\<close>

definition validateManifestBytes :: "manifest_codec \<Rightarrow> string \<Rightarrow> goerr option" where
  "validateManifestBytes mc raw =
     (case mc_validate mc raw of
        None \<Rightarrow> None
      | Some (notJSON, e) \<Rightarrow>
          Some (e\<lparr>err_msg := (if notJSON then ''seal: manifest is '' else
                   ''seal: manifest does not satisfy its schema: '') @ err_msg e\<rparr>))"

definition Manifest_Encode :: "manifest_codec \<Rightarrow> Manifest \<Rightarrow> string result" where
  "Manifest_Encode mc m0 =
     (let m = (if mf_ManifestVersion m0 = 0 then m0\<lparr>mf_ManifestVersion := ManifestVersion\<rparr> else m0)
      in case mc_marshal mc m of
           Inl e \<Rightarrow> Inl (e\<lparr>err_msg := ''seal: encode manifest: '' @ err_msg e\<rparr>)
         | Inr raw \<Rightarrow> (case validateManifestBytes mc raw of Some e \<Rightarrow> Inl e | None \<Rightarrow> Inr raw))"

definition DecodeManifest :: "manifest_codec \<Rightarrow> string \<Rightarrow> Manifest result" where
  "DecodeManifest mc raw =
     (case validateManifestBytes mc raw of
        Some e \<Rightarrow> Inl e
      | None \<Rightarrow> (case mc_unmarshal mc raw of
                  Inl e \<Rightarrow> Inl (e\<lparr>err_msg := ''seal: decode manifest: '' @ err_msg e\<rparr>)
                | Inr m \<Rightarrow>
                    if mf_ManifestVersion m \<noteq> ManifestVersion
                    then Inl (new_error (''seal: manifest_version '' @ itoa (mf_ManifestVersion m) @
                           '', this client speaks '' @ itoa ManifestVersion))
                    else Inr m))"

section \<open>Sealing\<close>

definition Hash :: "string \<Rightarrow> string" where
  "Hash b = hex_encode (sha256 b)"

text \<open>
  A payload with where it comes from: \<^verbatim>\<open>scrubber\<close>, or the reason it was declared shippable
  without scrubbing. The empty origin marks the zero value.
\<close>

record Scrubbed =
  sc_b :: string
  sc_via :: string

definition Unscrubbed :: "string \<Rightarrow> string \<Rightarrow> Scrubbed" where
  "Unscrubbed raw reason = \<lparr>sc_b = raw, sc_via = reason\<rparr>"

definition ManifestEntry :: string where "ManifestEntry = ''manifest.json''"
definition PayloadEntry :: string where "PayloadEntry = ''payload''"
definition maxManifestBytes :: int where "maxManifestBytes = 4 * 2 ^ 20"
definition maxDecompressedBytes :: int where "maxDecompressedBytes = 8 * 2 ^ 30"

text \<open>\<^verbatim>\<open>time.Unix(0, 0)\<close>, counted from Go's zero time.\<close>

definition unix_epoch :: gotime where "unix_epoch = 62135596800 * second"

definition tar_entries :: "string \<Rightarrow> string \<Rightarrow> gotime option \<Rightarrow> tar_entry list" where
  "tar_entries manifestJSON payload payloadMTime =
     (let mtime = (case payloadMTime of Some t \<Rightarrow> trunc_second t | None \<Rightarrow> unix_epoch)
      in map (\<lambda>(n, b, t). \<lparr>te_name = n, te_size = int (length b), te_mtime = t, te_body = b\<rparr>)
           [(ManifestEntry, manifestJSON, unix_epoch), (PayloadEntry, payload, mtime)])"

definition writeContainer ::
  "'id layers \<Rightarrow> string \<Rightarrow> string \<Rightarrow> gotime option \<Rightarrow> Recipient list \<Rightarrow> string result" where
  "writeContainer ly manifestJSON payload payloadMTime recipients =
     ly_write ly (tar_entries manifestJSON payload payloadMTime) recipients"

definition fillEncryption :: "Manifest \<Rightarrow> Recipient list \<Rightarrow> Manifest" where
  "fillEncryption m recipients =
     (let e = (case mf_Encryption m of Some e \<Rightarrow> e | None \<Rightarrow> \<lparr>ec_Scheme = ''age'', ec_RecipientKeyIDs = []\<rparr>);
          e = (if ec_RecipientKeyIDs e = [] then e\<lparr>ec_RecipientKeyIDs := map recipientID recipients\<rparr> else e)
      in m\<lparr>mf_Encryption := Some e\<rparr>)"

definition Seal ::
  "manifest_codec \<Rightarrow> 'id layers \<Rightarrow> Manifest \<Rightarrow> Scrubbed \<Rightarrow> Recipient list \<Rightarrow> (string \<times> Manifest) result" where
  "Seal mc ly m0 scrubbed recipients =
     (if recipients = [] then Inl (new_error ''seal: no age recipients: encryption is not optional'')
      else if sc_via scrubbed = [] then
        Inl (new_error ''seal: payload neither scrubbed nor declared Unscrubbed with a reason'')
      else
        let payload = sc_b scrubbed;
            m = m0\<lparr>mf_ShippedHash := Hash payload, mf_PayloadSize := int (length payload)\<rparr>
        in if mf_SealedAt m = [] then Inl (new_error ''seal: sealed_at must be set by the caller'')
           else let m = fillEncryption m recipients
                in case Manifest_Encode mc m of
                     Inl e \<Rightarrow> Inl e
                   | Inr manifestJSON \<Rightarrow>
                       (case writeContainer ly manifestJSON payload (mf_PayloadMTime m) recipients of
                          Inl e \<Rightarrow> Inl e
                        | Inr obj \<Rightarrow> Inr (obj, m)))"

section \<open>Opening\<close>

type_synonym tar_stream = "tar_entry list \<times> goerr option"

definition ErrPrefixTooShort :: string where
  "ErrPrefixTooShort = ''seal: object prefix too short to contain the manifest''"

definition stream_end :: "goerr option \<Rightarrow> goerr" where
  "stream_end e = (case e of Some x \<Rightarrow> x | None \<Rightarrow> new_error ''EOF'')"

definition tarReader :: "'id layers \<Rightarrow> string \<Rightarrow> 'id list \<Rightarrow> tar_stream result" where
  "tarReader ly obj ids =
     (if ids = [] then Inl (new_error ''seal: no age identity supplied'') else ly_read ly obj ids)"

text \<open>The first entry is read and must be the manifest; what is left of the stream is returned too.\<close>

definition readManifestEntry :: "manifest_codec \<Rightarrow> tar_stream \<Rightarrow> (Manifest \<times> tar_stream) result" where
  "readManifestEntry mc s =
     (case s of
        ([], e) \<Rightarrow> Inl ((stream_end e)\<lparr>err_msg := ''read first tar entry: '' @ err_msg (stream_end e)\<rparr>)
      | (hdr # rest, e) \<Rightarrow>
          if te_name hdr \<noteq> ManifestEntry
          then Inl (new_error (''first entry is '' @ quote (te_name hdr) @ '', want '' @ quote ManifestEntry @
                 '': manifest-first is the container contract''))
          else if te_size hdr > maxManifestBytes
          then Inl (new_error (''manifest claims '' @ itoa (te_size hdr) @ '' bytes, over the '' @
                 itoa maxManifestBytes @ '' limit''))
          else if int (length (te_body hdr)) < te_size hdr
          then (case e of
                  Some x \<Rightarrow> Inl (x\<lparr>err_msg := ''read manifest entry: '' @ err_msg x\<rparr>)
                | None \<Rightarrow> Inl (new_error (''manifest entry truncated: '' @ itoa (int (length (te_body hdr))) @
                    '' of '' @ itoa (te_size hdr) @ '' bytes'')))
          else (case DecodeManifest mc (take (nat (te_size hdr)) (te_body hdr)) of
                  Inl x \<Rightarrow> Inl x | Inr m \<Rightarrow> Inr (m, (rest, e))))"

text \<open>
  \<^verbatim>\<open>OpenTo\<close> streams the payload into a writer; here it is returned beside the manifest, and only
  when every check has passed.
\<close>

definition OpenTo :: "manifest_codec \<Rightarrow> 'id layers \<Rightarrow> string \<Rightarrow> 'id list \<Rightarrow> (Manifest \<times> string) result" where
  "OpenTo mc ly obj ids =
     (case tarReader ly obj ids of
        Inl e \<Rightarrow> Inl e
      | Inr s \<Rightarrow> (case readManifestEntry mc s of
          Inl e \<Rightarrow> Inl e
        | Inr (m, [], e) \<Rightarrow> Inl ((stream_end e)\<lparr>err_msg := ''seal: no payload entry: '' @ err_msg (stream_end e)\<rparr>)
        | Inr (m, hdr # rest, e) \<Rightarrow>
            if te_name hdr \<noteq> PayloadEntry
            then Inl (new_error (''seal: second entry is '' @ quote (te_name hdr) @ '', want '' @ quote PayloadEntry))
            else if te_size hdr \<noteq> mf_PayloadSize m \<or> te_size hdr > maxDecompressedBytes
            then Inl (new_error (''seal: payload entry is '' @ itoa (te_size hdr) @ '' bytes, manifest payload_size '' @
                   itoa (mf_PayloadSize m) @ '', limit '' @ itoa maxDecompressedBytes))
            else if int (length (te_body hdr)) < te_size hdr
            then Inl ((stream_end e)\<lparr>err_msg := ''seal: read payload: '' @ err_msg (stream_end e)\<rparr>)
            else let got = Hash (te_body hdr)
                 in if got \<noteq> mf_ShippedHash m
                    then Inl (new_error (''seal: payload hash '' @ got @ '' does not match manifest shipped_hash '' @
                           mf_ShippedHash m))
                    else Inr (m, te_body hdr)))"

definition ReadManifest :: "manifest_codec \<Rightarrow> 'id layers \<Rightarrow> string \<Rightarrow> 'id list \<Rightarrow> Manifest result" where
  "ReadManifest mc ly obj ids =
     (case tarReader ly obj ids of
        Inl e \<Rightarrow> Inl e
      | Inr s \<Rightarrow> map_sum id fst (readManifestEntry mc s))"

definition ReadManifestPrefix :: "manifest_codec \<Rightarrow> 'id layers \<Rightarrow> string \<Rightarrow> 'id list \<Rightarrow> Manifest result" where
  "ReadManifestPrefix mc ly pre ids =
     (case ReadManifest mc ly pre ids of
        Inl e \<Rightarrow> Inl (new_error (ErrPrefixTooShort @ '': '' @ err_msg e))
      | Inr m \<Rightarrow> Inr m)"

section \<open>Laws of the parameters\<close>

text \<open>
  What the code relies on: JSON gives back the struct it was written from, and the byte layers give
  back the entries they were written from to whoever holds an identity of one of the recipients.
\<close>

definition json_roundtrips :: "manifest_codec \<Rightarrow> bool" where
  "json_roundtrips mc \<longleftrightarrow> (\<forall>m raw. mc_marshal mc m = Inr raw \<longrightarrow> mc_unmarshal mc raw = Inr m)"

definition layers_roundtrip :: "'id layers \<Rightarrow> (Recipient \<Rightarrow> 'id) \<Rightarrow> bool" where
  "layers_roundtrip ly identity_of \<longleftrightarrow>
     (\<forall>es rs obj ids. ly_write ly es rs = Inr obj \<longrightarrow> set ids \<inter> identity_of ` set rs \<noteq> {} \<longrightarrow>
        ly_read ly obj ids = Inr (es, None))"

section \<open>What a seal guarantees\<close>

lemma Manifest_Encode_Inr:
  assumes "Manifest_Encode mc m = Inr raw" "mf_ManifestVersion m = ManifestVersion"
  shows "mc_marshal mc m = Inr raw \<and> validateManifestBytes mc raw = None"
  using assms
  by (auto simp: Manifest_Encode_def ManifestVersion_def Let_def split: sum.splits option.splits)

lemma DecodeManifest_Encode:
  assumes "json_roundtrips mc" "Manifest_Encode mc m = Inr raw" "mf_ManifestVersion m = ManifestVersion"
  shows "DecodeManifest mc raw = Inr m"
proof -
  note e = Manifest_Encode_Inr [OF assms(2,3)]
  with assms(1) have "mc_unmarshal mc raw = Inr m" unfolding json_roundtrips_def by blast
  with e assms(3) show ?thesis by (simp add: DecodeManifest_def)
qed

definition sealed_manifest :: "Manifest \<Rightarrow> Scrubbed \<Rightarrow> Recipient list \<Rightarrow> Manifest" where
  "sealed_manifest m s rs = fillEncryption
     (m\<lparr>mf_ShippedHash := Hash (sc_b s), mf_PayloadSize := int (length (sc_b s))\<rparr>) rs"

lemma sealed_manifest_fields [simp]:
  "mf_ShippedHash (sealed_manifest m s rs) = Hash (sc_b s)"
  "mf_PayloadSize (sealed_manifest m s rs) = int (length (sc_b s))"
  "mf_ManifestVersion (sealed_manifest m s rs) = mf_ManifestVersion m"
  "mf_SourceHash (sealed_manifest m s rs) = mf_SourceHash m"
  "mf_SourceID (sealed_manifest m s rs) = mf_SourceID m"
  "mf_PayloadMTime (sealed_manifest m s rs) = mf_PayloadMTime m"
  "mf_SealedAt (sealed_manifest m s rs) = mf_SealedAt m"
  by (simp_all add: sealed_manifest_def fillEncryption_def Let_def)

lemma Seal_Inr:
  assumes "Seal mc ly m s rs = Inr (obj, m')"
  obtains raw where "rs \<noteq> []" "sc_via s \<noteq> []" "mf_SealedAt m \<noteq> []" "m' = sealed_manifest m s rs"
    "Manifest_Encode mc m' = Inr raw"
    "ly_write ly (tar_entries raw (sc_b s) (mf_PayloadMTime m)) rs = Inr obj"
proof -
  from assms have guards: "rs \<noteq> []" "sc_via s \<noteq> []" "mf_SealedAt m \<noteq> []"
    by (auto simp: Seal_def Let_def split: if_splits)
  with assms obtain raw where "Manifest_Encode mc (sealed_manifest m s rs) = Inr raw"
    "ly_write ly (tar_entries raw (sc_b s) (mf_PayloadMTime (sealed_manifest m s rs))) rs = Inr obj"
    "m' = sealed_manifest m s rs"
    by (auto simp: Seal_def Let_def sealed_manifest_def writeContainer_def split: sum.splits)
  with guards that show ?thesis by simp
qed

lemma Seal_guards:
  assumes "Seal mc ly m s rs = Inr (obj, m')"
  shows "rs \<noteq> [] \<and> sc_via s \<noteq> [] \<and> m' = sealed_manifest m s rs"
  using Seal_Inr [OF assms] by metis

lemma readManifestEntry_tar:
  assumes "DecodeManifest mc raw = Inr m" "int (length raw) \<le> maxManifestBytes"
  shows "readManifestEntry mc (tar_entries raw payload t, None) = Inr (m, (tl (tar_entries raw payload t), None))"
  using assms by (simp add: readManifestEntry_def tar_entries_def Let_def)

section \<open>Properties\<close>


definition demo_client :: Client where
  "demo_client = \<lparr>cl_Version = ''1.0.0'', cl_Commit = [], cl_Modified = False, cl_GoVersion = [],
     cl_OS = ''linux'', cl_Arch = ''amd64''\<rparr>"

definition demo_manifest :: Manifest where
  "demo_manifest = \<lparr>mf_ManifestVersion = 1, mf_OrganizationID = ''org'', mf_InstallID = ''inst'',
     mf_SourceID = ''src'', mf_SourceFamily = [], mf_NativePath = ''/a'', mf_Gather = ''glob'',
     mf_ArtifactClass = ''transcript'', mf_SourceHash = ''00'', mf_ShippedHash = [], mf_PayloadSize = 0,
     mf_PayloadMTime = None, mf_AgentVersion = [], mf_ShapeSniff = ''ok'', mf_Repository = None,
     mf_Redaction = None, mf_Encryption = None, mf_Client = demo_client, mf_ConfigVersion = 1,
     mf_ConfigExpired = False, mf_SealedAt = ''2026-01-01T00:00:00Z'', mf_RunID = [], mf_Derived = False,
     mf_Enricher = None, mf_DerivedFrom = [], mf_EnrichStatus = [], mf_EnrichMismatches = 0,
     mf_DBProvenance = None, mf_EnrichRepeats = 0, mf_EnrichTail = 0, mf_EnrichAmbiguous = 0,
     mf_EnrichLineDecodeErrors = 0\<rparr>"

definition demo_payload :: Scrubbed where
  "demo_payload = \<lparr>sc_b = ''hello'', sc_via = ''scrubber''\<rparr>"

definition demo_recipient :: Recipient where
  "demo_recipient = \<lparr>rc_String = Some ''age1demo'', rc_Type = ''*age.X25519Recipient''\<rparr>"

text \<open>A codec that knows one manifest, and layers that know one archive.\<close>

definition demo_mc :: manifest_codec where
  "demo_mc = \<lparr>mc_marshal = (\<lambda>m. if m = sealed_manifest demo_manifest demo_payload [demo_recipient]
                             then Inr ''{}'' else Inl (new_error ''unknown'')),
     mc_validate = (\<lambda>raw. None),
     mc_unmarshal = (\<lambda>raw. Inr (sealed_manifest demo_manifest demo_payload [demo_recipient]))\<rparr>"

definition demo_ly :: "string layers" where
  "demo_ly = \<lparr>ly_write = (\<lambda>es rs. if es = tar_entries ''{}'' ''hello'' None then Inr ''sealed''
                             else Inl (new_error ''unknown'')),
     ly_read = (\<lambda>obj ids. Inr (tar_entries ''{}'' ''hello'' None, None))\<rparr>"

lemma demo_sealed_version: "mf_ManifestVersion (sealed_manifest demo_manifest demo_payload [demo_recipient]) = 1"
  by (simp add: demo_manifest_def)

lemma demo_sealed:
  "Seal demo_mc demo_ly demo_manifest demo_payload [demo_recipient]
     = Inr (''sealed'', sealed_manifest demo_manifest demo_payload [demo_recipient])"
proof -
  let ?m = "sealed_manifest demo_manifest demo_payload [demo_recipient]"
  have "Manifest_Encode demo_mc ?m = Inr ''{}''"
    using demo_sealed_version
    by (simp add: Manifest_Encode_def Let_def validateManifestBytes_def demo_mc_def)
  moreover have "writeContainer demo_ly ''{}'' (sc_b demo_payload) (mf_PayloadMTime ?m) [demo_recipient]
      = Inr ''sealed''"
    by (simp add: writeContainer_def demo_ly_def demo_payload_def demo_manifest_def)
  moreover have "mf_SealedAt demo_manifest \<noteq> []" "sc_via demo_payload \<noteq> []"
    by (simp_all add: demo_manifest_def demo_payload_def)
  ultimately show ?thesis
    by (simp add: Seal_def Let_def sealed_manifest_def [symmetric])
qed

lemma demo_laws: "json_roundtrips demo_mc" "layers_roundtrip demo_ly recipientID"
  by (auto simp: json_roundtrips_def layers_roundtrip_def demo_mc_def demo_ly_def split: if_splits)


end
