(* ===== verification/Prepare.thy ===== *)
theory Prepare
  imports Seal Commit_Buffer
begin

text \<open>
  The compute leg of a run, \<^verbatim>\<open>src/internal/engine/file.go\<close> and \<^verbatim>\<open>manifest.go\<close>: what is decided about
  one candidate between change detection and the sealed object that waits for an upload slot.
  A candidate's \<^verbatim>\<open>Load\<close> and the compiled scrubber are function values in the code and stay so
  here; the clock may answer each of the readings of one call differently.
\<close>

section \<open>Sources and candidates\<close>

record Payload =
  pl_Bytes :: string
  pl_MTime :: gotime
  pl_Warning :: string
  pl_Compare :: "string option"

record Candidate =
  ca_CWD :: string
  ca_Repository :: "Repository option"
  ca_AlwaysLoad :: bool
  ca_Path :: string
  ca_RelPath :: string
  ca_Identity :: string
  ca_Series :: string
  ca_Load :: "Payload result"
  ca_Size :: int
  ca_MTime :: gotime

text \<open>A resolved source: the compiled spec with configuration applied, less the fields only discovery reads.\<close>

record Resolved =
  src_ID :: string
  src_Family :: string
  src_Gather :: string
  src_ArtifactClass :: string
  src_MaxFileBytes :: int
  src_SniffKind :: "string option"
  src_Enrichers :: "(string, bool) gomap"
  src_Scrub :: "bool option"
  src_Emit :: string
  src_Root :: string
  src_Enabled :: bool
  src_SpecFingerprint :: string

record Oversize =
  ov_RelPath :: string
  ov_Size :: int
  ov_Limit :: int

record Discovery =
  di_Health :: HealthState
  di_Oversize :: "Oversize list"
  di_Unreadable :: int
  di_UnreadableExample :: string
  di_UnreadableReason :: string
  di_Sniff :: SniffResult
  di_AgentVersion :: string
  di_Candidates :: "Candidate list"
  di_Reason :: string

section \<open>The scrubber\<close>

record Hint =
  hi_Family :: string
  hi_JSONL :: bool

record Result =
  re_Out :: Scrubbed
  re_BytesRedacted :: int
  re_BytesTotal :: int
  re_RuleHits :: "(string, int) gomap"
  re_ScanMode :: string
  re_LinesParsed :: int
  re_LinesRawScanned :: int

definition Density :: "Result \<Rightarrow> density" where
  "Density r = (if re_BytesTotal r = 0 then (0, 0) else (re_BytesRedacted r, re_BytesTotal r))"

text \<open>The compiled scrubber, or the error its compilation ended with.\<close>

type_synonym scrubber = "goerr + (string \<Rightarrow> Hint \<Rightarrow> Result result)"

definition scrubSource :: "Resolved \<Rightarrow> string \<Rightarrow> bool \<Rightarrow> scrubber \<Rightarrow> Result result" where
  "scrubSource src raw jsonl scrub =
     (if src_Scrub src = Some False
      then Inr \<lparr>re_Out = Unscrubbed raw ''source scrub: false'', re_BytesRedacted = 0,
                re_BytesTotal = int (length raw), re_RuleHits = [], re_ScanMode = [], re_LinesParsed = 0, re_LinesRawScanned = 0\<rparr>
      else (case scrub of
              Inl scrubErr \<Rightarrow> Inl scrubErr
            | Inr f \<Rightarrow> f raw \<lparr>hi_Family = src_Family src, hi_JSONL = jsonl\<rparr>))"

section \<open>Options of a run\<close>

text \<open>The readings of the clock one file can make.\<close>

datatype clock_site = AtPark | AtStat | AtBackoff | AtSeal

record Plan =
  pn_OrganizationID :: string
  pn_StateDir :: string
  pn_MaxFilesPerRun :: int
  pn_Sources :: "Resolved list"
  pn_ConfigVersion :: int
  pn_ConfigExpired :: bool

record 'id Options =
  op_Plan :: Plan
  op_InstallID :: string
  op_NameKey :: string
  op_Recipients :: "Recipient list"
  op_Unbounded :: bool
  op_DryRun :: bool
  op_RunID :: string
  op_Workers :: int
  op_UploadWorkers :: int
  op_Client :: Client
  op_user :: string
  op_scrub :: scrubber
  op_Log :: bool
  op_mc :: manifest_codec
  op_ly :: "'id layers"
  op_MaxInFlightBytes :: int

definition orgOf :: "Plan \<Rightarrow> string" where
  "orgOf p = (if pn_OrganizationID p = [] then ''default'' else pn_OrganizationID p)"

definition KeyOf :: "string \<Rightarrow> Candidate \<Rightarrow> Key" where
  "KeyOf sourceID c = Key sourceID (cmp_or [ca_Identity c, ca_Series c, ca_Path c])"

section \<open>Backoff\<close>

text \<open>FNV-1a, 64 bit.\<close>

definition fnv_offset :: "64 word" where "fnv_offset = 14695981039346656037"
definition fnv_prime :: "64 word" where "fnv_prime = 1099511628211"

definition fnv64a :: "64 word \<Rightarrow> string \<Rightarrow> 64 word" where
  "fnv64a = foldl (\<lambda>h c. (xor h (of_char c)) * fnv_prime)"

definition keySpread :: "Key \<Rightarrow> 64 word" where
  "keySpread k = fnv64a (fnv64a fnv_offset (SourceID k)) (ID k)"

definition backoffCap :: duration where "backoffCap = hour"

text \<open>A shift by a negative count panics, which is \<^const>\<open>None\<close>.\<close>

definition backoffFor :: "int \<Rightarrow> 64 word \<Rightarrow> duration option" where
  "backoffFor attempt spread =
     (if min attempt 8 < 0 then None
      else let d = min (minute * 2 ^ nat (min attempt 8)) backoffCap;
               jitter = (uint spread mod 9 * d) div 64
           in Some (d - jitter))"

section \<open>Results\<close>

datatype intentKind = intentNone | intentRefresh | intentShipped | intentBackoff

record intent =
  in_kind :: intentKind
  in_key :: Key
  in_fp :: Fingerprint
  in_reason :: string

definition no_intent :: intent where
  "no_intent = \<lparr>in_kind = intentNone, in_key = Key [] [], in_fp = zero_fp, in_reason = []\<rparr>"

record RawUnit =
  ru_NativePath :: string
  ru_Content :: string
  ru_SourceHash :: string

record pendingPut =
  pp_key :: Key
  pp_objectKey :: string
  pp_obj :: string
  pp_md :: "(string, string) gomap"
  pp_next :: Fingerprint

record fileJob =
  jb_idx :: nat
  jb_cand :: Candidate
  jb_fp :: Fingerprint
  jb_seen :: bool

record fileResult =
  fr_idx :: nat
  fr_outcome :: FileOutcome
  fr_intent :: intent
  fr_unit :: "RawUnit option"
  fr_unavailable :: bool
  fr_offline :: bool
  fr_loadWarning :: string

definition recomputeWindow :: duration where "recomputeWindow = 24 * hour"

definition unchangedByStat ::
  "gotime \<Rightarrow> Key \<Rightarrow> Fingerprint \<Rightarrow> bool \<Rightarrow> Candidate \<Rightarrow> bool \<Rightarrow> bool" where
  "unchangedByStat now key fp seen cand staging \<longleftrightarrow>
     seen \<and> fp_SourceSize fp = ca_Size cand \<and> fp_SourceMTime fp = ca_MTime cand \<and>
     fp_SourceHash fp \<noteq> [] \<and> ca_Path cand = observedPath key fp \<and>
     \<not> (staging \<and> now - ca_MTime cand < recomputeWindow)"

text \<open>\<^verbatim>\<open>failAndBackOff\<close>: parked, and a backoff recorded unless nothing may be. A panic is \<^const>\<open>None\<close>.\<close>

definition failAndBackOff ::
  "bool \<Rightarrow> gotime \<Rightarrow> fileResult \<Rightarrow> Key \<Rightarrow> Fingerprint \<Rightarrow> string \<Rightarrow> fileResult option" where
  "failAndBackOff dry now res key fp reason =
     (let res = res\<lparr>fr_outcome := (fr_outcome res)\<lparr>fo_Decision := DecisionParked, fo_Reason := reason\<rparr>\<rparr>
      in if dry then Some res
         else let attempts = fp_Attempts fp + 1
              in case backoffFor attempts (keySpread key) of
                   None \<Rightarrow> None
                 | Some d \<Rightarrow>
                     Some (res\<lparr>fr_intent := \<lparr>in_kind = intentBackoff, in_key = key,
                       in_fp = fp\<lparr>fp_NativePath := fo_NativePath (fr_outcome res),
                                  fp_Attempts := attempts, fp_Parked := True, fp_LastError := reason,
                                  fp_BackoffUntil := now + d\<rparr>,
                       in_reason = reason\<rparr>\<rparr>))"

section \<open>Manifests\<close>

definition baseManifest :: "'id Options \<Rightarrow> gotime \<Rightarrow> Resolved \<Rightarrow> string \<Rightarrow> Manifest" where
  "baseManifest opt now src nativePath =
     \<lparr>mf_ManifestVersion = ManifestVersion, mf_OrganizationID = orgOf (op_Plan opt),
      mf_InstallID = op_InstallID opt, mf_SourceID = src_ID src, mf_SourceFamily = src_Family src,
      mf_NativePath = ApplyUserPlaceholder nativePath (op_user opt), mf_Gather = src_Gather src,
      mf_ArtifactClass = src_ArtifactClass src, mf_SourceHash = [], mf_ShippedHash = [],
      mf_PayloadSize = 0, mf_PayloadMTime = None, mf_AgentVersion = [], mf_ShapeSniff = [],
      mf_Repository = None, mf_Redaction = None, mf_Encryption = None, mf_Client = op_Client opt,
      mf_ConfigVersion = pn_ConfigVersion (op_Plan opt), mf_ConfigExpired = pn_ConfigExpired (op_Plan opt),
      mf_SealedAt = format_rfc3339 now, mf_RunID = op_RunID opt, mf_Derived = False, mf_Enricher = None,
      mf_DerivedFrom = [], mf_EnrichStatus = [], mf_EnrichMismatches = 0, mf_DBProvenance = None,
      mf_EnrichRepeats = 0, mf_EnrichTail = 0, mf_EnrichAmbiguous = 0, mf_EnrichLineDecodeErrors = 0\<rparr>"

definition mirrorKey :: "'id Options \<Rightarrow> string \<Rightarrow> string \<Rightarrow> string result" where
  "mirrorKey opt sourceID relPath =
     MirrorKey (orgOf (op_Plan opt)) (op_InstallID opt) sourceID (op_NameKey opt) (CanonicalPath relPath (op_user opt))"

definition manifestFor ::
  "'id Options \<Rightarrow> gotime \<Rightarrow> Resolved \<Rightarrow> Candidate \<Rightarrow> Discovery \<Rightarrow> string \<Rightarrow> gotime \<Rightarrow> Result \<Rightarrow> Manifest" where
  "manifestFor opt now src cand disc sourceHash mtime res =
     (let m = (baseManifest opt now src (ca_Path cand))
                \<lparr>mf_SourceHash := sourceHash, mf_PayloadMTime := Some mtime,
                 mf_AgentVersion := di_AgentVersion disc, mf_ShapeSniff := sniff_string (di_Sniff disc)\<rparr>;
          m = (if src_Scrub src \<noteq> Some False
               then m\<lparr>mf_Redaction := Some \<lparr>rs_Density = Density res, rs_RuleHits = re_RuleHits res,
                                            rs_ScanMode = re_ScanMode res\<rparr>\<rparr>
               else m);
          m = (if mf_ShapeSniff m = [] then m\<lparr>mf_ShapeSniff := sniff_string SniffOK\<rparr> else m)
      in case ca_Repository cand of
           None \<Rightarrow> m
         | Some r \<Rightarrow> m\<lparr>mf_Repository := Some (r\<lparr>
               repo_GitDir := ApplyUserPlaceholder (repo_GitDir r) (op_user opt),
               repo_MainWorktree := ApplyUserPlaceholder (repo_MainWorktree r) (op_user opt)\<rparr>)\<rparr>)"

section \<open>The compute leg\<close>

definition refreshed :: "Candidate \<Rightarrow> Fingerprint \<Rightarrow> Fingerprint" where
  "refreshed cand fp = fp\<lparr>fp_NativePath := ca_Path cand, fp_SourceSize := ca_Size cand,
     fp_SourceMTime := ca_MTime cand, fp_Parked := False, fp_LastError := [], fp_BackoffUntil := 0,
     fp_Attempts := 0\<rparr>"

text \<open>
  \<^verbatim>\<open>prepareFile\<close> from the moment the content is known to have changed: scrub, name, seal. The
  result so far carries the warning, the size and the staged unit.
\<close>

definition prepareChanged ::
  "'id Options \<Rightarrow> (clock_site \<Rightarrow> gotime) \<Rightarrow> fileJob \<Rightarrow> Resolved \<Rightarrow> Discovery \<Rightarrow> Payload \<Rightarrow> string \<Rightarrow> string \<Rightarrow>
   fileResult \<Rightarrow> (fileResult \<times> pendingPut option) option" where
  "prepareChanged opt now job src disc payload sourceHash changeHash res0 =
     (let cand = jb_cand job; fp = jb_fp job; key = KeyOf (src_ID src) cand;
          out = fr_outcome res0;
          out = (if jb_seen job \<and> ca_Size cand < fp_SourceSize fp \<and> ca_Path cand = observedPath key fp
                 then out\<lparr>fo_Reason := ''file shrank: truncation or rewrite''\<rparr> else out);
          jsonl = (src_SniffKind src = Some ''jsonl'')
      in case scrubSource src (pl_Bytes payload) jsonl (op_scrub opt) of
           Inl e \<Rightarrow>
             map_option (\<lambda>r. (r, None))
               (failAndBackOff (op_DryRun opt) (now AtBackoff) (res0\<lparr>fr_outcome := out\<rparr>) key fp
                  (''scrub failed closed: '' @ err_msg e))
         | Inr scrubbed \<Rightarrow>
             (let out = out\<lparr>fo_Density := Density scrubbed, fo_RuleHits := re_RuleHits scrubbed\<rparr>
              in case mirrorKey opt (src_ID src) (cmp_or [ca_Identity cand, ca_RelPath cand]) of
                   Inl e \<Rightarrow> Some (res0\<lparr>fr_outcome := out\<lparr>fo_Decision := DecisionFailed, fo_Reason := err_msg e\<rparr>\<rparr>, None)
                 | Inr objectKey \<Rightarrow>
                     (let out = out\<lparr>fo_ObjectKey := objectKey\<rparr>;
                          manifest = manifestFor opt (now AtSeal) src cand disc sourceHash (pl_MTime payload) scrubbed
                      in case Seal (op_mc opt) (op_ly opt) manifest (re_Out scrubbed) (op_Recipients opt) of
                           Inl e \<Rightarrow> Some (res0\<lparr>fr_outcome := out\<lparr>fo_Decision := DecisionFailed, fo_Reason := err_msg e\<rparr>\<rparr>, None)
                         | Inr (obj, sealed) \<Rightarrow>
                             (let out = out\<lparr>fo_BytesOut := int (length obj)\<rparr>
                              in if op_DryRun opt
                                 then Some (res0\<lparr>fr_outcome := out\<lparr>fo_Decision := DecisionShipped,
                                        fo_Reason := (if fo_Reason out = [] then ''would ship (preview)''
                                                      else fo_Reason out)\<rparr>\<rparr>, None)
                                 else Some (res0\<lparr>fr_outcome := out\<rparr>,
                                        Some \<lparr>pp_key = key, pp_objectKey = objectKey, pp_obj = obj,
                                          pp_md = ObjectMetadata sealed,
                                          pp_next = zero_fp\<lparr>fp_NativePath := ca_Path cand,
                                            fp_SourceSize := ca_Size cand, fp_SourceMTime := ca_MTime cand,
                                            fp_SourceHash := changeHash\<rparr>\<rparr>)))))"

definition start_result :: "fileJob \<Rightarrow> Resolved \<Rightarrow> fileResult" where
  "start_result job src = \<lparr>fr_idx = jb_idx job,
     fr_outcome = zero_outcome\<lparr>fo_SourceID := src_ID src, fo_NativePath := ca_Path (jb_cand job),
                               fo_RelPath := ca_RelPath (jb_cand job)\<rparr>,
     fr_intent = no_intent, fr_unit = None, fr_unavailable = False, fr_offline = False,
     fr_loadWarning = []\<rparr>"

definition decided :: "Decision \<Rightarrow> string \<Rightarrow> fileResult \<Rightarrow> fileResult" where
  "decided d reason res = res\<lparr>fr_outcome := (fr_outcome res)\<lparr>fo_Decision := d, fo_Reason := reason\<rparr>\<rparr>"

text \<open>\<^verbatim>\<open>prepareFile\<close>. \<^const>\<open>None\<close> is the panic of a negative shift, nothing else.\<close>

definition prepareFile ::
  "'id Options \<Rightarrow> (clock_site \<Rightarrow> gotime) \<Rightarrow> fileJob \<Rightarrow> Resolved \<Rightarrow> Discovery \<Rightarrow> bool \<Rightarrow>
   (fileResult \<times> pendingPut option) option" where
  "prepareFile opt now job src disc staging =
     (let cand = jb_cand job; fp = jb_fp job; key = KeyOf (src_ID src) cand;
          res = start_result job src;
          newSnapshot = (ca_Series cand \<noteq> [] \<and> ca_Path cand \<noteq> observedPath key fp)
      in if fp_Parked fp \<and> now AtPark < fp_BackoffUntil fp \<and> \<not> newSnapshot
         then Some (decided DecisionSkipped (''parked until '' @ format_rfc3339 (fp_BackoffUntil fp) @ '': '' @
                      fp_LastError fp) res, None)
         else if \<not> ca_AlwaysLoad cand \<and> unchangedByStat (now AtStat) key fp (jb_seen job) cand staging
         then Some (decided DecisionUnchanged ''size and mtime unchanged'' res, None)
         else (case ca_Load cand of
                 Inl e \<Rightarrow> map_option (\<lambda>r. (r, None))
                            (failAndBackOff (op_DryRun opt) (now AtBackoff) res key fp (err_msg e))
               | Inr payload \<Rightarrow>
                   (let raw = pl_Bytes payload; sourceHash = Hash raw;
                        changeHash = (case pl_Compare payload of Some c \<Rightarrow> Hash c | None \<Rightarrow> sourceHash);
                        res = res\<lparr>fr_loadWarning := pl_Warning payload,
                                  fr_outcome := (fr_outcome res)\<lparr>fo_Reason := pl_Warning payload,
                                                                 fo_BytesIn := int (length raw)\<rparr>,
                                  fr_unit := (if staging
                                              then Some \<lparr>ru_NativePath = ca_Path cand, ru_Content = raw,
                                                         ru_SourceHash = sourceHash\<rparr>
                                              else None)\<rparr>
                    in if jb_seen job \<and> changeHash = fp_SourceHash fp
                       then (let res = decided DecisionUnchanged ''content hash unchanged'' res
                             in Some (if op_DryRun opt then res
                                      else res\<lparr>fr_intent := \<lparr>in_kind = intentRefresh, in_key = key,
                                                  in_fp = refreshed cand fp, in_reason = []\<rparr>\<rparr>, None))
                       else prepareChanged opt now job src disc payload sourceHash changeHash res)))"

section \<open>Backoff is bounded\<close>

lemma backoffFor_total: "0 \<le> a \<Longrightarrow> \<exists>d. backoffFor a s = Some d"
  by (simp add: backoffFor_def Let_def)

lemma jitter_bounds:
  fixes d s :: int
  assumes "0 \<le> d"
  shows "0 \<le> (s mod 9 * d) div 64" "(s mod 9 * d) div 64 \<le> d div 8"
proof -
  have s: "0 \<le> s mod 9" "s mod 9 \<le> 8" by simp_all
  then have "s mod 9 * d \<le> 8 * d" using assms by (intro mult_right_mono) auto
  then have "(s mod 9 * d) div 64 \<le> (8 * d) div 64" by (rule zdiv_mono1) simp
  then show "(s mod 9 * d) div 64 \<le> d div 8" by simp
  show "0 \<le> (s mod 9 * d) div 64" using s(1) assms by (simp add: pos_imp_zdiv_nonneg_iff)
qed

definition backoff_step :: "int \<Rightarrow> duration" where
  "backoff_step a = min (minute * 2 ^ nat (min a 8)) backoffCap"

lemma backoff_step_nonneg: "0 \<le> backoff_step a"
  by (simp add: backoff_step_def backoffCap_def duration_defs)

lemma backoffFor_bounds:
  assumes "0 \<le> a"
  shows "\<exists>x. backoffFor a s = Some x \<and> backoff_step a - backoff_step a div 8 \<le> x \<and> x \<le> backoff_step a"
proof -
  have "backoffFor a s = Some (backoff_step a - (uint s mod 9 * backoff_step a) div 64)"
    using assms by (simp add: backoffFor_def Let_def backoff_step_def [symmetric])
  with jitter_bounds [OF backoff_step_nonneg, of "uint s" a] show ?thesis by simp
qed

section \<open>The exits of the compute leg\<close>

text \<open>The intent a failed read or scrub leaves: one attempt more, and nothing said about what shipped.\<close>

definition backoff_intent :: "gotime \<Rightarrow> Key \<Rightarrow> Fingerprint \<Rightarrow> intent \<Rightarrow> bool" where
  "backoff_intent now key fp i \<longleftrightarrow>
     in_kind i = intentBackoff \<and> in_key i = key \<and> fp_SourceHash (in_fp i) = fp_SourceHash fp \<and>
     fp_Parked (in_fp i) \<and> fp_Attempts (in_fp i) = fp_Attempts fp + 1 \<and>
     (\<exists>d. backoffFor (fp_Attempts fp + 1) (keySpread key) = Some d \<and> fp_BackoffUntil (in_fp i) = now + d)"

lemma failAndBackOff_Some:
  assumes "failAndBackOff dry now res key fp reason = Some r"
  shows "fo_Decision (fr_outcome r) = DecisionParked \<and> fr_idx r = fr_idx res \<and> fr_unit r = fr_unit res \<and>
    fr_unavailable r = fr_unavailable res \<and> fo_Fatal (fr_outcome r) = fo_Fatal (fr_outcome res) \<and>
    (if dry then fr_intent r = fr_intent res else backoff_intent now key fp (fr_intent r))"
  using assms by (auto simp: failAndBackOff_def backoff_intent_def Let_def split: if_splits option.splits)

lemma failAndBackOff_total: "0 \<le> fp_Attempts fp \<Longrightarrow> \<exists>r. failAndBackOff dry now res key fp reason = Some r"
  using backoffFor_total [of "fp_Attempts fp + 1" "keySpread key"]
  by (auto simp: failAndBackOff_def Let_def)

lemma prepareChanged_pending:
  assumes "prepareChanged opt now job src disc payload sh ch res0 = Some (res, Some p)"
  obtains scrubbed sealed where
    "scrubSource src (pl_Bytes payload) (src_SniffKind src = Some ''jsonl'') (op_scrub opt) = Inr scrubbed"
    "mirrorKey opt (src_ID src) (cmp_or [ca_Identity (jb_cand job), ca_RelPath (jb_cand job)]) = Inr (pp_objectKey p)"
    "Seal (op_mc opt) (op_ly opt) (manifestFor opt (now AtSeal) src (jb_cand job) disc sh (pl_MTime payload) scrubbed)
       (re_Out scrubbed) (op_Recipients opt) = Inr (pp_obj p, sealed)"
    "pp_md p = ObjectMetadata sealed" "pp_key p = KeyOf (src_ID src) (jb_cand job)"
    "pp_next p = zero_fp\<lparr>fp_NativePath := ca_Path (jb_cand job), fp_SourceSize := ca_Size (jb_cand job),
                         fp_SourceMTime := ca_MTime (jb_cand job), fp_SourceHash := ch\<rparr>"
    "\<not> op_DryRun opt" "fr_intent res = fr_intent res0" "fr_idx res = fr_idx res0"
proof -
  note pc = assms [unfolded prepareChanged_def Let_def]
  obtain scrubbed where s: "scrubSource src (pl_Bytes payload) (src_SniffKind src = Some ''jsonl'') (op_scrub opt) = Inr scrubbed"
    using pc by (cases "scrubSource src (pl_Bytes payload) (src_SniffKind src = Some ''jsonl'') (op_scrub opt)") auto
  note pc = pc [unfolded s sum.case]
  obtain k where k: "mirrorKey opt (src_ID src) (cmp_or [ca_Identity (jb_cand job), ca_RelPath (jb_cand job)]) = Inr k"
    using pc by (cases "mirrorKey opt (src_ID src) (cmp_or [ca_Identity (jb_cand job), ca_RelPath (jb_cand job)])") auto
  note pc = pc [unfolded k sum.case]
  obtain obj sealed where o: "Seal (op_mc opt) (op_ly opt) (manifestFor opt (now AtSeal) src (jb_cand job) disc sh (pl_MTime payload) scrubbed)
       (re_Out scrubbed) (op_Recipients opt) = Inr (obj, sealed)"
    using pc by (cases "Seal (op_mc opt) (op_ly opt) (manifestFor opt (now AtSeal) src (jb_cand job) disc sh (pl_MTime payload) scrubbed)
       (re_Out scrubbed) (op_Recipients opt)") auto
  note pc = pc [unfolded o sum.case prod.case]
  from pc have "\<not> op_DryRun opt" by (auto split: if_splits)
  with pc s k o show ?thesis by (intro that [of scrubbed sealed]) auto
qed

text \<open>What a settled result of \<^const>\<open>prepareChanged\<close> says, whichever exit it took.\<close>

definition settled_from ::
  "bool \<Rightarrow> gotime \<Rightarrow> Key \<Rightarrow> Fingerprint \<Rightarrow> fileResult \<Rightarrow> fileResult \<Rightarrow> bool" where
  "settled_from dry now key fp res0 res \<longleftrightarrow>
     fr_idx res = fr_idx res0 \<and> fo_Decision (fr_outcome res) \<in> {DecisionFailed, DecisionParked, DecisionShipped} \<and>
     (fo_Decision (fr_outcome res) = DecisionShipped \<longrightarrow> dry) \<and>
     fr_unavailable res = fr_unavailable res0 \<and> fo_Fatal (fr_outcome res) = fo_Fatal (fr_outcome res0) \<and>
     (fr_intent res = fr_intent res0 \<or> \<not> dry \<and> backoff_intent now key fp (fr_intent res))"

lemma prepareChanged_settled:
  assumes "prepareChanged opt now job src disc payload sh ch res0 = Some (res, None)"
  shows "settled_from (op_DryRun opt) (now AtBackoff) (KeyOf (src_ID src) (jb_cand job)) (jb_fp job) res0 res"
proof -
  note pc = assms [unfolded prepareChanged_def Let_def]
  let ?k = "cmp_or [ca_Identity (jb_cand job), ca_RelPath (jb_cand job)]"
  show ?thesis
  proof (cases "scrubSource src (pl_Bytes payload) (src_SniffKind src = Some ''jsonl'') (op_scrub opt)")
    case (Inl e)
    note pc = pc [unfolded Inl sum.case]
    then show ?thesis by (auto dest!: failAndBackOff_Some simp: settled_from_def split: if_splits)
  next
    case (Inr scrubbed)
    note pc = pc [unfolded Inr sum.case]
    show ?thesis
    proof (cases "mirrorKey opt (src_ID src) ?k")
      case (Inl e)
      with pc show ?thesis by (auto simp: settled_from_def split: if_splits)
    next
      case (Inr k)
      note pc = pc [unfolded Inr sum.case]
      show ?thesis
      proof (cases "Seal (op_mc opt) (op_ly opt) (manifestFor opt (now AtSeal) src (jb_cand job) disc sh
           (pl_MTime payload) scrubbed) (re_Out scrubbed) (op_Recipients opt)")
        case (Inl e)
        with pc show ?thesis by (auto simp: settled_from_def split: if_splits)
      next
        case (Inr os)
        with pc show ?thesis by (cases os) (auto simp: settled_from_def split: if_splits)
      qed
    qed
  qed
qed

text \<open>
  The exits of \<^const>\<open>prepareFile\<close>: waiting out a backoff, unchanged by its stat, a failed load, an
  unchanged hash, or the rest of the leg on changed content.
\<close>

definition change_hash :: "Payload \<Rightarrow> string" where
  "change_hash payload = (case pl_Compare payload of Some c \<Rightarrow> Hash c | None \<Rightarrow> Hash (pl_Bytes payload))"

definition loaded_result :: "fileJob \<Rightarrow> Resolved \<Rightarrow> bool \<Rightarrow> Payload \<Rightarrow> fileResult" where
  "loaded_result job src staging payload =
     (let res = start_result job src
      in res\<lparr>fr_loadWarning := pl_Warning payload,
             fr_outcome := (fr_outcome res)\<lparr>fo_Reason := pl_Warning payload,
                                            fo_BytesIn := int (length (pl_Bytes payload))\<rparr>,
             fr_unit := (if staging then Some \<lparr>ru_NativePath = ca_Path (jb_cand job), ru_Content = pl_Bytes payload,
                                              ru_SourceHash = Hash (pl_Bytes payload)\<rparr> else None)\<rparr>)"

lemma start_result_simps [simp]:
  "fr_idx (start_result job src) = jb_idx job" "fr_intent (start_result job src) = no_intent"
  "fr_unavailable (start_result job src) = False" "fo_Fatal (fr_outcome (start_result job src)) = False"
  by (simp_all add: start_result_def zero_outcome_def)

lemma loaded_result_simps [simp]:
  "fr_idx (loaded_result job src staging p) = jb_idx job" "fr_intent (loaded_result job src staging p) = no_intent"
  "fr_unavailable (loaded_result job src staging p) = False"
  "fo_Fatal (fr_outcome (loaded_result job src staging p)) = False"
  by (simp_all add: loaded_result_def Let_def)

lemma no_intent_kind [simp]: "in_kind no_intent = intentNone"
  by (simp add: no_intent_def)

definition waits :: "(clock_site \<Rightarrow> gotime) \<Rightarrow> fileJob \<Rightarrow> Resolved \<Rightarrow> bool" where
  "waits now job src \<longleftrightarrow> fp_Parked (jb_fp job) \<and> now AtPark < fp_BackoffUntil (jb_fp job) \<and>
     (ca_Series (jb_cand job) = [] \<or>
      ca_Path (jb_cand job) = observedPath (KeyOf (src_ID src) (jb_cand job)) (jb_fp job))"

definition stat_unchanged :: "(clock_site \<Rightarrow> gotime) \<Rightarrow> fileJob \<Rightarrow> Resolved \<Rightarrow> bool \<Rightarrow> bool" where
  "stat_unchanged now job src staging \<longleftrightarrow> \<not> ca_AlwaysLoad (jb_cand job) \<and>
     unchangedByStat (now AtStat) (KeyOf (src_ID src) (jb_cand job)) (jb_fp job) (jb_seen job) (jb_cand job) staging"

lemma prepareFile_alt:
  "prepareFile opt now job src disc staging =
     (if waits now job src
      then Some (decided DecisionSkipped (''parked until '' @ format_rfc3339 (fp_BackoffUntil (jb_fp job)) @
             '': '' @ fp_LastError (jb_fp job)) (start_result job src), None)
      else if stat_unchanged now job src staging
      then Some (decided DecisionUnchanged ''size and mtime unchanged'' (start_result job src), None)
      else (case ca_Load (jb_cand job) of
          Inl e \<Rightarrow> map_option (\<lambda>r. (r, None)) (failAndBackOff (op_DryRun opt) (now AtBackoff) (start_result job src)
                     (KeyOf (src_ID src) (jb_cand job)) (jb_fp job) (err_msg e))
        | Inr payload \<Rightarrow>
            if jb_seen job \<and> change_hash payload = fp_SourceHash (jb_fp job)
            then Some (let res = decided DecisionUnchanged ''content hash unchanged'' (loaded_result job src staging payload)
                       in if op_DryRun opt then res
                          else res\<lparr>fr_intent := \<lparr>in_kind = intentRefresh, in_key = KeyOf (src_ID src) (jb_cand job),
                                     in_fp = refreshed (jb_cand job) (jb_fp job), in_reason = []\<rparr>\<rparr>, None)
            else prepareChanged opt now job src disc payload (Hash (pl_Bytes payload)) (change_hash payload)
                   (loaded_result job src staging payload)))"
  unfolding prepareFile_def waits_def stat_unchanged_def Let_def change_hash_def loaded_result_def
    de_Morgan_conj not_not ..

lemma decided_simps [simp]:
  "fo_Decision (fr_outcome (decided d r res)) = d" "fr_intent (decided d r res) = fr_intent res"
  "fr_idx (decided d r res) = fr_idx res" "fr_unavailable (decided d r res) = fr_unavailable res"
  "fo_Fatal (fr_outcome (decided d r res)) = fo_Fatal (fr_outcome res)"
  by (simp_all add: decided_def)

text \<open>An object waits for the network only past every guard.\<close>

lemma prepareFile_pending:
  assumes "prepareFile opt now job src disc staging = Some (res, Some p)"
  obtains payload where "\<not> waits now job src" "\<not> stat_unchanged now job src staging"
    "ca_Load (jb_cand job) = Inr payload" "\<not> (jb_seen job \<and> change_hash payload = fp_SourceHash (jb_fp job))"
    "prepareChanged opt now job src disc payload (Hash (pl_Bytes payload)) (change_hash payload)
       (loaded_result job src staging payload) = Some (res, Some p)"
proof -
  note pf = assms [unfolded prepareFile_alt]
  have 1: "\<not> waits now job src" using pf by (auto split: if_splits)
  note pf = pf [unfolded if_not_P [OF 1]]
  have 2: "\<not> stat_unchanged now job src staging" using pf by (auto split: if_splits)
  note pf = pf [unfolded if_not_P [OF 2]]
  obtain payload where 3: "ca_Load (jb_cand job) = Inr payload"
    using pf by (cases "ca_Load (jb_cand job)") auto
  note pf = pf [unfolded 3 sum.case]
  have 4: "\<not> (jb_seen job \<and> change_hash payload = fp_SourceHash (jb_fp job))"
    using pf by (auto split: if_splits)
  from that [OF 1 2 3 4] pf [unfolded if_not_P [OF 4]] show ?thesis by blast
qed

lemma backoff_total_changed:
  assumes "0 \<le> fp_Attempts (jb_fp job)"
  shows "\<exists>r. prepareChanged opt now job src disc payload sh ch res0 = Some r"
proof (cases "scrubSource src (pl_Bytes payload) (src_SniffKind src = Some ''jsonl'') (op_scrub opt)")
  case (Inl e)
  then show ?thesis unfolding prepareChanged_def Let_def
    by (simp only: sum.case) (metis failAndBackOff_total [OF assms] option.map(2))
next
  case (Inr s)
  then show ?thesis unfolding prepareChanged_def Let_def
    by (simp only: sum.case) (simp split: sum.split prod.split)
qed

lemma prepareFile_total:
  assumes "0 \<le> fp_Attempts (jb_fp job)"
  shows "\<exists>r. prepareFile opt now job src disc staging = Some r"
proof -
  have "\<exists>r. map_option (\<lambda>r. (r, None)) (failAndBackOff (op_DryRun opt) (now AtBackoff) (start_result job src)
          (KeyOf (src_ID src) (jb_cand job)) (jb_fp job) m) = Some r" for m
    by (metis failAndBackOff_total [OF assms] option.map(2))
  then show ?thesis unfolding prepareFile_alt Let_def
    by (auto simp only: backoff_total_changed [OF assms] split: if_split sum.split)
qed

text \<open>What a result without a pending object may ask the store to write.\<close>

lemma prepareFile_settled:
  assumes "prepareFile opt now job src disc staging = Some (res, None)"
  defines "key \<equiv> KeyOf (src_ID src) (jb_cand job)"
  shows "fr_idx res = jb_idx job \<and> \<not> fo_Fatal (fr_outcome res) \<and> \<not> fr_unavailable res \<and>
    fo_Decision (fr_outcome res) \<noteq> DecisionNone \<and>
    (fo_Decision (fr_outcome res) = DecisionShipped \<longrightarrow> op_DryRun opt) \<and>
    (fr_intent res = no_intent \<or>
     \<not> op_DryRun opt \<and>
     (fr_intent res = \<lparr>in_kind = intentRefresh, in_key = key, in_fp = refreshed (jb_cand job) (jb_fp job), in_reason = []\<rparr> \<or>
      backoff_intent (now AtBackoff) key (jb_fp job) (fr_intent res)))"
proof (cases "waits now job src \<or> stat_unchanged now job src staging")
  case True
  then show ?thesis
    using assms(1) unfolding prepareFile_alt by (auto simp del: append.simps split: if_splits)
next
  case False
  then have w: "\<not> waits now job src" "\<not> stat_unchanged now job src staging" by auto
  note pf = assms(1) [unfolded prepareFile_alt if_not_P [OF w(1)] if_not_P [OF w(2)]]
  show ?thesis
  proof (cases "ca_Load (jb_cand job)")
    case (Inl e)
    with pf show ?thesis unfolding key_def by (auto dest!: failAndBackOff_Some split: if_splits)
  next
    case (Inr payload)
    note pf = pf [unfolded Inr sum.case]
    show ?thesis
    proof (cases "jb_seen job \<and> change_hash payload = fp_SourceHash (jb_fp job)")
      case True
      with pf show ?thesis unfolding key_def by (auto simp: Let_def split: if_splits)
    next
      case False
      from prepareChanged_settled [OF pf [unfolded if_not_P [OF False]]] show ?thesis
        unfolding key_def by (auto simp: settled_from_def)
    qed
  qed
qed

lemma scrubSource_Inr:
  assumes "scrubSource src raw jsonl scrub = Inr r"
  shows "if src_Scrub src = Some False then re_Out r = Unscrubbed raw ''source scrub: false''
         else \<exists>f. scrub = Inr f \<and> f raw \<lparr>hi_Family = src_Family src, hi_JSONL = jsonl\<rparr> = Inr r"
  using assms by (auto simp: scrubSource_def split: if_splits sum.splits)

section \<open>Properties\<close>

text \<open>
  C20: Scrubbing fails closed. An object is handed to the upload leg only if the file was read and
  its bytes went through the compiled scrubber without error, or the source is declared
  \<^verbatim>\<open>scrub: false\<close>; what is sealed is exactly the scrubber's output, to at least one recipient, under
  the mirror key of this install, and the metadata describes that output.
\<close>

theorem scrub_fails_closed:
  assumes "prepareFile opt now job src disc staging = Some (res, Some p)"
  shows "\<exists>payload scrubbed m sealed.
    ca_Load (jb_cand job) = Inr payload \<and>
    (if src_Scrub src = Some False then re_Out scrubbed = Unscrubbed (pl_Bytes payload) ''source scrub: false''
     else \<exists>f. op_scrub opt = Inr f \<and>
            f (pl_Bytes payload) \<lparr>hi_Family = src_Family src, hi_JSONL = (src_SniffKind src = Some ''jsonl'')\<rparr> = Inr scrubbed) \<and>
    Seal (op_mc opt) (op_ly opt) m (re_Out scrubbed) (op_Recipients opt) = Inr (pp_obj p, sealed) \<and>
    op_Recipients opt \<noteq> [] \<and> pp_md p = ObjectMetadata sealed \<and>
    mf_ShippedHash sealed = Hash (sc_b (re_Out scrubbed)) \<and> mf_SourceHash sealed = Hash (pl_Bytes payload) \<and>
    MirrorKey (orgOf (op_Plan opt)) (op_InstallID opt) (src_ID src) (op_NameKey opt)
      (CanonicalPath (cmp_or [ca_Identity (jb_cand job), ca_RelPath (jb_cand job)]) (op_user opt))
      = Inr (pp_objectKey p)"
proof -
  obtain payload where pl: "ca_Load (jb_cand job) = Inr payload"
    "prepareChanged opt now job src disc payload (Hash (pl_Bytes payload)) (change_hash payload)
       (loaded_result job src staging payload) = Some (res, Some p)"
    using prepareFile_pending [OF assms] by metis
  obtain scrubbed sealed where s:
    "scrubSource src (pl_Bytes payload) (src_SniffKind src = Some ''jsonl'') (op_scrub opt) = Inr scrubbed"
    "mirrorKey opt (src_ID src) (cmp_or [ca_Identity (jb_cand job), ca_RelPath (jb_cand job)]) = Inr (pp_objectKey p)"
    "Seal (op_mc opt) (op_ly opt) (manifestFor opt (now AtSeal) src (jb_cand job) disc (Hash (pl_Bytes payload))
       (pl_MTime payload) scrubbed) (re_Out scrubbed) (op_Recipients opt) = Inr (pp_obj p, sealed)"
    "pp_md p = ObjectMetadata sealed"
    by (rule prepareChanged_pending [OF pl(2)])
  have "mf_SourceHash (manifestFor opt (now AtSeal) src (jb_cand job) disc (Hash (pl_Bytes payload))
       (pl_MTime payload) scrubbed) = Hash (pl_Bytes payload)"
    by (simp add: manifestFor_def Let_def split: option.split)
  then have sh: "mf_SourceHash sealed = Hash (pl_Bytes payload)"
    "mf_ShippedHash sealed = Hash (sc_b (re_Out scrubbed))" "op_Recipients opt \<noteq> []"
    using Seal_guards [OF s(3)] by simp_all
  show ?thesis
    using pl(1) scrubSource_Inr [OF s(1)] s(3) sh(3) s(4) sh(2) sh(1) s(2) [unfolded mirrorKey_def]
    by blast
qed

text \<open>
  C21: Preparing a file always ends in a result when the recorded attempt count is not negative, and
  until an upload is confirmed the record of what shipped does not move: whatever a settled result
  asks to be written is for this candidate's own key and keeps the recorded content hash, a
  failure adds one attempt, and in a preview nothing is asked for at all.
\<close>

theorem prepare_keeps_recorded_hash:
  assumes "0 \<le> fp_Attempts (jb_fp job)"
  shows "\<exists>res pending. prepareFile opt now job src disc staging = Some (res, pending) \<and>
    fr_idx res = jb_idx job \<and> in_kind (fr_intent res) \<noteq> intentShipped \<and>
    (op_DryRun opt \<longrightarrow> pending = None \<and> in_kind (fr_intent res) = intentNone) \<and>
    (in_kind (fr_intent res) \<noteq> intentNone \<longrightarrow> pending = None \<and>
       in_key (fr_intent res) = KeyOf (src_ID src) (jb_cand job) \<and>
       fp_SourceHash (in_fp (fr_intent res)) = fp_SourceHash (jb_fp job) \<and>
       0 \<le> fp_Attempts (in_fp (fr_intent res)) \<and> fp_Attempts (in_fp (fr_intent res)) \<le> fp_Attempts (jb_fp job) + 1)"
proof -
  obtain res q where pf: "prepareFile opt now job src disc staging = Some (res, q)"
    using prepareFile_total [OF assms] by (metis surj_pair)
  show ?thesis
  proof (cases q)
    case None
    from prepareFile_settled [OF pf [unfolded None]] assms pf None show ?thesis
      by (auto simp: backoff_intent_def refreshed_def)
  next
    case (Some p)
    obtain payload where "prepareChanged opt now job src disc payload (Hash (pl_Bytes payload))
        (change_hash payload) (loaded_result job src staging payload) = Some (res, Some p)"
      using prepareFile_pending [OF pf [unfolded Some]] by metis
    from prepareChanged_pending [OF this]
    have "\<not> op_DryRun opt" "fr_intent res = no_intent" "fr_idx res = jb_idx job" by simp_all
    with pf show ?thesis by auto
  qed
qed

text \<open>
  Content that has already shipped does not ship again. When the recorded hash is the hash of
  what the candidate loads to, no object is prepared, whatever its path, size and time say; and a
  file whose size, time and path are those recorded is not even opened: the result is the same
  whatever loading it would have given.
\<close>

theorem unchanged_content_not_prepared:
  assumes "jb_seen job" "ca_Load (jb_cand job) = Inr payload" "change_hash payload = fp_SourceHash (jb_fp job)"
  shows "(\<exists>res. prepareFile opt now job src disc staging = Some (res, None) \<and>
            fo_Decision (fr_outcome res) \<in> {DecisionUnchanged, DecisionSkipped}) \<and>
    (stat_unchanged now job src staging \<longrightarrow>
       (\<forall>load. prepareFile opt now (job\<lparr>jb_cand := (jb_cand job)\<lparr>ca_Load := load\<rparr>\<rparr>) src disc staging
             = prepareFile opt now job src disc staging))"
proof (intro conjI impI allI)
  show "\<exists>res. prepareFile opt now job src disc staging = Some (res, None) \<and>
            fo_Decision (fr_outcome res) \<in> {DecisionUnchanged, DecisionSkipped}"
    unfolding prepareFile_alt using assms by (simp add: Let_def del: append.simps)
  fix load
  let ?job = "job\<lparr>jb_cand := (jb_cand job)\<lparr>ca_Load := load\<rparr>\<rparr>"
  assume st: "stat_unchanged now job src staging"
  have "KeyOf (src_ID src) (jb_cand ?job) = KeyOf (src_ID src) (jb_cand job)" by (simp add: KeyOf_def)
  then have "waits now ?job src = waits now job src" "start_result ?job src = start_result job src"
    "stat_unchanged now ?job src staging = stat_unchanged now job src staging"
    by (simp_all add: waits_def start_result_def stat_unchanged_def unchangedByStat_def)
  with st show "prepareFile opt now ?job src disc staging = prepareFile opt now job src disc staging"
    unfolding prepareFile_alt by simp
qed

text \<open>
  C22: The delay before the next attempt is bounded. From the first failure on it is at least 105
  seconds and at most an hour, and within an eighth below the doubling step it is derived from,
  whatever the key it is spread by.
\<close>

theorem backoff_bounds:
  assumes "1 \<le> attempt"
  shows "\<exists>d. backoffFor attempt spread = Some d \<and> 105 * second \<le> d \<and> d \<le> hour \<and>
    (let step = min (minute * 2 ^ nat (min attempt 8)) hour in step - step div 8 \<le> d \<and> d \<le> step)"
proof -
  obtain d where d: "backoffFor attempt spread = Some d"
    "backoff_step attempt - backoff_step attempt div 8 \<le> d" "d \<le> backoff_step attempt"
    using backoffFor_bounds [of attempt spread] assms by auto
  have st: "backoff_step attempt = min (minute * 2 ^ nat (min attempt 8)) hour"
    by (simp add: backoff_step_def backoffCap_def)
  have "(2::int) ^ 1 \<le> 2 ^ nat (min attempt 8)" using assms by (intro power_increasing) auto
  then have lo: "2 * minute \<le> backoff_step attempt" unfolding st by (simp add: duration_defs)
  have "105 * second \<le> backoff_step attempt - backoff_step attempt div 8"
    using lo by (simp add: duration_defs)
  with d st have "105 * second \<le> d" "d \<le> hour" by linarith+
  with d st show ?thesis by (simp add: Let_def)
qed

theorem backoff_bounds_witness: "\<exists>d. backoffFor 3 7 = Some d \<and> 105 * second \<le> d \<and> d \<le> hour"
  using backoff_bounds [of 3 7] by auto

section \<open>A prepared file\<close>

definition pd_opt :: "string Options" where
  "pd_opt = \<lparr>op_Plan = \<lparr>pn_OrganizationID = ''acme'', pn_StateDir = ''/home/u/.s'', pn_MaxFilesPerRun = 10,
       pn_Sources = [], pn_ConfigVersion = 1, pn_ConfigExpired = False\<rparr>,
     op_InstallID = ''i1'', op_NameKey = replicate 32 CHR ''k'', op_Recipients = [demo_recipient],
     op_Unbounded = False, op_DryRun = False, op_RunID = ''r1'', op_Workers = 0, op_UploadWorkers = 0,
     op_Client = demo_client, op_user = ''u'',
     op_scrub = Inr (\<lambda>raw h. Inr \<lparr>re_Out = \<lparr>sc_b = raw, sc_via = ''scrubber''\<rparr>, re_BytesRedacted = 0,
                 re_BytesTotal = int (length raw), re_RuleHits = [], re_ScanMode = ''text'', re_LinesParsed = 0, re_LinesRawScanned = 0\<rparr>),
     op_Log = True,
     op_mc = \<lparr>mc_marshal = (\<lambda>m. Inr ''{}''), mc_validate = (\<lambda>raw. None), mc_unmarshal = (\<lambda>raw. Inr demo_manifest)\<rparr>,
     op_ly = \<lparr>ly_write = (\<lambda>es rs. Inr ''sealed''), ly_read = (\<lambda>obj ids. Inr ([], None))\<rparr>,
     op_MaxInFlightBytes = 1000\<rparr>"

definition pd_src :: Resolved where
  "pd_src = \<lparr>src_ID = ''codex'', src_Family = ''codex'', src_Gather = ''glob'', src_ArtifactClass = ''transcript'',
     src_MaxFileBytes = 100, src_SniffKind = None, src_Enrichers = [], src_Scrub = None, src_Emit = [],
     src_Root = ''/r'', src_Enabled = True, src_SpecFingerprint = ''f''\<rparr>"

definition pd_disc :: "Candidate list \<Rightarrow> Discovery" where
  "pd_disc cs = \<lparr>di_Health = Collected, di_Oversize = [], di_Unreadable = 0, di_UnreadableExample = [],
     di_UnreadableReason = [], di_Sniff = SniffOK, di_AgentVersion = [], di_Candidates = cs, di_Reason = []\<rparr>"

definition pd_cand :: "string \<Rightarrow> Candidate" where
  "pd_cand name = \<lparr>ca_CWD = [], ca_Repository = None, ca_AlwaysLoad = False, ca_Path = ''/r/'' @ name,
     ca_RelPath = name, ca_Identity = [], ca_Series = [],
     ca_Load = Inr \<lparr>pl_Bytes = ''hello'', pl_MTime = 5, pl_Warning = [], pl_Compare = None\<rparr>,
     ca_Size = 5, ca_MTime = 5\<rparr>"

definition pd_job :: fileJob where
  "pd_job = \<lparr>jb_idx = 0, jb_cand = pd_cand ''a'', jb_fp = zero_fp, jb_seen = False\<rparr>"

definition pd_seen_job :: fileJob where
  "pd_seen_job = pd_job\<lparr>jb_seen := True, jb_fp := zero_fp\<lparr>fp_SourceHash := Hash ''hello''\<rparr>\<rparr>"

lemma pd_fields [simp]:
  "\<not> op_DryRun pd_opt" "op_Recipients pd_opt = [demo_recipient]" "orgOf (op_Plan pd_opt) = ''acme''"
  "op_InstallID pd_opt = ''i1''" "op_NameKey pd_opt = replicate 32 CHR ''k''" "src_ID pd_src = ''codex''"
  "src_Scrub pd_src = None" "fp_Attempts zero_fp = 0" "\<not> fp_Parked zero_fp"
  by (simp_all add: pd_opt_def orgOf_def pd_src_def zero_fp_def)

lemma pd_seal: "mf_SealedAt m \<noteq> [] \<Longrightarrow> sc_via s \<noteq> [] \<Longrightarrow>
    Seal (op_mc pd_opt) (op_ly pd_opt) m s [demo_recipient] = Inr (''sealed'', sealed_manifest m s [demo_recipient])"
  by (simp add: Seal_def Let_def pd_opt_def Manifest_Encode_def validateManifestBytes_def writeContainer_def
        sealed_manifest_def)

lemma manifestFor_SealedAt [simp]: "mf_SealedAt (manifestFor opt now src cand disc h t r) = format_rfc3339 now"
  by (simp add: manifestFor_def baseManifest_def Let_def split: option.split)

lemma pd_changed:
  "\<exists>res p. prepareFile pd_opt now pd_job pd_src disc False = Some (res, Some p)"
proof -
  have w: "\<not> waits now pd_job pd_src" "\<not> stat_unchanged now pd_job pd_src False" "\<not> jb_seen pd_job"
    by (simp_all add: waits_def stat_unchanged_def unchangedByStat_def pd_job_def)
  have l: "ca_Load (jb_cand pd_job) = Inr \<lparr>pl_Bytes = ''hello'', pl_MTime = 5, pl_Warning = [], pl_Compare = None\<rparr>"
    by (simp add: pd_job_def pd_cand_def)
  obtain k where k: "mirrorKey pd_opt ''codex'' (cmp_or [ca_Identity (jb_cand pd_job), ca_RelPath (jb_cand pd_job)]) = Inr k"
    unfolding mirrorKey_def using MirrorKey_Inr_iff
    by (simp add: NameKeySize_def ident_start_def ident_char_def is_lower_def is_digit_def is_upper_def)
  have s: "scrubSource pd_src ''hello'' j (op_scrub pd_opt) = Inr \<lparr>re_Out = \<lparr>sc_b = ''hello'', sc_via = ''scrubber''\<rparr>,
      re_BytesRedacted = 0, re_BytesTotal = 5, re_RuleHits = [], re_ScanMode = ''text'', re_LinesParsed = 0, re_LinesRawScanned = 0\<rparr>" for j
    by (simp add: scrubSource_def pd_opt_def)
  show ?thesis unfolding prepareFile_alt prepareChanged_def Let_def
    using w l by (simp add: k s pd_seal del: cmp_or.simps)
qed

theorem scrub_fails_closed_witness:
  "\<exists>res p payload (scrubbed :: Result) m sealed.
     prepareFile pd_opt (\<lambda>_. 0) pd_job pd_src (pd_disc []) False = Some (res, Some p) \<and>
     ca_Load (jb_cand pd_job) = Inr payload \<and>
     Seal (op_mc pd_opt) (op_ly pd_opt) m (re_Out scrubbed) [demo_recipient] = Inr (pp_obj p, sealed) \<and>
     mf_ShippedHash sealed = Hash (sc_b (re_Out scrubbed))"
proof -
  obtain res p where p: "prepareFile pd_opt (\<lambda>_. 0) pd_job pd_src (pd_disc []) False = Some (res, Some p)"
    using pd_changed by blast
  from p scrub_fails_closed [OF p, unfolded pd_fields(2)] show ?thesis by blast
qed

theorem prepare_keeps_recorded_hash_witness:
  "\<exists>res pending. prepareFile pd_opt (\<lambda>_. 0) pd_seen_job pd_src (pd_disc []) False = Some (res, pending) \<and>
     in_kind (fr_intent res) \<noteq> intentShipped"
proof -
  have "0 \<le> fp_Attempts (jb_fp pd_seen_job)" by (simp add: pd_seen_job_def)
  from prepare_keeps_recorded_hash [OF this, of pd_opt "\<lambda>_. 0" pd_src "pd_disc []" False] show ?thesis by blast
qed

theorem unchanged_content_not_prepared_witness:
  "\<exists>res. prepareFile pd_opt (\<lambda>_. 0) pd_seen_job pd_src (pd_disc []) False = Some (res, None)"
proof -
  have "jb_seen pd_seen_job"
    "ca_Load (jb_cand pd_seen_job) = Inr \<lparr>pl_Bytes = ''hello'', pl_MTime = 5, pl_Warning = [], pl_Compare = None\<rparr>"
    "change_hash \<lparr>pl_Bytes = ''hello'', pl_MTime = 5, pl_Warning = [], pl_Compare = None\<rparr>
       = fp_SourceHash (jb_fp pd_seen_job)"
    by (simp_all add: pd_seen_job_def pd_job_def pd_cand_def change_hash_def)
  from unchanged_content_not_prepared [OF this] show ?thesis by blast
qed

end
