(* ===== verification/Upload_Group.thy ===== *)
theory Upload_Group
  imports Prepare
begin

text \<open>
  The write path of a run, \<^verbatim>\<open>src/internal/engine/upload.go\<close>: sealed objects gather in bounded groups,
  each group is authorized and sent through the upload port in at most two calls, and each verdict
  becomes the result of its file. The port is a function of the batch and of a state of its
  own (the network and the control plane), so that what it is asked, and what it answered, can be
  stated.
\<close>

section \<open>The accumulator\<close>

record stagedUpload =
  su_res :: fileResult
  su_pending :: pendingPut

record batcher =
  ba_maxObjects :: int
  ba_items :: "stagedUpload list"
  ba_bytes :: int

definition maxBatchObjects :: int where "maxBatchObjects = 32"
definition maxBatchBytes :: int where "maxBatchBytes = 64 * 2 ^ 20"

definition batcher_take :: "batcher \<Rightarrow> stagedUpload list \<times> batcher" where
  "batcher_take b = (ba_items b, b\<lparr>ba_items := [], ba_bytes := 0\<rparr>)"

text \<open>Flushing and adding return the groups handed to \<^verbatim>\<open>send\<close>, in order.\<close>

definition batcher_flush :: "batcher \<Rightarrow> stagedUpload list list \<times> batcher" where
  "batcher_flush b = (case batcher_take b of (items, b) \<Rightarrow> (if items \<noteq> [] then [items] else [], b))"

definition batcher_add :: "stagedUpload \<Rightarrow> int \<Rightarrow> batcher \<Rightarrow> stagedUpload list list \<times> batcher" where
  "batcher_add it sz b0 =
     (let (sent1, b) = (if length (ba_items b0) > 0 \<and> ba_bytes b0 + sz > maxBatchBytes
                        then batcher_flush b0 else ([], b0));
          b = b\<lparr>ba_items := ba_items b @ [it], ba_bytes := ba_bytes b + sz\<rparr>;
          (sent2, b) = (if int (length (ba_items b)) \<ge> ba_maxObjects b \<or> ba_bytes b \<ge> maxBatchBytes
                        then batcher_flush b else ([], b))
      in (sent1 @ sent2, b))"

definition obj_size :: "stagedUpload \<Rightarrow> int" where
  "obj_size it = int (length (pp_obj (su_pending it)))"

section \<open>The port\<close>

record PreparedObject =
  po_ObjectID :: string
  po_Key :: string
  po_Body :: string
  po_SourceHash :: string
  po_Metadata :: "(string, string) gomap"

type_synonym 'w port = "PreparedObject list \<Rightarrow> 'w \<Rightarrow> goerr option list \<times> 'w"

definition preparedFrom :: "nat \<Rightarrow> string \<Rightarrow> string \<Rightarrow> (string, string) gomap \<Rightarrow> PreparedObject" where
  "preparedFrom idx key body md =
     \<lparr>po_ObjectID = itoa (int idx), po_Key = key, po_Body = body,
      po_SourceHash = (case map_get md ''source-hash'' of Some h \<Rightarrow> h | None \<Rightarrow> []),
      po_Metadata = map_del ''source-hash'' md\<rparr>"

definition prepared_batch :: "stagedUpload list \<Rightarrow> PreparedObject list" where
  "prepared_batch items =
     map (\<lambda>(i, it). preparedFrom i (pp_objectKey (su_pending it)) (pp_obj (su_pending it)) (pp_md (su_pending it)))
       (enumerate 0 items)"

definition expired_at :: "goerr option list \<Rightarrow> nat list" where
  "expired_at outcomes = filter (\<lambda>i. errors_is (outcomes ! i) ErrTicketExpired) [0..<length outcomes]"

definition renumbered :: "PreparedObject list \<Rightarrow> PreparedObject list" where
  "renumbered objs = map (\<lambda>(i, x). x\<lparr>po_ObjectID := itoa (int i)\<rparr>) (enumerate 0 objs)"

definition update_at :: "(nat \<times> 'a) list \<Rightarrow> 'a list \<Rightarrow> 'a list" where
  "update_at ivs xs = foldl (\<lambda>xs (i, v). xs[i := v]) xs ivs"

definition authorizeAndUpload :: "'w port \<Rightarrow> stagedUpload list \<Rightarrow> 'w \<Rightarrow> goerr option list \<times> 'w" where
  "authorizeAndUpload port items w0 =
     (let batch = prepared_batch items; (outcomes, w1) = port batch w0
      in if length outcomes \<noteq> length batch
         then (replicate (length batch) (Some (new_error (''engine: the upload port answered '' @
                 itoa (int (length outcomes)) @ '' outcomes for '' @ itoa (int (length batch)) @ '' objects''))), w1)
         else let expired = expired_at outcomes
              in if expired = [] then (outcomes, w1)
                 else let again = renumbered (map (\<lambda>at. batch ! at) expired);
                          (outcomes2, w2) = port again w1
                      in if length outcomes2 \<noteq> length again
                         then (update_at (map (\<lambda>at. (at, Some (new_error (''engine: the upload port answered '' @
                                 itoa (int (length outcomes2)) @ '' outcomes for '' @ itoa (int (length again)) @
                                 '' reauthorized objects'')))) expired) outcomes, w2)
                         else (update_at (zip expired outcomes2) outcomes, w2))"

section \<open>Verdicts\<close>

definition stopsRun :: "goerr option \<Rightarrow> bool" where
  "stopsRun e \<longleftrightarrow> errors_is e ErrCredentialsRefused \<or> errors_is e ErrUploadUnavailable \<or> errors_is e ErrOffline"

definition alreadyPresentReason :: string where
  "alreadyPresentReason = ''no bytes sent: the control plane answered that the archive already holds this object''"

text \<open>A verdict that lets the fingerprint be committed.\<close>

definition confirmed :: "goerr option \<Rightarrow> bool" where
  "confirmed oc \<longleftrightarrow> oc = None \<or> errors_is oc ErrAlreadyPresent"

definition applyUploadOutcome :: "stagedUpload \<Rightarrow> goerr option \<Rightarrow> fileResult" where
  "applyUploadOutcome it oc =
     (let r = su_res it; present = errors_is oc ErrAlreadyPresent
      in case oc of
           Some e \<Rightarrow>
             if present
             then r\<lparr>fr_intent := \<lparr>in_kind = intentShipped, in_key = pp_key (su_pending it),
                                  in_fp = pp_next (su_pending it), in_reason = []\<rparr>,
                    fr_outcome := (fr_outcome r)\<lparr>fo_Decision := DecisionShipped, fo_Reason := alreadyPresentReason\<rparr>\<rparr>
             else r\<lparr>fr_outcome := (fr_outcome r)\<lparr>fo_Decision := DecisionFailed, fo_Reason := err_msg e,
                                                 fo_Fatal := errors_is oc ErrCredentialsRefused\<rparr>,
                    fr_offline := errors_is oc ErrOffline,
                    fr_unavailable := (errors_is oc ErrUploadUnavailable \<or> errors_is oc ErrOffline)\<rparr>
         | None \<Rightarrow>
             r\<lparr>fr_intent := \<lparr>in_kind = intentShipped, in_key = pp_key (su_pending it),
                             in_fp = pp_next (su_pending it), in_reason = []\<rparr>,
               fr_outcome := (fr_outcome r)\<lparr>fo_Decision := DecisionShipped\<rparr>\<rparr>)"

definition sendBatch :: "'w port \<Rightarrow> stagedUpload list \<Rightarrow> 'w \<Rightarrow> fileResult list \<times> 'w" where
  "sendBatch port items w =
     (case authorizeAndUpload port items w of
        (outcomes, w') \<Rightarrow> (map (\<lambda>(it, oc). applyUploadOutcome it oc) (zip items outcomes), w'))"

section \<open>Groups\<close>

definition group_bytes :: "stagedUpload list \<Rightarrow> int" where
  "group_bytes items = sum_list (map obj_size items)"

text \<open>What may be sent: not empty, within the object bound, and within the byte bound unless alone.\<close>

definition group_ok :: "int \<Rightarrow> stagedUpload list \<Rightarrow> bool" where
  "group_ok n items \<longleftrightarrow> items \<noteq> [] \<and> int (length items) \<le> n \<and>
     (group_bytes items \<le> maxBatchBytes \<or> length items = 1)"

text \<open>What may be held: below both bounds.\<close>

definition batcher_ok :: "batcher \<Rightarrow> bool" where
  "batcher_ok b \<longleftrightarrow> 1 \<le> ba_maxObjects b \<and> int (length (ba_items b)) < ba_maxObjects b \<and>
     ba_bytes b = group_bytes (ba_items b) \<and> ba_bytes b < maxBatchBytes"

lemma obj_size_nonneg [simp]: "0 \<le> obj_size it"
  by (simp add: obj_size_def)

lemma group_bytes_simps [simp]:
  "group_bytes [] = 0" "group_bytes (xs @ ys) = group_bytes xs + group_bytes ys"
  "group_bytes (x # xs) = obj_size x + group_bytes xs"
  by (simp_all add: group_bytes_def)

lemma batcher_flush_spec:
  "batcher_flush b = (if ba_items b = [] then [] else [ba_items b], b\<lparr>ba_items := [], ba_bytes := 0\<rparr>)"
  by (simp add: batcher_flush_def batcher_take_def)

lemma batcher_add_ok:
  assumes "batcher_ok b" "batcher_add it (obj_size it) b = (sent, b')"
  shows "batcher_ok b' \<and> ba_maxObjects b' = ba_maxObjects b \<and> list_all (group_ok (ba_maxObjects b)) sent \<and>
         concat sent @ ba_items b' = ba_items b @ [it]"
proof -
  have pos: "0 < maxBatchBytes" by (simp add: maxBatchBytes_def)
  show ?thesis
  proof (cases "ba_items b \<noteq> [] \<and> ba_bytes b + obj_size it > maxBatchBytes")
    case True
    with assms pos show ?thesis
      by (auto simp: batcher_add_def batcher_flush_spec batcher_ok_def group_ok_def Let_def split: if_splits)
  next
    case False
    with assms pos show ?thesis
      by (auto simp: batcher_add_def batcher_flush_spec batcher_ok_def group_ok_def Let_def split: if_splits)
  qed
qed

text \<open>A pass over the objects as the loops of the run make it: one add per object, then a flush.\<close>

fun batch_all :: "stagedUpload list \<Rightarrow> batcher \<Rightarrow> stagedUpload list list \<times> batcher" where
  "batch_all [] b = batcher_flush b"
| "batch_all (it # its) b =
     (let (sent, b) = batcher_add it (obj_size it) b; (rest, b) = batch_all its b in (sent @ rest, b))"

lemma batch_all_ok:
  assumes "batcher_ok b" "batch_all its b = (sent, b')"
  shows "list_all (group_ok (ba_maxObjects b)) sent \<and> concat sent = ba_items b @ its \<and> ba_items b' = []"
  using assms
proof (induction its arbitrary: b sent)
  case Nil
  then show ?case by (auto simp: batcher_flush_spec batcher_ok_def group_ok_def)
next
  case (Cons it its)
  obtain s1 b1 where a: "batcher_add it (obj_size it) b = (s1, b1)" by fastforce
  obtain s2 b2 where r: "batch_all its b1 = (s2, b2)" by fastforce
  from Cons.prems(2) a r have s: "sent = s1 @ s2" "b' = b2" by auto
  note ok = batcher_add_ok [OF Cons.prems(1) a]
  from Cons.IH [of b1 s2] ok r s have "list_all (group_ok (ba_maxObjects b)) s2" "concat s2 = ba_items b1 @ its"
    "ba_items b' = []" by auto
  with ok s show ?case by (metis append_assoc append_Cons append_Nil concat_append list_all_append)
qed

section \<open>Two calls at most\<close>

text \<open>The port with its calls written down: what it was asked and what it answered.\<close>

type_synonym trace = "(PreparedObject list \<times> goerr option list) list"

definition traced :: "'w port \<Rightarrow> (trace \<times> 'w) port" where
  "traced port batch tw = (case tw of (tr, w) \<Rightarrow>
     (case port batch w of (a, w') \<Rightarrow> (a, (tr @ [(batch, a)], w'))))"

lemma prepared_batch_simps [simp]:
  "length (prepared_batch items) = length items"
  "i < length items \<Longrightarrow> prepared_batch items ! i =
     preparedFrom i (pp_objectKey (su_pending (items ! i))) (pp_obj (su_pending (items ! i)))
       (pp_md (su_pending (items ! i)))"
  by (simp_all add: prepared_batch_def nth_enumerate_eq)

lemma renumbered_simps [simp]:
  "length (renumbered objs) = length objs"
  "i < length objs \<Longrightarrow> renumbered objs ! i = (objs ! i)\<lparr>po_ObjectID := itoa (int i)\<rparr>"
  by (simp_all add: renumbered_def nth_enumerate_eq)

lemma expired_at_props: "distinct (expired_at oc)" "i \<in> set (expired_at oc) \<longleftrightarrow> i < length oc \<and> errors_is (oc ! i) ErrTicketExpired"
  by (auto simp: expired_at_def)

lemma update_at_length [simp]: "length (update_at ivs xs) = length xs"
  unfolding update_at_def by (induction ivs arbitrary: xs) (auto split: prod.splits)

lemma update_at_nth:
  assumes "distinct (map fst ivs)" "i < length xs"
  shows "update_at ivs xs ! i = (case map_of ivs i of Some v \<Rightarrow> v | None \<Rightarrow> xs ! i)"
  using assms
proof (induction ivs arbitrary: xs)
  case (Cons iv ivs)
  obtain j v where iv: "iv = (j, v)" by (cases iv)
  have "map_of ivs j = None" using Cons.prems(1) iv by (simp add: map_of_eq_None_iff)
  with Cons iv show ?case by (auto simp: update_at_def nth_list_update split: option.splits)
qed (simp add: update_at_def)

text \<open>A call that was asked for this object and answered so about it.\<close>

definition answered :: "PreparedObject list \<times> goerr option list \<Rightarrow> stagedUpload \<Rightarrow> goerr option \<Rightarrow> bool" where
  "answered call it oc \<longleftrightarrow> (case call of (batch, ans) \<Rightarrow>
     length ans = length batch \<and> (\<exists>j < length batch. ans ! j = oc \<and>
       po_Key (batch ! j) = pp_objectKey (su_pending it) \<and> po_Body (batch ! j) = pp_obj (su_pending it)))"

lemma answered_first:
  assumes "length outcomes = length items" "i < length items"
  shows "answered (prepared_batch items, outcomes) (items ! i) (outcomes ! i)"
  using assms by (auto simp: answered_def preparedFrom_def intro!: exI [of _ i])

lemma answered_again:
  assumes "length outcomes = length items" "j < length (expired_at outcomes)"
    and "length outcomes2 = length (expired_at outcomes)"
  shows "answered (renumbered (map (\<lambda>at. prepared_batch items ! at) (expired_at outcomes)), outcomes2)
           (items ! (expired_at outcomes ! j)) (outcomes2 ! j)"
proof -
  have "expired_at outcomes ! j < length items"
    using assms(1,2) expired_at_props(2) [of "expired_at outcomes ! j" outcomes] by auto
  with assms show ?thesis by (auto simp: answered_def preparedFrom_def intro!: exI [of _ j])
qed

lemma not_confirmed_new [simp]: "\<not> confirmed (Some (new_error m))"
  by (simp add: confirmed_def)

lemma map_of_const: "map_of (map (\<lambda>x. (x, c)) xs) i = (if i \<in> set xs then Some c else None)"
  by (induction xs) auto

text \<open>After the second call, a confirmed verdict is one of the first call or one of the second.\<close>

lemma merged_answered:
  assumes len: "length oc = length items" "length sc = length (expired_at oc)"
    and i: "i < length items"
  defines "out \<equiv> update_at (zip (expired_at oc) sc) oc"
  shows "answered (prepared_batch items, oc) (items ! i) (out ! i) \<or>
    answered (renumbered (map (\<lambda>at. prepared_batch items ! at) (expired_at oc)), sc) (items ! i) (out ! i)"
proof -
  have d: "distinct (map fst (zip (expired_at oc) sc))" using len(2) expired_at_props(1) by simp
  have i': "i < length oc" using len(1) i by simp
  show ?thesis
  proof (cases "map_of (zip (expired_at oc) sc) i")
    case None
    then have "out ! i = oc ! i" unfolding out_def update_at_nth [OF d i'] by (simp only: option.case)
    with answered_first [OF len(1) i] show ?thesis by simp
  next
    case (Some v)
    have "(i, v) \<in> set (zip (expired_at oc) sc)" by (rule map_of_SomeD [OF Some])
    then obtain j where j: "j < length (expired_at oc)" "expired_at oc ! j = i" "sc ! j = v"
      by (auto simp: in_set_zip)
    from Some have "out ! i = v" unfolding out_def update_at_nth [OF d i'] by (simp only: option.case)
    with answered_again [OF len(1) j(1) len(2)] j show ?thesis by simp
  qed
qed

lemma refused_answered:
  fixes e :: string
  assumes len: "length oc = length items" and i: "i < length items"
  defines "out \<equiv> update_at (map (\<lambda>at. (at, Some (new_error e))) (expired_at oc)) oc"
  assumes c: "confirmed (out ! i)"
  shows "answered (prepared_batch items, oc) (items ! i) (out ! i)"
proof -
  have "distinct (map fst (map (\<lambda>at. (at, Some (new_error e))) (expired_at oc)))"
    using expired_at_props(1) by (simp add: comp_def)
  from update_at_nth [OF this, of i oc] c len i have "out ! i = oc ! i"
    unfolding out_def by (auto simp: map_of_const split: if_splits)
  with answered_first [OF len i] show ?thesis by simp
qed

lemma authorize_spec:
  assumes "authorizeAndUpload (traced port) items (tr, w) = (out, (tr', w'))"
  shows "length out = length items \<and> (\<exists>calls. tr' = tr @ calls \<and> length calls \<le> 2 \<and>
    (\<forall>i < length items. confirmed (out ! i) \<longrightarrow> (\<exists>c \<in> set calls. answered c (items ! i) (out ! i))))"
proof -
  let ?batch = "prepared_batch items"
  obtain oc w1 where p1: "port ?batch w = (oc, w1)" by fastforce
  then have t1: "traced port ?batch (tr, w) = (oc, (tr @ [(?batch, oc)], w1))" by (simp add: traced_def)
  note a = assms [unfolded authorizeAndUpload_def Let_def t1 prod.case]
  let ?ex = "expired_at oc"
  let ?again = "renumbered (map (\<lambda>at. ?batch ! at) ?ex)"
  obtain sc w2 where p2: "port ?again w1 = (sc, w2)" by fastforce
  then have t2: "traced port ?again (tr @ [(?batch, oc)], w1) = (sc, (tr @ [(?batch, oc), (?again, sc)], w2))"
    by (simp add: traced_def)
  note a = a [unfolded t2 prod.case]
  consider (short) "length oc \<noteq> length items" | (once) "length oc = length items" "?ex = []"
    | (twice) "length oc = length items" "?ex \<noteq> []" by blast
  then show ?thesis
  proof cases
    case short
    with a have "length out = length items" "\<forall>i < length items. \<not> confirmed (out ! i)" "tr' = tr @ [(?batch, oc)]"
      by auto
    then show ?thesis by (intro conjI exI [of _ "[(?batch, oc)]"]) auto
  next
    case once
    with a have "out = oc" "tr' = tr @ [(?batch, oc)]" by auto
    with once answered_first [OF once(1)] show ?thesis by auto
  next
    case twice
    have tr': "tr' = tr @ [(?batch, oc), (?again, sc)]" using a twice by (auto split: if_splits)
    have "length out = length items \<and> (\<forall>i < length items. confirmed (out ! i) \<longrightarrow>
           answered (?batch, oc) (items ! i) (out ! i) \<or> answered (?again, sc) (items ! i) (out ! i))"
    proof (cases "length sc = length ?ex")
      case True
      with a twice have "out = update_at (zip ?ex sc) oc" by auto
      with merged_answered [OF twice(1) True] twice(1) show ?thesis by auto
    next
      case False
      then obtain e where "out = update_at (map (\<lambda>at. (at, Some (new_error e))) ?ex) oc"
        using a twice by auto
      with refused_answered [OF twice(1)] twice(1) show ?thesis by auto
    qed
    with tr' show ?thesis by (intro conjI exI [of _ "[(?batch, oc), (?again, sc)]"]) auto
  qed
qed

section \<open>Properties\<close>

text \<open>
  C14: Batching loses nothing and respects the protocol's limits. Whatever objects are added one by one
  and then flushed, the groups sent are the objects in order, none is empty, none has more than
  the object bound, and a group over 64 MiB of ciphertext is a single object.
\<close>

theorem groups_partition_the_objects:
  assumes "1 \<le> n"
  shows "(case batch_all its \<lparr>ba_maxObjects = n, ba_items = [], ba_bytes = 0\<rparr> of (sent, b) \<Rightarrow>
    concat sent = its \<and> ba_items b = [] \<and>
    (\<forall>g \<in> set sent. g \<noteq> [] \<and> int (length g) \<le> n \<and>
       (sum_list (map obj_size g) \<le> maxBatchBytes \<or> length g = 1)))"
proof -
  let ?b = "\<lparr>ba_maxObjects = n, ba_items = [], ba_bytes = 0\<rparr>"
  obtain sent b where s: "batch_all its ?b = (sent, b)" by fastforce
  have "batcher_ok ?b" using assms by (simp add: batcher_ok_def maxBatchBytes_def)
  from batch_all_ok [OF this s] s show ?thesis
    by (auto simp: list_all_iff group_ok_def group_bytes_def)
qed

text \<open>
  A fingerprint is offered for commit only after its object was confirmed. A group is sent with at
  most two calls of the port; it yields one result per object in order; and a result asks to record
  the object as shipped only if one of these calls, asked for that key and those bytes, answered
  without error or that the archive already holds the object. Every other result asks for nothing new.
\<close>

theorem shipped_only_when_confirmed:
  assumes "sendBatch (traced port) items ([], w) = (rs, (calls, w'))"
  shows "length rs = length items \<and> length calls \<le> 2 \<and>
    (\<forall>i < length items.
       (in_kind (fr_intent (rs ! i)) = intentShipped \<and> in_key (fr_intent (rs ! i)) = pp_key (su_pending (items ! i)) \<and>
        in_fp (fr_intent (rs ! i)) = pp_next (su_pending (items ! i)) \<and>
        (\<exists>(batch, ans) \<in> set calls. length ans = length batch \<and>
           (\<exists>j < length batch. (ans ! j = None \<or> errors_is (ans ! j) ErrAlreadyPresent) \<and>
              po_Key (batch ! j) = pp_objectKey (su_pending (items ! i)) \<and>
              po_Body (batch ! j) = pp_obj (su_pending (items ! i))))) \<or>
       (fr_intent (rs ! i) = fr_intent (su_res (items ! i)) \<and> fo_Decision (fr_outcome (rs ! i)) = DecisionFailed))"
proof -
  obtain out where a: "authorizeAndUpload (traced port) items ([], w) = (out, (calls, w'))"
    and rs: "rs = map (\<lambda>(it, oc). applyUploadOutcome it oc) (zip items out)"
    using assms by (auto simp: sendBatch_def split: prod.splits)
  from authorize_spec [OF a] have len: "length out = length items" and two: "length calls \<le> 2"
    and conf: "\<And>i. i < length items \<Longrightarrow> confirmed (out ! i) \<Longrightarrow> \<exists>c \<in> set calls. answered c (items ! i) (out ! i)"
    by auto
  have "in_kind (fr_intent (rs ! i)) = intentShipped \<and> in_key (fr_intent (rs ! i)) = pp_key (su_pending (items ! i)) \<and>
        in_fp (fr_intent (rs ! i)) = pp_next (su_pending (items ! i)) \<and> confirmed (out ! i) \<or>
        fr_intent (rs ! i) = fr_intent (su_res (items ! i)) \<and> fo_Decision (fr_outcome (rs ! i)) = DecisionFailed"
    if "i < length items" for i
    using that len rs by (auto simp: applyUploadOutcome_def confirmed_def Let_def split: option.split)
  with conf have "\<forall>i < length items. (in_kind (fr_intent (rs ! i)) = intentShipped \<and>
        in_key (fr_intent (rs ! i)) = pp_key (su_pending (items ! i)) \<and>
        in_fp (fr_intent (rs ! i)) = pp_next (su_pending (items ! i)) \<and>
        (\<exists>c \<in> set calls. answered c (items ! i) (out ! i) \<and> confirmed (out ! i))) \<or>
        fr_intent (rs ! i) = fr_intent (su_res (items ! i)) \<and> fo_Decision (fr_outcome (rs ! i)) = DecisionFailed"
    by meson
  with two len rs show ?thesis by (fastforce simp: answered_def confirmed_def)
qed

section \<open>A group that is sent\<close>

definition pd_staged :: stagedUpload where
  "pd_staged = \<lparr>su_res = start_result pd_job pd_src,
     su_pending = \<lparr>pp_key = Key ''codex'' ''/r/a'', pp_objectKey = ''k'', pp_obj = ''sealed'',
                   pp_md = [(''source-hash'', ''00'')], pp_next = zero_fp\<lparr>fp_SourceHash := ''00''\<rparr>\<rparr>\<rparr>"

text \<open>A port that confirms everything.\<close>

definition pd_port :: "unit port" where
  "pd_port batch w = (replicate (length batch) None, w)"

theorem groups_partition_the_objects_witness:
  "case batch_all [pd_staged, pd_staged] \<lparr>ba_maxObjects = 1, ba_items = [], ba_bytes = 0\<rparr> of (sent, b) \<Rightarrow>
     concat sent = [pd_staged, pd_staged] \<and> ba_items b = [] \<and>
     (\<forall>g \<in> set sent. g \<noteq> [] \<and> int (length g) \<le> 1 \<and>
        (sum_list (map obj_size g) \<le> maxBatchBytes \<or> length g = 1))"
  by (rule groups_partition_the_objects) simp

lemma pd_sent:
  "sendBatch (traced pd_port) [pd_staged] ([], ()) =
     ([applyUploadOutcome pd_staged None], ([(prepared_batch [pd_staged], [None])], ()))"
proof -
  have "expired_at [None] = []" by (simp add: expired_at_def)
  then show ?thesis by (simp add: sendBatch_def authorizeAndUpload_def traced_def pd_port_def)
qed

theorem shipped_only_when_confirmed_witness:
  "length [applyUploadOutcome pd_staged None] = length [pd_staged] \<and>
   in_kind (fr_intent (applyUploadOutcome pd_staged None)) = intentShipped"
  using shipped_only_when_confirmed [OF pd_sent] by (simp add: applyUploadOutcome_def Let_def)

end
