(* ===== verification/Pool.thy ===== *)
theory Pool
  imports Upload_Group
begin

text \<open>
  One source's file pass, \<^verbatim>\<open>src/internal/engine/pool.go\<close>. The loop goroutine owns every field of the pass:
  it admits candidates, receives compute results and finished groups in whatever order they
  arrive, and is the only writer of the store, the report and the log. Here each thing the loop
  does is a function on the pass, and the interleaving is a step relation: a computing file and a
  group in flight are members of the state, and any of them may be the next to report.
\<close>

section \<open>State\<close>

datatype phase = Admitting | Waiting | Finished

record 'w sourcePass =
  sp_store :: commitBuffer
  sp_rep :: Report
  sp_out :: SourceOutcome
  sp_budget :: int
  sp_slots :: "FileOutcome list"
  sp_filled :: "bool list"
  sp_units :: "RawUnit option list"
  sp_decided :: int
  sp_inFlightBytes :: int
  sp_charges :: "(nat, int) gomap"
  sp_fatal :: bool
  sp_fatalReason :: string
  sp_staged :: batcher
  sp_uploadHalted :: bool
  sp_offline :: bool
  sp_haltReason :: string
  sp_unchangedElided :: int
  sp_log :: "Entry list"
  sp_next :: nat
  sp_inFlight :: int
  sp_computing :: int
  sp_stopped :: "goerr option"
  sp_jobs :: "fileJob list"
  sp_groups :: "stagedUpload list list"
  sp_world :: 'w
  sp_phase :: phase

text \<open>What does not change during a pass.\<close>

record 'id passEnv =
  pe_o :: "'id Options"
  pe_cd :: codec
  pe_src :: Resolved
  pe_disc :: Discovery
  pe_staging :: bool
  pe_gomaxprocs :: int

text \<open>
  What one turn of the loop reads from outside: the context, the clock, and what a compressed file
  declares as its decoded size (nothing when it cannot be opened or is not a single such frame).
\<close>

record reading =
  rd_ctxErr :: "goerr option"
  rd_now :: gotime
  rd_frameSize :: "Candidate \<Rightarrow> nat option"

definition IsZstd :: "string \<Rightarrow> bool" where "IsZstd p = suffix ''.zst'' p"

definition LoadBytes :: "nat option \<Rightarrow> Candidate \<Rightarrow> int \<Rightarrow> int" where
  "LoadBytes frameSize c maxBytes =
     (if \<not> IsZstd (ca_Path c) \<or> maxBytes \<le> 0 then ca_Size c
      else (case frameSize of
              Some sz \<Rightarrow> if int sz < maxBytes then int sz else maxBytes
            | None \<Rightarrow> maxBytes))"

definition candidates :: "'id passEnv \<Rightarrow> Candidate list" where
  "candidates pe = di_Candidates (pe_disc pe)"

definition concurrency :: "'id Options \<Rightarrow> int \<Rightarrow> int \<Rightarrow> int" where
  "concurrency opt gomaxprocs cands =
     (let w = (if op_Workers opt \<le> 0 then gomaxprocs else op_Workers opt) in max 1 (min w cands))"

definition uploadConcurrency :: "'id Options \<Rightarrow> int \<Rightarrow> int" where
  "uploadConcurrency opt compute = (if op_UploadWorkers opt > 0 then op_UploadWorkers opt else 8 * compute)"

definition computeLimit :: "'id passEnv \<Rightarrow> int" where
  "computeLimit pe = concurrency (pe_o pe) (pe_gomaxprocs pe) (int (length (candidates pe)))"

definition uploadLimit :: "'id passEnv \<Rightarrow> int" where
  "uploadLimit pe = uploadConcurrency (pe_o pe) (computeLimit pe)"

definition limit :: "'id passEnv \<Rightarrow> int" where
  "limit pe = computeLimit pe + uploadLimit pe"

definition start_pass :: "'id passEnv \<Rightarrow> commitBuffer \<Rightarrow> Report \<Rightarrow> SourceOutcome \<Rightarrow> int \<Rightarrow> 'w \<Rightarrow> 'w sourcePass" where
  "start_pass pe store rep out budget w =
     (let n = length (candidates pe)
      in \<lparr>sp_store = store, sp_rep = rep, sp_out = out, sp_budget = budget,
          sp_slots = replicate n zero_outcome, sp_filled = replicate n False, sp_units = replicate n None,
          sp_decided = 0, sp_inFlightBytes = 0, sp_charges = [], sp_fatal = False, sp_fatalReason = [],
          sp_staged = \<lparr>ba_maxObjects = max 1 (min maxBatchObjects (uploadLimit pe div 2)), ba_items = [], ba_bytes = 0\<rparr>,
          sp_uploadHalted = False, sp_offline = False, sp_haltReason = [], sp_unchangedElided = 0,
          sp_log = [], sp_next = 0, sp_inFlight = 0, sp_computing = 0, sp_stopped = None,
          sp_jobs = [], sp_groups = [], sp_world = w, sp_phase = Admitting\<rparr>)"

section \<open>Admission\<close>

definition charge :: "'id passEnv \<Rightarrow> reading \<Rightarrow> nat \<Rightarrow> 'w sourcePass \<Rightarrow> int \<times> 'w sourcePass" where
  "charge pe rd i p =
     (let cand = candidates pe ! i
      in if \<not> IsZstd (ca_Path cand) then (ca_Size cand, p)
         else (case map_get (sp_charges p) i of
                 Some c \<Rightarrow> (c, p)
               | None \<Rightarrow>
                   (let key = KeyOf (src_ID (pe_src pe)) cand;
                        (fp, seen) = (case cb_Get (sp_store p) key of Some fp \<Rightarrow> (fp, True) | None \<Rightarrow> (zero_fp, False));
                        c = (if unchangedByStat (rd_now rd) key fp seen cand (pe_staging pe)
                             then ca_Size cand else LoadBytes (rd_frameSize rd cand) cand (src_MaxFileBytes (pe_src pe)))
                    in (c, p\<lparr>sp_charges := map_put i c (sp_charges p)\<rparr>))))"

definition canAdmit :: "'id passEnv \<Rightarrow> reading \<Rightarrow> 'w sourcePass \<Rightarrow> bool \<times> 'w sourcePass" where
  "canAdmit pe rd p =
     (if sp_stopped p \<noteq> None \<or> sp_fatal p \<or> sp_uploadHalted p \<or> sp_next p \<ge> length (candidates pe) then (False, p)
      else if rd_ctxErr rd \<noteq> None then (False, p\<lparr>sp_stopped := rd_ctxErr rd\<rparr>)
      else if sp_budget p \<le> 0 then (False, p)
      else (case charge pe rd (sp_next p) p of
              (sz, p) \<Rightarrow>
                if sp_inFlight p > 0 \<and> sp_inFlightBytes p + sz > op_MaxInFlightBytes (pe_o pe) then (False, p)
                else (True, p\<lparr>sp_budget := sp_budget p - 1\<rparr>)))"

definition job_for :: "'id passEnv \<Rightarrow> 'w sourcePass \<Rightarrow> nat \<Rightarrow> fileJob" where
  "job_for pe p i =
     (let cand = candidates pe ! i
      in case cb_Get (sp_store p) (KeyOf (src_ID (pe_src pe)) cand) of
           Some fp \<Rightarrow> \<lparr>jb_idx = i, jb_cand = cand, jb_fp = fp, jb_seen = True\<rparr>
         | None \<Rightarrow> \<lparr>jb_idx = i, jb_cand = cand, jb_fp = zero_fp, jb_seen = False\<rparr>)"

definition dispatch :: "'id passEnv \<Rightarrow> reading \<Rightarrow> 'w sourcePass \<Rightarrow> 'w sourcePass" where
  "dispatch pe rd p =
     (let job = job_for pe p (sp_next p); (c, p) = charge pe rd (sp_next p) p
      in p\<lparr>sp_inFlightBytes := sp_inFlightBytes p + c, sp_jobs := sp_jobs p @ [job],
           sp_next := sp_next p + 1, sp_inFlight := sp_inFlight p + 1, sp_computing := sp_computing p + 1\<rparr>)"

section \<open>Folding a result\<close>

definition applyIntent :: "codec \<Rightarrow> fileResult \<Rightarrow> 'w sourcePass \<Rightarrow> fileResult \<times> 'w sourcePass" where
  "applyIntent cd r p =
     (let i = fr_intent r; out = fr_outcome r
      in if in_kind i = intentNone then (r, p)
         else (case cb_Commit cd (in_key i) (in_fp i) (sp_store p) of
                 (err, store) \<Rightarrow>
                   (case err of
                      None \<Rightarrow> r
                    | Some e \<Rightarrow>
                        (case in_kind i of
                           intentRefresh \<Rightarrow> r\<lparr>fr_outcome := out\<lparr>fo_Decision := DecisionFailed, fo_Reason := err_msg e\<rparr>\<rparr>
                         | intentShipped \<Rightarrow> r\<lparr>fr_outcome := out\<lparr>fo_Decision := DecisionFailed,
                             fo_Reason := ''upload succeeded but commit failed: '' @ err_msg e\<rparr>\<rparr>
                         | intentBackoff \<Rightarrow> r\<lparr>fr_outcome := out\<lparr>fo_Reason := in_reason i @
                             '' (and the backoff could not be recorded: '' @ err_msg e @ '')''\<rparr>\<rparr>
                         | intentNone \<Rightarrow> r),
                    p\<lparr>sp_store := store\<rparr>)))"

text \<open>The counters: which decisions there are of, and which give the budget back.\<close>

definition count_decision :: "Decision \<Rightarrow> Report \<times> int \<Rightarrow> Report \<times> int" where
  "count_decision d rb = (case rb of (rep, budget) \<Rightarrow>
     (case d of
        DecisionShipped \<Rightarrow> (rep\<lparr>rp_Shipped := rp_Shipped rep + 1\<rparr>, budget)
      | DecisionUnchanged \<Rightarrow> (rep\<lparr>rp_Unchanged := rp_Unchanged rep + 1\<rparr>, budget + 1)
      | DecisionSkipped \<Rightarrow> (rep\<lparr>rp_Skipped := rp_Skipped rep + 1\<rparr>, budget + 1)
      | DecisionParked \<Rightarrow> (rep\<lparr>rp_Parked := rp_Parked rep + 1\<rparr>, budget)
      | DecisionFailed \<Rightarrow> (rep\<lparr>rp_Failed := rp_Failed rep + 1\<rparr>, budget)
      | DecisionNone \<Rightarrow> (rep, budget)))"

definition outcome_entry :: "Plan \<Rightarrow> FileOutcome \<Rightarrow> Entry" where
  "outcome_entry plan f = \<lparr>en_Decision = fo_Decision f, en_SourceID = fo_SourceID f, en_File = fo_NativePath f,
     en_BytesIn = fo_BytesIn f, en_BytesOut = fo_BytesOut f, en_RedactionDensity = fo_Density f,
     en_RuleHits = fo_RuleHits f, en_ObjectKey = fo_ObjectKey f, en_ConfigVersion = pn_ConfigVersion plan,
     en_Reason = fo_Reason f\<rparr>"

definition record_result :: "'id passEnv \<Rightarrow> fileResult \<Rightarrow> 'w sourcePass \<Rightarrow> 'w sourcePass" where
  "record_result pe r p =
     (let p = (if fr_loadWarning r \<noteq> []
               then p\<lparr>sp_out := (sp_out p)\<lparr>so_Unreadable := so_Unreadable (sp_out p) + 1,
                        so_UnreadableReason := fr_loadWarning r, so_Reason := fr_loadWarning r\<rparr>\<rparr>
               else p);
          (rep, budget) = count_decision (fo_Decision (fr_outcome r)) (sp_rep p, sp_budget p)
      in p\<lparr>sp_slots := (sp_slots p)[fr_idx r := fr_outcome r], sp_filled := (sp_filled p)[fr_idx r := True],
           sp_units := (sp_units p)[fr_idx r := fr_unit r], sp_decided := sp_decided p + 1,
           sp_rep := rep, sp_budget := budget\<rparr>)"

definition log_result :: "'id passEnv \<Rightarrow> fileResult \<Rightarrow> 'w sourcePass \<Rightarrow> 'w sourcePass" where
  "log_result pe r p =
     (if \<not> op_Log (pe_o pe) then p
      else if fo_Decision (fr_outcome r) = DecisionUnchanged \<and> fo_BytesIn (fr_outcome r) = 0
      then p\<lparr>sp_unchangedElided := sp_unchangedElided p + 1\<rparr>
      else p\<lparr>sp_log := sp_log p @ [outcome_entry (op_Plan (pe_o pe)) (fr_outcome r)]\<rparr>)"

text \<open>\<^verbatim>\<open>fold\<close>, less the progress callback, which only observes.\<close>

definition fold_result :: "'id passEnv \<Rightarrow> fileResult \<Rightarrow> 'w sourcePass \<Rightarrow> 'w sourcePass" where
  "fold_result pe r0 p0 =
     (case applyIntent (pe_cd pe) r0 p0 of
        (r, p) \<Rightarrow>
          if (fo_Fatal (fr_outcome r0) \<and> sp_fatal p0) \<or> (fr_unavailable r0 \<and> sp_uploadHalted p0) then p
          else let p = record_result pe r p
               in if fo_Fatal (fr_outcome r)
                  then p\<lparr>sp_fatal := True, sp_fatalReason := fo_Reason (fr_outcome r)\<rparr>
                  else if fr_unavailable r
                  then p\<lparr>sp_uploadHalted := True, sp_haltReason := fo_Reason (fr_outcome r), sp_offline := fr_offline r\<rparr>
                  else log_result pe r p)"

definition settle :: "'id passEnv \<Rightarrow> reading \<Rightarrow> fileResult \<Rightarrow> 'w sourcePass \<Rightarrow> 'w sourcePass" where
  "settle pe rd r p =
     (case charge pe rd (fr_idx r) (p\<lparr>sp_inFlight := sp_inFlight p - 1\<rparr>) of
        (c, p) \<Rightarrow> fold_result pe r (p\<lparr>sp_inFlightBytes := sp_inFlightBytes p - c,
                                     sp_charges := map_del (fr_idx r) (sp_charges p)\<rparr>))"

section \<open>Staging\<close>

definition abandon :: "'w sourcePass \<Rightarrow> stagedUpload \<Rightarrow> fileResult" where
  "abandon p it =
     (let r = su_res it
      in r\<lparr>fr_outcome := (fr_outcome r)\<lparr>fo_Decision := DecisionFailed, fo_Fatal := sp_fatal p,
             fo_Reason := (if sp_fatal p then ''not attempted: this install's credentials were refused''
                           else ''not attempted: '' @ sp_haltReason p)\<rparr>,
           fr_unavailable := \<not> sp_fatal p\<rparr>)"

definition stageUpload :: "fileResult \<Rightarrow> pendingPut \<Rightarrow> 'w sourcePass \<Rightarrow> fileResult option \<times> 'w sourcePass" where
  "stageUpload r pending p =
     (let it = \<lparr>su_res = r, su_pending = pending\<rparr>
      in if sp_fatal p \<or> sp_uploadHalted p then (Some (abandon p it), p)
         else (case batcher_add it (int (length (pp_obj pending))) (sp_staged p) of
                 (sent, b) \<Rightarrow> (None, p\<lparr>sp_staged := b, sp_groups := sp_groups p @ sent\<rparr>)))"

definition drainStaged :: "'w sourcePass \<Rightarrow> fileResult list \<times> 'w sourcePass" where
  "drainStaged p =
     (if ba_items (sp_staged p) = [] \<or> (\<not> sp_fatal p \<and> \<not> sp_uploadHalted p) then ([], p)
      else (case batcher_take (sp_staged p) of
              (items, b) \<Rightarrow> (map (abandon p) items, p\<lparr>sp_staged := b\<rparr>)))"

section \<open>The loop\<close>

text \<open>The end of admission: flush when nothing computes, and stop when nothing is in flight.\<close>

definition end_admission :: "'w sourcePass \<Rightarrow> 'w sourcePass" where
  "end_admission p =
     (let p = (if sp_computing p = 0
               then (case batcher_flush (sp_staged p) of
                       (sent, b) \<Rightarrow> p\<lparr>sp_staged := b, sp_groups := sp_groups p @ sent\<rparr>)
               else p)
      in p\<lparr>sp_phase := (if sp_inFlight p = 0 then Finished else Waiting)\<rparr>)"

definition receive_result ::
  "'id passEnv \<Rightarrow> reading \<Rightarrow> fileJob \<Rightarrow> fileResult \<Rightarrow> pendingPut option \<Rightarrow> 'w sourcePass \<Rightarrow> 'w sourcePass" where
  "receive_result pe rd job r pending p0 =
     (let p = p0\<lparr>sp_computing := sp_computing p0 - 1, sp_jobs := remove1 job (sp_jobs p0)\<rparr>;
          p = (case pending of
                 Some q \<Rightarrow> (case stageUpload r q p of
                              (Some d, p) \<Rightarrow> settle pe rd d p
                            | (None, p) \<Rightarrow> p)
               | None \<Rightarrow> settle pe rd r p)
      in p\<lparr>sp_phase := Admitting\<rparr>)"

definition receive_batch ::
  "'id passEnv \<Rightarrow> reading \<Rightarrow> stagedUpload list \<Rightarrow> fileResult list \<Rightarrow> 'w \<Rightarrow> 'w sourcePass \<Rightarrow> 'w sourcePass" where
  "receive_batch pe rd g done w p0 =
     (let p = p0\<lparr>sp_groups := remove1 g (sp_groups p0), sp_world := w\<rparr>;
          p = fold (settle pe rd) done p;
          (drained, p) = drainStaged p;
          p = fold (settle pe rd) drained p
      in p\<lparr>sp_phase := Admitting\<rparr>)"

text \<open>The steps of a pass. Every reading of the world is whatever it happens to be at that turn.\<close>

inductive pass_step :: "'id passEnv \<Rightarrow> 'w port \<Rightarrow> 'w sourcePass \<Rightarrow> 'w sourcePass \<Rightarrow> bool"
  for pe port where
  admit: "sp_phase p = Admitting \<Longrightarrow> sp_inFlight p < limit pe \<Longrightarrow> canAdmit pe rd p = (True, p') \<Longrightarrow>
    pass_step pe port p (dispatch pe rd p')"
| admit_end: "sp_phase p = Admitting \<Longrightarrow>
    \<not> sp_inFlight p < limit pe \<and> p' = p \<or> sp_inFlight p < limit pe \<and> canAdmit pe rd p = (False, p') \<Longrightarrow>
    pass_step pe port p (end_admission p')"
| result: "sp_phase p = Waiting \<Longrightarrow> job \<in> set (sp_jobs p) \<Longrightarrow>
    prepareFile (pe_o pe) now job (pe_src pe) (pe_disc pe) (pe_staging pe) = Some (r, pending) \<Longrightarrow>
    pass_step pe port p (receive_result pe rd job r pending p)"
| batch: "sp_phase p = Waiting \<Longrightarrow> g \<in> set (sp_groups p) \<Longrightarrow> sendBatch port g (sp_world p) = (done, w) \<Longrightarrow>
    pass_step pe port p (receive_batch pe rd g done w p)"

section \<open>The end of a pass\<close>

definition assemble :: "'w sourcePass \<Rightarrow> 'w sourcePass" where
  "assemble p = p\<lparr>sp_out := (sp_out p)\<lparr>so_Files := so_Files (sp_out p) @
     map fst (filter snd (zip (sp_slots p) (sp_filled p)))\<rparr>\<rparr>"

definition stagedUnits :: "'w sourcePass \<Rightarrow> RawUnit list" where
  "stagedUnits p = List.map_filter id (sp_units p)"

definition elided_entry :: "'id passEnv \<Rightarrow> int \<Rightarrow> Entry" where
  "elided_entry pe k = zero_entry\<lparr>en_Decision := DecisionUnchanged, en_SourceID := src_ID (pe_src pe),
     en_ConfigVersion := pn_ConfigVersion (op_Plan (pe_o pe)),
     en_Reason := itoa k @ '' '' @ (if k = 1 then ''file'' else ''files'') @
       '' unchanged by size and mtime, not opened; per-file entries elided''\<rparr>"

definition log_if :: "'id passEnv \<Rightarrow> Entry \<Rightarrow> 'w sourcePass \<Rightarrow> 'w sourcePass" where
  "log_if pe e p = (if op_Log (pe_o pe) then p\<lparr>sp_log := sp_log p @ [e]\<rparr> else p)"

definition stop_message :: "'id passEnv \<Rightarrow> 'w sourcePass \<Rightarrow> string" where
  "stop_message pe p = '': collection stopped after '' @ itoa (int (length (so_Files (sp_out p)))) @ '' of '' @
     itoa (int (length (candidates pe))) @ '' files; ''"

definition finish_pass :: "'id passEnv \<Rightarrow> 'w sourcePass \<Rightarrow> goerr option \<times> 'w sourcePass" where
  "finish_pass pe p0 =
     (let p = assemble p0;
          p = (if sp_unchangedElided p > 0 then log_if pe (elided_entry pe (sp_unchangedElided p)) p else p)
      in if sp_fatal p
         then (Some (err_of_sentinel ErrCredentialsRefused (stop_message pe p @
                 ''this install may have been revoked or re-enrolled elsewhere. '' @
                 ''`quesma-shipper doctor` reports what the control plane says'')),
               log_if pe (zero_entry\<lparr>en_Decision := DecisionFailed, en_SourceID := src_ID (pe_src pe),
                            en_Reason := ''run abandoned: '' @ sp_fatalReason p\<rparr>) p)
         else if sp_uploadHalted p
         then (let reason = ''uploads stopped: '' @ sp_haltReason p;
                   p = p\<lparr>sp_out := (sp_out p)\<lparr>so_Reason := reason\<rparr>\<rparr>
               in (Some (err_of_sentinel (if sp_offline p then ErrOffline else ErrUploadUnavailable)
                     (stop_message pe p @ ''nothing new was committed and the next run retries. '' @ sp_haltReason p)),
                   log_if pe (zero_entry\<lparr>en_Decision := DecisionFailed, en_SourceID := src_ID (pe_src pe),
                                en_Reason := reason\<rparr>) p))
         else if sp_stopped p \<noteq> None then (sp_stopped p, p)
         else if sp_next p < length (candidates pe)
         then (let left = int (length (candidates pe)) - int (sp_next p)
               in (None, p\<lparr>sp_rep := (sp_rep p)\<lparr>rp_Truncated := True, rp_Remaining := rp_Remaining (sp_rep p) + left\<rparr>,
                           sp_out := (sp_out p)\<lparr>so_Remaining := left\<rparr>\<rparr>))
         else (None, p))"

section \<open>What the operations leave alone\<close>

lemma applyIntent_frame:
  assumes "applyIntent cd r p = (r', p')"
  obtains s where "p' = p\<lparr>sp_store := s\<rparr>" "fr_idx r' = fr_idx r"
    "fo_Fatal (fr_outcome r') = fo_Fatal (fr_outcome r)" "fr_unavailable r' = fr_unavailable r"
    "fo_Decision (fr_outcome r') = fo_Decision (fr_outcome r) \<or> fo_Decision (fr_outcome r') = DecisionFailed"
proof -
  have "p' = p\<lparr>sp_store := sp_store p'\<rparr> \<and> fr_idx r' = fr_idx r \<and>
    fo_Fatal (fr_outcome r') = fo_Fatal (fr_outcome r) \<and> fr_unavailable r' = fr_unavailable r \<and>
    (fo_Decision (fr_outcome r') = fo_Decision (fr_outcome r) \<or> fo_Decision (fr_outcome r') = DecisionFailed)"
    using assms
    by (cases "in_kind (fr_intent r)")
       (auto simp: applyIntent_def Let_def split: prod.splits option.splits)
  then show ?thesis using that by blast
qed

text \<open>The part of the pass that folding a result does not touch.\<close>

definition loop_part :: "'w sourcePass \<Rightarrow> (nat \<times> int \<times> int \<times> goerr option) \<times>
    (fileJob list \<times> stagedUpload list list \<times> batcher \<times> 'w \<times> phase)" where
  "loop_part p = ((sp_next p, sp_inFlight p, sp_computing p, sp_stopped p),
     (sp_jobs p, sp_groups p, sp_staged p, sp_world p, sp_phase p))"

text \<open>A result is suppressed when the latch it would set is set already.\<close>

definition suppressed :: "fileResult \<Rightarrow> 'w sourcePass \<Rightarrow> bool" where
  "suppressed r p \<longleftrightarrow> (fo_Fatal (fr_outcome r) \<and> sp_fatal p) \<or> (fr_unavailable r \<and> sp_uploadHalted p)"

lemma record_result_frame:
  "loop_part (record_result pe r p) = loop_part p" "sp_inFlightBytes (record_result pe r p) = sp_inFlightBytes p"
  "sp_charges (record_result pe r p) = sp_charges p" "sp_store (record_result pe r p) = sp_store p"
  "sp_fatal (record_result pe r p) = sp_fatal p" "sp_uploadHalted (record_result pe r p) = sp_uploadHalted p"
  "sp_filled (record_result pe r p) = (sp_filled p)[fr_idx r := True]"
  "sp_slots (record_result pe r p) = (sp_slots p)[fr_idx r := fr_outcome r]"
  "sp_rep (record_result pe r p) = fst (count_decision (fo_Decision (fr_outcome r)) (sp_rep p, sp_budget p))"
  "sp_budget (record_result pe r p) = snd (count_decision (fo_Decision (fr_outcome r)) (sp_rep p, sp_budget p))"
  by (simp_all add: record_result_def loop_part_def Let_def split: prod.split)

lemma log_result_frame:
  "loop_part (log_result pe r p) = loop_part p" "sp_inFlightBytes (log_result pe r p) = sp_inFlightBytes p"
  "sp_charges (log_result pe r p) = sp_charges p" "sp_store (log_result pe r p) = sp_store p"
  "sp_fatal (log_result pe r p) = sp_fatal p" "sp_uploadHalted (log_result pe r p) = sp_uploadHalted p"
  "sp_filled (log_result pe r p) = sp_filled p" "sp_slots (log_result pe r p) = sp_slots p"
  "sp_rep (log_result pe r p) = sp_rep p" "sp_budget (log_result pe r p) = sp_budget p"
  by (simp_all add: log_result_def loop_part_def)

lemma fold_result_frame:
  assumes "applyIntent (pe_cd pe) r p = (r', p')"
  shows "loop_part (fold_result pe r p) = loop_part p" "sp_inFlightBytes (fold_result pe r p) = sp_inFlightBytes p"
    "sp_charges (fold_result pe r p) = sp_charges p" "sp_store (fold_result pe r p) = sp_store p'"
    "sp_fatal (fold_result pe r p) = (sp_fatal p \<or> fo_Fatal (fr_outcome r) \<and> \<not> suppressed r p)"
    "sp_uploadHalted (fold_result pe r p) =
       (sp_uploadHalted p \<or> fr_unavailable r \<and> \<not> fo_Fatal (fr_outcome r) \<and> \<not> suppressed r p)"
    "sp_filled (fold_result pe r p) = (if suppressed r p then sp_filled p else (sp_filled p)[fr_idx r := True])"
    "sp_slots (fold_result pe r p) = (if suppressed r p then sp_slots p else (sp_slots p)[fr_idx r := fr_outcome r'])"
    "(sp_rep (fold_result pe r p), sp_budget (fold_result pe r p)) =
       (if suppressed r p then (sp_rep p, sp_budget p)
        else count_decision (fo_Decision (fr_outcome r')) (sp_rep p, sp_budget p))"
proof -
  obtain s where p': "p' = p\<lparr>sp_store := s\<rparr>" "fr_idx r' = fr_idx r"
    "fo_Fatal (fr_outcome r') = fo_Fatal (fr_outcome r)" "fr_unavailable r' = fr_unavailable r"
    by (rule applyIntent_frame [OF assms])
  have lp: "loop_part p' = loop_part p" using p'(1) by (simp add: loop_part_def)
  note f = fold_result_def assms p'(1) record_result_frame log_result_frame suppressed_def Let_def
  have lpu [simp]: "loop_part (q\<lparr>sp_fatal := x, sp_fatalReason := y\<rparr>) = loop_part q"
    "loop_part (q\<lparr>sp_uploadHalted := x, sp_haltReason := y, sp_offline := z\<rparr>) = loop_part q" for q :: "'a sourcePass" and x y z
    by (simp_all add: loop_part_def)
  show "loop_part (fold_result pe r p) = loop_part p"
    using lp by (simp add: fold_result_def assms record_result_frame log_result_frame Let_def)
  show "sp_inFlightBytes (fold_result pe r p) = sp_inFlightBytes p" "sp_charges (fold_result pe r p) = sp_charges p"
    "sp_store (fold_result pe r p) = sp_store p'"
    by (simp_all add: f)
  show "sp_fatal (fold_result pe r p) = (sp_fatal p \<or> fo_Fatal (fr_outcome r) \<and> \<not> suppressed r p)"
    "sp_uploadHalted (fold_result pe r p) =
       (sp_uploadHalted p \<or> fr_unavailable r \<and> \<not> fo_Fatal (fr_outcome r) \<and> \<not> suppressed r p)"
    using p'(3,4) by (auto simp: f)
  show "sp_filled (fold_result pe r p) = (if suppressed r p then sp_filled p else (sp_filled p)[fr_idx r := True])"
    "sp_slots (fold_result pe r p) = (if suppressed r p then sp_slots p else (sp_slots p)[fr_idx r := fr_outcome r'])"
    "(sp_rep (fold_result pe r p), sp_budget (fold_result pe r p)) =
       (if suppressed r p then (sp_rep p, sp_budget p)
        else count_decision (fo_Decision (fr_outcome r')) (sp_rep p, sp_budget p))"
    using p'(2) by (simp_all add: f)
qed

lemma charge_frame:
  assumes "charge pe rd i p = (c, p')"
  obtains ch where "p' = p\<lparr>sp_charges := ch\<rparr>"
proof -
  have "p' = p\<lparr>sp_charges := sp_charges p'\<rparr>"
    using assms by (auto simp: charge_def Let_def split: if_splits option.splits prod.splits)
  then show ?thesis using that by blast
qed

lemma applyIntent_store_only:
  assumes "applyIntent cd r p = (r', p')" "sp_store q = sp_store p"
  shows "applyIntent cd r q = (r', q\<lparr>sp_store := sp_store p'\<rparr>)"
  using assms by (auto simp: applyIntent_def Let_def split: prod.splits if_splits)

text \<open>Settling in terms of what it is given: one fewer in flight, and the result folded.\<close>

lemma settle_facts:
  assumes "applyIntent (pe_cd pe) r p = (r', p')"
  shows "loop_part (settle pe rd r p) = loop_part (p\<lparr>sp_inFlight := sp_inFlight p - 1\<rparr>)"
    "sp_store (settle pe rd r p) = sp_store p'"
    "sp_fatal (settle pe rd r p) = (sp_fatal p \<or> fo_Fatal (fr_outcome r) \<and> \<not> suppressed r p)"
    "sp_uploadHalted (settle pe rd r p) =
       (sp_uploadHalted p \<or> fr_unavailable r \<and> \<not> fo_Fatal (fr_outcome r) \<and> \<not> suppressed r p)"
    "sp_filled (settle pe rd r p) = (if suppressed r p then sp_filled p else (sp_filled p)[fr_idx r := True])"
    "sp_slots (settle pe rd r p) = (if suppressed r p then sp_slots p else (sp_slots p)[fr_idx r := fr_outcome r'])"
    "(sp_rep (settle pe rd r p), sp_budget (settle pe rd r p)) =
       (if suppressed r p then (sp_rep p, sp_budget p)
        else count_decision (fo_Decision (fr_outcome r')) (sp_rep p, sp_budget p))"
proof -
  obtain c q where c: "charge pe rd (fr_idx r) (p\<lparr>sp_inFlight := sp_inFlight p - 1\<rparr>) = (c, q)" by fastforce
  obtain ch where q: "q = p\<lparr>sp_inFlight := sp_inFlight p - 1, sp_charges := ch\<rparr>"
    using charge_frame [OF c] by metis
  let ?q = "q\<lparr>sp_inFlightBytes := sp_inFlightBytes q - c, sp_charges := map_del (fr_idx r) (sp_charges q)\<rparr>"
  have s: "settle pe rd r p = fold_result pe r ?q" by (simp add: settle_def c)
  have "sp_store ?q = sp_store p" by (simp add: q)
  note f = fold_result_frame [OF applyIntent_store_only [OF assms this]]
  have sup: "suppressed r ?q = suppressed r p" by (simp add: suppressed_def q)
  show "loop_part (settle pe rd r p) = loop_part (p\<lparr>sp_inFlight := sp_inFlight p - 1\<rparr>)"
    unfolding s f(1) by (simp add: q loop_part_def)
  show "sp_store (settle pe rd r p) = sp_store p'" unfolding s f(4) by simp
  show "sp_fatal (settle pe rd r p) = (sp_fatal p \<or> fo_Fatal (fr_outcome r) \<and> \<not> suppressed r p)"
    unfolding s f(5) sup by (simp add: q)
  show "sp_uploadHalted (settle pe rd r p) =
       (sp_uploadHalted p \<or> fr_unavailable r \<and> \<not> fo_Fatal (fr_outcome r) \<and> \<not> suppressed r p)"
    unfolding s f(6) sup by (simp add: q)
  show "sp_filled (settle pe rd r p) = (if suppressed r p then sp_filled p else (sp_filled p)[fr_idx r := True])"
    unfolding s f(7) sup by (simp add: q)
  show "sp_slots (settle pe rd r p) = (if suppressed r p then sp_slots p else (sp_slots p)[fr_idx r := fr_outcome r'])"
    unfolding s f(8) sup by (simp add: q)
  show "(sp_rep (settle pe rd r p), sp_budget (settle pe rd r p)) =
       (if suppressed r p then (sp_rep p, sp_budget p)
        else count_decision (fo_Decision (fr_outcome r')) (sp_rep p, sp_budget p))"
    unfolding s f(9) sup by (simp add: q)
qed

section \<open>Accounting\<close>

definition sidx :: "stagedUpload \<Rightarrow> nat" where "sidx it = fr_idx (su_res it)"

text \<open>The indices in flight: computing, waiting in the accumulator, or in a group that was sent.\<close>

definition ids :: "'w sourcePass \<Rightarrow> nat multiset" where
  "ids p = mset (map jb_idx (sp_jobs p)) + mset (map sidx (ba_items (sp_staged p))) +
           mset (map sidx (concat (sp_groups p)))"

text \<open>
  The books of the loop, with \<open>held\<close> the results it has in hand: every admitted candidate is in
  flight once, in hand, or decided; and while nothing has latched, none is missing.
\<close>

definition acct :: "'id passEnv \<Rightarrow> nat multiset \<Rightarrow> 'w sourcePass \<Rightarrow> bool" where
  "acct pe held p \<longleftrightarrow>
     sp_inFlight p = int (size (ids p + held)) \<and> sp_computing p = int (length (sp_jobs p)) \<and>
     (\<forall>i. count (ids p + held) i \<le> 1) \<and>
     (\<forall>i \<in># ids p + held. i < sp_next p \<and> \<not> sp_filled p ! i) \<and>
     sp_next p \<le> length (candidates pe) \<and> length (sp_filled p) = length (candidates pe) \<and>
     length (sp_slots p) = length (candidates pe) \<and>
     (\<not> sp_fatal p \<and> \<not> sp_uploadHalted p \<longrightarrow> (\<forall>i < sp_next p. i \<in># ids p + held \<or> sp_filled p ! i)) \<and>
     (\<forall>i < length (candidates pe). sp_filled p ! i \<longrightarrow> i < sp_next p) \<and>
     batcher_ok (sp_staged p) \<and> (\<forall>g \<in> set (sp_groups p). g \<noteq> []) \<and>
     (\<forall>job \<in> set (sp_jobs p). jb_cand job = candidates pe ! jb_idx job)"

lemma loop_part_eqD:
  assumes "loop_part q = loop_part p"
  shows "sp_next q = sp_next p" "sp_inFlight q = sp_inFlight p" "sp_computing q = sp_computing p"
    "sp_stopped q = sp_stopped p" "sp_jobs q = sp_jobs p" "sp_groups q = sp_groups p" "sp_staged q = sp_staged p"
    "sp_world q = sp_world p" "sp_phase q = sp_phase p" "ids q = ids p"
  using assms by (simp_all add: loop_part_def ids_def)

lemma held_count:
  assumes "\<forall>i. count (m + add_mset x held) i \<le> 1"
  shows "count (m + held) x = 0 \<and> (\<forall>i. count (m + held) i \<le> 1)"
proof
  show "count (m + held) x = 0" using assms [rule_format, of x] by simp
  show "\<forall>i. count (m + held) i \<le> 1"
  proof
    fix i show "count (m + held) i \<le> 1" using assms [rule_format, of i] by (cases "i = x") auto
  qed
qed

lemma settle_acct:
  assumes "acct pe (add_mset (fr_idx r) held) p"
  shows "acct pe held (settle pe rd r p)"
proof -
  obtain r' p' where a: "applyIntent (pe_cd pe) r p = (r', p')" by fastforce
  note sf = settle_facts [OF a, of rd]
  let ?q = "settle pe rd r p"
  note lp = loop_part_eqD [OF sf(1)]
  have ids: "ids ?q = ids p" unfolding lp(10) by (simp add: ids_def)
  have "\<forall>i. count (ids p + add_mset (fr_idx r) held) i \<le> 1"
    using assms unfolding acct_def by (elim conjE) assumption
  note cnt = held_count [OF this, THEN conjunct1] held_count [OF this, THEN conjunct2]
  have filled: "sp_filled ?q = sp_filled p \<or> sp_filled ?q = (sp_filled p)[fr_idx r := True]"
    unfolding sf(5) by simp
  have "sp_inFlight ?q = int (size (ids ?q + held))"
    using assms lp(2) ids by (simp add: acct_def)
  moreover have "\<forall>i \<in># ids ?q + held. i < sp_next ?q \<and> \<not> sp_filled ?q ! i"
  proof
    fix i assume i: "i \<in># ids ?q + held"
    with cnt(1) ids have "i \<noteq> fr_idx r" by (metis count_greater_zero_iff less_irrefl)
    with filled have "sp_filled ?q ! i = sp_filled p ! i" by auto
    with assms i ids lp(1) show "i < sp_next ?q \<and> \<not> sp_filled ?q ! i" by (simp add: acct_def)
  qed
  moreover have "i \<in># ids ?q + held \<or> sp_filled ?q ! i"
    if "\<not> sp_fatal ?q \<and> \<not> sp_uploadHalted ?q" "i < sp_next ?q" for i
  proof -
    have nl: "\<not> sp_fatal p" "\<not> sp_uploadHalted p" using that(1) sf(3,4) by auto
    then have ns: "\<not> suppressed r p" by (simp add: suppressed_def)
    have "i < length (sp_filled p)" using assms that(2) lp(1) by (simp add: acct_def)
    moreover have "i \<in># add_mset (fr_idx r) (ids p + held) \<or> sp_filled p ! i"
      using assms nl that(2) lp(1) by (simp add: acct_def)
    ultimately show ?thesis using ns sf(5) ids by (cases "i = fr_idx r") auto
  qed
  moreover have "i < sp_next ?q" if "i < length (candidates pe)" "sp_filled ?q ! i" for i
    using that filled assms lp(1) by (cases "i = fr_idx r") (auto simp: acct_def)
  ultimately show ?thesis
    using assms cnt(2) ids lp filled sf(6) unfolding acct_def by auto
qed

lemma fold_settle_acct:
  "acct pe (mset (map fr_idx rs) + held) p \<Longrightarrow> acct pe held (fold (settle pe rd) rs p)"
  by (induction rs arbitrary: p) (auto simp: settle_acct)

lemma canAdmit_True:
  assumes "canAdmit pe rd p = (True, p')"
  obtains ch c where "p' = p\<lparr>sp_charges := ch, sp_budget := sp_budget p - 1\<rparr>" "0 < sp_budget p"
    "sp_next p < length (candidates pe)" "\<not> sp_fatal p" "\<not> sp_uploadHalted p" "sp_stopped p = None"
    "charge pe rd (sp_next p) p = (c, p\<lparr>sp_charges := ch\<rparr>)"
    "sp_inFlight p > 0 \<longrightarrow> sp_inFlightBytes p + c \<le> op_MaxInFlightBytes (pe_o pe)"
proof -
  obtain c q where c: "charge pe rd (sp_next p) p = (c, q)" by fastforce
  obtain ch where q: "q = p\<lparr>sp_charges := ch\<rparr>" using charge_frame [OF c] .
  note a = assms [unfolded canAdmit_def c prod.case]
  have g: "\<not> (sp_stopped p \<noteq> None \<or> sp_fatal p \<or> sp_uploadHalted p \<or> sp_next p \<ge> length (candidates pe))"
    using a by (auto split: if_splits)
  note a = a [unfolded if_not_P [OF g]]
  have g2: "\<not> rd_ctxErr rd \<noteq> None" "\<not> sp_budget p \<le> 0" using a by (auto split: if_splits)
  note a = a [unfolded if_not_P [OF g2(1)] if_not_P [OF g2(2)]]
  have g3: "\<not> (sp_inFlight q > 0 \<and> sp_inFlightBytes q + c > op_MaxInFlightBytes (pe_o pe))"
    using a by (auto split: if_splits)
  note a = a [unfolded if_not_P [OF g3]]
  show ?thesis
    by (rule that) (use a g g2 g3 c q in auto)
qed

lemma canAdmit_False:
  assumes "canAdmit pe rd p = (False, p')"
  obtains ch st where "p' = p\<lparr>sp_charges := ch, sp_stopped := st\<rparr>"
proof -
  obtain c q where c: "charge pe rd (sp_next p) p = (c, q)" by fastforce
  obtain ch where q: "q = p\<lparr>sp_charges := ch\<rparr>" using charge_frame [OF c] .
  note a = assms [unfolded canAdmit_def c prod.case]
  have "p' = p\<lparr>sp_charges := sp_charges p', sp_stopped := sp_stopped p'\<rparr>"
    using a q by (auto split: if_splits)
  then show ?thesis using that by blast
qed

lemma dispatch_frame:
  obtains ch c where "dispatch pe rd p = p\<lparr>sp_charges := ch, sp_inFlightBytes := sp_inFlightBytes p + c,
     sp_jobs := sp_jobs p @ [job_for pe p (sp_next p)], sp_next := sp_next p + 1,
     sp_inFlight := sp_inFlight p + 1, sp_computing := sp_computing p + 1\<rparr>"
    "charge pe rd (sp_next p) p = (c, p\<lparr>sp_charges := ch\<rparr>)"
proof -
  obtain c q where c: "charge pe rd (sp_next p) p = (c, q)" by fastforce
  obtain ch where q: "q = p\<lparr>sp_charges := ch\<rparr>" using charge_frame [OF c] .
  show ?thesis by (rule that) (simp_all add: dispatch_def c q)
qed

lemma job_for_simps [simp]: "jb_idx (job_for pe p i) = i" "jb_cand (job_for pe p i) = candidates pe ! i"
  by (simp_all add: job_for_def Let_def split: option.split)

lemma job_for_store: "job_for pe (p\<lparr>sp_charges := ch, sp_budget := b\<rparr>) i = job_for pe p i"
  by (simp add: job_for_def)

text \<open>An admission in one equation.\<close>

lemma admit_frame:
  assumes "canAdmit pe rd p = (True, p')"
  obtains ch c where "dispatch pe rd p' = p\<lparr>sp_charges := ch, sp_budget := sp_budget p - 1,
     sp_inFlightBytes := sp_inFlightBytes p + c, sp_jobs := sp_jobs p @ [job_for pe p (sp_next p)],
     sp_next := sp_next p + 1, sp_inFlight := sp_inFlight p + 1, sp_computing := sp_computing p + 1\<rparr>"
    "0 < sp_budget p" "sp_next p < length (candidates pe)" "\<not> sp_fatal p" "\<not> sp_uploadHalted p"
proof -
  obtain ch c where p': "p' = p\<lparr>sp_charges := ch, sp_budget := sp_budget p - 1\<rparr>" "0 < sp_budget p"
    "sp_next p < length (candidates pe)" "\<not> sp_fatal p" "\<not> sp_uploadHalted p"
    by (rule canAdmit_True [OF assms])
  obtain ch' c' where d: "dispatch pe rd p' = p'\<lparr>sp_charges := ch', sp_inFlightBytes := sp_inFlightBytes p' + c',
     sp_jobs := sp_jobs p' @ [job_for pe p' (sp_next p')], sp_next := sp_next p' + 1,
     sp_inFlight := sp_inFlight p' + 1, sp_computing := sp_computing p' + 1\<rparr>"
    by (rule dispatch_frame)
  from d have "dispatch pe rd p' = p\<lparr>sp_charges := ch', sp_budget := sp_budget p - 1,
     sp_inFlightBytes := sp_inFlightBytes p + c', sp_jobs := sp_jobs p @ [job_for pe p (sp_next p)],
     sp_next := sp_next p + 1, sp_inFlight := sp_inFlight p + 1, sp_computing := sp_computing p + 1\<rparr>"
    by (simp add: p'(1) job_for_store)
  from that [OF this p'(2-5)] show ?thesis .
qed

lemma acct_admit:
  assumes "acct pe {#} p" "canAdmit pe rd p = (True, p')"
  shows "acct pe {#} (dispatch pe rd p')"
proof -
  obtain ch c where d: "dispatch pe rd p' = p\<lparr>sp_charges := ch, sp_budget := sp_budget p - 1,
     sp_inFlightBytes := sp_inFlightBytes p + c, sp_jobs := sp_jobs p @ [job_for pe p (sp_next p)],
     sp_next := sp_next p + 1, sp_inFlight := sp_inFlight p + 1, sp_computing := sp_computing p + 1\<rparr>"
    "sp_next p < length (candidates pe)"
    by (rule admit_frame [OF assms(2)])
  let ?q = "dispatch pe rd p'"
  have ids: "ids ?q = add_mset (sp_next p) (ids p)" unfolding d(1) by (simp add: ids_def)
  have nin: "sp_next p \<notin># ids p" "\<not> sp_filled p ! sp_next p" using assms(1) d(2) by (auto simp: acct_def)
  have "\<forall>i. count (ids p) i \<le> 1" using assms(1) by (simp add: acct_def)
  then have "\<forall>i. count (ids ?q) i \<le> 1" using nin(1) unfolding ids by (simp add: not_in_iff)
  with assms(1) nin d(2) show ?thesis
    unfolding acct_def ids by (auto simp: d(1) less_Suc_eq)
qed

lemma acct_upd:
  assumes "acct pe held p"
  shows "acct pe held (p\<lparr>sp_phase := ph\<rparr>)" "acct pe held (p\<lparr>sp_charges := ch, sp_stopped := st\<rparr>)"
  using assms by (simp_all add: acct_def ids_def)

lemma acct_flush:
  assumes "acct pe held p"
  shows "acct pe held (end_admission p)"
proof -
  have pos: "0 < maxBatchBytes" by (simp add: maxBatchBytes_def)
  let ?q = "p\<lparr>sp_staged := (sp_staged p)\<lparr>ba_items := [], ba_bytes := 0\<rparr>,
              sp_groups := sp_groups p @ (if ba_items (sp_staged p) = [] then [] else [ba_items (sp_staged p)])\<rparr>"
  have ids: "ids ?q = ids p" by (auto simp: ids_def)
  have "batcher_ok ((sp_staged p)\<lparr>ba_items := [], ba_bytes := 0\<rparr>)"
    using assms pos by (auto simp: acct_def batcher_ok_def)
  then have "acct pe held ?q" using assms unfolding acct_def ids by auto
  then show ?thesis using assms by (auto simp: end_admission_def batcher_flush_spec Let_def intro!: acct_upd(1))
qed

lemma mset_concat_remove1: "g \<in> set gs \<Longrightarrow> mset (concat gs) = mset g + mset (concat (remove1 g gs))"
  by (induction gs) auto

lemma set_concat_remove1: "g \<in> set gs \<Longrightarrow> set (concat gs) = set g \<union> set (concat (remove1 g gs))"
  using mset_concat_remove1 by (metis set_mset_mset set_mset_union)

lemma ids_take_job:
  assumes "job \<in> set (sp_jobs p)"
  shows "ids p = add_mset (jb_idx job) (ids (p\<lparr>sp_computing := c, sp_jobs := remove1 job (sp_jobs p)\<rparr>))"
proof -
  have "mset (sp_jobs p) = add_mset job (mset (remove1 job (sp_jobs p)))" using assms by simp
  then have "image_mset jb_idx (mset (sp_jobs p)) =
      add_mset (jb_idx job) (image_mset jb_idx (mset (remove1 job (sp_jobs p))))"
    by (metis image_mset_add_mset)
  then show ?thesis by (simp add: ids_def)
qed

lemma acct_take_job:
  assumes "acct pe {#} p" "job \<in> set (sp_jobs p)"
  shows "acct pe {#jb_idx job#} (p\<lparr>sp_computing := sp_computing p - 1, sp_jobs := remove1 job (sp_jobs p)\<rparr>)"
proof -
  let ?q = "p\<lparr>sp_computing := sp_computing p - 1, sp_jobs := remove1 job (sp_jobs p)\<rparr>"
  have ids: "ids ?q + {#jb_idx job#} = ids p + {#}" using ids_take_job [OF assms(2)] by simp
  have "length (sp_jobs p) = Suc (length (remove1 job (sp_jobs p)))"
    using assms(2) by (simp add: length_remove1) (metis Suc_pred length_pos_if_in_set)
  with assms(1) show ?thesis
    unfolding acct_def ids by (auto dest: set_remove1_subset [THEN subsetD] notin_set_remove1)
qed

lemma stage_ids:
  assumes "batcher_ok b" "batcher_add it (obj_size it) b = (sent, b')"
  shows "image_mset sidx (mset (concat sent)) + image_mset sidx (mset (ba_items b')) =
    image_mset sidx (mset (ba_items b)) + {#sidx it#}"
proof -
  have "mset (concat sent) + mset (ba_items b') = mset (ba_items b) + {#it#}"
    using batcher_add_ok [OF assms] by (metis mset_append mset.simps)
  then show ?thesis by (metis image_mset_union image_mset_single)
qed

lemma acct_stage:
  assumes "acct pe {#fr_idx r#} p" "stageUpload r q p = (None, p')"
  shows "acct pe {#} p'"
proof -
  let ?it = "\<lparr>su_res = r, su_pending = q\<rparr>"
  obtain sent b where b: "batcher_add ?it (obj_size ?it) (sp_staged p) = (sent, b)" by fastforce
  have bo: "batcher_ok (sp_staged p)" using assms(1) by (simp add: acct_def)
  note ok = batcher_add_ok [OF bo b]
  from assms(2) b have p': "p' = p\<lparr>sp_staged := b, sp_groups := sp_groups p @ sent\<rparr>"
    by (auto simp: stageUpload_def Let_def obj_size_def split: if_splits)
  from stage_ids [OF bo b] have ids: "ids p' + {#} = ids p + {#fr_idx r#}"
    unfolding p' by (simp add: ids_def sidx_def ac_simps)
  have "\<forall>g \<in> set sent. g \<noteq> []" using ok by (auto simp: list_all_iff group_ok_def)
  with assms(1) ok show ?thesis unfolding acct_def ids by (auto simp: p')
qed

lemma prepareFile_idx:
  assumes "prepareFile opt now job src disc staging = Some (r, pending)"
  shows "fr_idx r = jb_idx job"
proof (cases pending)
  case None
  with prepareFile_settled assms show ?thesis by blast
next
  case (Some q)
  from prepareFile_pending [OF assms [unfolded Some]] obtain payload where
    "prepareChanged opt now job src disc payload (Hash (pl_Bytes payload)) (change_hash payload)
       (loaded_result job src staging payload) = Some (r, Some q)" by metis
  from prepareChanged_pending [OF this] show ?thesis by simp
qed

lemma abandon_idx [simp]: "fr_idx (abandon p it) = sidx it"
  by (simp add: abandon_def Let_def sidx_def)

lemma applyUploadOutcome_idx [simp]: "fr_idx (applyUploadOutcome it oc) = sidx it"
  by (simp add: applyUploadOutcome_def Let_def sidx_def split: option.split)

lemma sendBatch_idx:
  assumes "sendBatch port g w = (done, w')"
  shows "map fr_idx done = map sidx g"
proof -
  obtain out where a: "authorizeAndUpload port g w = (out, w')"
    "done = map (\<lambda>(it, oc). applyUploadOutcome it oc) (zip g out)"
    using assms by (auto simp: sendBatch_def split: prod.splits)
  have "length out = length g"
    using a(1) by (auto simp: authorizeAndUpload_def Let_def split: prod.splits if_splits)
  then show ?thesis unfolding a(2) by (intro nth_equalityI) simp_all
qed

lemma acct_result:
  assumes "acct pe {#} p" "job \<in> set (sp_jobs p)" "fr_idx r = jb_idx job"
  shows "acct pe {#} (receive_result pe rd job r pending p)"
proof -
  let ?q = "p\<lparr>sp_computing := sp_computing p - 1, sp_jobs := remove1 job (sp_jobs p)\<rparr>"
  have a: "acct pe {#fr_idx r#} ?q" using acct_take_job [OF assms(1,2)] assms(3) by simp
  show ?thesis
  proof (cases pending)
    case None
    with settle_acct [OF a] show ?thesis by (simp add: receive_result_def Let_def acct_upd)
  next
    case (Some pp)
    obtain d q' where s: "stageUpload r pp ?q = (d, q')" by fastforce
    show ?thesis
    proof (cases d)
      case None
      with acct_stage [OF a] s Some show ?thesis by (simp add: receive_result_def Let_def acct_upd)
    next
      case (Some x)
      with s have "fr_idx x = fr_idx r" "q' = ?q"
        by (auto simp: stageUpload_def Let_def sidx_def split: if_splits prod.splits)
      with Some s \<open>pending = Some pp\<close> settle_acct [of pe x "{#}" ?q rd] a show ?thesis
        by (simp add: receive_result_def Let_def acct_upd)
    qed
  qed
qed

lemma drain_ids:
  assumes "drainStaged p = (rs, q)"
  shows "ids q + (mset (map fr_idx rs) + {#}) = ids p + {#}"
proof (cases "ba_items (sp_staged p) = [] \<or> (\<not> sp_fatal p \<and> \<not> sp_uploadHalted p)")
  case True
  with assms show ?thesis by (auto simp: drainStaged_def)
next
  case False
  with assms have rs: "rs = map (abandon p) (ba_items (sp_staged p))"
    and q: "q = p\<lparr>sp_staged := (sp_staged p)\<lparr>ba_items := [], ba_bytes := 0\<rparr>\<rparr>"
    by (auto simp: drainStaged_def batcher_take_def)
  have "map fr_idx rs = map sidx (ba_items (sp_staged p))" unfolding rs by simp
  then show ?thesis unfolding q by (simp add: ids_def ac_simps)
qed

lemma drainStaged_acct:
  assumes "acct pe {#} p" "drainStaged p = (rs, q)"
  shows "acct pe (mset (map fr_idx rs) + {#}) q"
proof -
  have "batcher_ok (sp_staged p)" using assms(1) by (simp add: acct_def)
  then have "batcher_ok (sp_staged q)"
    using assms(2) by (auto simp: drainStaged_def batcher_take_def batcher_ok_def maxBatchBytes_def split: if_splits)
  with assms show ?thesis unfolding acct_def drain_ids [OF assms(2)]
    by (auto simp: drainStaged_def split: if_splits prod.splits)
qed

lemma acct_batch:
  assumes "acct pe {#} p" "g \<in> set (sp_groups p)" "sendBatch port g (sp_world p) = (done, w)"
  shows "acct pe {#} (receive_batch pe rd g done w p)"
proof -
  let ?q = "p\<lparr>sp_groups := remove1 g (sp_groups p), sp_world := w\<rparr>"
  have "map fr_idx done = map sidx g" by (rule sendBatch_idx [OF assms(3)])
  then have m: "mset (map fr_idx done) = image_mset sidx (mset g)" by (metis mset_map)
  have ids: "ids ?q + (mset (map fr_idx done) + {#}) = ids p + {#}"
    unfolding m using mset_concat_remove1 [OF assms(2)] by (simp add: ids_def ac_simps)
  have "acct pe (mset (map fr_idx done) + {#}) ?q"
    using assms(1) unfolding acct_def ids by (auto dest: set_remove1_subset [THEN subsetD])
  note a = fold_settle_acct [OF this, of rd]
  obtain ds q where d: "drainStaged (fold (settle pe rd) done ?q) = (ds, q)" by fastforce
  from fold_settle_acct [OF drainStaged_acct [OF a d]] d show ?thesis
    by (simp add: receive_batch_def Let_def acct_upd)
qed

section \<open>Reachable passes\<close>

definition phase_ok :: "'w sourcePass \<Rightarrow> bool" where
  "phase_ok p \<longleftrightarrow> (case sp_phase p of
     Admitting \<Rightarrow> True
   | Waiting \<Rightarrow> sp_inFlight p \<noteq> 0 \<and> (sp_jobs p = [] \<longrightarrow> ba_items (sp_staged p) = [])
   | Finished \<Rightarrow> sp_inFlight p = 0)"

lemma phase_ok_Admitting [simp]: "phase_ok (p\<lparr>sp_phase := Admitting\<rparr>)"
  by (simp add: phase_ok_def)

lemma phase_ok_end: "acct pe {#} p \<Longrightarrow> phase_ok (end_admission p)"
  by (auto simp: phase_ok_def end_admission_def batcher_flush_spec Let_def acct_def)

lemma pass_step_inv:
  assumes "pass_step pe port p q" "acct pe {#} p \<and> phase_ok p"
  shows "acct pe {#} q \<and> phase_ok q"
  using assms
proof (induction rule: pass_step.induct)
  case (admit p rd p')
  then have "acct pe {#} (dispatch pe rd p')" by (metis acct_admit)
  moreover have "sp_phase (dispatch pe rd p') = Admitting"
    by (rule admit_frame [OF admit.hyps(3)]) (simp add: admit.hyps(1))
  ultimately show ?case by (simp add: phase_ok_def)
next
  case (admit_end p p' rd)
  then have "acct pe {#} p'" by (metis canAdmit_False acct_upd(2))
  then show ?case using acct_flush phase_ok_end by blast
next
  case (result p job now r pending rd)
  then show ?case using acct_result prepareFile_idx
    by (metis (no_types, lifting) phase_ok_Admitting receive_result_def)
next
  case (batch p g "done" w rd)
  then show ?case using acct_batch
    by (metis (mono_tags, lifting) phase_ok_Admitting receive_batch_def prod.case_eq_if)
qed

section \<open>Where recorded hashes come from\<close>

definition confirmed_key :: "trace \<Rightarrow> string \<Rightarrow> bool" where
  "confirmed_key calls key \<longleftrightarrow> (\<exists>(batch, ans) \<in> set calls. length ans = length batch \<and>
     (\<exists>j < length batch. confirmed (ans ! j) \<and> po_Key (batch ! j) = key))"

definition object_of :: "'id passEnv \<Rightarrow> nat \<Rightarrow> string result" where
  "object_of pe i = (let c = candidates pe ! i in
     mirrorKey (pe_o pe) (src_ID (pe_src pe)) (cmp_or [ca_Identity c, ca_RelPath c]))"

text \<open>
  A hash may stand in the record for a key if it is empty, stood there before the pass, or is that of
  what a candidate with this key loads to and the candidate's object was confirmed.
\<close>

definition hash_ok :: "'id passEnv \<Rightarrow> (Key \<Rightarrow> Fingerprint option) \<Rightarrow> trace \<Rightarrow> Key \<Rightarrow> string \<Rightarrow> bool" where
  "hash_ok pe view0 calls k h \<longleftrightarrow>
     h = [] \<or> (\<exists>fp0. view0 k = Some fp0 \<and> fp_SourceHash fp0 = h) \<or>
     (\<exists>i < length (candidates pe). KeyOf (src_ID (pe_src pe)) (candidates pe ! i) = k \<and>
        (\<exists>payload key. ca_Load (candidates pe ! i) = Inr payload \<and> h = change_hash payload \<and>
           object_of pe i = Inr key \<and> confirmed_key calls key))"

definition intent_ok :: "'id passEnv \<Rightarrow> (Key \<Rightarrow> Fingerprint option) \<Rightarrow> trace \<Rightarrow> fileResult \<Rightarrow> bool" where
  "intent_ok pe view0 calls r \<longleftrightarrow> in_kind (fr_intent r) = intentNone \<or>
     ID (in_key (fr_intent r)) \<noteq> [] \<and> 0 \<le> fp_Attempts (in_fp (fr_intent r)) \<and>
     hash_ok pe view0 calls (in_key (fr_intent r)) (fp_SourceHash (in_fp (fr_intent r)))"

definition staged_ok :: "'id passEnv \<Rightarrow> stagedUpload \<Rightarrow> bool" where
  "staged_ok pe it \<longleftrightarrow> fr_intent (su_res it) = no_intent \<and> sidx it < length (candidates pe) \<and>
     pp_key (su_pending it) = KeyOf (src_ID (pe_src pe)) (candidates pe ! sidx it) \<and>
     object_of pe (sidx it) = Inr (pp_objectKey (su_pending it)) \<and> fp_Attempts (pp_next (su_pending it)) = 0 \<and>
     (\<exists>payload. ca_Load (candidates pe ! sidx it) = Inr payload \<and>
        fp_SourceHash (pp_next (su_pending it)) = change_hash payload)"

definition job_ok :: "'id passEnv \<Rightarrow> (Key \<Rightarrow> Fingerprint option) \<Rightarrow> trace \<Rightarrow> fileJob \<Rightarrow> bool" where
  "job_ok pe view0 calls job \<longleftrightarrow> jb_idx job < length (candidates pe) \<and> jb_cand job = candidates pe ! jb_idx job \<and>
     0 \<le> fp_Attempts (jb_fp job) \<and>
     hash_ok pe view0 calls (KeyOf (src_ID (pe_src pe)) (jb_cand job)) (fp_SourceHash (jb_fp job))"

definition ledger :: "'id passEnv \<Rightarrow> (Key \<Rightarrow> Fingerprint option) \<Rightarrow> (trace \<times> 'w) sourcePass \<Rightarrow> bool" where
  "ledger pe view0 p \<longleftrightarrow> cb_inv (sp_store p) \<and>
     (\<forall>k fp. cb_view (sp_store p) k = Some fp \<longrightarrow> hash_ok pe view0 (fst (sp_world p)) k (fp_SourceHash fp)) \<and>
     (\<forall>job \<in> set (sp_jobs p). job_ok pe view0 (fst (sp_world p)) job) \<and>
     (\<forall>it \<in> set (ba_items (sp_staged p)) \<union> set (concat (sp_groups p)). staged_ok pe it)"

lemma confirmed_key_mono: "confirmed_key calls key \<Longrightarrow> confirmed_key (calls @ later) key"
  unfolding confirmed_key_def by (auto split: prod.splits)

lemma hash_ok_mono: "hash_ok pe view0 calls k h \<Longrightarrow> hash_ok pe view0 (calls @ later) k h"
  unfolding hash_ok_def using confirmed_key_mono by blast

lemma cb_view_storable:
  assumes "cb_inv b" "cb_view b k = Some fp"
  shows "ID k \<noteq> [] \<and> 0 \<le> fp_Attempts fp"
proof -
  have "map_get (cb_pending b) k = Some fp \<or> map_get (st_entries (cb_store b)) k = Some fp"
    using assms(2) by (auto simp: cb_view_def split: option.splits)
  then show ?thesis
    using assms(1) by (auto simp: cb_inv_def storable_def list_all_iff map_get_Some_iff)
qed

lemma applyIntent_store:
  assumes "applyIntent cd r p = (r', p')" "cb_inv (sp_store p)" "intent_ok pe view0 calls r"
  shows "cb_inv (sp_store p') \<and>
    cb_view (sp_store p') = (if in_kind (fr_intent r) = intentNone then cb_view (sp_store p)
       else (cb_view (sp_store p))(in_key (fr_intent r) \<mapsto> in_fp (fr_intent r)))"
proof (cases "in_kind (fr_intent r) = intentNone")
  case True
  with assms show ?thesis by (auto simp: applyIntent_def Let_def)
next
  case False
  with assms(3) have ok: "ID (in_key (fr_intent r)) \<noteq> []" "0 \<le> fp_Attempts (in_fp (fr_intent r))"
    by (auto simp: intent_ok_def)
  have "sp_store p' = snd (cb_Commit cd (in_key (fr_intent r)) (in_fp (fr_intent r)) (sp_store p))"
    using assms(1) False by (auto simp: applyIntent_def Let_def split: prod.splits if_splits)
  with cb.ok_commit [OF assms(2) ok] cb.view_commit [OF assms(2) ok] False show ?thesis by metis
qed

lemma settle_ledger:
  assumes "ledger pe view0 p" "intent_ok pe view0 (fst (sp_world p)) r"
  shows "ledger pe view0 (settle pe rd r p) \<and> sp_world (settle pe rd r p) = sp_world p"
proof -
  obtain r' p' where a: "applyIntent (pe_cd pe) r p = (r', p')" by fastforce
  note sf = settle_facts [OF a, of rd]
  note lp = loop_part_eqD [OF sf(1)]
  have inv: "cb_inv (sp_store p)" using assms(1) by (simp add: ledger_def)
  note st = applyIntent_store [OF a inv assms(2)]
  have "hash_ok pe view0 (fst (sp_world p)) k (fp_SourceHash fp)" if "cb_view (sp_store p') k = Some fp" for k fp
    using that assms st by (auto simp: ledger_def intent_ok_def split: if_splits)
  with st assms(1) sf(2) lp show ?thesis by (auto simp: ledger_def)
qed

lemma fold_settle_ledger:
  assumes "ledger pe view0 p" "\<forall>r \<in> set rs. intent_ok pe view0 (fst (sp_world p)) r"
  shows "ledger pe view0 (fold (settle pe rd) rs p) \<and> sp_world (fold (settle pe rd) rs p) = sp_world p"
  using assms
proof (induction rs arbitrary: p)
  case (Cons r rs)
  then have "ledger pe view0 (settle pe rd r p)" "sp_world (settle pe rd r p) = sp_world p"
    using settle_ledger [of pe view0 p r rd] by auto
  with Cons show ?case by simp
qed simp

lemma ledger_upd:
  assumes "ledger pe view0 p"
  shows "ledger pe view0 (p\<lparr>sp_phase := ph\<rparr>)" "ledger pe view0 (p\<lparr>sp_charges := ch, sp_stopped := st\<rparr>)"
    "ledger pe view0 (p\<lparr>sp_computing := c, sp_jobs := remove1 job (sp_jobs p)\<rparr>)"
  using assms by (auto simp: ledger_def dest: set_remove1_subset [THEN subsetD])

lemma KeyOf_ID: "ca_Path c \<noteq> [] \<Longrightarrow> ID (KeyOf s c) \<noteq> []"
  by (simp add: KeyOf_def)

text \<open>What the compute leg hands back is fit for the ledger.\<close>

lemma prepared_ok:
  assumes "prepareFile (pe_o pe) now job (pe_src pe) (pe_disc pe) staging = Some (r, pending)"
    and "jb_idx job < length (candidates pe)" "jb_cand job = candidates pe ! jb_idx job"
    and "0 \<le> fp_Attempts (jb_fp job)" "ca_Path (jb_cand job) \<noteq> []"
    and "hash_ok pe view0 calls (KeyOf (src_ID (pe_src pe)) (jb_cand job)) (fp_SourceHash (jb_fp job))"
  shows "case pending of None \<Rightarrow> intent_ok pe view0 calls r
         | Some q \<Rightarrow> staged_ok pe \<lparr>su_res = r, su_pending = q\<rparr>"
proof (cases pending)
  case None
  note s = prepareFile_settled [OF assms(1) [unfolded None]]
  then consider "fr_intent r = no_intent"
    | "fr_intent r = \<lparr>in_kind = intentRefresh, in_key = KeyOf (src_ID (pe_src pe)) (jb_cand job),
         in_fp = refreshed (jb_cand job) (jb_fp job), in_reason = []\<rparr>"
    | "backoff_intent (now AtBackoff) (KeyOf (src_ID (pe_src pe)) (jb_cand job)) (jb_fp job) (fr_intent r)"
    by blast
  then have "intent_ok pe view0 calls r"
    using assms(4,6) KeyOf_ID [OF assms(5)]
    by cases (auto simp: intent_ok_def refreshed_def backoff_intent_def)
  with None show ?thesis by simp
next
  case (Some q)
  obtain payload where pl: "ca_Load (jb_cand job) = Inr payload"
    "prepareChanged (pe_o pe) now job (pe_src pe) (pe_disc pe) payload (Hash (pl_Bytes payload)) (change_hash payload)
       (loaded_result job (pe_src pe) staging payload) = Some (r, Some q)"
    using prepareFile_pending [OF assms(1) [unfolded Some]] by metis
  obtain h: "mirrorKey (pe_o pe) (src_ID (pe_src pe)) (cmp_or [ca_Identity (jb_cand job), ca_RelPath (jb_cand job)])
       = Inr (pp_objectKey q)"
    "pp_key q = KeyOf (src_ID (pe_src pe)) (jb_cand job)"
    "pp_next q = zero_fp\<lparr>fp_NativePath := ca_Path (jb_cand job), fp_SourceSize := ca_Size (jb_cand job),
        fp_SourceMTime := ca_MTime (jb_cand job), fp_SourceHash := change_hash payload\<rparr>"
    "fr_intent r = no_intent" "fr_idx r = jb_idx job"
    by (rule prepareChanged_pending [OF pl(2)]) (metis loaded_result_simps(1,2))
  have "fp_Attempts (pp_next q) = 0" "fp_SourceHash (pp_next q) = change_hash payload" using h(3) by simp_all
  with h Some pl(1) assms(2,3) show ?thesis
    by (simp add: staged_ok_def sidx_def object_of_def Let_def del: cmp_or.simps)
qed

lemma staged_hash_ok:
  assumes "staged_ok pe it" "confirmed_key calls (pp_objectKey (su_pending it))"
  shows "hash_ok pe view0 calls (pp_key (su_pending it)) (fp_SourceHash (pp_next (su_pending it)))"
proof -
  obtain payload where "ca_Load (candidates pe ! sidx it) = Inr payload"
    "fp_SourceHash (pp_next (su_pending it)) = change_hash payload"
    "sidx it < length (candidates pe)" "object_of pe (sidx it) = Inr (pp_objectKey (su_pending it))"
    "pp_key (su_pending it) = KeyOf (src_ID (pe_src pe)) (candidates pe ! sidx it)"
    using assms(1) by (auto simp: staged_ok_def)
  with assms(2) show ?thesis unfolding hash_ok_def by (metis (no_types, lifting))
qed

text \<open>What comes back from a group that was sent.\<close>

lemma sent_ok:
  assumes "\<forall>it \<in> set g. staged_ok pe it \<and> ca_Path (candidates pe ! sidx it) \<noteq> []"
    and "sendBatch (traced port) g (calls, w) = (done, (calls', w'))"
  shows "\<exists>later. calls' = calls @ later" "\<forall>r \<in> set done. intent_ok pe view0 calls' r"
proof -
  obtain out where a: "authorizeAndUpload (traced port) g (calls, w) = (out, (calls', w'))"
    "done = map (\<lambda>(it, oc). applyUploadOutcome it oc) (zip g out)"
    using assms(2) by (auto simp: sendBatch_def split: prod.splits)
  from authorize_spec [OF a(1)] obtain later where l: "length out = length g" "calls' = calls @ later"
    "\<forall>i < length g. confirmed (out ! i) \<longrightarrow> (\<exists>c \<in> set later. answered c (g ! i) (out ! i))" by blast
  show "\<exists>later. calls' = calls @ later" using l(2) by blast
  have "intent_ok pe view0 calls' (applyUploadOutcome (g ! i) (out ! i))" if i: "i < length g" for i
  proof -
    let ?it = "g ! i"
    have ok: "staged_ok pe ?it" "ca_Path (candidates pe ! sidx ?it) \<noteq> []" using assms(1) i by auto
    show ?thesis
    proof (cases "confirmed (out ! i)")
      case True
      with l(3) i obtain c where c: "c \<in> set later" "answered c ?it (out ! i)" by blast
      then have "confirmed_key calls' (pp_objectKey (su_pending ?it))"
        using True l(2) unfolding confirmed_key_def answered_def by (fastforce split: prod.splits)
      then have "hash_ok pe view0 calls' (pp_key (su_pending ?it)) (fp_SourceHash (pp_next (su_pending ?it)))"
        by (rule staged_hash_ok [OF ok(1)])
      moreover have "fr_intent (applyUploadOutcome ?it (out ! i)) = \<lparr>in_kind = intentShipped,
          in_key = pp_key (su_pending ?it), in_fp = pp_next (su_pending ?it), in_reason = []\<rparr>"
        using True by (auto simp: applyUploadOutcome_def confirmed_def Let_def split: option.split)
      ultimately show ?thesis using ok KeyOf_ID [OF ok(2)] by (simp add: intent_ok_def staged_ok_def)
    next
      case False
      then have "fr_intent (applyUploadOutcome ?it (out ! i)) = fr_intent (su_res ?it)"
        by (auto simp: applyUploadOutcome_def confirmed_def Let_def split: option.split)
      with ok(1) show ?thesis by (simp add: intent_ok_def staged_ok_def)
    qed
  qed
  then show "\<forall>r \<in> set done. intent_ok pe view0 calls' r"
    using a(2) l(1) by (auto simp: set_conv_nth)
qed

lemma job_for_ledger:
  assumes "ledger pe view0 p"
    and "i < length (candidates pe)"
  shows "job_ok pe view0 (fst (sp_world p)) (job_for pe p i)"
proof (cases "cb_Get (sp_store p) (KeyOf (src_ID (pe_src pe)) (candidates pe ! i))")
  case None
  with assms(2) show ?thesis by (simp add: job_ok_def job_for_def zero_fp_def hash_ok_def)
next
  case (Some fp)
  then have "cb_view (sp_store p) (KeyOf (src_ID (pe_src pe)) (candidates pe ! i)) = Some fp"
    by (auto simp: cb_Get_view split: if_splits)
  with assms Some cb_view_storable show ?thesis by (auto simp: job_ok_def job_for_def ledger_def)
qed

lemma ledger_admit:
  assumes "ledger pe view0 p" "canAdmit pe rd p = (True, p')"
  shows "ledger pe view0 (dispatch pe rd p')"
proof -
  obtain ch c where d: "dispatch pe rd p' = p\<lparr>sp_charges := ch, sp_budget := sp_budget p - 1,
     sp_inFlightBytes := sp_inFlightBytes p + c, sp_jobs := sp_jobs p @ [job_for pe p (sp_next p)],
     sp_next := sp_next p + 1, sp_inFlight := sp_inFlight p + 1, sp_computing := sp_computing p + 1\<rparr>"
    "sp_next p < length (candidates pe)"
    by (rule admit_frame [OF assms(2)])
  show ?thesis using assms(1) job_for_ledger [OF assms(1) d(2)]
    unfolding ledger_def by (auto simp: d(1))
qed

lemma ledger_end: "ledger pe view0 p \<Longrightarrow> ledger pe view0 (end_admission p)"
  by (auto simp: ledger_def end_admission_def batcher_flush_spec Let_def)

lemma abandon_intent [simp]: "fr_intent (abandon p it) = fr_intent (su_res it)"
  by (simp add: abandon_def Let_def)

lemma staged_abandon: "staged_ok pe it \<Longrightarrow> intent_ok pe view0 calls (abandon p it)"
  by (simp add: intent_ok_def staged_ok_def)

lemma ledger_result:
  assumes l: "ledger pe view0 p" and b: "batcher_ok (sp_staged p)" and job: "job \<in> set (sp_jobs p)"
    and pf: "prepareFile (pe_o pe) now job (pe_src pe) (pe_disc pe) staging = Some (r, pending)"
    and path: "ca_Path (jb_cand job) \<noteq> []"
  shows "ledger pe view0 (receive_result pe rd job r pending p)"
proof -
  let ?q = "p\<lparr>sp_computing := sp_computing p - 1, sp_jobs := remove1 job (sp_jobs p)\<rparr>"
  have lq: "ledger pe view0 ?q" by (rule ledger_upd(3) [OF l])
  have "case pending of None \<Rightarrow> intent_ok pe view0 (fst (sp_world p)) r
         | Some q \<Rightarrow> staged_ok pe \<lparr>su_res = r, su_pending = q\<rparr>"
    by (rule prepared_ok [OF pf _ _ _ path]) (use l job in \<open>auto simp: ledger_def job_ok_def\<close>)
  note ok = this
  show ?thesis
  proof (cases pending)
    case None
    with ok settle_ledger [OF lq, of r rd] show ?thesis by (simp add: receive_result_def Let_def ledger_upd)
  next
    case (Some q)
    let ?it = "\<lparr>su_res = r, su_pending = q\<rparr>"
    have it: "staged_ok pe ?it" using ok Some by simp
    show ?thesis
    proof (cases "sp_fatal p \<or> sp_uploadHalted p")
      case True
      have "intent_ok pe view0 (fst (sp_world ?q)) (abandon ?q ?it)" by (rule staged_abandon [OF it])
      from settle_ledger [OF lq this] have "ledger pe view0 (settle pe rd (abandon ?q ?it) ?q)" by blast
      with Some True show ?thesis by (simp add: receive_result_def stageUpload_def Let_def ledger_upd)
    next
      case False
      obtain sent b' where a: "batcher_add ?it (obj_size ?it) (sp_staged p) = (sent, b')" by fastforce
      have eq: "set (concat sent) \<union> set (ba_items b') = insert ?it (set (ba_items (sp_staged p)))"
        using batcher_add_ok [OF b a] by (metis set_append list.simps(15) Un_insert_right empty_set sup_bot_right)
      have "\<forall>x \<in> set (concat sent) \<union> set (ba_items b'). staged_ok pe x"
        unfolding eq using l it by (simp add: ledger_def)
      moreover have "\<forall>x \<in> set (concat (sp_groups p)). staged_ok pe x" using l unfolding ledger_def by blast
      ultimately have "\<forall>x \<in> set (ba_items b') \<union> set (concat (sp_groups p @ sent)). staged_ok pe x" by auto
      with lq have "ledger pe view0 (?q\<lparr>sp_staged := b', sp_groups := sp_groups p @ sent\<rparr>)"
        by (simp add: ledger_def)
      with Some False a show ?thesis
        by (simp add: receive_result_def stageUpload_def Let_def obj_size_def ledger_upd)
    qed
  qed
qed

lemma ledger_world:
  assumes "ledger pe view0 p" "fst w = fst (sp_world p) @ later" "set gs \<subseteq> set (sp_groups p)"
  shows "ledger pe view0 (p\<lparr>sp_groups := gs, sp_world := w\<rparr>)"
  using assms hash_ok_mono unfolding ledger_def job_ok_def by fastforce

lemma ledger_drain:
  assumes "ledger pe view0 p" "drainStaged p = (rs, q)"
  shows "ledger pe view0 q \<and> sp_world q = sp_world p \<and> (\<forall>r \<in> set rs. intent_ok pe view0 (fst (sp_world q)) r)"
proof (cases "ba_items (sp_staged p) = [] \<or> (\<not> sp_fatal p \<and> \<not> sp_uploadHalted p)")
  case True
  with assms show ?thesis by (auto simp: drainStaged_def)
next
  case False
  with assms(2) have rs: "rs = map (abandon p) (ba_items (sp_staged p))"
    and q: "q = p\<lparr>sp_staged := (sp_staged p)\<lparr>ba_items := [], ba_bytes := 0\<rparr>\<rparr>"
    by (auto simp: drainStaged_def batcher_take_def)
  have "\<forall>it \<in> set (ba_items (sp_staged p)). staged_ok pe it" using assms(1) by (simp add: ledger_def)
  then have "\<forall>r \<in> set rs. intent_ok pe view0 (fst (sp_world p)) r" using rs by (auto intro: staged_abandon)
  with assms(1) q show ?thesis by (simp add: ledger_def)
qed

lemma ledger_batch:
  assumes l: "ledger pe view0 p" and g: "g \<in> set (sp_groups p)"
    and s: "sendBatch (traced port) g (sp_world p) = (done, w)"
    and path: "\<forall>c \<in> set (candidates pe). ca_Path c \<noteq> []"
  shows "ledger pe view0 (receive_batch pe rd g done w p)"
proof -
  let ?q = "p\<lparr>sp_groups := remove1 g (sp_groups p), sp_world := w\<rparr>"
  obtain calls w0 where w0: "sp_world p = (calls, w0)" by fastforce
  obtain calls' w' where w: "w = (calls', w')" by fastforce
  have gok: "\<forall>it \<in> set g. staged_ok pe it \<and> ca_Path (candidates pe ! sidx it) \<noteq> []"
  proof
    fix it assume it: "it \<in> set g"
    with l g have "staged_ok pe it" by (auto simp: ledger_def)
    with path show "staged_ok pe it \<and> ca_Path (candidates pe ! sidx it) \<noteq> []" by (simp add: staged_ok_def)
  qed
  note so = sent_ok [OF gok s [unfolded w0 w]]
  obtain later where "fst w = fst (sp_world p) @ later" using so(1) w w0 by auto
  then have "ledger pe view0 ?q" by (rule ledger_world [OF l _ set_remove1_subset])
  moreover have "\<forall>r \<in> set done. intent_ok pe view0 (fst (sp_world ?q)) r" using so(2) w by simp
  ultimately have f: "ledger pe view0 (fold (settle pe rd) done ?q)"
    using fold_settle_ledger by blast
  obtain ds q where d: "drainStaged (fold (settle pe rd) done ?q) = (ds, q)" by fastforce
  from ledger_drain [OF f d] have "ledger pe view0 (fold (settle pe rd) ds q)" using fold_settle_ledger by blast
  with d show ?thesis by (simp add: receive_batch_def Let_def ledger_upd)
qed

lemma pass_step_ledger:
  assumes "pass_step pe (traced port) p q" "acct pe {#} p" "ledger pe view0 p"
    and "\<forall>c \<in> set (candidates pe). ca_Path c \<noteq> []"
  shows "ledger pe view0 q"
  using assms(1)
proof cases
  case (admit rd p')
  with assms(3) show ?thesis by (auto intro: ledger_admit)
next
  case (admit_end p' rd)
  then have "ledger pe view0 p'" using assms(3) by (metis canAdmit_False ledger_upd(2))
  with admit_end show ?thesis by (auto intro: ledger_end)
next
  case (result job now r pending rd)
  have "batcher_ok (sp_staged p)" using assms(2) by (simp add: acct_def)
  moreover have "ca_Path (jb_cand job) \<noteq> []"
    using assms(3,4) result(3) by (auto simp: ledger_def job_ok_def)
  ultimately show ?thesis using result assms(3) ledger_result by blast
next
  case (batch g "done" w rd)
  with assms(3,4) show ?thesis using ledger_batch by blast
qed

end
