(* ===== verification/Pool_Demo.thy ===== *)
theory Pool_Demo
  imports Pool
begin

text \<open>
  A pass over one file, run to the point where its fingerprint is recorded: the concrete inputs the
  statements about reachable passes are applied to.
\<close>

definition pd_env :: "string passEnv" where
  "pd_env = \<lparr>pe_o = pd_opt, pe_cd = demo_codec, pe_src = pd_src, pe_disc = pd_disc [pd_cand ''a''],
     pe_staging = False, pe_gomaxprocs = 1\<rparr>"

definition pd_rd :: reading where
  "pd_rd = \<lparr>rd_ctxErr = None, rd_now = 0, rd_frameSize = (\<lambda>_. None)\<rparr>"

definition pd_start :: "((PreparedObject list \<times> goerr option list) list \<times> unit) sourcePass" where
  "pd_start = start_pass pd_env demo_buffer zero_report zero_source_outcome 3 ([], ())"

lemma pd_env_fields [simp]:
  "pe_o pd_env = pd_opt" "pe_cd pd_env = demo_codec" "pe_src pd_env = pd_src"
  "candidates pd_env = [pd_cand ''a'']" "\<not> pe_staging pd_env" "op_MaxInFlightBytes pd_opt = 1000"
  "computeLimit pd_env = 1" "limit pd_env = 9" "uploadLimit pd_env = 8"
  by (simp_all add: pd_env_def candidates_def pd_disc_def computeLimit_def concurrency_def pd_opt_def
      limit_def uploadLimit_def uploadConcurrency_def)

lemma pd_charge: "charge pd_env pd_rd 0 p = (5, p)"
  by (simp add: charge_def Let_def IsZstd_def pd_cand_def suffix_def)

text \<open>The states it goes through: admitted, waiting, staged, sent.\<close>

definition pd_admitted :: "((PreparedObject list \<times> goerr option list) list \<times> unit) sourcePass" where
  "pd_admitted = pd_start\<lparr>sp_budget := 2, sp_inFlightBytes := 5, sp_jobs := [pd_job], sp_next := 1,
     sp_inFlight := 1, sp_computing := 1\<rparr>"

lemma pd_job_for: "job_for pd_env (pd_start\<lparr>sp_budget := b\<rparr>) 0 = pd_job"
  by (simp add: job_for_def pd_start_def start_pass_def Let_def cb_Get_def demo_buffer_def newCommitBuffer_def
      store_Get_def demo_store_def KeyOf_def pd_cand_def pd_job_def map_get_def)

lemma pd_start_fields [simp]:
  "sp_phase pd_start = Admitting" "sp_inFlight pd_start = 0" "sp_stopped pd_start = None" "\<not> sp_fatal pd_start"
  "\<not> sp_uploadHalted pd_start" "sp_next pd_start = 0" "sp_budget pd_start = 3" "sp_inFlightBytes pd_start = 0"
  "sp_jobs pd_start = []" "sp_computing pd_start = 0" "sp_groups pd_start = []" "sp_world pd_start = ([], ())"
  "sp_store pd_start = demo_buffer" "sp_charges pd_start = []"
  "sp_staged pd_start = \<lparr>ba_maxObjects = 4, ba_items = [], ba_bytes = 0\<rparr>"
  by (simp_all add: pd_start_def start_pass_def Let_def maxBatchObjects_def)

lemma pd_admit: "pass_step pd_env port pd_start pd_admitted"
proof -
  have a: "canAdmit pd_env pd_rd pd_start = (True, pd_start\<lparr>sp_budget := 2\<rparr>)"
    by (simp add: canAdmit_def pd_charge) (simp add: pd_rd_def)
  have "pass_step pd_env port pd_start (dispatch pd_env pd_rd (pd_start\<lparr>sp_budget := 2\<rparr>))"
    by (rule pass_step.admit [OF _ _ a]) simp_all
  then show ?thesis by (simp add: dispatch_def pd_charge pd_job_for pd_admitted_def Let_def)
qed

lemma pd_closed: "sp_next p = 1 \<Longrightarrow> canAdmit pd_env rd p = (False, p)"
  by (simp add: canAdmit_def)

lemma pd_end:
  assumes "sp_next p = 1" "sp_inFlight p < 9" "sp_phase p = Admitting"
  shows "pass_step pd_env port p (end_admission p)"
  by (rule pass_step.admit_end [where rd = pd_rd]) (use assms pd_closed in auto)

definition pd_wait :: "((PreparedObject list \<times> goerr option list) list \<times> unit) sourcePass" where
  "pd_wait = pd_admitted\<lparr>sp_phase := Waiting\<rparr>"

lemma pd_admitted_end: "pass_step pd_env port pd_admitted pd_wait"
  using pd_end [of pd_admitted port] by (simp add: pd_admitted_def pd_wait_def end_admission_def)

lemma pd_result:
  assumes pf: "prepareFile pd_opt now pd_job pd_src (pd_disc [pd_cand ''a'']) False = Some (r, Some q)"
    and sz: "length (pp_obj q) < 1000"
  shows "pass_step pd_env port pd_wait (pd_admitted\<lparr>sp_computing := 0, sp_jobs := [],
    sp_staged := \<lparr>ba_maxObjects = 4, ba_items = [\<lparr>su_res = r, su_pending = q\<rparr>], ba_bytes = int (length (pp_obj q))\<rparr>\<rparr>)"
    (is "pass_step _ _ _ ?p")
proof -
  have "prepareFile (pe_o pd_env) now pd_job (pe_src pd_env) (pe_disc pd_env) (pe_staging pd_env) = Some (r, Some q)"
    using pf by (simp add: pd_env_def)
  moreover have "sp_phase pd_wait = Waiting" "pd_job \<in> set (sp_jobs pd_wait)"
    by (simp_all add: pd_wait_def pd_admitted_def)
  ultimately have "pass_step pd_env port pd_wait (receive_result pd_env pd_rd pd_job r (Some q) pd_wait)"
    by (intro pass_step.result) 
  moreover have "receive_result pd_env pd_rd pd_job r (Some q) pd_wait = ?p"
    using sz by (simp add: receive_result_def stageUpload_def batcher_add_def maxBatchBytes_def Let_def
        pd_wait_def pd_admitted_def)
  ultimately show ?thesis by simp
qed

definition pd_sent_pass :: "fileResult \<Rightarrow> pendingPut \<Rightarrow> ((PreparedObject list \<times> goerr option list) list \<times> unit) sourcePass" where
  "pd_sent_pass r q = pd_admitted\<lparr>sp_computing := 0, sp_jobs := [], 
     sp_staged := \<lparr>ba_maxObjects = 4, ba_items = [], ba_bytes = 0\<rparr>,
     sp_groups := [[\<lparr>su_res = r, su_pending = q\<rparr>]], sp_phase := Waiting\<rparr>"

lemma pd_flush:
  "pass_step pd_env port (pd_admitted\<lparr>sp_computing := 0, sp_jobs := [],
     sp_staged := \<lparr>ba_maxObjects = 4, ba_items = [\<lparr>su_res = r, su_pending = q\<rparr>], ba_bytes = b\<rparr>\<rparr>) (pd_sent_pass r q)"
    (is "pass_step _ _ ?p _")
proof -
  have "pass_step pd_env port ?p (end_admission ?p)" by (rule pd_end) (simp_all add: pd_admitted_def)
  then show ?thesis by (simp add: end_admission_def batcher_flush_spec pd_admitted_def pd_sent_pass_def Let_def)
qed

lemma pd_batch:
  assumes "ID (pp_key q) \<noteq> []" "0 \<le> fp_Attempts (pp_next q)"
  obtains p where "pass_step pd_env (traced pd_port) (pd_sent_pass r q) p" "sp_phase p = Admitting"
    "sp_next p = 1" "sp_inFlight p = 0" "cb_view (sp_store p) (pp_key q) = Some (pp_next q)"
proof -
  let ?g = "[\<lparr>su_res = r, su_pending = q\<rparr>]" let ?r = "applyUploadOutcome \<lparr>su_res = r, su_pending = q\<rparr> None"
  let ?q = "(pd_sent_pass r q)\<lparr>sp_groups := [], sp_world := ([(prepared_batch ?g, [None])], ())\<rparr>"
  let ?p = "receive_batch pd_env pd_rd ?g [?r] ([(prepared_batch ?g, [None])], ()) (pd_sent_pass r q)"
  have "expired_at [None] = []" by (simp add: expired_at_def)
  then have "sendBatch (traced pd_port) ?g (sp_world (pd_sent_pass r q)) = ([?r], ([(prepared_batch ?g, [None])], ()))"
    by (simp add: sendBatch_def authorizeAndUpload_def traced_def pd_port_def pd_sent_pass_def pd_admitted_def)
  then have step: "pass_step pd_env (traced pd_port) (pd_sent_pass r q) ?p"
    by (intro pass_step.batch) (simp_all add: pd_sent_pass_def)
  obtain r2 p2 where ai: "applyIntent (pe_cd pd_env) ?r ?q = (r2, p2)" by fastforce
  note f = settle_facts [OF ai, of pd_rd]
  have stg: "sp_staged (settle pd_env pd_rd ?r ?q) = \<lparr>ba_maxObjects = 4, ba_items = [], ba_bytes = 0\<rparr>"
    "sp_next (settle pd_env pd_rd ?r ?q) = 1" "sp_inFlight (settle pd_env pd_rd ?r ?q) = 0"
    using loop_part_eqD [OF f(1)] by (simp_all add: pd_sent_pass_def pd_admitted_def)
  have "?p = (settle pd_env pd_rd ?r ?q)\<lparr>sp_phase := Admitting\<rparr>"
    using stg by (simp add: receive_batch_def drainStaged_def pd_sent_pass_def Let_def)
  then have p: "sp_phase ?p = Admitting" "sp_next ?p = 1" "sp_inFlight ?p = 0" "sp_store ?p = sp_store p2"
    using stg f(2) by simp_all
  obtain e b where c: "cb_Commit demo_codec (pp_key q) (pp_next q) demo_buffer = (e, b)" by fastforce
  then have "sp_store p2 = b" using ai
    by (auto simp: applyIntent_def applyUploadOutcome_def pd_sent_pass_def pd_admitted_def Let_def split: option.splits)
  then have "cb_view (sp_store ?p) (pp_key q) = Some (pp_next q)"
    using cb_view_Commit [OF demo_buffer_ok assms c] p(4) by simp
  with step p that show ?thesis by blast
qed

lemma pd_seal_obj:
  assumes "Seal mc (op_ly pd_opt) m s rs = Inr (obj, sealed)"
  shows "obj = ''sealed''"
proof -
  have "ly_write (op_ly pd_opt) es rs = Inr ''sealed''" for es rs by (simp add: pd_opt_def)
  with assms show ?thesis by (auto simp: Seal_def writeContainer_def Let_def split: if_splits sum.splits)
qed

lemma pd_run:
  obtains p fp where "(pass_step pd_env (traced pd_port))\<^sup>*\<^sup>* pd_start p" "sp_phase p = Finished"
    "cb_view (sp_store p) (Key ''codex'' ''/r/a'') = Some fp" "fp_SourceHash fp \<noteq> []"
proof -
  let ?s = "pass_step pd_env (traced pd_port)"
  obtain r q where pf: "prepareFile pd_opt (\<lambda>_. 0) pd_job pd_src (pd_disc [pd_cand ''a'']) False = Some (r, Some q)"
    using pd_changed by blast
  obtain payload where pl: "ca_Load (jb_cand pd_job) = Inr payload"
    "prepareChanged pd_opt (\<lambda>_. 0) pd_job pd_src (pd_disc [pd_cand ''a'']) payload (Hash (pl_Bytes payload))
       (change_hash payload) (loaded_result pd_job pd_src False payload) = Some (r, Some q)"
    by (rule prepareFile_pending [OF pf])
  obtain scrubbed sealed where q:
    "Seal (op_mc pd_opt) (op_ly pd_opt) (manifestFor pd_opt 0 pd_src (jb_cand pd_job) (pd_disc [pd_cand ''a''])
       (Hash (pl_Bytes payload)) (pl_MTime payload) scrubbed) (re_Out scrubbed) (op_Recipients pd_opt) = Inr (pp_obj q, sealed)"
    "pp_key q = KeyOf (src_ID pd_src) (jb_cand pd_job)"
    "pp_next q = zero_fp\<lparr>fp_NativePath := ca_Path (jb_cand pd_job), fp_SourceSize := ca_Size (jb_cand pd_job),
       fp_SourceMTime := ca_MTime (jb_cand pd_job), fp_SourceHash := change_hash payload\<rparr>"
    by (rule prepareChanged_pending [OF pl(2)])
  have obj: "length (pp_obj q) < 1000" using pd_seal_obj [OF q(1)] by simp
  have key: "pp_key q = Key ''codex'' ''/r/a''" using q(2) by (simp add: KeyOf_def pd_job_def pd_cand_def)
  have "ID (pp_key q) \<noteq> []" "0 \<le> fp_Attempts (pp_next q)" using key q(3) by (simp_all add: zero_fp_def)
  then obtain p where p: "?s (pd_sent_pass r q) p" "sp_phase p = Admitting" "sp_next p = 1" "sp_inFlight p = 0"
    "cb_view (sp_store p) (pp_key q) = Some (pp_next q)"
    by (rule pd_batch)
  have "?s p (end_admission p)" by (rule pd_end) (use p in simp_all)
  then have "?s\<^sup>*\<^sup>* (pd_sent_pass r q) (end_admission p)"
    using p(1) by (auto intro: converse_rtranclp_into_rtranclp)
  then have "?s\<^sup>*\<^sup>* pd_wait (end_admission p)"
    using pd_result [OF pf obj] pd_flush by (metis converse_rtranclp_into_rtranclp)
  then have run: "?s\<^sup>*\<^sup>* pd_start (end_admission p)"
    using pd_admit pd_admitted_end by (metis converse_rtranclp_into_rtranclp)
  have "length (Hash x) = 64" for x by (simp add: Hash_def)
  then have "Hash x \<noteq> []" for x by (metis list.size(3) zero_neq_numeral)
  then have "fp_SourceHash (pp_next q) \<noteq> []" using q(3) by (simp add: change_hash_def split: option.split)
  moreover have "sp_phase (end_admission p) = Finished" "sp_store (end_admission p) = sp_store p"
    using p(4) by (simp_all add: end_admission_def Let_def split: prod.split)
  ultimately show ?thesis using that [OF run] p(5) key by simp
qed
end
