(* ===== verification/Pool_Properties.thy ===== *)
theory Pool_Properties
  imports Pool_Demo
begin

text \<open>
  What a whole pass guarantees, however its files and groups interleave: it ends, it decides every file
  it admitted, it stays within the file budget and the memory gate, and it records as shipped only
  what the port confirmed.
\<close>

section \<open>Reachable passes\<close>

lemma start_acct: "acct pe {#} (start_pass pe store rep out budget w)"
  by (auto simp: start_pass_def Let_def acct_def ids_def batcher_ok_def maxBatchBytes_def maxBatchObjects_def)

lemma start_phase: "phase_ok (start_pass pe store rep out budget w)"
  by (simp add: start_pass_def Let_def phase_ok_def)

lemma start_ledger:
  assumes "cb_inv store"
  shows "ledger pe (cb_view store) (start_pass pe store rep out budget tw)"
  using assms by (auto simp: start_pass_def Let_def ledger_def hash_ok_def)

lemma reach_inv:
  assumes "(pass_step pe port)\<^sup>*\<^sup>* (start_pass pe store rep out budget w) p"
  shows "acct pe {#} p \<and> phase_ok p"
  using assms
proof (induction rule: rtranclp_induct)
  case (step p q)
  then show ?case by (intro pass_step_inv [of pe port p q])
qed (simp add: start_acct start_phase)

lemma reach_ledger:
  assumes "(pass_step pe (traced port))\<^sup>*\<^sup>* (start_pass pe store rep out budget tw) p"
    and "cb_inv store" "\<forall>c \<in> set (candidates pe). ca_Path c \<noteq> []"
  shows "ledger pe (cb_view store) p"
  using assms(1)
proof (induction rule: rtranclp_induct)
  case (step p q)
  from reach_inv [OF step.hyps(1)] have "acct pe {#} p" by blast
  from pass_step_ledger [OF step.hyps(2) this step.IH assms(3)] show ?case .
qed (rule start_ledger [OF assms(2)])

section \<open>Termination\<close>

definition pass_measure :: "'id passEnv \<Rightarrow> 'w sourcePass \<Rightarrow> nat" where
  "pass_measure pe p = 6 * (length (candidates pe) - sp_next p) + 4 * length (sp_jobs p) +
     2 * (length (ba_items (sp_staged p)) + length (concat (sp_groups p))) +
     (if sp_phase p = Admitting then 1 else 0)"

lemma settle_shape:
  "sp_next (settle pe rd r p) = sp_next p" "sp_jobs (settle pe rd r p) = sp_jobs p"
  "sp_groups (settle pe rd r p) = sp_groups p" "sp_staged (settle pe rd r p) = sp_staged p"
proof -
  obtain r' p' where a: "applyIntent (pe_cd pe) r p = (r', p')" by fastforce
  note lp = loop_part_eqD [OF settle_facts(1) [OF a, of rd]]
  from lp show "sp_next (settle pe rd r p) = sp_next p" "sp_jobs (settle pe rd r p) = sp_jobs p"
    "sp_groups (settle pe rd r p) = sp_groups p" "sp_staged (settle pe rd r p) = sp_staged p" by simp_all
qed

lemma fold_settle_shape:
  "sp_next (fold (settle pe rd) rs p) = sp_next p" "sp_jobs (fold (settle pe rd) rs p) = sp_jobs p"
  "sp_groups (fold (settle pe rd) rs p) = sp_groups p" "sp_staged (fold (settle pe rd) rs p) = sp_staged p"
  by (induction rs arbitrary: p) (simp_all add: settle_shape)

lemma measure_end:
  assumes "sp_phase p = Admitting"
  shows "pass_measure pe (end_admission p) < pass_measure pe p"
  using assms by (auto simp: pass_measure_def end_admission_def batcher_flush_spec Let_def)

lemma measure_result:
  assumes "sp_phase p = Waiting" "job \<in> set (sp_jobs p)" "batcher_ok (sp_staged p)"
  shows "pass_measure pe (receive_result pe rd job r pending p) < pass_measure pe p"
proof -
  have len: "length (sp_jobs p) = Suc (length (remove1 job (sp_jobs p)))"
    using assms(2) by (simp add: length_remove1) (metis Suc_pred length_pos_if_in_set)
  show ?thesis
  proof (cases pending)
    case None
    with assms(1) len show ?thesis by (simp add: receive_result_def Let_def pass_measure_def settle_shape)
  next
    case (Some q)
    let ?it = "\<lparr>su_res = r, su_pending = q\<rparr>"
    obtain sent b where a: "batcher_add ?it (obj_size ?it) (sp_staged p) = (sent, b)" by fastforce
    have "length (concat sent) + length (ba_items b) = length (ba_items (sp_staged p)) + 1"
      using batcher_add_ok [OF assms(3) a] by (metis length_append length_append_singleton Suc_eq_plus1)
    with Some assms(1) len a show ?thesis
      by (simp add: receive_result_def stageUpload_def Let_def pass_measure_def settle_shape obj_size_def)
  qed
qed

lemma measure_batch:
  assumes "sp_phase p = Waiting" "g \<in> set (sp_groups p)" "g \<noteq> []"
  shows "pass_measure pe (receive_batch pe rd g done w p) < pass_measure pe p"
proof -
  have "size (mset (concat (sp_groups p))) = size (mset g) + size (mset (concat (remove1 g (sp_groups p))))"
    using mset_concat_remove1 [OF assms(2)] by simp
  then have len: "length (concat (sp_groups p)) = length g + length (concat (remove1 g (sp_groups p)))"
    by (simp only: size_mset)
  let ?q = "fold (settle pe rd) done (p\<lparr>sp_groups := remove1 g (sp_groups p), sp_world := w\<rparr>)"
  obtain ds q where d: "drainStaged ?q = (ds, q)" by fastforce
  have shape: "sp_next q = sp_next p" "sp_jobs q = sp_jobs p" "sp_groups q = remove1 g (sp_groups p)"
    "length (ba_items (sp_staged q)) \<le> length (ba_items (sp_staged p))"
    using d by (auto simp: drainStaged_def batcher_take_def fold_settle_shape split: if_splits)
  have "1 \<le> length g" using assms(3) by (cases g) simp_all
  with assms(1) len shape d show ?thesis
    by (simp add: receive_batch_def Let_def pass_measure_def fold_settle_shape del: length_0_conv One_nat_def)
qed

lemma pass_step_measure:
  assumes "pass_step pe port p q" "acct pe {#} p"
  shows "pass_measure pe q < pass_measure pe p"
  using assms(1)
proof cases
  case (admit rd p')
  obtain ch c where d: "dispatch pe rd p' = p\<lparr>sp_charges := ch, sp_budget := sp_budget p - 1,
     sp_inFlightBytes := sp_inFlightBytes p + c, sp_jobs := sp_jobs p @ [job_for pe p (sp_next p)],
     sp_next := sp_next p + 1, sp_inFlight := sp_inFlight p + 1, sp_computing := sp_computing p + 1\<rparr>"
    "sp_next p < length (candidates pe)"
    by (rule admit_frame [OF admit(4)])
  with admit(1) show ?thesis by (simp add: pass_measure_def)
next
  case (admit_end p' rd)
  then have "sp_phase p' = Admitting \<and> pass_measure pe p' = pass_measure pe p"
    by (auto simp: pass_measure_def elim!: canAdmit_False)
  with measure_end [of p' pe] admit_end(1) show ?thesis by simp
next
  case (result job now r pending rd)
  have "batcher_ok (sp_staged p)" using assms(2) by (simp add: acct_def)
  from measure_result [OF result(2,3) this] result(1) show ?thesis by simp
next
  case (batch g "done" w rd)
  have "g \<noteq> []" using assms(2) batch(3) unfolding acct_def by blast
  from measure_batch [OF batch(2,3) this] batch(1) show ?thesis by simp
qed

lemma pass_progress:
  assumes "acct pe {#} p" "phase_ok p" "sp_phase p \<noteq> Finished"
    and "\<forall>job \<in> set (sp_jobs p). 0 \<le> fp_Attempts (jb_fp job)"
  shows "\<exists>q. pass_step pe port p q"
proof (cases "sp_phase p")
  case Admitting
  show ?thesis
  proof (cases "sp_inFlight p < limit pe")
    case True
    obtain b p' where "canAdmit pe \<lparr>rd_ctxErr = None, rd_now = 0, rd_frameSize = (\<lambda>_. None)\<rparr> p = (b, p')" by fastforce
    with Admitting True show ?thesis by (cases b) (metis admit, metis admit_end)
  next
    case False
    with Admitting show ?thesis by (metis admit_end)
  qed
next
  case Waiting
  then have w: "sp_inFlight p \<noteq> 0" "sp_jobs p = [] \<longrightarrow> ba_items (sp_staged p) = []"
    using assms(2) by (simp_all add: phase_ok_def)
  show ?thesis
  proof (cases "sp_jobs p")
    case (Cons job jobs)
    then obtain x where "prepareFile (pe_o pe) (\<lambda>_. 0) job (pe_src pe) (pe_disc pe) (pe_staging pe) = Some x"
      using assms(4) prepareFile_total [of job "pe_o pe" "\<lambda>_. 0" "pe_src pe" "pe_disc pe" "pe_staging pe"] by auto
    with Waiting Cons show ?thesis by (cases x) (metis result list.set_intros(1))
  next
    case Nil
    with w assms(1) have "sp_groups p \<noteq> []" by (auto simp: acct_def ids_def)
    then obtain g where "g \<in> set (sp_groups p)" by (meson last_in_set)
    with Waiting show ?thesis by (cases "sendBatch port g (sp_world p)") (metis batch)
  qed
qed (use assms(3) in simp)

section \<open>Budget\<close>

definition spent :: "Report \<Rightarrow> int" where
  "spent rep = rp_Shipped rep + rp_Parked rep + rp_Failed rep"

definition budget_ok :: "int \<Rightarrow> 'w sourcePass \<Rightarrow> bool" where
  "budget_ok cap p \<longleftrightarrow> 0 \<le> sp_budget p \<and> sp_budget p + sp_inFlight p + spent (sp_rep p) \<le> cap"

lemma count_decision_spent:
  assumes "count_decision d (rep, b) = (rep', b')"
  shows "b \<le> b' \<and> b' + spent rep' \<le> b + spent rep + 1"
  using assms by (cases d) (auto simp: count_decision_def spent_def)

lemma settle_budget: "budget_ok cap p \<Longrightarrow> budget_ok cap (settle pe rd r p)"
proof -
  assume ok: "budget_ok cap p"
  obtain r' p' where a: "applyIntent (pe_cd pe) r p = (r', p')" by fastforce
  note sf = settle_facts [OF a, of rd]
  have fl: "sp_inFlight (settle pe rd r p) = sp_inFlight p - 1" using loop_part_eqD(2) [OF sf(1)] by simp
  show ?thesis
  proof (cases "suppressed r p")
    case True
    with sf(7) ok fl show ?thesis by (simp add: budget_ok_def)
  next
    case False
    with sf(7) have "count_decision (fo_Decision (fr_outcome r')) (sp_rep p, sp_budget p)
      = (sp_rep (settle pe rd r p), sp_budget (settle pe rd r p))" by simp
    from count_decision_spent [OF this] ok fl show ?thesis by (simp add: budget_ok_def)
  qed
qed

lemma fold_settle_budget: "budget_ok cap p \<Longrightarrow> budget_ok cap (fold (settle pe rd) rs p)"
  by (induction rs arbitrary: p) (simp_all add: settle_budget)

lemma budget_upd:
  "sp_budget q = sp_budget p \<Longrightarrow> sp_inFlight q = sp_inFlight p \<Longrightarrow> sp_rep q = sp_rep p \<Longrightarrow>
   budget_ok cap q = budget_ok cap p"
  by (simp add: budget_ok_def)

lemma pass_step_budget:
  assumes "pass_step pe port p q" "budget_ok cap p"
  shows "budget_ok cap q"
  using assms(1)
proof cases
  case (admit rd p')
  obtain ch c where d: "dispatch pe rd p' = p\<lparr>sp_charges := ch, sp_budget := sp_budget p - 1,
     sp_inFlightBytes := sp_inFlightBytes p + c, sp_jobs := sp_jobs p @ [job_for pe p (sp_next p)],
     sp_next := sp_next p + 1, sp_inFlight := sp_inFlight p + 1, sp_computing := sp_computing p + 1\<rparr>"
    "0 < sp_budget p"
    by (rule admit_frame [OF admit(4)])
  with admit(1) assms(2) show ?thesis by (simp add: budget_ok_def)
next
  case (admit_end p' rd)
  have "budget_ok cap p'"
    using admit_end(3) assms(2) by (auto simp: budget_ok_def elim!: canAdmit_False)
  then show ?thesis unfolding admit_end(1)
    by (simp add: budget_ok_def end_admission_def batcher_flush_spec Let_def)
next
  case (result job now r pending rd)
  let ?q = "p\<lparr>sp_computing := sp_computing p - 1, sp_jobs := remove1 job (sp_jobs p)\<rparr>"
  have q: "budget_ok cap ?q" using assms(2) by (simp add: budget_ok_def)
  have st: "budget_ok cap p'" if "stageUpload r x ?q = (d, p')" for x d p'
    using that q by (auto simp: stageUpload_def Let_def budget_ok_def split: if_splits prod.splits)
  show ?thesis unfolding result(1) receive_result_def Let_def
    using settle_budget [OF q] settle_budget [OF st] st
    by (auto simp: budget_upd [of "_\<lparr>sp_phase := _\<rparr>"] split: option.split prod.split)
next
  case (batch g "done" w rd)
  let ?q = "p\<lparr>sp_groups := remove1 g (sp_groups p), sp_world := w\<rparr>"
  have q: "budget_ok cap (fold (settle pe rd) done ?q)"
    by (rule fold_settle_budget) (use assms(2) in \<open>simp add: budget_ok_def\<close>)
  obtain ds q' where d: "drainStaged (fold (settle pe rd) done ?q) = (ds, q')" by fastforce
  with q have "budget_ok cap q'"
    by (auto simp: drainStaged_def batcher_take_def budget_ok_def split: if_splits)
  from fold_settle_budget [OF this] d show ?thesis unfolding batch(1)
    by (simp add: receive_batch_def Let_def budget_ok_def)
qed

section \<open>Properties\<close>

lemma filled_prefix:
  assumes "length slots = length filled" "n \<le> length filled"
    and "\<forall>i < n. filled ! i" "\<forall>i < length filled. filled ! i \<longrightarrow> i < n"
  shows "map fst (filter snd (zip slots filled)) = take n slots"
proof -
  have "filled = replicate n True @ replicate (length filled - n) False"
    by (rule nth_equalityI) (use assms in \<open>auto simp: nth_append\<close>)
  then have "zip slots filled = zip (take n slots) (replicate n True) @
      zip (drop n slots) (replicate (length filled - n) False)"
    using assms(1,2) by (metis append_take_drop_id length_replicate length_take min.absorb2 zip_append)
  then show ?thesis using assms(1,2)
    by (simp add: zip_replicate2 comp_def)
qed

text \<open>
  C5: The record of progress only moves on confirmation. In whatever order files and groups report, and
  whatever the port answers, at every moment of a pass a content hash that the record holds for a
  key is empty, was recorded for that key before the pass, or is the hash of what a candidate
  with that key loads to, and the port has confirmed an object under that candidate's mirror key.
\<close>

theorem pass_records_only_confirmed:
  assumes "(pass_step pe (traced port))\<^sup>*\<^sup>* (start_pass pe store rep out budget ([], w)) p"
    and "cb_inv store" "\<forall>c \<in> set (candidates pe). ca_Path c \<noteq> []"
    and "cb_view (sp_store p) k = Some fp" "fp_SourceHash fp \<noteq> []"
  shows "(\<exists>fp0. cb_view store k = Some fp0 \<and> fp_SourceHash fp0 = fp_SourceHash fp) \<or>
    (\<exists>i < length (candidates pe). \<exists>payload key batch ans j. let c = candidates pe ! i in
       KeyOf (src_ID (pe_src pe)) c = k \<and> ca_Load c = Inr payload \<and> fp_SourceHash fp = change_hash payload \<and>
       mirrorKey (pe_o pe) (src_ID (pe_src pe)) (cmp_or [ca_Identity c, ca_RelPath c]) = Inr key \<and>
       (batch, ans) \<in> set (fst (sp_world p)) \<and> j < length batch \<and> length ans = length batch \<and>
       (ans ! j = None \<or> errors_is (ans ! j) ErrAlreadyPresent) \<and> po_Key (batch ! j) = key)"
proof -
  have "hash_ok pe (cb_view store) (fst (sp_world p)) k (fp_SourceHash fp)"
    using reach_ledger [OF assms(1-3)] assms(4) by (simp add: ledger_def)
  then consider fp0 where "cb_view store k = Some fp0" "fp_SourceHash fp0 = fp_SourceHash fp"
    | i payload key where "i < length (candidates pe)" "KeyOf (src_ID (pe_src pe)) (candidates pe ! i) = k"
        "ca_Load (candidates pe ! i) = Inr payload" "fp_SourceHash fp = change_hash payload"
        "object_of pe i = Inr key" "confirmed_key (fst (sp_world p)) key"
    using assms(5) unfolding hash_ok_def by blast
  then show ?thesis
  proof cases
    case (2 i payload key)
    from 2(6) obtain batch ans j where b: "(batch, ans) \<in> set (fst (sp_world p))" "length ans = length batch"
      "j < length batch" "confirmed (ans ! j)" "po_Key (batch ! j) = key"
      unfolding confirmed_key_def by blast
    have "let c = candidates pe ! i in
       KeyOf (src_ID (pe_src pe)) c = k \<and> ca_Load c = Inr payload \<and> fp_SourceHash fp = change_hash payload \<and>
       mirrorKey (pe_o pe) (src_ID (pe_src pe)) (cmp_or [ca_Identity c, ca_RelPath c]) = Inr key \<and>
       (batch, ans) \<in> set (fst (sp_world p)) \<and> j < length batch \<and> length ans = length batch \<and>
       (ans ! j = None \<or> errors_is (ans ! j) ErrAlreadyPresent) \<and> po_Key (batch ! j) = key"
      using 2(2-5) b unfolding object_of_def confirmed_def Let_def by blast
    with 2(1) show ?thesis by blast
  qed blast
qed

text \<open>
  C6: A pass ends. Whatever the interleaving and the port's answers, it has no infinite run, and it is
  never stuck before it is finished: some file or group can always report or be admitted.
\<close>

theorem pass_terminates:
  assumes "cb_inv store" "\<forall>c \<in> set (candidates pe). ca_Path c \<noteq> []"
  shows "\<not> (\<exists>run. run 0 = start_pass pe store rep out budget ([], w) \<and>
            (\<forall>i. pass_step pe (traced port) (run i) (run (Suc i)))) \<and>
    (\<forall>p. (pass_step pe (traced port))\<^sup>*\<^sup>* (start_pass pe store rep out budget ([], w)) p \<and> sp_phase p \<noteq> Finished \<longrightarrow>
       (\<exists>q. pass_step pe (traced port) p q))"
proof (intro conjI allI impI notI)
  assume "\<exists>run. run 0 = start_pass pe store rep out budget ([], w) \<and>
            (\<forall>i. pass_step pe (traced port) (run i) (run (Suc i)))"
  then obtain run where r: "run 0 = start_pass pe store rep out budget ([], w)"
    "\<And>i. pass_step pe (traced port) (run i) (run (Suc i))" by blast
  have reach: "(pass_step pe (traced port))\<^sup>*\<^sup>* (start_pass pe store rep out budget ([], w)) (run i)" for i
    by (induction i) (use r in \<open>auto intro: rtranclp.rtrancl_into_rtrancl\<close>)
  have "pass_measure pe (run (Suc i)) < pass_measure pe (run i)" for i
    by (rule pass_step_measure [OF r(2)]) (use reach_inv [OF reach] in blast)
  then show False using infinite_descent_measure [of "\<lambda>_. False" "\<lambda>i. pass_measure pe (run i)"] by blast
next
  fix p assume p: "(pass_step pe (traced port))\<^sup>*\<^sup>* (start_pass pe store rep out budget ([], w)) p \<and> sp_phase p \<noteq> Finished"
  note p1 = p [THEN conjunct1]
  have "acct pe {#} p" "phase_ok p" using reach_inv [OF p1] by blast+
  moreover have "ledger pe (cb_view store) p" by (rule reach_ledger [OF p1 assms])
  then have "\<forall>job \<in> set (sp_jobs p). 0 \<le> fp_Attempts (jb_fp job)" by (simp add: ledger_def job_ok_def)
  ultimately show "\<exists>q. pass_step pe (traced port) p q" using p by (intro pass_progress) auto
qed


text \<open>
  C8: The file budget cannot be overshot. At every moment of a pass the files it has shipped, parked
  or failed, together with those in flight, are at most the budget it was given, and the
  remaining budget is never negative.
\<close>

theorem budget_never_overshot:
  assumes "(pass_step pe port)\<^sup>*\<^sup>* (start_pass pe store rep out budget w) p" "0 \<le> budget"
  shows "0 \<le> sp_budget p \<and>
    (rp_Shipped (sp_rep p) - rp_Shipped rep) + (rp_Parked (sp_rep p) - rp_Parked rep) +
    (rp_Failed (sp_rep p) - rp_Failed rep) + sp_inFlight p \<le> budget"
proof -
  have "budget_ok (budget + spent rep) p"
    using assms(1)
  proof (induction rule: rtranclp_induct)
    case base
    show ?case using assms(2) by (simp add: budget_ok_def start_pass_def Let_def)
  next
    case (step p q)
    from pass_step_budget [OF step.hyps(2) step.IH] show ?case .
  qed
  then show ?thesis by (simp add: budget_ok_def spent_def)
qed

section \<open>The pass over one file\<close>

lemma pd_paths: "\<forall>c \<in> set (candidates pd_env). ca_Path c \<noteq> []"
  by (simp add: pd_cand_def)

theorem pass_records_only_confirmed_witness:
  "\<exists>p fp. (pass_step pd_env (traced pd_port))\<^sup>*\<^sup>* pd_start p \<and> cb_view (sp_store p) (Key ''codex'' ''/r/a'') = Some fp \<and>
     (\<exists>(batch, ans) \<in> set (fst (sp_world p)). \<exists>j < length batch. ans ! j = None \<or> errors_is (ans ! j) ErrAlreadyPresent)"
proof -
  obtain p fp where p: "(pass_step pd_env (traced pd_port))\<^sup>*\<^sup>* pd_start p"
    "cb_view (sp_store p) (Key ''codex'' ''/r/a'') = Some fp" "fp_SourceHash fp \<noteq> []"
    by (rule pd_run)
  have "cb_view demo_buffer (Key ''codex'' ''/r/a'') = None"
    by (simp add: cb_view_def demo_buffer_def newCommitBuffer_def demo_store_def map_get_def)
  with pass_records_only_confirmed [OF p(1) [unfolded pd_start_def] demo_buffer_ok pd_paths p(2,3)] p(1,2)
  show ?thesis by (fastforce simp: Let_def)
qed

theorem pass_terminates_witness:
  "\<not> (\<exists>run. run 0 = pd_start \<and> (\<forall>i. pass_step pd_env (traced pd_port) (run i) (run (Suc i)))) \<and>
   (\<exists>q. pass_step pd_env (traced pd_port) pd_wait q)"
proof -
  have "(pass_step pd_env (traced pd_port))\<^sup>*\<^sup>* pd_start pd_wait"
    using pd_admit pd_admitted_end by (metis rtranclp.rtrancl_refl converse_rtranclp_into_rtranclp)
  with pass_terminates [OF demo_buffer_ok pd_paths, of zero_report zero_source_outcome 3 "()" pd_port]
  show ?thesis unfolding pd_start_def [symmetric] by (simp add: pd_wait_def)
qed


theorem budget_never_overshot_witness:
  "0 \<le> sp_budget pd_admitted \<and> rp_Shipped (sp_rep pd_admitted) + sp_inFlight pd_admitted \<le> 3"
  using budget_never_overshot [of pd_env "traced pd_port" demo_buffer zero_report zero_source_outcome 3 "([], ())" pd_admitted]
    pd_admit [of "traced pd_port"] unfolding pd_start_def [symmetric]
  by (simp add: r_into_rtranclp pd_admitted_def pd_start_def start_pass_def zero_report_def Let_def)

end
