(* ===== verification/Pool_Memory.thy ===== *)
theory Pool_Memory
  imports Pool_Properties
begin

text \<open>
  The memory gate of a pass: the bytes in flight are the charges of the files in flight, a charge is
  released for exactly what was charged, and two files are in flight together only within the cap.
\<close>

definition charged :: "'id passEnv \<Rightarrow> (nat, int) gomap \<Rightarrow> nat \<Rightarrow> int" where
  "charged pe ch i = (if IsZstd (ca_Path (candidates pe ! i))
     then (case map_get ch i of Some c \<Rightarrow> c | None \<Rightarrow> 0) else ca_Size (candidates pe ! i))"

definition mem_ok :: "'id passEnv \<Rightarrow> nat multiset \<Rightarrow> 'w sourcePass \<Rightarrow> bool" where
  "mem_ok pe held p \<longleftrightarrow> map_ok (sp_charges p) \<and>
     sp_inFlightBytes p = sum_mset (image_mset (charged pe (sp_charges p)) (ids p + held)) \<and>
     (\<forall>i \<in># ids p + held. IsZstd (ca_Path (candidates pe ! i)) \<longrightarrow> map_get (sp_charges p) i \<noteq> None) \<and>
     (\<forall>i c. map_get (sp_charges p) i = Some c \<longrightarrow> 0 \<le> c) \<and>
     (sp_inFlight p \<le> 1 \<or> sp_inFlightBytes p \<le> op_MaxInFlightBytes (pe_o pe))"

definition sizes_ok :: "'id passEnv \<Rightarrow> bool" where
  "sizes_ok pe \<longleftrightarrow> (\<forall>c \<in> set (candidates pe). 0 \<le> ca_Size c)"

lemma charge_fresh:
  assumes "IsZstd (ca_Path (candidates pe ! i))" "map_get (sp_charges p) i = None"
  obtains v where "charge pe rd i p = (v, p\<lparr>sp_charges := map_put i v (sp_charges p)\<rparr>)"
    "v = ca_Size (candidates pe ! i) \<or>
     v = LoadBytes (rd_frameSize rd (candidates pe ! i)) (candidates pe ! i) (src_MaxFileBytes (pe_src pe))"
proof -
  obtain fp seen where "(case cb_Get (sp_store p) (KeyOf (src_ID (pe_src pe)) (candidates pe ! i)) of
      Some fp \<Rightarrow> (fp, True) | None \<Rightarrow> (zero_fp, False)) = (fp, seen)" by fastforce
  with assms that show ?thesis by (simp add: charge_def Let_def split: if_splits)
qed

lemma charge_spec:
  assumes "charge pe rd i p = (c, p\<lparr>sp_charges := ch\<rparr>)" "map_ok (sp_charges p)"
    and "i < length (candidates pe)" "sizes_ok pe" "\<forall>i c. map_get (sp_charges p) i = Some c \<longrightarrow> 0 \<le> c"
  shows "map_ok ch \<and> (\<forall>j. j \<noteq> i \<longrightarrow> map_get ch j = map_get (sp_charges p) j) \<and> charged pe ch i = c \<and> 0 \<le> c \<and>
    (IsZstd (ca_Path (candidates pe ! i)) \<longrightarrow> map_get ch i \<noteq> None) \<and>
    (\<forall>i c. map_get ch i = Some c \<longrightarrow> 0 \<le> c)"
proof -
  let ?c = "candidates pe ! i"
  have sz: "0 \<le> ca_Size ?c" using assms(3,4) by (simp add: sizes_ok_def)
  have lb: "0 \<le> LoadBytes f ?c m" for f m
    using sz by (auto simp: LoadBytes_def split: option.split)
  consider "\<not> IsZstd (ca_Path ?c)" | v where "IsZstd (ca_Path ?c)" "map_get (sp_charges p) i = Some v"
    | "IsZstd (ca_Path ?c)" "map_get (sp_charges p) i = None" by blast
  then show ?thesis
  proof cases
    case 1
    then have "charge pe rd i p = (ca_Size ?c, p)" by (simp add: charge_def Let_def)
    with assms(1) have "c = ca_Size ?c" "ch = sp_charges p" by (auto dest: arg_cong [where f = sp_charges])
    with 1 assms(2,5) sz show ?thesis by (simp add: charged_def)
  next
    case (2 v)
    then have "charge pe rd i p = (v, p)" by (simp add: charge_def Let_def)
    with assms(1) have "c = v" "ch = sp_charges p" by (auto dest: arg_cong [where f = sp_charges])
    with 2 assms(2,5) show ?thesis by (auto simp: charged_def)
  next
    case 3
    then obtain v where v: "charge pe rd i p = (v, p\<lparr>sp_charges := map_put i v (sp_charges p)\<rparr>)" "0 \<le> v"
      using sz lb by (metis charge_fresh)
    with assms(1) have "c = v" "ch = map_put i v (sp_charges p)" by (auto dest: arg_cong [where f = sp_charges])
    with 3 v assms(2,5) show ?thesis by (auto simp: charged_def)
  qed
qed

lemma charged_cong:
  assumes "\<forall>j \<in># m. map_get ch' j = map_get ch j"
  shows "image_mset (charged pe ch') m = image_mset (charged pe ch) m"
  by (rule image_mset_cong) (use assms in \<open>simp add: charged_def\<close>)

text \<open>Asking twice in one admission gives the same charge.\<close>

lemma charge_again:
  assumes "charge pe rd i p = (c, p\<lparr>sp_charges := ch\<rparr>)" "map_ok (sp_charges p)"
  shows "charge pe rd i (p\<lparr>sp_charges := ch, sp_budget := b\<rparr>) = (c, p\<lparr>sp_charges := ch, sp_budget := b\<rparr>)"
proof -
  let ?z = "IsZstd (ca_Path (candidates pe ! i))"
  show ?thesis
  proof (cases "\<not> ?z \<or> map_get (sp_charges p) i \<noteq> None")
    case True
    then have "charge pe rd i p = (charged pe (sp_charges p) i, p)"
      by (auto simp: charge_def charged_def Let_def)
    with assms(1) have "c = charged pe (sp_charges p) i" "ch = sp_charges p"
      by (auto dest: arg_cong [where f = sp_charges])
    with True show ?thesis by (auto simp: charge_def charged_def Let_def)
  next
    case False
    then obtain v where v: "charge pe rd i p = (v, p\<lparr>sp_charges := map_put i v (sp_charges p)\<rparr>)"
      by (metis charge_fresh)
    with assms(1) have "c = v" "ch = map_put i v (sp_charges p)" by (auto dest: arg_cong [where f = sp_charges])
    with False assms(2) show ?thesis by (simp add: charge_def Let_def)
  qed
qed

lemma settle_mem:
  assumes m: "mem_ok pe (add_mset (fr_idx r) held) p" and a: "acct pe (add_mset (fr_idx r) held) p"
    and s: "sizes_ok pe"
  shows "mem_ok pe held (settle pe rd r p)"
proof -
  let ?i = "fr_idx r" let ?ch = "sp_charges p"
  obtain r' p' where ai: "applyIntent (pe_cd pe) r p = (r', p')" by fastforce
  note lp = loop_part_eqD [OF settle_facts(1) [OF ai, of rd]]
  have ids: "ids (settle pe rd r p) = ids p" unfolding lp(10) by (simp add: ids_def)
  have i: "?i < length (candidates pe)" using a by (auto simp: acct_def)
  have cnt: "\<forall>j. count (ids p + add_mset ?i held) j \<le> 1" using a unfolding acct_def by (elim conjE) assumption
  have notin: "?i \<notin># ids p + held" using held_count [OF cnt] by (simp add: not_in_iff)
  have memo: "charge pe rd ?i (p\<lparr>sp_inFlight := sp_inFlight p - 1\<rparr>)
      = (charged pe ?ch ?i, p\<lparr>sp_inFlight := sp_inFlight p - 1\<rparr>)"
    using m by (auto simp: charge_def charged_def Let_def mem_ok_def)
  let ?q = "p\<lparr>sp_inFlight := sp_inFlight p - 1, sp_inFlightBytes := sp_inFlightBytes p - charged pe ?ch ?i,
              sp_charges := map_del ?i ?ch\<rparr>"
  have sq: "settle pe rd r p = fold_result pe r ?q" by (simp add: settle_def memo)
  obtain r2 p2 where a2: "applyIntent (pe_cd pe) r ?q = (r2, p2)" by fastforce
  note f = fold_result_frame [OF a2]
  have ch: "sp_charges (settle pe rd r p) = map_del ?i ?ch"
    "sp_inFlightBytes (settle pe rd r p) = sp_inFlightBytes p - charged pe ?ch ?i"
    unfolding sq f(2,3) by simp_all
  have mok: "map_ok ?ch" using m by (simp add: mem_ok_def)
  have same: "image_mset (charged pe (map_del ?i ?ch)) (ids p + held) = image_mset (charged pe ?ch) (ids p + held)"
    by (rule charged_cong) (use mok notin in auto)
  have nn: "0 \<le> charged pe ?ch ?i"
    using m s i by (auto simp: charged_def mem_ok_def sizes_ok_def split: option.split)
  have fl: "sp_inFlight (settle pe rd r p) = sp_inFlight p - 1" using lp(2) by simp
  have "map_ok (map_del ?i ?ch)" using mok by (simp add: map_del_def)
  moreover have "\<forall>j c. map_get (map_del ?i ?ch) j = Some c \<longrightarrow> 0 \<le> c"
    using m mok by (auto simp: mem_ok_def split: if_splits)
  ultimately show ?thesis
    unfolding mem_ok_def ids ch fl same
    using m mok notin nn by (auto simp: mem_ok_def)
qed

lemma fold_settle_mem:
  assumes "mem_ok pe (mset (map fr_idx rs) + held) p" "acct pe (mset (map fr_idx rs) + held) p" "sizes_ok pe"
  shows "mem_ok pe held (fold (settle pe rd) rs p)"
  using assms by (induction rs arbitrary: p) (simp_all add: settle_mem settle_acct)

lemma mem_cong:
  assumes "mem_ok pe held p" "ids q + held' = ids p + held" "sp_charges q = sp_charges p"
    "sp_inFlightBytes q = sp_inFlightBytes p" "sp_inFlight q = sp_inFlight p"
  shows "mem_ok pe held' q"
  using assms(1) unfolding mem_ok_def assms(2-5) .

text \<open>Changing the charge of a candidate that is not in flight changes nothing of the sum.\<close>

lemma mem_charge:
  assumes m: "mem_ok pe {#} p" and c: "charge pe rd i p = (c, p\<lparr>sp_charges := ch\<rparr>)"
    and i: "i < length (candidates pe)" "i \<notin># ids p" and s: "sizes_ok pe"
  shows "mem_ok pe {#} (p\<lparr>sp_charges := ch\<rparr>)"
proof -
  have mok: "map_ok (sp_charges p)" "\<forall>i c. map_get (sp_charges p) i = Some c \<longrightarrow> 0 \<le> c"
    using m by (simp_all add: mem_ok_def)
  note cs = charge_spec [OF c mok(1) i(1) s mok(2)]
  have "image_mset (charged pe ch) (ids p) = image_mset (charged pe (sp_charges p)) (ids p)"
    by (rule charged_cong) (use cs i(2) in metis)
  moreover have "\<forall>j \<in># ids p. map_get ch j = map_get (sp_charges p) j" using cs i(2) by metis
  moreover have "ids (p\<lparr>sp_charges := ch\<rparr>) = ids p" by (simp add: ids_def)
  moreover have "sp_inFlight p \<le> 1 \<or> sp_inFlightBytes p \<le> op_MaxInFlightBytes (pe_o pe)"
    using m unfolding mem_ok_def by (elim conjE)
  moreover have "\<forall>i \<in># ids p. IsZstd (ca_Path (candidates pe ! i)) \<longrightarrow> map_get (sp_charges p) i \<noteq> None"
    "sp_inFlightBytes p = sum_mset (image_mset (charged pe (sp_charges p)) (ids p))"
    using m by (simp_all add: mem_ok_def)
  ultimately show ?thesis using cs unfolding mem_ok_def by (intro conjI) simp_all
qed

lemma mem_admit:
  assumes m: "mem_ok pe {#} p" and a: "acct pe {#} p" and s: "sizes_ok pe"
    and ad: "canAdmit pe rd p = (True, p')"
  shows "mem_ok pe {#} (dispatch pe rd p')"
proof -
  obtain ch c where p': "p' = p\<lparr>sp_charges := ch, sp_budget := sp_budget p - 1\<rparr>"
    "sp_next p < length (candidates pe)" "charge pe rd (sp_next p) p = (c, p\<lparr>sp_charges := ch\<rparr>)"
    "sp_inFlight p > 0 \<longrightarrow> sp_inFlightBytes p + c \<le> op_MaxInFlightBytes (pe_o pe)"
    by (rule canAdmit_True [OF ad])
  have nin: "sp_next p \<notin># ids p" using a by (auto simp: acct_def)
  have mok: "map_ok (sp_charges p)" "\<forall>i c. map_get (sp_charges p) i = Some c \<longrightarrow> 0 \<le> c"
    using m by (simp_all add: mem_ok_def)
  note cs = charge_spec [OF p'(3) mok(1) p'(2) s mok(2)]
  note mc = mem_charge [OF m p'(3) p'(2) nin s]
  have "charge pe rd (sp_next p') p' = (c, p')"
    using charge_again [OF p'(3) mok(1)] by (simp add: p'(1))
  then have d: "dispatch pe rd p' = p\<lparr>sp_charges := ch, sp_budget := sp_budget p - 1,
      sp_inFlightBytes := sp_inFlightBytes p + c, sp_jobs := sp_jobs p @ [job_for pe p' (sp_next p)],
      sp_next := sp_next p + 1, sp_inFlight := sp_inFlight p + 1, sp_computing := sp_computing p + 1\<rparr>"
    by (simp add: dispatch_def p'(1))
  have "ids (dispatch pe rd p') = add_mset (sp_next p) (ids p)" unfolding d by (simp add: ids_def)
  moreover have "ids (p\<lparr>sp_charges := ch\<rparr>) = ids p" by (simp add: ids_def)
  moreover have "0 \<le> sp_inFlight p" using a by (simp add: acct_def)
  ultimately show ?thesis using mc cs p'(4) unfolding mem_ok_def by (auto simp: d)
qed

lemma mem_canAdmit_False:
  assumes m: "mem_ok pe {#} p" and a: "acct pe {#} p" and s: "sizes_ok pe"
    and ad: "canAdmit pe rd p = (False, p')"
  shows "mem_ok pe {#} p'"
proof (cases "sp_next p < length (candidates pe)")
  case True
  obtain c q where c: "charge pe rd (sp_next p) p = (c, q)" by fastforce
  obtain ch where q: "q = p\<lparr>sp_charges := ch\<rparr>" using charge_frame [OF c] .
  have "sp_next p \<notin># ids p" using a by (auto simp: acct_def)
  note mq = mem_charge [OF m c [unfolded q] True this s]
  have "p' = p \<or> p' = p\<lparr>sp_stopped := rd_ctxErr rd\<rparr> \<or> p' = q"
    using ad c by (auto simp: canAdmit_def split: if_splits)
  with mq q m show ?thesis by (auto intro: mem_cong [of pe "{#}" p] simp: ids_def)
next
  case False
  with ad have "p' = p" by (auto simp: canAdmit_def split: if_splits)
  with m show ?thesis by simp
qed

lemma mem_stage:
  assumes "mem_ok pe {#fr_idx r#} p" "batcher_ok (sp_staged p)" "stageUpload r q p = (None, p')"
  shows "mem_ok pe {#} p'"
proof -
  let ?it = "\<lparr>su_res = r, su_pending = q\<rparr>"
  obtain sent b where b: "batcher_add ?it (obj_size ?it) (sp_staged p) = (sent, b)" by fastforce
  note ok = batcher_add_ok [OF assms(2) b]
  from assms(3) b have p': "p' = p\<lparr>sp_staged := b, sp_groups := sp_groups p @ sent\<rparr>"
    by (auto simp: stageUpload_def Let_def obj_size_def split: if_splits)
  from stage_ids [OF assms(2) b] have "ids p' + {#} = ids p + {#fr_idx r#}"
    unfolding p' by (simp add: ids_def sidx_def ac_simps)
  with assms(1) show ?thesis by (rule mem_cong) (simp_all add: p')
qed

lemma mem_end: "mem_ok pe {#} p \<Longrightarrow> mem_ok pe {#} (end_admission p)"
  by (erule mem_cong) (simp_all add: end_admission_def batcher_flush_spec Let_def ids_def)

lemma mem_result:
  assumes m: "mem_ok pe {#} p" and a: "acct pe {#} p" and s: "sizes_ok pe"
    and job: "job \<in> set (sp_jobs p)" and idx: "fr_idx r = jb_idx job"
  shows "mem_ok pe {#} (receive_result pe rd job r pending p)"
proof -
  let ?q = "p\<lparr>sp_computing := sp_computing p - 1, sp_jobs := remove1 job (sp_jobs p)\<rparr>"
  have aq: "acct pe {#fr_idx r#} ?q" using acct_take_job [OF a job] idx by simp
  have "ids ?q + {#fr_idx r#} = ids p + {#}" using ids_take_job [OF job] idx by simp
  with m have mq: "mem_ok pe {#fr_idx r#} ?q" by (rule mem_cong) simp_all
  have bo: "batcher_ok (sp_staged ?q)" using aq by (simp add: acct_def)
  have ph: "mem_ok pe {#} x \<Longrightarrow> mem_ok pe {#} (x\<lparr>sp_phase := Admitting\<rparr>)" for x :: "'b sourcePass"
    by (erule mem_cong) (simp_all add: ids_def)
  show ?thesis
  proof (cases pending)
    case None
    with settle_mem [OF mq aq s] show ?thesis by (simp add: receive_result_def Let_def ph)
  next
    case (Some pp)
    obtain d q' where st: "stageUpload r pp ?q = (d, q')" by fastforce
    show ?thesis
    proof (cases d)
      case None
      with mem_stage [OF mq bo] st Some show ?thesis by (simp add: receive_result_def Let_def ph)
    next
      case (Some x)
      with st have x: "fr_idx x = fr_idx r" "q' = ?q"
        by (auto simp: stageUpload_def Let_def sidx_def split: if_splits prod.splits)
      with settle_mem [of pe x "{#}" ?q rd] mq aq s have "mem_ok pe {#} (settle pe rd x ?q)" by simp
      with Some st \<open>pending = Some pp\<close> x(2) show ?thesis by (simp add: receive_result_def Let_def ph)
    qed
  qed
qed

lemma mem_batch:
  assumes m: "mem_ok pe {#} p" and a: "acct pe {#} p" and s: "sizes_ok pe"
    and g: "g \<in> set (sp_groups p)" and sb: "sendBatch port g (sp_world p) = (done, w)"
  shows "mem_ok pe {#} (receive_batch pe rd g done w p)"
proof -
  let ?q = "p\<lparr>sp_groups := remove1 g (sp_groups p), sp_world := w\<rparr>"
  have "mset (map fr_idx done) = image_mset sidx (mset g)" using sendBatch_idx [OF sb] by (metis mset_map)
  then have ids: "ids ?q + (mset (map fr_idx done) + {#}) = ids p + {#}"
    using mset_concat_remove1 [OF g] by (simp add: ids_def ac_simps)
  have aq: "acct pe (mset (map fr_idx done) + {#}) ?q"
    using a unfolding acct_def ids by (auto dest: set_remove1_subset [THEN subsetD])
  from m ids have mq: "mem_ok pe (mset (map fr_idx done) + {#}) ?q" by (rule mem_cong) simp_all
  let ?f = "fold (settle pe rd) done ?q"
  have mf: "mem_ok pe {#} ?f" by (rule fold_settle_mem [OF mq aq s])
  have af: "acct pe {#} ?f" by (rule fold_settle_acct [OF aq])
  obtain ds q where d: "drainStaged ?f = (ds, q)" by fastforce
  have aq': "acct pe (mset (map fr_idx ds) + {#}) q" by (rule drainStaged_acct [OF af d])
  from mf drain_ids [OF d] have mq': "mem_ok pe (mset (map fr_idx ds) + {#}) q"
    by (rule mem_cong) (use d in \<open>auto simp: drainStaged_def batcher_take_def split: if_splits\<close>)
  have "mem_ok pe {#} (fold (settle pe rd) ds q)" by (rule fold_settle_mem [OF mq' aq' s])
  then show ?thesis unfolding receive_batch_def Let_def d prod.case
    by (rule mem_cong) (simp_all add: ids_def)
qed

lemma pass_step_mem:
  assumes "pass_step pe port p q" "mem_ok pe {#} p" "acct pe {#} p" "sizes_ok pe"
  shows "mem_ok pe {#} q"
  using assms(1)
proof cases
  case (admit rd p')
  show ?thesis unfolding admit(1) by (rule mem_admit [OF assms(2-4) admit(4)])
next
  case (admit_end p' rd)
  then have "mem_ok pe {#} p'" using assms(2) mem_canAdmit_False [OF assms(2-4)] by blast
  then show ?thesis unfolding admit_end(1) by (rule mem_end)
next
  case (result job now r pending rd)
  show ?thesis unfolding result(1)
    by (rule mem_result [OF assms(2-4) result(3) prepareFile_idx [OF result(4)]])
next
  case (batch g "done" w rd)
  show ?thesis unfolding batch(1) by (rule mem_batch [OF assms(2-4) batch(3,4)])
qed

text \<open>
  C9: Raw bytes in flight are bounded. At every moment of a pass the gate's account is the sum of what
  the files in flight were charged, each released for what it was charged; and whenever more than
  one file is in flight that sum is within the cap, so only a file larger than the gate runs over
  it, and it runs alone.
\<close>

theorem memory_gate_holds:
  assumes "(pass_step pe port)\<^sup>*\<^sup>* (start_pass pe store rep out budget w) p"
    and "\<forall>c \<in> set (candidates pe). 0 \<le> ca_Size c"
  shows "(sp_inFlight p \<le> 1 \<or> sp_inFlightBytes p \<le> op_MaxInFlightBytes (pe_o pe)) \<and>
    sp_inFlightBytes p = sum_mset (image_mset (\<lambda>i. if IsZstd (ca_Path (candidates pe ! i))
        then (case map_get (sp_charges p) i of Some c \<Rightarrow> c | None \<Rightarrow> 0) else ca_Size (candidates pe ! i)) (ids p)) \<and>
    (\<forall>i \<in># ids p. IsZstd (ca_Path (candidates pe ! i)) \<longrightarrow> map_get (sp_charges p) i \<noteq> None)"
proof -
  have s: "sizes_ok pe" using assms(2) by (simp add: sizes_ok_def)
  have "mem_ok pe {#} p"
    using assms(1)
  proof (induction rule: rtranclp_induct)
    case base
    show ?case by (simp add: mem_ok_def start_pass_def Let_def ids_def)
  next
    case (step p q)
    from pass_step_mem [OF step.hyps(2) step.IH _ s] reach_inv [OF step.hyps(1)] show ?case by blast
  qed
  then show ?thesis unfolding mem_ok_def charged_def add_0_right by (elim conjE, intro conjI)
qed

theorem memory_gate_holds_witness:
  "sp_inFlight pd_admitted = 1 \<and> sp_inFlightBytes pd_admitted = sum_mset (image_mset (\<lambda>i. ca_Size (candidates pd_env ! i)) {#0#}) \<and>
   (sp_inFlight pd_admitted \<le> 1 \<or> sp_inFlightBytes pd_admitted \<le> 1000)"
proof -
  have "(pass_step pd_env (traced pd_port))\<^sup>*\<^sup>* (start_pass pd_env demo_buffer zero_report zero_source_outcome 3 ([], ())) pd_admitted"
    using pd_admit by (auto simp: pd_start_def)
  moreover have "\<forall>c \<in> set (candidates pd_env). 0 \<le> ca_Size c" by (simp add: pd_cand_def)
  ultimately have "sp_inFlight pd_admitted \<le> 1 \<or> sp_inFlightBytes pd_admitted \<le> op_MaxInFlightBytes (pe_o pd_env)"
    by (rule memory_gate_holds [THEN conjunct1])
  then show ?thesis by (simp add: pd_admitted_def pd_cand_def)
qed

end
