(* ===== verification/Path_Expansion.thy ===== *)
theory Path_Expansion
  imports Naming
begin

text \<open>
  How a root of the catalog becomes a directory of this machine, \<^verbatim>\<open>src/internal/sources/pathexp.go\<close>:
  variables, then a leading tilde, then the requirement that the result be absolute, and its
  lexical cleaning. The deny list is applied to what this returns, so the shape of the
  result is what the denial rests on. \<^verbatim>\<open>os.Expand\<close> of the standard library is modelled as it is
  written; paths are Unix paths, where \<^verbatim>\<open>filepath.Clean\<close> is \<^verbatim>\<open>path.Clean\<close>.
\<close>

section \<open>os.Expand\<close>

definition isShellSpecialVar :: "char \<Rightarrow> bool" where
  "isShellSpecialVar c \<longleftrightarrow> c \<in> set ''*#$@!?-0123456789''"

definition isAlphaNum :: "char \<Rightarrow> bool" where
  "isAlphaNum c \<longleftrightarrow> c = CHR ''_'' \<or> is_digit c \<or> is_lower c \<or> is_upper c"

text \<open>The name that begins at \<open>s\<close>, and how many bytes it takes. \<open>s\<close> is never empty at the call.\<close>

definition braced_name :: "string \<Rightarrow> string \<times> nat" where
  "braced_name s =
     (let body = takeWhile (\<lambda>c. c \<noteq> CHR ''}'') (tl s)
      in if length s > 2 \<and> isShellSpecialVar (s ! 1) \<and> s ! 2 = CHR ''}'' then ([s ! 1], 3)
         else if CHR ''}'' \<in> set (tl s) then (if body = [] then ([], 2) else (body, length body + 2))
         else ([], 1))"

definition getShellName :: "string \<Rightarrow> string \<times> nat" where
  "getShellName s =
     (if hd s = CHR ''{'' then braced_name s
      else if isShellSpecialVar (hd s) then ([hd s], 1)
      else (takeWhile isAlphaNum s, length (takeWhile isAlphaNum s)))"

datatype expand_part = Lit string | Var string

function expand_parts :: "string \<Rightarrow> expand_part list" where
  "expand_parts [] = []"
| "expand_parts (c # rest) =
     (if c = CHR ''$'' \<and> rest \<noteq> []
      then (case getShellName rest of
              (name, w) \<Rightarrow> (if name = [] \<and> w > 0 then [] else if name = [] then [Lit [c]] else [Var name])
                             @ expand_parts (drop w rest))
      else Lit [c] # expand_parts rest)"
  by pat_completeness auto
termination by (relation "measure length") auto

definition os_Expand :: "string \<Rightarrow> (string \<Rightarrow> string) \<Rightarrow> string" where
  "os_Expand s mapping = concat (map (\<lambda>p. case p of Lit t \<Rightarrow> t | Var n \<Rightarrow> mapping n) (expand_parts s))"

text \<open>The names it asks the mapping for, in order.\<close>

definition expand_names :: "string \<Rightarrow> string list" where
  "expand_names s = List.map_filter (\<lambda>p. case p of Lit _ \<Rightarrow> None | Var n \<Rightarrow> Some n) (expand_parts s)"

section \<open>Roots\<close>

record Env =
  ev_Home :: string
  ev_Lookup :: "string \<Rightarrow> string option"

text \<open>What a lookup answers when the name is not set is not used; the pair of the source is an option here.\<close>

definition env_value :: "Env \<Rightarrow> string \<Rightarrow> string" where
  "env_value e name = (case ev_Lookup e name of Some v \<Rightarrow> v | None \<Rightarrow> [])"

definition ErrUnsetVar :: "string \<Rightarrow> string \<Rightarrow> goerr" where
  "ErrUnsetVar root v = new_error (''root '' @ quote root @ '' references unset variable '' @ v)"

text \<open>The error is the one of the last name without a value: each overwrites the one before.\<close>

definition expandVars :: "Env \<Rightarrow> string \<Rightarrow> string result" where
  "expandVars e s =
     (let unset = filter (\<lambda>n. env_value e n = []) (expand_names s)
      in if unset \<noteq> [] then Inl (ErrUnsetVar s (last unset)) else Inr (os_Expand s (env_value e)))"

definition ExpandHome :: "string \<Rightarrow> string \<Rightarrow> string" where
  "ExpandHome p home = (if prefix ''~'' p then home @ trim_prefix ''~'' p else p)"

definition IsAbs :: "string \<Rightarrow> bool" where
  "IsAbs p \<longleftrightarrow> prefix ''/'' p"

definition ExpandRoot :: "Env \<Rightarrow> string \<Rightarrow> string result" where
  "ExpandRoot e root =
     (if root = [] then Inl (new_error ''empty root'')
      else (case expandVars e root of
              Inl err \<Rightarrow> Inl err
            | Inr expanded \<Rightarrow>
                (let expanded = ExpandHome expanded (ev_Home e)
                 in if \<not> IsAbs expanded
                    then Inl (new_error (''root '' @ quote root @ '' expanded to '' @ quote expanded @
                           '', which is not absolute''))
                    else Inr (path_clean expanded))))"

text \<open>What \<^verbatim>\<open>os.Stat\<close> says of a path: nothing, or whether it is a directory.\<close>

fun FirstExistingFile :: "Env \<Rightarrow> (string \<Rightarrow> bool option) \<Rightarrow> string list \<Rightarrow> string" where
  "FirstExistingFile e stat [] = []"
| "FirstExistingFile e stat (cand # cands) =
     (case ExpandRoot e cand of
        Inl _ \<Rightarrow> FirstExistingFile e stat cands
      | Inr path \<Rightarrow> if stat path = Some False then path else FirstExistingFile e stat cands)"

section \<open>What cleaning leaves\<close>

definition clean_seg :: "string \<Rightarrow> bool" where
  "clean_seg s \<longleftrightarrow> s \<noteq> [] \<and> s \<noteq> ''.'' \<and> s \<noteq> ''..'' \<and> CHR ''/'' \<notin> set s"

lemma clean_step_keeps:
  "list_all clean_seg st \<Longrightarrow> CHR ''/'' \<notin> set seg \<Longrightarrow> list_all clean_seg (clean_step True st seg)"
  by (cases st) (auto simp: clean_seg_def)

lemma clean_fold_keeps:
  "list_all clean_seg st \<Longrightarrow> \<forall>s \<in> set segs. CHR ''/'' \<notin> set s \<Longrightarrow>
   list_all clean_seg (foldl (clean_step True) st segs)"
  by (induction segs arbitrary: st) (auto simp: clean_step_keeps simp del: clean_step.simps)

lemma clean_fold_id: "list_all clean_seg segs \<Longrightarrow> foldl (clean_step True) st segs = rev segs @ st"
  by (induction segs arbitrary: st) (auto simp: clean_seg_def)

lemma rooted_clean:
  assumes "prefix ''/'' p"
  obtains segs where "path_clean p = ''/'' @ join_with ''/'' segs" "list_all clean_seg segs"
proof -
  let ?st = "foldl (clean_step True) [] (split_on CHR ''/'' p)"
  have "list_all clean_seg ?st" by (rule clean_fold_keeps) (auto dest: split_on_no_sep)
  then show ?thesis using assms by (intro that [of "rev ?st"]) (simp_all add: path_clean_def Let_def list_all_iff)
qed

lemma split_clean:
  assumes "list_all clean_seg segs"
  shows "split_on CHR ''/'' (''/'' @ join_with ''/'' segs) = [] # (if segs = [] then [[]] else segs)"
  using assms split_on_join [of segs "CHR ''/''"] by (auto simp: list_all_iff clean_seg_def)

lemma clean_idem:
  assumes "list_all clean_seg segs"
  shows "path_clean (''/'' @ join_with ''/'' segs) = ''/'' @ join_with ''/'' segs"
proof -
  have "foldl (clean_step True) [] ([] # (if segs = [] then [[]] else segs)) = rev segs"
    using clean_fold_id [OF assms, of "[]"] by simp
  with split_clean [OF assms] show ?thesis by (simp add: path_clean_def Let_def del: foldl_Cons)
qed

text \<open>
  C30: What a root expands to is what the deny list can be trusted on. When expansion succeeds the
  result is absolute, no element of it is empty, a dot or a dot-dot, cleaning it again changes
  nothing, and every variable the root names had a value; so no reference to an unset variable
  and no relative or climbing path ever becomes a root.
\<close>

theorem expanded_root_is_clean:
  assumes "ExpandRoot e root = Inr p"
  shows "prefix ''/'' p \<and> path_clean p = p \<and>
    (p = ''/'' \<or> (\<forall>seg \<in> set (tl (split_on CHR ''/'' p)). seg \<noteq> [] \<and> seg \<noteq> ''.'' \<and> seg \<noteq> ''..'')) \<and>
    (\<forall>n \<in> set (expand_names root). ev_Lookup e n \<noteq> None \<and> ev_Lookup e n \<noteq> Some [])"
proof -
  obtain x where x: "expandVars e root = Inr x" "prefix ''/'' (ExpandHome x (ev_Home e))"
    "p = path_clean (ExpandHome x (ev_Home e))"
    using assms by (auto simp: ExpandRoot_def IsAbs_def Let_def split: if_splits sum.splits)
  obtain segs where segs: "p = ''/'' @ join_with ''/'' segs" "list_all clean_seg segs"
    using rooted_clean [OF x(2)] x(3) by metis
  have vars: "\<forall>n \<in> set (expand_names root). ev_Lookup e n \<noteq> None \<and> ev_Lookup e n \<noteq> Some []"
    using x(1) by (auto simp: expandVars_def env_value_def Let_def filter_empty_conv split: if_splits option.splits)
  have "p = ''/'' \<or> (\<forall>seg \<in> set (tl (split_on CHR ''/'' p)). seg \<noteq> [] \<and> seg \<noteq> ''.'' \<and> seg \<noteq> ''..'')"
    using split_clean [OF segs(2)] segs by (cases "segs = []") (auto simp: list_all_iff clean_seg_def)
  with vars clean_idem [OF segs(2)] segs(1) show ?thesis by simp
qed

definition demo_env :: Env where
  "demo_env = \<lparr>ev_Home = ''/home/u'', ev_Lookup = (\<lambda>n. if n = ''D'' then Some ''x/../y'' else None)\<rparr>"

lemma demo_expand: "ExpandRoot demo_env ''~/${D}/.'' = Inr ''/home/u/y''"
  by code_simp

lemma demo_names: "expand_names ''~/${D}/.'' = [''D'']"
  by code_simp

theorem expanded_root_is_clean_witness:
  "path_clean ''/home/u/y'' = ''/home/u/y'' \<and> ev_Lookup demo_env ''D'' \<noteq> None"
  using expanded_root_is_clean [OF demo_expand] by (simp add: demo_names)

end
