(* ===== verification/Enrichment.thy ===== *)
theory Enrichment
  imports Pool Path_Expansion
begin

text \<open>
  Enrichment, \<^verbatim>\<open>src/internal/engine/derived.go\<close> and the contract of \<^verbatim>\<open>src/internal/transforms/enrich.go\<close>:
  after a source's raw files are settled its enrichers derive objects from what was staged and
  from the agent's database, and those take the path a raw file takes. An enricher is a compiled
  hook behind an interface, so what it derives is a function value here as it is there.
\<close>

section \<open>The contract\<close>

datatype EnrichStatus = StatusOK | StatusSkipped | StatusMismatch | StatusError

fun status_string :: "EnrichStatus \<Rightarrow> string" where
  "status_string StatusOK = ''ok''"
| "status_string StatusSkipped = ''skipped''"
| "status_string StatusMismatch = ''mismatch''"
| "status_string StatusError = ''error''"

record Input =
  ip_Units :: "RawUnit list"
  ip_DBPath :: string
  ip_ScratchDir :: string

record Derived =
  dv_NativePath :: string
  dv_Payload :: string
  dv_DerivedFrom :: "string list"
  dv_OutputHash :: string
  dv_Status :: EnrichStatus
  dv_Mismatches :: int
  dv_Repeats :: int
  dv_Tail :: int
  dv_Ambiguous :: int
  dv_LineDecodeErrors :: int
  dv_DBReadMethod :: string
  dv_DBKeyspaces :: "string list"
  dv_DBRowsRead :: int

record EnrichResult =
  eo_EnricherID :: string
  eo_Version :: int
  eo_Objects :: "Derived list"
  eo_Skipped :: int
  eo_Mismatched :: int
  eo_Errors :: int
  eo_Notes :: "string list"
  eo_Infos :: "string list"

record Enricher =
  eh_ID :: string
  eh_Version :: int
  eh_DBCandidates :: "string list"
  eh_NeedsUnits :: bool
  eh_Enrich :: "Input \<Rightarrow> EnrichResult"

type_synonym enrichers = "(string, Enricher) gomap"

definition NewRegistry :: "Enricher list \<Rightarrow> enrichers" where
  "NewRegistry es = foldl (\<lambda>r e. map_put (eh_ID e) e r) [] es"

definition registry_For :: "enrichers \<Rightarrow> string \<Rightarrow> Enricher result" where
  "registry_For r i = (case map_get r i of
     None \<Rightarrow> Inl (new_error (''enrich: no enricher '' @ quote i @ '' in this build''))
   | Some e \<Rightarrow> Inr e)"

text \<open>What enrichment reads beside the options of the run. The registry may be absent.\<close>

record enrichEnv =
  ee_Enrichers :: "enrichers option"
  ee_Env :: Env
  ee_stat :: "string \<Rightarrow> bool option"

definition enrichersFor :: "enrichEnv \<Rightarrow> Resolved \<Rightarrow> Enricher list" where
  "enrichersFor ee src =
     (case ee_Enrichers ee of
        None \<Rightarrow> []
      | Some r \<Rightarrow>
          (let ids = sort (map fst (filter snd (src_Enrichers src)))
           in List.map_filter (\<lambda>i. case registry_For r i of Inl _ \<Rightarrow> None | Inr e \<Rightarrow> Some e) ids))"

section \<open>The compute leg of a derived object\<close>

definition derived_key :: "Resolved \<Rightarrow> Derived \<Rightarrow> Key" where
  "derived_key src d = Key (src_ID src) (dv_NativePath d)"

definition derived_start :: "Resolved \<Rightarrow> Derived \<Rightarrow> FileOutcome" where
  "derived_start src d = zero_outcome\<lparr>fo_SourceID := src_ID src, fo_NativePath := dv_NativePath d,
     fo_BytesIn := int (length (dv_Payload d)), fo_Derived := True\<rparr>"

definition derived_relPath :: "Resolved \<Rightarrow> Derived \<Rightarrow> string" where
  "derived_relPath src d =
     (let p = dv_NativePath d
      in if src_Root src \<noteq> [] \<and> prefix (src_Root src) p then trim_prefix ''/'' (trim_prefix (src_Root src) p) else p)"

definition derivedManifest ::
  "'id Options \<Rightarrow> gotime \<Rightarrow> Resolved \<Rightarrow> Enricher \<Rightarrow> string \<Rightarrow> Derived \<Rightarrow> Result \<Rightarrow> Manifest" where
  "derivedManifest opt now src e dbPath d res =
     (let m = (baseManifest opt now src (dv_NativePath d))
                \<lparr>mf_SourceHash := Hash (dv_Payload d), mf_ShapeSniff := sniff_string SniffOK, mf_Derived := True,
                 mf_Enricher := Some \<lparr>er_ID = eh_ID e, er_Version = eh_Version e\<rparr>,
                 mf_DerivedFrom := dv_DerivedFrom d, mf_EnrichStatus := status_string (dv_Status d),
                 mf_EnrichMismatches := dv_Mismatches d, mf_EnrichRepeats := dv_Repeats d,
                 mf_EnrichTail := dv_Tail d, mf_EnrichAmbiguous := dv_Ambiguous d,
                 mf_EnrichLineDecodeErrors := dv_LineDecodeErrors d,
                 mf_DBProvenance := Some \<lparr>db_DBPath = ApplyUserPlaceholder dbPath (op_user opt),
                    db_ReadMethod = dv_DBReadMethod d, db_Keyspaces = dv_DBKeyspaces d, db_RowsRead = dv_DBRowsRead d\<rparr>\<rparr>
      in if src_Scrub src \<noteq> Some False
         then m\<lparr>mf_Redaction := Some \<lparr>rs_Density = Density res, rs_RuleHits = re_RuleHits res, rs_ScanMode = []\<rparr>\<rparr>
         else m)"

definition prepareDerived ::
  "'id Options \<Rightarrow> gotime \<Rightarrow> commitBuffer \<Rightarrow> Resolved \<Rightarrow> Enricher \<Rightarrow> string \<Rightarrow> Derived \<Rightarrow> FileOutcome \<times> pendingPut option" where
  "prepareDerived opt now store src e dbPath d =
     (let fo = derived_start src d; key = derived_key src d;
          unchanged = (case cb_Get store key of
                         Some fp \<Rightarrow> fp_OutputHash fp = dv_OutputHash d \<and> fp_SourceHash fp \<noteq> [] | None \<Rightarrow> False)
      in if unchanged then (fo\<lparr>fo_Decision := DecisionUnchanged, fo_Reason := ''enricher output hash unchanged''\<rparr>, None)
         else case scrubSource src (dv_Payload d) True (op_scrub opt) of
           Inl err \<Rightarrow> (fo\<lparr>fo_Decision := DecisionFailed,
                         fo_Reason := ''scrub failed closed on derived payload: '' @ err_msg err\<rparr>, None)
         | Inr res \<Rightarrow>
             (case mirrorKey opt (src_ID src) (derived_relPath src d) of
                Inl err \<Rightarrow> (fo\<lparr>fo_Decision := DecisionFailed, fo_Reason := err_msg err\<rparr>, None)
              | Inr objectKey \<Rightarrow>
                  (let fo = fo\<lparr>fo_ObjectKey := objectKey\<rparr>
                   in case Seal (op_mc opt) (op_ly opt) (derivedManifest opt now src e dbPath d res) (re_Out res) (op_Recipients opt) of
                        Inl err \<Rightarrow> (fo\<lparr>fo_Decision := DecisionFailed, fo_Reason := err_msg err\<rparr>, None)
                      | Inr (obj, sealed) \<Rightarrow>
                          (let fo = fo\<lparr>fo_BytesOut := int (length obj)\<rparr>
                           in if op_DryRun opt
                              then (fo\<lparr>fo_Decision := DecisionShipped, fo_Reason := ''would ship derived object (preview)''\<rparr>, None)
                              else (fo, Some \<lparr>pp_key = key, pp_objectKey = objectKey, pp_obj = obj, pp_md = ObjectMetadata sealed,
                                     pp_next = zero_fp\<lparr>fp_SourceHash := Hash (dv_Payload d), fp_OutputHash := dv_OutputHash d,
                                       fp_Enricher := Some \<lparr>er_ID = eh_ID e, er_Version = eh_Version e\<rparr>\<rparr>\<rparr>)))))"

definition commitDerived ::
  "codec \<Rightarrow> FileOutcome \<Rightarrow> pendingPut \<Rightarrow> goerr option \<Rightarrow> commitBuffer \<Rightarrow> FileOutcome \<times> commitBuffer" where
  "commitDerived cd fo pending oc store =
     (let present = errors_is oc ErrAlreadyPresent
      in if oc \<noteq> None \<and> \<not> present
         then (fo\<lparr>fo_Decision := DecisionFailed, fo_Reason := (case oc of Some err \<Rightarrow> err_msg err | None \<Rightarrow> [])\<rparr>, store)
         else (case cb_Commit cd (pp_key pending) (pp_next pending) store of
                 (Some err, store) \<Rightarrow> (fo\<lparr>fo_Decision := DecisionFailed,
                    fo_Reason := ''derived upload succeeded but commit failed: '' @ err_msg err\<rparr>, store)
               | (None, store) \<Rightarrow>
                   (let fo = fo\<lparr>fo_Decision := DecisionShipped\<rparr>
                    in (if present then fo\<lparr>fo_Reason := alreadyPresentReason\<rparr> else fo, store))))"

section \<open>Shipping what an enricher derived\<close>

text \<open>What the closure of \<^verbatim>\<open>shipDerivedGroups\<close> captures.\<close>

record 'w derivedShip =
  ds_store :: commitBuffer
  ds_fos :: "FileOutcome list"
  ds_group :: batcher
  ds_shipped :: int
  ds_failed :: int
  ds_halted :: "goerr option"
  ds_world :: 'w

text \<open>The verdict of one member of a group.\<close>

definition settle_derived :: "codec \<Rightarrow> stagedUpload \<times> goerr option \<Rightarrow> 'w derivedShip \<Rightarrow> 'w derivedShip" where
  "settle_derived cd io st =
     (case io of (it, oc) \<Rightarrow>
      case commitDerived cd (fr_outcome (su_res it)) (su_pending it) oc (ds_store st) of (fo, store) \<Rightarrow>
        (let st = st\<lparr>ds_store := store, ds_fos := (ds_fos st)[fr_idx (su_res it) := fo]\<rparr>;
             st = (if fo_Decision fo = DecisionShipped then st\<lparr>ds_shipped := ds_shipped st + 1\<rparr> else st);
             st = (if fo_Decision fo = DecisionFailed \<and> (\<not> stopsRun oc \<or> ds_halted st = None)
                   then st\<lparr>ds_failed := ds_failed st + 1\<rparr> else st)
         in if stopsRun oc \<and> ds_halted st = None then st\<lparr>ds_halted := oc\<rparr> else st))"

definition send_derived :: "codec \<Rightarrow> 'w port \<Rightarrow> stagedUpload list \<Rightarrow> 'w derivedShip \<Rightarrow> 'w derivedShip" where
  "send_derived cd port items st =
     (case authorizeAndUpload port items (ds_world st) of
        (outcomes, w) \<Rightarrow> fold (settle_derived cd) (zip items outcomes) (st\<lparr>ds_world := w\<rparr>))"

definition not_attempted :: "Resolved \<Rightarrow> goerr \<Rightarrow> Derived \<Rightarrow> FileOutcome" where
  "not_attempted src halted d = (derived_start src d)\<lparr>fo_Decision := DecisionFailed,
     fo_Reason := ''not attempted: '' @ err_msg halted\<rparr>"

text \<open>One turn of the loop over the objects. The clock is read when an object's manifest is built.\<close>

definition ship_one ::
  "'id Options \<Rightarrow> codec \<Rightarrow> 'w port \<Rightarrow> (nat \<Rightarrow> gotime) \<Rightarrow> Resolved \<Rightarrow> Enricher \<Rightarrow> string \<Rightarrow> nat \<times> Derived \<Rightarrow>
   'w derivedShip \<Rightarrow> 'w derivedShip" where
  "ship_one opt cd port now src e dbPath x st =
     (case x of (i, d) \<Rightarrow>
      case ds_halted st of
        Some h \<Rightarrow> st\<lparr>ds_fos := (ds_fos st)[i := not_attempted src h d]\<rparr>
      | None \<Rightarrow>
          (case prepareDerived opt (now i) (ds_store st) src e dbPath d of
             (fo, None) \<Rightarrow>
               (let st = st\<lparr>ds_fos := (ds_fos st)[i := fo]\<rparr>
                in if fo_Decision fo = DecisionFailed then st\<lparr>ds_failed := ds_failed st + 1\<rparr> else st)
           | (fo, Some pending) \<Rightarrow>
               (let it = \<lparr>su_res = \<lparr>fr_idx = i, fr_outcome = fo, fr_intent = no_intent, fr_unit = None,
                                    fr_unavailable = False, fr_offline = False, fr_loadWarning = []\<rparr>,
                          su_pending = pending\<rparr>
                in case batcher_add it (int (length (pp_obj pending))) (ds_group st) of
                     (sent, b) \<Rightarrow> fold (send_derived cd port) sent (st\<lparr>ds_group := b\<rparr>))))"

definition ship_start :: "commitBuffer \<Rightarrow> nat \<Rightarrow> 'w \<Rightarrow> 'w derivedShip" where
  "ship_start store n w = \<lparr>ds_store = store, ds_fos = replicate n zero_outcome,
     ds_group = \<lparr>ba_maxObjects = maxBatchObjects, ba_items = [], ba_bytes = 0\<rparr>,
     ds_shipped = 0, ds_failed = 0, ds_halted = None, ds_world = w\<rparr>"

definition ship_flush :: "codec \<Rightarrow> 'w port \<Rightarrow> 'w derivedShip \<Rightarrow> 'w derivedShip" where
  "ship_flush cd port st =
     (case batcher_flush (ds_group st) of (sent, b) \<Rightarrow> fold (send_derived cd port) sent (st\<lparr>ds_group := b\<rparr>))"

definition shipDerivedGroups ::
  "'id Options \<Rightarrow> codec \<Rightarrow> 'w port \<Rightarrow> (nat \<Rightarrow> gotime) \<Rightarrow> Resolved \<Rightarrow> Enricher \<Rightarrow> string \<Rightarrow> Derived list \<Rightarrow>
   commitBuffer \<Rightarrow> 'w \<Rightarrow> 'w derivedShip" where
  "shipDerivedGroups opt cd port now src e dbPath objects store w =
     ship_flush cd port (fold (ship_one opt cd port now src e dbPath) (enumerate 0 objects)
       (ship_start store (length objects) w))"

section \<open>One enricher\<close>

definition note_entry :: "'id Options \<Rightarrow> Resolved \<Rightarrow> string \<Rightarrow> Entry" where
  "note_entry opt src note = zero_entry\<lparr>en_Decision := DecisionSkipped, en_SourceID := src_ID src,
     en_ConfigVersion := pn_ConfigVersion (op_Plan opt), en_Reason := ''enrich: '' @ note\<rparr>"

text \<open>The state of a run an enricher works on: the store, the source's outcome, the report, the log.\<close>

record 'w enrichState =
  es_store :: commitBuffer
  es_out :: SourceOutcome
  es_rep :: Report
  es_log :: "Entry list"
  es_world :: 'w

definition enrichSource ::
  "'id Options \<Rightarrow> codec \<Rightarrow> 'w port \<Rightarrow> enrichEnv \<Rightarrow> (nat \<Rightarrow> gotime) \<Rightarrow> Resolved \<Rightarrow> Enricher \<Rightarrow> RawUnit list \<Rightarrow>
   'w enrichState \<Rightarrow> goerr option \<times> 'w enrichState" where
  "enrichSource opt cd port ee now src e staged st =
     (let dbPath = FirstExistingFile (ee_Env ee) (ee_stat ee) (eh_DBCandidates e);
          res = eh_Enrich e \<lparr>ip_Units = staged, ip_DBPath = dbPath, ip_ScratchDir = pn_StateDir (op_Plan opt) @ ''/scratch''\<rparr>;
          out = es_out st;
          out = out\<lparr>so_EnricherID := eh_ID e, so_EnricherVersion := eh_Version e,
                    so_EnrichSkipped := so_EnrichSkipped out + eo_Skipped res,
                    so_EnrichMismatch := so_EnrichMismatch out + eo_Mismatched res,
                    so_EnrichErrors := so_EnrichErrors out + eo_Errors res,
                    so_EnrichNotes := so_EnrichNotes out @ eo_Notes res,
                    so_EnrichInfos := so_EnrichInfos out @ eo_Infos res\<rparr>;
          rep = (es_rep st)\<lparr>rp_EnrichMismatch := rp_EnrichMismatch (es_rep st) + eo_Mismatched res\<rparr>;
          log = (if op_Log opt then es_log st @ map (note_entry opt src) (eo_Notes res) else es_log st);
          ds = shipDerivedGroups opt cd port now src e dbPath (eo_Objects res) (es_store st) (es_world st);
          out = out\<lparr>so_Files := so_Files out @ ds_fos ds, so_Enriched := so_Enriched out + ds_shipped ds\<rparr>;
          rep = rep\<lparr>rp_Shipped := rp_Shipped rep + ds_shipped ds, rp_Failed := rp_Failed rep + ds_failed ds\<rparr>
      in case ds_halted ds of
           None \<Rightarrow> (None, \<lparr>es_store = ds_store ds, es_out = out, es_rep = rep, es_log = log, es_world = ds_world ds\<rparr>)
         | Some h \<Rightarrow>
             (let out = out\<lparr>so_Reason := ''uploads stopped: '' @ err_msg h\<rparr>;
                  log = (if op_Log opt
                         then log @ [zero_entry\<lparr>en_Decision := DecisionFailed, en_SourceID := src_ID src,
                                en_ConfigVersion := pn_ConfigVersion (op_Plan opt), en_Reason := so_Reason out\<rparr>]
                         else log)
              in (Some (h\<lparr>err_msg := ''enricher '' @ eh_ID e @ '' stopped: '' @ err_msg h\<rparr>),
                  \<lparr>es_store = ds_store ds, es_out = out, es_rep = rep, es_log = log, es_world = ds_world ds\<rparr>)))"

section \<open>What preparing yields\<close>

text \<open>The member of a group that stands for one of the objects.\<close>

definition stands_for :: "'id Options \<Rightarrow> Resolved \<Rightarrow> Derived list \<Rightarrow> stagedUpload \<Rightarrow> bool" where
  "stands_for opt src objs it \<longleftrightarrow> sidx it < length objs \<and> \<not> op_DryRun opt \<and> (let d = objs ! sidx it; q = su_pending it in
     pp_key q = derived_key src d \<and> mirrorKey opt (src_ID src) (derived_relPath src d) = Inr (pp_objectKey q) \<and>
     fp_SourceHash (pp_next q) = Hash (dv_Payload d) \<and> fp_OutputHash (pp_next q) = dv_OutputHash d \<and>
     fp_Attempts (pp_next q) = 0)"

lemma prepareDerived_pending:
  assumes "prepareDerived opt now store src e dbPath d = (fo, Some q)"
  obtains res sealed where "scrubSource src (dv_Payload d) True (op_scrub opt) = Inr res"
    "mirrorKey opt (src_ID src) (derived_relPath src d) = Inr (pp_objectKey q)"
    "Seal (op_mc opt) (op_ly opt) (derivedManifest opt now src e dbPath d res) (re_Out res) (op_Recipients opt) = Inr (pp_obj q, sealed)"
    "pp_md q = ObjectMetadata sealed" "pp_key q = derived_key src d" "\<not> op_DryRun opt"
    "pp_next q = zero_fp\<lparr>fp_SourceHash := Hash (dv_Payload d), fp_OutputHash := dv_OutputHash d,
       fp_Enricher := Some \<lparr>er_ID = eh_ID e, er_Version = eh_Version e\<rparr>\<rparr>"
    "\<not> (\<exists>fp. cb_Get store (derived_key src d) = Some fp \<and> fp_OutputHash fp = dv_OutputHash d \<and> fp_SourceHash fp \<noteq> [])"
proof -
  let ?u = "case cb_Get store (derived_key src d) of
              Some fp \<Rightarrow> fp_OutputHash fp = dv_OutputHash d \<and> fp_SourceHash fp \<noteq> [] | None \<Rightarrow> False"
  note pd = assms [unfolded prepareDerived_def Let_def]
  have u: "\<not> ?u" using pd by (auto split: if_splits)
  note pd = pd [unfolded if_not_P [OF u]]
  obtain res where res: "scrubSource src (dv_Payload d) True (op_scrub opt) = Inr res"
    using pd by (cases "scrubSource src (dv_Payload d) True (op_scrub opt)") auto
  note pd = pd [unfolded res sum.case]
  obtain key where key: "mirrorKey opt (src_ID src) (derived_relPath src d) = Inr key"
    using pd by (cases "mirrorKey opt (src_ID src) (derived_relPath src d)") auto
  note pd = pd [unfolded key sum.case]
  obtain x where seal: "Seal (op_mc opt) (op_ly opt) (derivedManifest opt now src e dbPath d res) (re_Out res) (op_Recipients opt) = Inr x"
    using pd by (cases "Seal (op_mc opt) (op_ly opt) (derivedManifest opt now src e dbPath d res) (re_Out res) (op_Recipients opt)") auto
  obtain obj sealed where x: "x = (obj, sealed)" by fastforce
  note pd = pd [unfolded seal x sum.case prod.case]
  from pd have "\<not> op_DryRun opt" "q = \<lparr>pp_key = derived_key src d, pp_objectKey = key, pp_obj = obj, pp_md = ObjectMetadata sealed,
     pp_next = zero_fp\<lparr>fp_SourceHash := Hash (dv_Payload d), fp_OutputHash := dv_OutputHash d,
       fp_Enricher := Some \<lparr>er_ID = eh_ID e, er_Version = eh_Version e\<rparr>\<rparr>\<rparr>"
    by (auto split: if_splits)
  with that [OF res] key seal x u show ?thesis by (auto split: option.splits)
qed

lemma prepareDerived_decided:
  assumes "prepareDerived opt now store src e dbPath d = (fo, None)"
  shows "fo_Decision fo \<noteq> DecisionNone" "\<not> op_DryRun opt \<Longrightarrow> fo_Decision fo \<noteq> DecisionShipped"
  using assms by (auto simp: prepareDerived_def Let_def split: if_splits sum.splits prod.splits option.splits)

text \<open>
  Derived objects fail closed too. An object an enricher derived waits for the network only if
  its payload passed the scrubber without error, or the source is declared unscrubbed, and what is
  sealed is that output, under the mirror key of its own path; its manifest is marked as derived.
\<close>

theorem derived_scrub_fails_closed:
  assumes "prepareDerived opt now store src e dbPath d = (fo, Some q)"
  shows "\<exists>res m sealed. (if src_Scrub src = Some False then re_Out res = Unscrubbed (dv_Payload d) ''source scrub: false''
       else \<exists>f. op_scrub opt = Inr f \<and> f (dv_Payload d) \<lparr>hi_Family = src_Family src, hi_JSONL = True\<rparr> = Inr res) \<and>
    Seal (op_mc opt) (op_ly opt) m (re_Out res) (op_Recipients opt) = Inr (pp_obj q, sealed) \<and> op_Recipients opt \<noteq> [] \<and>
    mf_Derived m \<and> mf_ShippedHash sealed = Hash (sc_b (re_Out res)) \<and> mf_SourceHash m = Hash (dv_Payload d) \<and>
    mirrorKey opt (src_ID src) (derived_relPath src d) = Inr (pp_objectKey q)"
proof -
  obtain res sealed where p: "scrubSource src (dv_Payload d) True (op_scrub opt) = Inr res"
    "mirrorKey opt (src_ID src) (derived_relPath src d) = Inr (pp_objectKey q)"
    "Seal (op_mc opt) (op_ly opt) (derivedManifest opt now src e dbPath d res) (re_Out res) (op_Recipients opt) = Inr (pp_obj q, sealed)"
    by (rule prepareDerived_pending [OF assms])
  have m: "mf_Derived (derivedManifest opt now src e dbPath d res)"
    "mf_SourceHash (derivedManifest opt now src e dbPath d res) = Hash (dv_Payload d)"
    by (simp_all add: derivedManifest_def Let_def)
  show ?thesis
    using p(2,3) m scrubSource_Inr [OF p(1)] Seal_guards [OF p(3)] by (intro exI conjI) auto
qed

section \<open>The loop over the objects\<close>

definition entry_ok :: "'id Options \<Rightarrow> Resolved \<Rightarrow> Derived list \<Rightarrow> (Key \<Rightarrow> Fingerprint option) \<Rightarrow> trace \<Rightarrow> Key \<Rightarrow> Fingerprint \<Rightarrow> bool" where
  "entry_ok opt src objs view0 calls k fp \<longleftrightarrow> view0 k = Some fp \<or>
     (\<exists>d \<in> set objs. \<exists>key. derived_key src d = k \<and> fp_SourceHash fp = Hash (dv_Payload d) \<and> fp_OutputHash fp = dv_OutputHash d \<and>
        mirrorKey opt (src_ID src) (derived_relPath src d) = Inr key \<and> confirmed_key calls key)"

lemma entry_ok_mono: "entry_ok opt src objs view0 calls k fp \<Longrightarrow> entry_ok opt src objs view0 (calls @ later) k fp"
  unfolding entry_ok_def using confirmed_key_mono by blast

definition tally :: "Decision \<Rightarrow> FileOutcome list \<Rightarrow> int" where
  "tally dec fos = int (length (filter (\<lambda>f. fo_Decision f = dec) fos))"

text \<open>
  After \<open>i\<close> objects, with \<open>held\<close> the members of groups on their way: the store holds nothing
  unconfirmed, every object before the \<open>i\<close>th is decided, held, or in the accumulator, and the
  counters are those of the outcomes.
\<close>

definition ship_inv :: "'id Options \<Rightarrow> Resolved \<Rightarrow> Derived list \<Rightarrow> (Key \<Rightarrow> Fingerprint option) \<Rightarrow> nat \<Rightarrow>
    stagedUpload list \<Rightarrow> (trace \<times> 'w) derivedShip \<Rightarrow> bool" where
  "ship_inv opt src objs view0 i held st \<longleftrightarrow>
     (cb_inv (ds_store st) \<and> (\<forall>k fp. cb_view (ds_store st) k = Some fp \<longrightarrow>
        entry_ok opt src objs view0 (fst (ds_world st)) k fp)) \<and>
     (\<forall>it \<in> set held \<union> set (ba_items (ds_group st)). stands_for opt src objs it \<and> sidx it < i) \<and>
     distinct (map sidx (held @ ba_items (ds_group st))) \<and> batcher_ok (ds_group st) \<and>
     (length (ds_fos st) = length objs \<and> (\<forall>j < length objs. fo_Decision (ds_fos st ! j) = DecisionNone \<longleftrightarrow>
        i \<le> j \<or> j \<in> sidx ` (set held \<union> set (ba_items (ds_group st))))) \<and>
     (\<not> op_DryRun opt \<longrightarrow> ds_shipped st = tally DecisionShipped (ds_fos st)) \<and>
     (ds_failed st \<le> tally DecisionFailed (ds_fos st) \<and> (ds_halted st = None \<longrightarrow> ds_failed st = tally DecisionFailed (ds_fos st)))"

lemma tally_update:
  assumes "j < length fos" "fo_Decision (fos ! j) \<noteq> dec"
  shows "tally dec (fos[j := f]) = tally dec fos + (if fo_Decision f = dec then 1 else 0)"
  using assms
proof (induction fos arbitrary: j)
  case (Cons x xs)
  then show ?case by (cases j) (auto simp: tally_def)
qed simp

lemma commitDerived_spec:
  assumes "commitDerived cd fo q oc store = (fo', store')" "cb_inv store" "ID (pp_key q) \<noteq> []" "0 \<le> fp_Attempts (pp_next q)"
  shows "(fo_Decision fo' = DecisionShipped \<or> fo_Decision fo' = DecisionFailed) \<and> cb_inv store' \<and>
    cb_view store' = (if confirmed oc then (cb_view store)(pp_key q \<mapsto> pp_next q) else cb_view store) \<and>
    (fo_Decision fo' = DecisionShipped \<longrightarrow> confirmed oc) \<and> (stopsRun oc \<and> \<not> confirmed oc \<longrightarrow> fo_Decision fo' = DecisionFailed)"
proof (cases "confirmed oc")
  case True
  then have "\<not> (oc \<noteq> None \<and> \<not> errors_is oc ErrAlreadyPresent)" by (auto simp: confirmed_def)
  then have c: "store' = snd (cb_Commit cd (pp_key q) (pp_next q) store)"
    "fo_Decision fo' = DecisionShipped \<or> fo_Decision fo' = DecisionFailed"
    using assms(1) by (auto simp: commitDerived_def Let_def split: prod.splits option.splits if_splits)
  with True cb.ok_commit [OF assms(2-4)] cb.view_commit [OF assms(2-4)] show ?thesis by metis
next
  case False
  with assms(1,2) show ?thesis by (auto simp: commitDerived_def confirmed_def Let_def split: if_splits option.splits)
qed

lemma settle_derived_inv:
  assumes inv: "ship_inv opt src objs view0 i (it # held) st"
    and conf: "confirmed oc \<longrightarrow> confirmed_key (fst (ds_world st)) (pp_objectKey (su_pending it))"
    and paths: "\<forall>d \<in> set objs. dv_NativePath d \<noteq> []"
  shows "ship_inv opt src objs view0 i held (settle_derived cd (it, oc) st) \<and>
    ds_world (settle_derived cd (it, oc) st) = ds_world st"
proof -
  let ?j = "sidx it" let ?q = "su_pending it" let ?d = "objs ! ?j"
  have sf: "stands_for opt src objs it" and j: "?j < length objs" using inv by (auto simp: ship_inv_def stands_for_def)
  have d: "?d \<in> set objs" using j by simp
  obtain fo store where c: "commitDerived cd (fr_outcome (su_res it)) ?q oc (ds_store st) = (fo, store)" by fastforce
  have idne: "ID (pp_key ?q) \<noteq> []" "0 \<le> fp_Attempts (pp_next ?q)"
    using sf paths d by (auto simp: stands_for_def derived_key_def Let_def)
  note cs = commitDerived_spec [OF c _ idne]
  have inv0: "cb_inv (ds_store st)" using inv by (simp add: ship_inv_def)
  note cs = cs [OF inv0]
  let ?s = "settle_derived cd (it, oc) st"
  have s: "ds_store ?s = store" "ds_fos ?s = (ds_fos st)[?j := fo]" "ds_group ?s = ds_group st" "ds_world ?s = ds_world st"
    "ds_shipped ?s = ds_shipped st + (if fo_Decision fo = DecisionShipped then 1 else 0)"
    "ds_failed ?s = ds_failed st + (if fo_Decision fo = DecisionFailed \<and> (\<not> stopsRun oc \<or> ds_halted st = None) then 1 else 0)"
    "ds_halted ?s = None \<longrightarrow> ds_halted st = None \<and> \<not> stopsRun oc"
    by (auto simp: settle_derived_def c sidx_def Let_def stopsRun_def)
  have none: "fo_Decision (ds_fos st ! ?j) = DecisionNone" and len: "length (ds_fos st) = length objs"
    using inv j by (auto simp: ship_inv_def)
  have dec: "fo_Decision fo \<noteq> DecisionNone" using cs by auto
  have out: "?j \<notin> sidx ` (set held \<union> set (ba_items (ds_group st)))" "?j < i"
    using inv by (auto simp: ship_inv_def)
  have views: "entry_ok opt src objs view0 (fst (ds_world st)) k fp" if v: "cb_view store k = Some fp" for k fp
  proof (cases "confirmed oc \<and> k = pp_key ?q")
    case True
    then have "fp = pp_next ?q" using v cs by auto
    moreover have "confirmed_key (fst (ds_world st)) (pp_objectKey ?q)" using conf True by blast
    ultimately show ?thesis unfolding entry_ok_def
      using sf True d by (intro disjI2 bexI [of _ ?d] exI [of _ "pp_objectKey ?q"]) (auto simp: stands_for_def Let_def)
  next
    case False
    then have "cb_view (ds_store st) k = Some fp" using v cs by (auto split: if_splits)
    with inv show ?thesis by (simp add: ship_inv_def)
  qed
  have "fo_Decision ((ds_fos st)[?j := fo] ! m) = DecisionNone \<longleftrightarrow> i \<le> m \<or> m \<in> sidx ` (set held \<union> set (ba_items (ds_group st)))"
    if m: "m < length objs" for m
    using inv out dec len m by (cases "m = ?j") (auto simp: ship_inv_def)
  moreover have "tally DecisionShipped ((ds_fos st)[?j := fo]) = tally DecisionShipped (ds_fos st) + (if fo_Decision fo = DecisionShipped then 1 else 0)"
    "tally DecisionFailed ((ds_fos st)[?j := fo]) = tally DecisionFailed (ds_fos st) + (if fo_Decision fo = DecisionFailed then 1 else 0)"
    using none j len by (simp_all add: tally_update)
  ultimately show ?thesis using inv cs views s unfolding ship_inv_def by auto
qed

lemma fold_settle_derived_inv:
  assumes "ship_inv opt src objs view0 i (map fst ios @ held) st"
    and "\<forall>(it, oc) \<in> set ios. confirmed oc \<longrightarrow> confirmed_key (fst (ds_world st)) (pp_objectKey (su_pending it))"
    and "\<forall>d \<in> set objs. dv_NativePath d \<noteq> []"
  shows "ship_inv opt src objs view0 i held (fold (settle_derived cd) ios st) \<and>
    ds_world (fold (settle_derived cd) ios st) = ds_world st"
  using assms(1,2)
proof (induction ios arbitrary: st)
  case (Cons io ios)
  obtain it oc where io: "io = (it, oc)" by fastforce
  from Cons.prems io have inv: "ship_inv opt src objs view0 i (it # map fst ios @ held) st"
    and conf: "confirmed oc \<longrightarrow> confirmed_key (fst (ds_world st)) (pp_objectKey (su_pending it))" by auto
  note s = settle_derived_inv [OF inv conf assms(3), of cd]
  from Cons.IH [of "settle_derived cd (it, oc) st"] s Cons.prems(2) io show ?case by simp
qed simp

lemma answered_confirmed:
  assumes "c \<in> set calls" "answered c it oc" "confirmed oc"
  shows "confirmed_key calls (pp_objectKey (su_pending it))"
  using assms unfolding answered_def confirmed_key_def by (fastforce split: prod.splits)

lemma send_derived_inv:
  assumes inv: "ship_inv opt src objs view0 i (g @ held) st" and paths: "\<forall>d \<in> set objs. dv_NativePath d \<noteq> []"
  shows "ship_inv opt src objs view0 i held (send_derived cd (traced port) g st)"
proof -
  obtain tr w where tw: "ds_world st = (tr, w)" by fastforce
  obtain oc tr' w' where a: "authorizeAndUpload (traced port) g (tr, w) = (oc, (tr', w'))" by (metis prod.exhaust)
  from authorize_spec [OF a] obtain calls where len: "length oc = length g" and tr': "tr' = tr @ calls"
    and conf: "\<And>j. j < length g \<Longrightarrow> confirmed (oc ! j) \<Longrightarrow> \<exists>c \<in> set calls. answered c (g ! j) (oc ! j)" by blast
  let ?st = "st\<lparr>ds_world := (tr', w')\<rparr>"
  have "ship_inv opt src objs view0 i (g @ held) ?st"
    using inv entry_ok_mono unfolding ship_inv_def tw tr' by fastforce
  then have "ship_inv opt src objs view0 i (map fst (zip g oc) @ held) ?st" using len by simp
  moreover have "\<forall>(it, oc) \<in> set (zip g oc). confirmed oc \<longrightarrow> confirmed_key (fst (ds_world ?st)) (pp_objectKey (su_pending it))"
  proof (clarify)
    fix it x assume "(it, x) \<in> set (zip g oc)" "confirmed x"
    then obtain j where "j < length g" "g ! j = it" "oc ! j = x" using len by (auto simp: set_zip)
    with conf [of j] \<open>confirmed x\<close> obtain c where "c \<in> set calls" "answered c it x" by auto
    then have "confirmed_key (tr @ calls) (pp_objectKey (su_pending it))"
      by (intro answered_confirmed [of c]) (use \<open>confirmed x\<close> in auto)
    then show "confirmed_key (fst (ds_world ?st)) (pp_objectKey (su_pending it))" by (simp add: tr')
  qed
  ultimately show ?thesis
    using fold_settle_derived_inv [OF _ _ paths, of opt src view0 i "zip g oc" held ?st cd]
    by (simp add: send_derived_def tw a)
qed

lemma fold_send_derived_inv:
  assumes "ship_inv opt src objs view0 i (concat gs) st" "\<forall>d \<in> set objs. dv_NativePath d \<noteq> []"
  shows "ship_inv opt src objs view0 i [] (fold (send_derived cd (traced port)) gs st)"
  using assms(1)
proof (induction gs arbitrary: st)
  case (Cons g gs)
  then show ?case using send_derived_inv [OF _ assms(2), of opt src view0 i g "concat gs" st cd port] by simp
qed simp

text \<open>The accumulator takes one more object, some of which leave it in groups.\<close>

lemma ship_inv_group:
  assumes "ship_inv opt src objs view0 i [] st" "batcher_ok b"
    and "\<forall>it \<in> set held \<union> set (ba_items b). stands_for opt src objs it \<and> sidx it < i'"
    and "distinct (map sidx (held @ ba_items b))"
    and "\<forall>j < length objs. fo_Decision (ds_fos st ! j) = DecisionNone \<longleftrightarrow> i' \<le> j \<or> j \<in> sidx ` (set held \<union> set (ba_items b))"
  shows "ship_inv opt src objs view0 i' held (st\<lparr>ds_group := b\<rparr>)"
proof -
  from assms(1) have s: "cb_inv (ds_store st) \<and> (\<forall>k fp. cb_view (ds_store st) k = Some fp \<longrightarrow>
        entry_ok opt src objs view0 (fst (ds_world st)) k fp)" "length (ds_fos st) = length objs"
    "\<not> op_DryRun opt \<longrightarrow> ds_shipped st = tally DecisionShipped (ds_fos st)"
    "ds_failed st \<le> tally DecisionFailed (ds_fos st) \<and> (ds_halted st = None \<longrightarrow> ds_failed st = tally DecisionFailed (ds_fos st))"
    unfolding ship_inv_def by blast+
  show ?thesis unfolding ship_inv_def by (intro conjI) (use s assms(2-5) in simp_all)
qed

lemma ship_one_inv:
  assumes inv: "ship_inv opt src objs view0 i [] st" and i: "i < length objs" and paths: "\<forall>d \<in> set objs. dv_NativePath d \<noteq> []"
  shows "ship_inv opt src objs view0 (Suc i) [] (ship_one opt cd (traced port) now src e dbPath (i, objs ! i) st)"
proof -
  have none: "fo_Decision (ds_fos st ! i) = DecisionNone" and len: "length (ds_fos st) = length objs"
    using inv i by (auto simp: ship_inv_def)
  have out: "i \<notin> sidx ` set (ba_items (ds_group st))" using inv by (auto simp: ship_inv_def)
  have put: "ship_inv opt src objs view0 (Suc i) [] (st\<lparr>ds_fos := (ds_fos st)[i := fo], ds_failed := n\<rparr>)"
    if dec: "fo_Decision fo \<noteq> DecisionNone" "\<not> op_DryRun opt \<longrightarrow> fo_Decision fo \<noteq> DecisionShipped"
      and n: "n = ds_failed st + (if fo_Decision fo = DecisionFailed \<and> ds_halted st = None then 1 else 0)" for fo n
  proof -
    have "fo_Decision ((ds_fos st)[i := fo] ! m) = DecisionNone \<longleftrightarrow> Suc i \<le> m \<or> m \<in> sidx ` set (ba_items (ds_group st))"
      if "m < length objs" for m
      using inv out dec len that by (cases "m = i") (auto simp: ship_inv_def)
    moreover have "tally DecisionFailed ((ds_fos st)[i := fo]) = tally DecisionFailed (ds_fos st) + (if fo_Decision fo = DecisionFailed then 1 else 0)"
      "\<not> op_DryRun opt \<Longrightarrow> tally DecisionShipped ((ds_fos st)[i := fo]) = tally DecisionShipped (ds_fos st)"
      using none i len dec by (simp_all add: tally_update)
    ultimately show ?thesis using inv n unfolding ship_inv_def by auto
  qed
  show ?thesis
  proof (cases "ds_halted st")
    case (Some h)
    with put [of "not_attempted src h (objs ! i)" "ds_failed st"] show ?thesis
      by (simp add: ship_one_def not_attempted_def)
  next
    case None
    obtain fo pending where p: "prepareDerived opt (now i) (ds_store st) src e dbPath (objs ! i) = (fo, pending)" by fastforce
    show ?thesis
    proof (cases pending)
      case None': None
      note d = prepareDerived_decided [OF p [unfolded None']]
      with put [of fo "ds_failed st + (if fo_Decision fo = DecisionFailed then 1 else 0)"] None p None'
      show ?thesis by (auto simp: ship_one_def Let_def split: if_splits)
    next
      case (Some q)
      let ?it = "\<lparr>su_res = \<lparr>fr_idx = i, fr_outcome = fo, fr_intent = no_intent, fr_unit = None,
          fr_unavailable = False, fr_offline = False, fr_loadWarning = []\<rparr>, su_pending = q\<rparr>"
      have "pp_key q = derived_key src (objs ! i) \<and> \<not> op_DryRun opt \<and>
          mirrorKey opt (src_ID src) (derived_relPath src (objs ! i)) = Inr (pp_objectKey q) \<and>
          pp_next q = zero_fp\<lparr>fp_SourceHash := Hash (dv_Payload (objs ! i)), fp_OutputHash := dv_OutputHash (objs ! i),
            fp_Enricher := Some \<lparr>er_ID = eh_ID e, er_Version = eh_Version e\<rparr>\<rparr>"
        by (rule prepareDerived_pending [OF p [unfolded Some]]) blast
      with i have sf: "stands_for opt src objs ?it"
        by (simp add: stands_for_def sidx_def zero_fp_def Let_def)
      obtain sent b where ba: "batcher_add ?it (obj_size ?it) (ds_group st) = (sent, b)" by fastforce
      have bo: "batcher_ok (ds_group st)" using inv by (simp add: ship_inv_def)
      note ok = batcher_add_ok [OF bo ba]
      then have cat: "concat sent @ ba_items b = ba_items (ds_group st) @ [?it]" by simp
      have set: "set (concat sent) \<union> set (ba_items b) = insert ?it (set (ba_items (ds_group st)))"
        using arg_cong [OF cat, of set] by (simp only: set_append list.set Un_insert_right Un_empty_right)
      have si: "sidx ?it = i" by (simp add: sidx_def)
      have members: "\<forall>x \<in> insert ?it (set (ba_items (ds_group st))). stands_for opt src objs x \<and> sidx x < Suc i"
        using inv sf si by (auto simp: ship_inv_def less_Suc_eq)
      have dist: "distinct (map sidx (concat sent @ ba_items b))"
        unfolding cat using inv out si by (simp add: ship_inv_def)
      have old: "\<forall>j < length objs. fo_Decision (ds_fos st ! j) = DecisionNone \<longleftrightarrow>
          i \<le> j \<or> j \<in> sidx ` set (ba_items (ds_group st))"
        using inv unfolding ship_inv_def by simp
      have fos: "\<forall>j < length objs. fo_Decision (ds_fos st ! j) = DecisionNone \<longleftrightarrow>
          Suc i \<le> j \<or> j \<in> sidx ` insert ?it (set (ba_items (ds_group st)))"
        unfolding image_insert si using old by (auto simp: Suc_le_eq order.order_iff_strict)
      have "ship_inv opt src objs view0 (Suc i) (concat sent) (st\<lparr>ds_group := b\<rparr>)"
        by (rule ship_inv_group [OF inv]) (use ok members dist fos set in \<open>simp_all only: simp_thms\<close>)
      from fold_send_derived_inv [OF this paths] None p Some ba
      show ?thesis by (simp add: ship_one_def obj_size_def)
    qed
  qed
qed

lemma fold_ship_one_inv:
  assumes "ship_inv opt src objs view0 i [] st" "i + length ds = length objs" "drop i objs = ds" "\<forall>d \<in> set objs. dv_NativePath d \<noteq> []"
  shows "ship_inv opt src objs view0 (length objs) [] (fold (ship_one opt cd (traced port) now src e dbPath) (enumerate i ds) st)"
  using assms(1-3)
proof (induction ds arbitrary: i st)
  case (Cons d ds)
  then have i: "i < length objs" "objs ! i = d" "drop (Suc i) objs = ds"
    by (auto simp: nth_via_drop drop_Suc drop_tl)
  from ship_one_inv [OF Cons.prems(1) i(1) assms(4), of cd port now e dbPath] i(2)
    Cons.IH [OF _ _ i(3), of "ship_one opt cd (traced port) now src e dbPath (i, d) st"] Cons.prems(2)
  show ?case by simp
qed simp

lemma ship_derived_inv:
  fixes tw :: "trace \<times> 'w"
  assumes "cb_inv store" "\<forall>d \<in> set objs. dv_NativePath d \<noteq> []"
  shows "ship_inv opt src objs (cb_view store) (length objs) []
     (shipDerivedGroups opt cd (traced port) now src e dbPath objs store tw) \<and>
    ba_items (ds_group (shipDerivedGroups opt cd (traced port) now src e dbPath objs store tw)) = []"
proof -
  let ?s0 = "ship_start store (length objs) tw :: (trace \<times> 'w) derivedShip"
  have "ship_inv opt src objs (cb_view store) 0 [] ?s0"
    using assms(1) by (auto simp: ship_inv_def ship_start_def entry_ok_def batcher_ok_def maxBatchObjects_def
        maxBatchBytes_def tally_def zero_outcome_def)
  then have inv: "ship_inv opt src objs (cb_view store) (length objs) []
      (fold (ship_one opt cd (traced port) now src e dbPath) (enumerate 0 objs) ?s0)" (is "ship_inv _ _ _ _ _ _ ?s")
    by (rule fold_ship_one_inv) (use assms(2) in auto)
  let ?b = "(ds_group ?s)\<lparr>ba_items := [], ba_bytes := 0\<rparr>"
  let ?sent = "if ba_items (ds_group ?s) = [] then [] else [ba_items (ds_group ?s)]"
  have "concat ?sent = ba_items (ds_group ?s)" by simp
  then have inv2: "ship_inv opt src objs (cb_view store) (length objs) (concat ?sent) (?s\<lparr>ds_group := ?b\<rparr>)"
    using inv unfolding ship_inv_def by (auto simp: batcher_ok_def maxBatchBytes_def)
  have grp: "ds_group (fold (send_derived cd port') gs st) = ds_group st" for gs port' and st :: "(trace \<times> 'w) derivedShip"
  proof (induction gs arbitrary: st)
    case (Cons g gs)
    have "ds_group (fold (settle_derived cd) ios st) = ds_group st" for ios and st :: "(trace \<times> 'w) derivedShip"
      by (induction ios arbitrary: st) (auto simp: settle_derived_def Let_def split: prod.split)
    with Cons show ?case by (simp add: send_derived_def split: prod.split)
  qed simp
  have "shipDerivedGroups opt cd (traced port) now src e dbPath objs store tw
      = fold (send_derived cd (traced port)) ?sent (?s\<lparr>ds_group := ?b\<rparr>)"
    by (simp add: shipDerivedGroups_def ship_flush_def batcher_flush_spec)
  with fold_send_derived_inv [OF inv2 assms(2)] grp show ?thesis by simp
qed

text \<open>
  C26: What an enricher derived is accounted for, whole. However its objects fall into groups and
  whatever the port answers, every object gets exactly one outcome, at its own index and with a
  decision; outside a preview the number counted as shipped is the number of outcomes that say so,
  and the number counted as failed is at most the failures, and all of them unless uploads were
  stopped. And a fingerprint the store holds afterwards is one it held before or that of one of
  these objects whose own key the port confirmed.
\<close>

theorem derived_accounted_and_confirmed:
  fixes w :: 'w
  assumes "cb_inv store" "\<forall>d \<in> set objs. dv_NativePath d \<noteq> []"
    and "r = shipDerivedGroups opt cd (traced port) now src e dbPath objs store ([], w)"
  shows "length (ds_fos r) = length objs \<and> (\<forall>f \<in> set (ds_fos r). fo_Decision f \<noteq> DecisionNone) \<and>
    (\<not> op_DryRun opt \<longrightarrow> ds_shipped r = tally DecisionShipped (ds_fos r)) \<and>
    ds_failed r \<le> tally DecisionFailed (ds_fos r) \<and> (ds_halted r = None \<longrightarrow> ds_failed r = tally DecisionFailed (ds_fos r)) \<and>
    (\<forall>k fp. cb_view (ds_store r) k = Some fp \<longrightarrow> cb_view store k = Some fp \<or>
       (\<exists>d \<in> set objs. \<exists>key. derived_key src d = k \<and> fp_SourceHash fp = Hash (dv_Payload d) \<and>
          fp_OutputHash fp = dv_OutputHash d \<and> mirrorKey opt (src_ID src) (derived_relPath src d) = Inr key \<and>
          confirmed_key (fst (ds_world r)) key))"
proof -
  have inv: "ship_inv opt src objs (cb_view store) (length objs) [] r" "ba_items (ds_group r) = []"
    using ship_derived_inv [OF assms(1,2), of opt src cd port now e dbPath "([], w)"] assms(3) by simp_all
  then have "\<forall>f \<in> set (ds_fos r). fo_Decision f \<noteq> DecisionNone"
    by (auto simp: ship_inv_def in_set_conv_nth)
  with inv show ?thesis unfolding ship_inv_def entry_ok_def by (elim conjE, intro conjI) assumption+
qed

lemma preview_quiet:
  fixes cd port now src e dbPath objs store w
  assumes "op_DryRun opt"
  defines "r \<equiv> shipDerivedGroups opt cd port now src e dbPath objs store w"
  shows "ds_world r = w \<and> ds_store r = store \<and> ds_shipped r = 0 \<and> ds_halted r = None"
proof -
  let ?quiet = "\<lambda>st. ds_world st = w \<and> ds_store st = store \<and> ds_shipped st = 0 \<and> ds_halted st = None \<and> ba_items (ds_group st) = []"
  have "snd (prepareDerived opt t s src e dbPath d) = None" for t s d
  proof (rule ccontr)
    assume "snd (prepareDerived opt t s src e dbPath d) \<noteq> None"
    then obtain fo q where "prepareDerived opt t s src e dbPath d = (fo, Some q)" by (cases "prepareDerived opt t s src e dbPath d") auto
    then show False by (rule prepareDerived_pending) (use assms(1) in blast)
  qed
  then have prep: "\<exists>fo. prepareDerived opt t s src e dbPath d = (fo, None)" for t s d by (metis prod.collapse)
  have one: "?quiet (ship_one opt cd port now src e dbPath (i, d) st)" if q: "?quiet st" for i d st
  proof -
    obtain fo where "prepareDerived opt (now i) (ds_store st) src e dbPath d = (fo, None)" using prep by blast
    with q show ?thesis by (simp add: ship_one_def Let_def)
  qed
  have "?quiet st \<Longrightarrow> ?quiet (fold (ship_one opt cd port now src e dbPath) ids st)" for ids st
    by (induction ids arbitrary: st) (use one in auto)
  then have "?quiet (fold (ship_one opt cd port now src e dbPath) (enumerate 0 objs) (ship_start store (length objs) w))"
    by (simp add: ship_start_def)
  then show ?thesis by (simp add: r_def shipDerivedGroups_def ship_flush_def batcher_flush_spec)
qed

section \<open>One derived object\<close>

definition pd_derived :: Derived where
  "pd_derived = \<lparr>dv_NativePath = ''/r/a.enriched.jsonl'', dv_Payload = ''hello'', dv_DerivedFrom = [], dv_OutputHash = ''h1'',
     dv_Status = StatusOK, dv_Mismatches = 0, dv_Repeats = 0, dv_Tail = 0, dv_Ambiguous = 0, dv_LineDecodeErrors = 0,
     dv_DBReadMethod = ''sqlite'', dv_DBKeyspaces = [], dv_DBRowsRead = 1\<rparr>"

definition pd_enricher :: Enricher where
  "pd_enricher = \<lparr>eh_ID = ''join'', eh_Version = 1, eh_DBCandidates = [], eh_NeedsUnits = True,
     eh_Enrich = (\<lambda>i. \<lparr>eo_EnricherID = ''join'', eo_Version = 1, eo_Objects = [pd_derived], eo_Skipped = 0,
        eo_Mismatched = 0, eo_Errors = 0, eo_Notes = [], eo_Infos = []\<rparr>)\<rparr>"

lemma pd_prepared:
  "\<exists>fo q. prepareDerived pd_opt 0 demo_buffer pd_src pd_enricher [] pd_derived = (fo, Some q)"
proof -
  have g: "cb_Get demo_buffer (derived_key pd_src pd_derived) = None"
    by (simp add: cb_Get_def demo_buffer_def newCommitBuffer_def store_Get_def demo_store_def derived_key_def
        pd_derived_def map_get_def)
  have s: "scrubSource pd_src ''hello'' j (op_scrub pd_opt) = Inr \<lparr>re_Out = \<lparr>sc_b = ''hello'', sc_via = ''scrubber''\<rparr>,
      re_BytesRedacted = 0, re_BytesTotal = 5, re_RuleHits = [], re_ScanMode = ''text'', re_LinesParsed = 0, re_LinesRawScanned = 0\<rparr>" for j
    by (simp add: scrubSource_def pd_opt_def)
  obtain k where k: "mirrorKey pd_opt ''codex'' (derived_relPath pd_src pd_derived) = Inr k"
    unfolding mirrorKey_def using MirrorKey_Inr_iff
    by (simp add: NameKeySize_def ident_start_def ident_char_def is_lower_def is_digit_def is_upper_def)
  have m: "mf_SealedAt (derivedManifest pd_opt 0 pd_src pd_enricher [] pd_derived res) \<noteq> []" for res
    by (simp add: derivedManifest_def baseManifest_def Let_def)
  have p: "dv_Payload pd_derived = ''hello''" by (simp add: pd_derived_def)
  show ?thesis by (simp add: prepareDerived_def Let_def g s k p pd_seal m)
qed

theorem derived_scrub_fails_closed_witness:
  "\<exists>fo q m sealed res. prepareDerived pd_opt 0 demo_buffer pd_src pd_enricher [] pd_derived = (fo, Some q) \<and> mf_Derived m \<and>
     Seal (op_mc pd_opt) (op_ly pd_opt) m (re_Out (res :: Result)) [demo_recipient] = Inr (pp_obj q, sealed)"
proof -
  obtain fo q where p: "prepareDerived pd_opt 0 demo_buffer pd_src pd_enricher [] pd_derived = (fo, Some q)"
    using pd_prepared by blast
  from p derived_scrub_fails_closed [OF p, unfolded pd_fields(2)] show ?thesis by blast
qed

theorem derived_accounted_and_confirmed_witness:
  "length (ds_fos (shipDerivedGroups pd_opt demo_codec (traced pd_port) (\<lambda>_. 0) pd_src pd_enricher [] [pd_derived, pd_derived]
     demo_buffer ([], ()))) = 2"
proof -
  have "\<forall>d \<in> set [pd_derived, pd_derived]. dv_NativePath d \<noteq> []" by (simp add: pd_derived_def)
  from derived_accounted_and_confirmed [OF demo_buffer_ok this refl, of pd_opt demo_codec pd_port "\<lambda>_. 0" pd_src pd_enricher "[]" "()"]
  show ?thesis by simp
qed

end
