(* ===== verification/Safe_IO.thy ===== *)
theory Safe_IO
  imports Go_Map
begin

text \<open>
  The one path files are opened, read and replaced by, \<^verbatim>\<open>src/internal/platform/safeio.go\<close>, over a
  small Unix file system: names bound to inodes, an inode's bytes durable only after a sync, a
  name's binding only after a sync of its directory. Every operation of the kernel may fail, which
  is an argument; the machine may stop before any of them, which is a budget of operations.
  Intermediate components of a path are not resolved: \<^verbatim>\<open>O_NOFOLLOW\<close> is about the last one.
\<close>

section \<open>The file system\<close>

text \<open>A FIFO remembers whether its other end is open.\<close>

datatype node_kind = RegularNode | SymlinkNode | DirNode | FifoNode bool

record inode =
  nd_kind :: node_kind
  nd_data :: string
  nd_synced :: bool
  nd_perm :: nat

text \<open>\<open>fs_old\<close> lists bindings a crash may bring back: a name, and what it was bound to.\<close>

record fs =
  fs_inodes :: "nat \<rightharpoonup> inode"
  fs_dir :: "string \<rightharpoonup> nat"
  fs_old :: "(string \<times> nat option) list"
  fs_next :: nat
  fs_left :: nat

definition fs_node :: "fs \<Rightarrow> string \<Rightarrow> inode option" where
  "fs_node f p = Option.bind (fs_dir f p) (fs_inodes f)"

text \<open>The directory of a path, the part before its last slash.\<close>

definition dir_of :: "string \<Rightarrow> string" where
  "dir_of p = rev (tl (dropWhile (\<lambda>c. c \<noteq> CHR ''/'') (rev p)))"

text \<open>The bytes a reader can find at a path after the machine stopped here.\<close>

definition inode_reads :: "inode \<Rightarrow> string set" where
  "inode_reads n = (if nd_synced n then {nd_data n} else {d. prefix d (nd_data n)})"

definition bindings :: "fs \<Rightarrow> string \<Rightarrow> nat option set" where
  "bindings f p = insert (fs_dir f p) {b. (p, b) \<in> set (fs_old f)}"

definition binding_reads :: "fs \<Rightarrow> nat option \<Rightarrow> string option set" where
  "binding_reads f b = (case b of None \<Rightarrow> {None}
     | Some i \<Rightarrow> (case fs_inodes f i of None \<Rightarrow> {None} | Some n \<Rightarrow> Some ` inode_reads n))"

definition after_crash :: "fs \<Rightarrow> string \<Rightarrow> string option set" where
  "after_crash f p = (\<Union>b \<in> bindings f p. binding_reads f b)"

text \<open>What a running process reads there.\<close>

definition current :: "fs \<Rightarrow> string \<Rightarrow> string option" where
  "current f p = map_option nd_data (fs_node f p)"

section \<open>Kernel operations\<close>

text \<open>
  One operation: \<^const>\<open>None\<close> when the machine stopped before it. The operation itself is given as a
  result and a change.
\<close>

type_synonym 'a sys = "fs \<Rightarrow> 'a option \<times> fs"

definition sys_op :: "(fs \<Rightarrow> 'a \<times> fs) \<Rightarrow> 'a sys" where
  "sys_op g f = (if fs_left f = 0 then (None, f)
                 else (case g (f\<lparr>fs_left := fs_left f - 1\<rparr>) of (a, f') \<Rightarrow> (Some a, f')))"

definition sys_bind :: "'a sys \<Rightarrow> ('a \<Rightarrow> 'b sys) \<Rightarrow> 'b sys" where
  "sys_bind m k f = (case m f of (None, f') \<Rightarrow> (None, f') | (Some a, f') \<Rightarrow> k a f')"

definition sys_return :: "'a \<Rightarrow> 'a sys" where
  "sys_return a f = (Some a, f)"

text \<open>An operation that fails with the given error and changes nothing, or succeeds with the change.\<close>

definition sys_try :: "goerr option \<Rightarrow> (fs \<Rightarrow> fs) \<Rightarrow> goerr option sys" where
  "sys_try flt g = sys_op (\<lambda>f. case flt of Some e \<Rightarrow> (Some e, f) | None \<Rightarrow> (None, g f))"

definition put_inode :: "nat \<Rightarrow> inode \<Rightarrow> fs \<Rightarrow> fs" where
  "put_inode i n f = f\<lparr>fs_inodes := (fs_inodes f)(i \<mapsto> n)\<rparr>"

definition upd_inode :: "nat \<Rightarrow> (inode \<Rightarrow> inode) \<Rightarrow> fs \<Rightarrow> fs" where
  "upd_inode i g f = (case fs_inodes f i of None \<Rightarrow> f | Some n \<Rightarrow> put_inode i (g n) f)"

definition rebind :: "string \<Rightarrow> nat option \<Rightarrow> fs \<Rightarrow> fs" where
  "rebind p b f = f\<lparr>fs_old := (p, fs_dir f p) # fs_old f, fs_dir := (fs_dir f)(p := b)\<rparr>"

definition fs_create :: "string \<Rightarrow> inode \<Rightarrow> fs \<Rightarrow> fs" where
  "fs_create p n f = rebind p (Some (fs_next f)) (put_inode (fs_next f) n (f\<lparr>fs_next := fs_next f + 1\<rparr>))"

definition fs_remove :: "string \<Rightarrow> fs \<Rightarrow> fs" where
  "fs_remove p f = rebind p None f"

definition fs_rename :: "string \<Rightarrow> string \<Rightarrow> fs \<Rightarrow> fs" where
  "fs_rename a b f = rebind a None (rebind b (fs_dir f a) f)"

definition fs_sync_dir :: "string \<Rightarrow> fs \<Rightarrow> fs" where
  "fs_sync_dir d f = f\<lparr>fs_old := filter (\<lambda>(p, _). dir_of p \<noteq> d) (fs_old f)\<rparr>"

section \<open>Writing\<close>

text \<open>
  The errors one call of \<^verbatim>\<open>WriteAtomic\<close> can meet. A write that fails has written a part; \<^verbatim>\<open>os.Remove\<close>
  of the temporary file may fail too, which the code does not look at, as with the directory's sync.
\<close>

record write_faults =
  wf_create :: "goerr option"
  wf_write :: "(goerr \<times> nat) option"
  wf_sync :: "goerr option"
  wf_close :: "goerr option"
  wf_chmod :: "goerr option"
  wf_renames :: "goerr option list"
  wf_remove :: "goerr option"
  wf_syncdir :: "goerr option"

definition wrap_error :: "string \<Rightarrow> goerr \<Rightarrow> goerr" where
  "wrap_error m e = e\<lparr>err_msg := m @ err_msg e\<rparr>"

text \<open>The random suffixes \<^verbatim>\<open>os.CreateTemp\<close> tries, the first whose name is free being taken.\<close>

definition tempName :: "string \<Rightarrow> string list \<Rightarrow> fs \<Rightarrow> string option" where
  "tempName path rnds f = map_option (\<lambda>r. path @ ''.tmp-'' @ r) (find (\<lambda>r. fs_dir f (path @ ''.tmp-'' @ r) = None) rnds)"

definition CreateTemp :: "write_faults \<Rightarrow> string list \<Rightarrow> string \<Rightarrow> (goerr + string) sys" where
  "CreateTemp fl rnds path = sys_op (\<lambda>f.
     case wf_create fl of
       Some e \<Rightarrow> (Inl e, f)
     | None \<Rightarrow> (case tempName path rnds f of
                 None \<Rightarrow> (Inl (new_error ''file exists''), f)
               | Some tmp \<Rightarrow> (Inr tmp, fs_create tmp \<lparr>nd_kind = RegularNode, nd_data = [], nd_synced = False, nd_perm = 384\<rparr> f)))"

definition the_ino :: "string \<Rightarrow> fs \<Rightarrow> nat" where
  "the_ino p f = (case fs_dir f p of Some i \<Rightarrow> i | None \<Rightarrow> fs_next f)"

definition file_Write :: "write_faults \<Rightarrow> string \<Rightarrow> string \<Rightarrow> goerr option sys" where
  "file_Write fl tmp data = sys_op (\<lambda>f.
     case wf_write fl of
       Some (e, n) \<Rightarrow> (Some e, upd_inode (the_ino tmp f) (\<lambda>nd. nd\<lparr>nd_data := take n data, nd_synced := False\<rparr>) f)
     | None \<Rightarrow> (None, upd_inode (the_ino tmp f) (\<lambda>nd. nd\<lparr>nd_data := data, nd_synced := False\<rparr>) f))"

definition file_Sync :: "write_faults \<Rightarrow> string \<Rightarrow> goerr option sys" where
  "file_Sync fl tmp = sys_try (wf_sync fl) (\<lambda>f. upd_inode (the_ino tmp f) (\<lambda>nd. nd\<lparr>nd_synced := True\<rparr>) f)"

definition file_Close :: "write_faults \<Rightarrow> goerr option sys" where
  "file_Close fl = sys_try (wf_close fl) (\<lambda>f. f)"

definition os_Chmod :: "goerr option \<Rightarrow> string \<Rightarrow> nat \<Rightarrow> goerr option sys" where
  "os_Chmod flt p perm = sys_try flt (\<lambda>f. upd_inode (the_ino p f) (\<lambda>nd. nd\<lparr>nd_perm := perm\<rparr>) f)"

definition os_Remove :: "goerr option \<Rightarrow> string \<Rightarrow> goerr option sys" where
  "os_Remove flt p = sys_try flt (fs_remove p)"

text \<open>Up to five attempts, the error of the last one standing when none succeeds.\<close>

fun rename_loop :: "nat \<Rightarrow> goerr option list \<Rightarrow> goerr option \<Rightarrow> string \<Rightarrow> string \<Rightarrow> goerr option sys" where
  "rename_loop 0 flts renameErr tmp path = sys_return renameErr"
| "rename_loop (Suc k) flts renameErr tmp path =
     sys_bind (sys_try (case flts of [] \<Rightarrow> None | x # _ \<Rightarrow> x) (fs_rename tmp path))
       (\<lambda>r. case r of None \<Rightarrow> sys_return None | Some e \<Rightarrow> rename_loop k (tl flts) (Some e) tmp path)"

definition syncDir :: "write_faults \<Rightarrow> string \<Rightarrow> unit sys" where
  "syncDir fl dir = sys_bind (sys_try (wf_syncdir fl) (fs_sync_dir dir)) (\<lambda>_. sys_return ())"

definition fail_removing :: "write_faults \<Rightarrow> string \<Rightarrow> goerr \<Rightarrow> goerr option sys" where
  "fail_removing fl tmp e = sys_bind (os_Remove (wf_remove fl) tmp) (\<lambda>_. sys_return (Some e))"

definition WriteAtomic :: "write_faults \<Rightarrow> string list \<Rightarrow> string \<Rightarrow> string \<Rightarrow> nat \<Rightarrow> goerr option sys" where
  "WriteAtomic fl rnds path data perm =
     sys_bind (CreateTemp fl rnds path) (\<lambda>c. case c of
       Inl e \<Rightarrow> sys_return (Some (wrap_error (''safeio: create temp for '' @ path @ '': '') e))
     | Inr tmp \<Rightarrow>
     sys_bind (file_Write fl tmp data) (\<lambda>r. case r of
       Some e \<Rightarrow> fail_removing fl tmp (wrap_error (''safeio: write temp for '' @ path @ '': '') e)
     | None \<Rightarrow>
     sys_bind (file_Sync fl tmp) (\<lambda>r. case r of
       Some e \<Rightarrow> fail_removing fl tmp (wrap_error (''safeio: fsync temp for '' @ path @ '': '') e)
     | None \<Rightarrow>
     sys_bind (file_Close fl) (\<lambda>r. case r of
       Some e \<Rightarrow> fail_removing fl tmp (wrap_error (''safeio: close temp for '' @ path @ '': '') e)
     | None \<Rightarrow>
     sys_bind (os_Chmod (wf_chmod fl) tmp perm) (\<lambda>r. case r of
       Some e \<Rightarrow> fail_removing fl tmp (wrap_error (''safeio: chmod temp for '' @ path @ '': '') e)
     | None \<Rightarrow>
     sys_bind (rename_loop 5 (wf_renames fl) None tmp path) (\<lambda>r. case r of
       Some e \<Rightarrow> fail_removing fl tmp (wrap_error (''safeio: rename temp for '' @ path @ '': '') e)
     | None \<Rightarrow>
     sys_bind (syncDir fl (dir_of path)) (\<lambda>_. sys_return None)))))))"

text \<open>The document of a state file, \<open>encode\<close> being its indented JSON.\<close>

definition WriteJSON :: "write_faults \<Rightarrow> string list \<Rightarrow> string \<Rightarrow> ('v \<Rightarrow> string result) \<Rightarrow> 'v \<Rightarrow> nat \<Rightarrow> goerr option sys" where
  "WriteJSON fl rnds path enc v perm =
     (case enc v of
        Inl e \<Rightarrow> sys_return (Some (wrap_error (''safeio: encode '' @ path @ '': '') e))
      | Inr body \<Rightarrow> WriteAtomic fl rnds path (body @ [CHR 0x0A]) perm)"

definition RemoveFile :: "goerr option \<Rightarrow> string \<Rightarrow> goerr option sys" where
  "RemoveFile flt path = sys_op (\<lambda>f.
     case fs_dir f path of
       None \<Rightarrow> (None, f)
     | Some _ \<Rightarrow> (case flt of
                    Some e \<Rightarrow> (if ErrNotExist \<in> set (err_chain e) then None else Some e, f)
                  | None \<Rightarrow> (None, fs_remove path f)))"

section \<open>Opening and reading\<close>

text \<open>
  \<^verbatim>\<open>Open\<close>. \<^const>\<open>None\<close> is an open that does not return: a FIFO nobody writes to, the flags being
  \<^verbatim>\<open>O_RDONLY | O_NOFOLLOW | O_CLOEXEC\<close>.
\<close>

definition ErrNotRegular_at :: "string \<Rightarrow> string \<Rightarrow> goerr" where
  "ErrNotRegular_at path what = err_of_sentinel ErrNotRegular (''safeio: not a regular file: '' @ path @ '' is '' @ what)"

definition safe_Open :: "goerr option \<Rightarrow> goerr option \<Rightarrow> fs \<Rightarrow> string \<Rightarrow> inode result option" where
  "safe_Open flt_open flt_stat f path =
     (case flt_open of
        Some e \<Rightarrow> Some (Inl (wrap_error (''safeio: open '' @ path @ '': '') e))
      | None \<Rightarrow>
          (case fs_node f path of
             None \<Rightarrow> Some (Inl (err_of_sentinel ErrNotExist (''safeio: open '' @ path @ '': no such file or directory'')))
           | Some n \<Rightarrow>
               if nd_kind n = SymlinkNode then Some (Inl (ErrNotRegular_at path ''a symlink''))
               else if nd_kind n = FifoNode False then None
               else (case flt_stat of
                       Some e \<Rightarrow> Some (Inl (wrap_error (''safeio: fstat '' @ path @ '': '') e))
                     | None \<Rightarrow> if nd_kind n \<noteq> RegularNode then Some (Inl (ErrNotRegular_at path ''not a file''))
                               else Some (Inr n))))"

text \<open>
  Reading the descriptor yields bytes and then an error or the end; the bytes need not be those at
  the time of the \<^verbatim>\<open>fstat\<close>. A limited reader stops one byte past the limit.
\<close>

definition read_limited :: "string \<times> goerr option \<Rightarrow> int \<Rightarrow> string \<times> goerr option" where
  "read_limited r maxBytes =
     (if maxBytes > 0 \<and> int (length (fst r)) \<ge> maxBytes + 1 then (take (nat (maxBytes + 1)) (fst r), None) else r)"

definition ErrTooLarge_at :: "string \<Rightarrow> goerr" where
  "ErrTooLarge_at m = err_of_sentinel ErrTooLarge (''safeio: file exceeds size limit: '' @ m)"

definition ReadWhole ::
  "goerr option \<Rightarrow> goerr option \<Rightarrow> (inode \<Rightarrow> string \<times> goerr option) \<Rightarrow> fs \<Rightarrow> string \<Rightarrow> int \<Rightarrow> (string \<times> inode) result option" where
  "ReadWhole flt_open flt_stat rd f path maxBytes =
     (case safe_Open flt_open flt_stat f path of
        None \<Rightarrow> None
      | Some (Inl e) \<Rightarrow> Some (Inl e)
      | Some (Inr n) \<Rightarrow>
          if maxBytes > 0 \<and> int (length (nd_data n)) > maxBytes
          then Some (Inl (ErrTooLarge_at (path @ '' is '' @ itoa (int (length (nd_data n))) @ '' bytes, limit '' @ itoa maxBytes)))
          else (case read_limited (rd n) maxBytes of
                  (body, Some e) \<Rightarrow> Some (Inl (wrap_error (''safeio: read '' @ path @ '': '') e))
                | (body, None) \<Rightarrow>
                    if maxBytes > 0 \<and> int (length body) > maxBytes
                    then Some (Inl (ErrTooLarge_at (path @ '' grew past the limit '' @ itoa maxBytes @ '' during the read'')))
                    else Some (Inr (body, n))))"

text \<open>The mode is refused when any of its group and other bits, the low six, is set.\<close>

definition ReadPrivate ::
  "goerr option \<Rightarrow> goerr option \<Rightarrow> (inode \<Rightarrow> string \<times> goerr option) \<Rightarrow> fs \<Rightarrow> string \<Rightarrow> int \<Rightarrow> string result option" where
  "ReadPrivate flt_open flt_stat rd f path maxBytes =
     (case ReadWhole flt_open flt_stat rd f path maxBytes of
        None \<Rightarrow> None
      | Some (Inl e) \<Rightarrow> Some (Inl e)
      | Some (Inr (raw, n)) \<Rightarrow>
          if nd_perm n mod 64 \<noteq> 0
          then Some (Inl (new_error (''safeio: '' @ path @ '' has mode '' @ itoa (int (nd_perm n)) @
                 '': must not be group- or world-accessible'')))
          else Some (Inr raw))"

text \<open>
  Opening for writing: the kernel creates a missing file, refuses a symlink, a directory, and a FIFO
  nobody reads, and opens everything else; only then is the kind checked and the file cut.
\<close>

record trunc_faults =
  tf_open :: "goerr option"
  tf_stat :: "goerr option"
  tf_chmod :: "goerr option"
  tf_truncate :: "goerr option"

definition open_write :: "trunc_faults \<Rightarrow> string \<Rightarrow> nat \<Rightarrow> goerr option sys" where
  "open_write fl path perm = sys_op (\<lambda>f.
     case tf_open fl of
       Some e \<Rightarrow> (Some (wrap_error (''safeio: open '' @ path @ '' for writing: '') e), f)
     | None \<Rightarrow>
         (case fs_node f path of
            None \<Rightarrow> (None, fs_create path \<lparr>nd_kind = RegularNode, nd_data = [], nd_synced = False, nd_perm = perm\<rparr> f)
          | Some n \<Rightarrow>
              (case nd_kind n of
                 SymlinkNode \<Rightarrow> (Some (ErrNotRegular_at path ''a symlink''), f)
               | FifoNode False \<Rightarrow> (Some (ErrNotRegular_at path ''a fifo''), f)
               | DirNode \<Rightarrow> (Some (new_error (''safeio: open '' @ path @ '' for writing: is a directory'')), f)
               | _ \<Rightarrow> (None, f))))"

definition OpenTruncating :: "trunc_faults \<Rightarrow> string \<Rightarrow> nat \<Rightarrow> goerr option sys" where
  "OpenTruncating fl path perm =
     sys_bind (open_write fl path perm) (\<lambda>r. case r of Some e \<Rightarrow> sys_return (Some e) | None \<Rightarrow>
     sys_bind (sys_op (\<lambda>f. (map_option nd_kind (fs_node f path), f))) (\<lambda>kind.
       (case tf_stat fl of
          Some e \<Rightarrow> sys_return (Some (wrap_error (''safeio: fstat '' @ path @ '': '') e))
        | None \<Rightarrow>
            if kind \<noteq> Some RegularNode then sys_return (Some (ErrNotRegular_at path ''not a file''))
            else sys_bind (os_Chmod (tf_chmod fl) path perm) (\<lambda>r. case r of
                   Some e \<Rightarrow> sys_return (Some (wrap_error (''safeio: chmod '' @ path @ '': '') e))
                 | None \<Rightarrow> sys_bind (sys_try (tf_truncate fl) (\<lambda>f. upd_inode (the_ino path f)
                             (\<lambda>n. n\<lparr>nd_data := [], nd_synced := False\<rparr>) f)) (\<lambda>r. case r of
                   Some e \<Rightarrow> sys_return (Some (wrap_error (''safeio: truncate '' @ path @ '': '') e))
                 | None \<Rightarrow> sys_return None)))))"

section \<open>A logic of operations that may be the last\<close>

text \<open>From \<open>P\<close>, the program ends in \<open>Q\<close>, and where the machine stops \<open>C\<close> holds.\<close>

definition triple :: "(fs \<Rightarrow> bool) \<Rightarrow> (fs \<Rightarrow> bool) \<Rightarrow> 'a sys \<Rightarrow> ('a \<Rightarrow> fs \<Rightarrow> bool) \<Rightarrow> bool" where
  "triple C P m Q \<longleftrightarrow> (\<forall>f. P f \<longrightarrow> (case m f of (None, f') \<Rightarrow> C f' | (Some a, f') \<Rightarrow> Q a f'))"

text \<open>Predicates about the disk, not about how long the machine lives.\<close>

definition steady :: "(fs \<Rightarrow> bool) \<Rightarrow> bool" where
  "steady P \<longleftrightarrow> (\<forall>f n. P f \<longrightarrow> P (f\<lparr>fs_left := n\<rparr>))"

lemma triple_return: "(\<And>f. P f \<Longrightarrow> Q a f) \<Longrightarrow> triple C P (sys_return a) Q"
  by (simp add: triple_def sys_return_def)

lemma triple_bind:
  assumes "triple C P m R" "\<And>a. triple C (R a) (k a) Q"
  shows "triple C P (sys_bind m k) Q"
  unfolding triple_def
proof (intro allI impI)
  fix f assume "P f"
  obtain r f' where m: "m f = (r, f')" by fastforce
  show "case sys_bind m k f of (None, f') \<Rightarrow> C f' | (Some a, f') \<Rightarrow> Q a f'"
    using assms \<open>P f\<close> m by (cases r) (fastforce simp: sys_bind_def triple_def)+
qed

text \<open>The idiom of the source: check the error, else go on.\<close>

lemma triple_check:
  assumes "triple C P m (\<lambda>r. case r of None \<Rightarrow> R | Some _ \<Rightarrow> S)" "\<And>e. triple C S (h e) Q" "triple C R k Q"
  shows "triple C P (sys_bind m (\<lambda>r. case r of Some e \<Rightarrow> h e | None \<Rightarrow> k)) Q"
  by (rule triple_bind [OF assms(1)]) (use assms(2,3) in \<open>auto split: option.split\<close>)

lemma triple_op:
  assumes "steady P" "\<And>f. P f \<Longrightarrow> C f" "\<And>f. P f \<Longrightarrow> case g f of (a, f') \<Rightarrow> Q a f'"
  shows "triple C P (sys_op g) Q"
  unfolding triple_def
proof (intro allI impI)
  fix f assume p: "P f"
  then have "P (f\<lparr>fs_left := fs_left f - 1\<rparr>)" using assms(1) by (simp add: steady_def)
  from assms(3) [OF this] assms(2) [OF p]
  show "case sys_op g f of (None, f') \<Rightarrow> C f' | (Some a, f') \<Rightarrow> Q a f'"
    by (auto simp: sys_op_def split: prod.splits)
qed

lemma triple_try:
  assumes "steady P" "\<And>f. P f \<Longrightarrow> C f" "\<And>f. flt = None \<Longrightarrow> P f \<Longrightarrow> Q None (g f)"
    and "\<And>e f. flt = Some e \<Longrightarrow> P f \<Longrightarrow> Q (Some e) f"
  shows "triple C P (sys_try flt g) Q"
  unfolding sys_try_def using assms by (intro triple_op) (auto split: option.split)

lemma triple_weaken:
  "triple C P' m Q' \<Longrightarrow> (\<And>f. P f \<Longrightarrow> P' f) \<Longrightarrow> (\<And>a f. Q' a f \<Longrightarrow> Q a f) \<Longrightarrow> triple C P m Q"
  by (fastforce simp: triple_def split: prod.splits option.splits)

lemma tripleD:
  "triple C P m Q \<Longrightarrow> P f \<Longrightarrow> m f = (r, f') \<Longrightarrow> (case r of None \<Rightarrow> C f' | Some a \<Rightarrow> Q a f')"
  by (auto simp: triple_def split: option.split)

section \<open>The stages of a replacement\<close>

definition fs_ok :: "fs \<Rightarrow> bool" where
  "fs_ok f \<longleftrightarrow> (\<forall>p i. Some i \<in> bindings f p \<longrightarrow> i < fs_next f)"

text \<open>Nothing about the path has changed.\<close>

definition untouched :: "fs \<Rightarrow> string \<Rightarrow> fs \<Rightarrow> bool" where
  "untouched f0 path f \<longleftrightarrow> fs_dir f path = fs_dir f0 path \<and> bindings f path = bindings f0 path \<and>
     (\<forall>i. Some i \<in> bindings f0 path \<longrightarrow> fs_inodes f i = fs_inodes f0 i)"

text \<open>The temporary file is the inode that was next.\<close>

definition staged_at :: "fs \<Rightarrow> string \<Rightarrow> string \<Rightarrow> (inode \<Rightarrow> bool) \<Rightarrow> fs \<Rightarrow> bool" where
  "staged_at f0 path tmp K f \<longleftrightarrow> untouched f0 path f \<and> tmp \<noteq> path \<and> fs_dir f tmp = Some (fs_next f0) \<and>
     (\<exists>n. fs_inodes f (fs_next f0) = Some n \<and> nd_kind n = RegularNode \<and> K n)"

definition placed :: "fs \<Rightarrow> string \<Rightarrow> string \<Rightarrow> nat \<Rightarrow> fs \<Rightarrow> bool" where
  "placed f0 path data perm f \<longleftrightarrow> fs_dir f path = Some (fs_next f0) \<and>
     bindings f path \<subseteq> insert (Some (fs_next f0)) (bindings f0 path) \<and>
     (\<forall>i. Some i \<in> bindings f0 path \<longrightarrow> fs_inodes f i = fs_inodes f0 i) \<and>
     fs_inodes f (fs_next f0) = Some \<lparr>nd_kind = RegularNode, nd_data = data, nd_synced = True, nd_perm = perm\<rparr>"

lemma bindings_rebind [simp]:
  "bindings (rebind p b f) q = (if q = p then insert b (bindings f q) else bindings f q)"
  by (auto simp: bindings_def rebind_def)

lemma rebind_simps [simp]:
  "fs_dir (rebind p b f) = (fs_dir f)(p := b)" "fs_inodes (rebind p b f) = fs_inodes f" "fs_next (rebind p b f) = fs_next f"
  "fs_dir (put_inode i n f) = fs_dir f" "fs_inodes (put_inode i n f) = (fs_inodes f)(i \<mapsto> n)"
  "fs_next (put_inode i n f) = fs_next f" "bindings (put_inode i n f) = bindings f"
  "bindings (f\<lparr>fs_next := k\<rparr>) = bindings f" "bindings (f\<lparr>fs_left := k\<rparr>) = bindings f"
  by (auto simp: rebind_def put_inode_def bindings_def)

lemma steady_stages: "steady (untouched f0 path)" "steady (staged_at f0 path tmp K)" "steady (placed f0 path data perm)"
  by (simp_all add: steady_def untouched_def staged_at_def placed_def)

lemma staged_upd:
  assumes "staged_at f0 path tmp K f" "\<And>n. K n \<Longrightarrow> K' (g n)" "\<And>n. nd_kind (g n) = nd_kind n"
    and "Some (fs_next f0) \<notin> bindings f0 path"
  shows "staged_at f0 path tmp K' (upd_inode (the_ino tmp f) g f)"
  using assms by (auto simp: staged_at_def untouched_def upd_inode_def the_ino_def)


lemma staged_weaken: "staged_at f0 path tmp K f \<Longrightarrow> staged_at f0 path tmp (\<lambda>_. True) f"
  by (auto simp: staged_at_def)

lemma tempName_other: "tempName path rnds f = Some tmp \<Longrightarrow> tmp \<noteq> path \<and> fs_dir f tmp = None"
  by (auto simp: tempName_def find_Some_iff)

text \<open>Where the machine stops, the path is as it was, or holds the whole new file.\<close>

definition safe_at :: "fs \<Rightarrow> string \<Rightarrow> string \<Rightarrow> nat \<Rightarrow> fs \<Rightarrow> bool" where
  "safe_at f0 path data perm f \<longleftrightarrow> untouched f0 path f \<or> placed f0 path data perm f"

lemma stage_safe:
  "untouched f0 path f \<Longrightarrow> safe_at f0 path data perm f"
  "staged_at f0 path tmp K f \<Longrightarrow> safe_at f0 path data perm f"
  "placed f0 path data perm f \<Longrightarrow> safe_at f0 path data perm f"
  by (simp_all add: safe_at_def staged_at_def)

lemma fresh_inode: "fs_ok f0 \<Longrightarrow> Some (fs_next f0) \<notin> bindings f0 path"
  unfolding fs_ok_def by blast

lemma CreateTemp_triple:
  assumes "fs_ok f0"
  shows "triple (safe_at f0 path data perm) (\<lambda>f. \<exists>n. f = f0\<lparr>fs_left := n\<rparr>) (CreateTemp fl rnds path)
    (\<lambda>r. case r of Inl e \<Rightarrow> untouched f0 path | Inr tmp \<Rightarrow> staged_at f0 path tmp (\<lambda>_. True))"
  unfolding CreateTemp_def
proof (rule triple_op)
  show "steady (\<lambda>f. \<exists>n. f = f0\<lparr>fs_left := n\<rparr>)" by (auto simp: steady_def)
next
  fix f assume "\<exists>n. f = f0\<lparr>fs_left := n\<rparr>"
  then obtain n where f: "f = f0\<lparr>fs_left := n\<rparr>" by blast
  then have u: "untouched f0 path f" by (simp add: untouched_def)
  then show "safe_at f0 path data perm f" by (rule stage_safe)
  have u2: "untouched f0 path (fs_create tmp nd f)" if "tmp \<noteq> path" for tmp nd
    using that fresh_inode [OF assms, of path] by (auto simp: untouched_def fs_create_def f)
  show "case case wf_create fl of
          Some e \<Rightarrow> (Inl e, f)
        | None \<Rightarrow> (case tempName path rnds f of
                 None \<Rightarrow> (Inl (new_error ''file exists''), f)
               | Some tmp \<Rightarrow> (Inr tmp, fs_create tmp \<lparr>nd_kind = RegularNode, nd_data = [], nd_synced = False, nd_perm = 384\<rparr> f))
        of (r, f') \<Rightarrow> (case r of Inl e \<Rightarrow> untouched f0 path | Inr tmp \<Rightarrow> staged_at f0 path tmp (\<lambda>_. True)) f'"
    using u u2 tempName_other [of path rnds f]
    by (auto simp: staged_at_def fs_create_def f split: option.split simp del: append_Cons)
qed

lemma staged_step:
  assumes "fs_ok f0" "\<And>n. K n \<Longrightarrow> K' (g n)" "\<And>n. nd_kind (g n) = nd_kind n"
  shows "triple (safe_at f0 path data perm) (staged_at f0 path tmp K) (sys_try flt (\<lambda>f. upd_inode (the_ino tmp f) g f))
    (\<lambda>r. case r of None \<Rightarrow> staged_at f0 path tmp K' | Some _ \<Rightarrow> staged_at f0 path tmp (\<lambda>_. True))"
  by (rule triple_try)
     (use assms in \<open>auto simp: steady_stages stage_safe fresh_inode intro: staged_upd staged_weaken\<close>)

lemma file_Write_triple:
  assumes "fs_ok f0"
  shows "triple (safe_at f0 path data perm) (staged_at f0 path tmp (\<lambda>_. True)) (file_Write fl tmp data)
    (\<lambda>r. case r of None \<Rightarrow> staged_at f0 path tmp (\<lambda>n. nd_data n = data) | Some _ \<Rightarrow> staged_at f0 path tmp (\<lambda>_. True))"
  unfolding file_Write_def
  by (rule triple_op) (auto simp: steady_stages stage_safe fresh_inode [OF assms] intro: staged_upd split: option.split prod.split)

lemma fail_removing_triple:
  assumes "fs_ok f0"
  shows "triple (safe_at f0 path data perm) (staged_at f0 path tmp K) (fail_removing fl tmp e)
    (\<lambda>r f. r = Some e \<and> untouched f0 path f)"
  unfolding fail_removing_def os_Remove_def
proof (rule triple_bind)
  show "triple (safe_at f0 path data perm) (staged_at f0 path tmp K) (sys_try (wf_remove fl) (fs_remove tmp)) (\<lambda>_. untouched f0 path)"
    by (rule triple_try) (auto simp: steady_stages stage_safe staged_at_def untouched_def fs_remove_def)
  show "triple (safe_at f0 path data perm) (untouched f0 path) (sys_return (Some e)) (\<lambda>r f. r = Some e \<and> untouched f0 path f)" for a
    by (rule triple_return) simp
qed

abbreviation whole :: "string \<Rightarrow> nat \<Rightarrow> inode \<Rightarrow> bool" where
  "whole data perm n \<equiv> nd_data n = data \<and> nd_synced n \<and> nd_perm n = perm"

lemma rename_triple:
  assumes "fs_ok f0" "k > 0 \<or> e0 \<noteq> None"
  shows "triple (safe_at f0 path data perm) (staged_at f0 path tmp (whole data perm)) (rename_loop k flts e0 tmp path)
    (\<lambda>r. case r of None \<Rightarrow> placed f0 path data perm | Some _ \<Rightarrow> staged_at f0 path tmp (whole data perm))"
  using assms(2)
proof (induction k arbitrary: flts e0)
  case 0
  then show ?case by (auto intro!: triple_return split: option.split)
next
  case (Suc k)
  have pl: "placed f0 path data perm (fs_rename tmp path f)" if "staged_at f0 path tmp (whole data perm) f" for f
    using that fresh_inode [OF assms(1), of path]
    by (auto simp: staged_at_def untouched_def placed_def fs_rename_def)
  have "triple (safe_at f0 path data perm) (staged_at f0 path tmp (whole data perm)) (sys_try flt (fs_rename tmp path))
      (\<lambda>r. case r of None \<Rightarrow> placed f0 path data perm | Some _ \<Rightarrow> staged_at f0 path tmp (whole data perm))" for flt
    by (rule triple_try) (auto simp: steady_stages stage_safe pl)
  moreover have "triple (safe_at f0 path data perm)
      (case r of None \<Rightarrow> placed f0 path data perm | Some _ \<Rightarrow> staged_at f0 path tmp (whole data perm))
      (case r of None \<Rightarrow> sys_return None | Some e \<Rightarrow> rename_loop k (tl flts) (Some e) tmp path)
      (\<lambda>r. case r of None \<Rightarrow> placed f0 path data perm | Some _ \<Rightarrow> staged_at f0 path tmp (whole data perm))" for r
    using Suc.IH by (cases r) (auto intro: triple_return)
  ultimately show ?case by (auto intro: triple_bind)
qed

lemma syncDir_triple:
  "triple (safe_at f0 path data perm) (placed f0 path data perm) (syncDir fl (dir_of path))
    (\<lambda>_ f. placed f0 path data perm f \<and> (wf_syncdir fl = None \<longrightarrow> bindings f path = {Some (fs_next f0)}))"
  unfolding syncDir_def
proof (rule triple_bind)
  let ?Q = "\<lambda>f. placed f0 path data perm f \<and> (wf_syncdir fl = None \<longrightarrow> bindings f path = {Some (fs_next f0)})"
  have "bindings (fs_sync_dir (dir_of path) f) path = {fs_dir f path}" for f
    by (auto simp: bindings_def fs_sync_dir_def)
  then show "triple (safe_at f0 path data perm) (placed f0 path data perm)
      (sys_try (wf_syncdir fl) (fs_sync_dir (dir_of path))) (\<lambda>_. ?Q)"
    by (intro triple_try) (auto simp: steady_stages stage_safe placed_def fs_sync_dir_def)
  show "triple (safe_at f0 path data perm) ?Q (sys_return ()) (\<lambda>_. ?Q)" for a
    by (rule triple_return) simp
qed

lemma WriteAtomic_triple:
  assumes ok: "fs_ok f0"
  shows "triple (safe_at f0 path data perm) (\<lambda>f. \<exists>n. f = f0\<lparr>fs_left := n\<rparr>) (WriteAtomic fl rnds path data perm)
    (\<lambda>r. case r of Some _ \<Rightarrow> untouched f0 path
                 | None \<Rightarrow> \<lambda>f. placed f0 path data perm f \<and> (wf_syncdir fl = None \<longrightarrow> bindings f path = {Some (fs_next f0)}))"
    (is "triple ?C _ _ ?Q")
proof -
  have rm: "triple ?C (staged_at f0 path tmp K) (fail_removing fl tmp e) ?Q" for tmp K e
    by (rule triple_weaken [OF fail_removing_triple [OF ok]]) auto
  let ?S = "staged_at f0 path"
  have sync: "triple ?C (?S tmp (\<lambda>n. nd_data n = data)) (file_Sync fl tmp)
      (\<lambda>r. case r of None \<Rightarrow> ?S tmp (\<lambda>n. nd_data n = data \<and> nd_synced n) | Some _ \<Rightarrow> ?S tmp (\<lambda>_. True))" for tmp
    unfolding file_Sync_def by (rule staged_step [OF ok]) auto
  have close: "triple ?C (?S tmp K) (file_Close fl) (\<lambda>r. case r of None \<Rightarrow> ?S tmp K | Some _ \<Rightarrow> ?S tmp K)" for tmp K
    unfolding file_Close_def by (rule triple_try) (auto simp: steady_stages stage_safe)
  have chmod: "triple ?C (?S tmp (\<lambda>n. nd_data n = data \<and> nd_synced n)) (os_Chmod (wf_chmod fl) tmp perm)
      (\<lambda>r. case r of None \<Rightarrow> ?S tmp (whole data perm) | Some _ \<Rightarrow> ?S tmp (\<lambda>_. True))" for tmp
    unfolding os_Chmod_def by (rule staged_step [OF ok]) auto
  have fin: "triple ?C (placed f0 path data perm) (sys_bind (syncDir fl (dir_of path)) (\<lambda>_. sys_return None)) ?Q"
    by (rule triple_bind [OF syncDir_triple]) (simp add: triple_return)
  have ren: "triple ?C (?S tmp (whole data perm)) (rename_loop 5 flts None tmp path)
      (\<lambda>r. case r of None \<Rightarrow> placed f0 path data perm | Some _ \<Rightarrow> ?S tmp (whole data perm))" for tmp flts
    by (rule rename_triple [OF ok]) simp
  note rest = triple_check [OF file_Write_triple [OF ok] rm triple_check [OF sync rm triple_check [OF close rm
      triple_check [OF chmod rm triple_check [OF ren rm fin]]]]]
  show ?thesis unfolding WriteAtomic_def
  proof (rule triple_bind [OF CreateTemp_triple [OF ok]], goal_cases)
    case (1 a)
    then show ?case
    proof (cases a)
      case (Inl e)
      then show ?thesis by (simp add: triple_return)
    next
      case (Inr tmp)
      then show ?thesis using rest by simp
    qed
  qed
qed

lemma untouched_reads:
  assumes "untouched f0 path f"
  shows "after_crash f path = after_crash f0 path" "current f path = current f0 path"
proof -
  have "binding_reads f b = binding_reads f0 b" if "b \<in> bindings f0 path" for b
    using assms that by (cases b) (simp_all add: untouched_def binding_reads_def)
  then show "after_crash f path = after_crash f0 path"
    using assms by (simp add: after_crash_def untouched_def)
  show "current f path = current f0 path"
    using assms by (cases "fs_dir f0 path") (auto simp: untouched_def current_def fs_node_def bindings_def)
qed

lemma placed_reads:
  assumes "placed f0 path data perm f"
  shows "after_crash f path \<subseteq> insert (Some data) (after_crash f0 path)" "current f path = Some data"
    "bindings f path = {Some (fs_next f0)} \<Longrightarrow> after_crash f path = {Some data}"
proof -
  have new: "binding_reads f (Some (fs_next f0)) = {Some data}"
    using assms by (simp add: placed_def binding_reads_def inode_reads_def)
  have "binding_reads f b = binding_reads f0 b" if "b \<in> bindings f0 path" for b
    using assms that by (cases b) (simp_all add: placed_def binding_reads_def)
  then show "after_crash f path \<subseteq> insert (Some data) (after_crash f0 path)"
    using assms new unfolding after_crash_def placed_def by fastforce
  show "current f path = Some data" using assms by (simp add: placed_def current_def fs_node_def)
  show "bindings f path = {Some (fs_next f0)} \<Longrightarrow> after_crash f path = {Some data}"
    using new by (simp add: after_crash_def)
qed

text \<open>
  C27: Replacing a file is all or nothing, whatever operation fails and wherever the machine stops.
  A reader, and a reader after a crash at any moment, finds what was there before or the whole
  new content, never a part. An error leaves the path as it was. Success means the new content is
  read from now on, and also after a crash when the directory's sync took.
\<close>

theorem write_atomic_all_or_nothing:
  assumes "fs_ok f" "WriteAtomic fl rnds path data perm f = (r, f')"
  shows "after_crash f' path \<subseteq> insert (Some data) (after_crash f path) \<and>
    current f' path \<in> {current f path, Some data} \<and>
    (case r of
       None \<Rightarrow> True
     | Some (Some e) \<Rightarrow> current f' path = current f path \<and> after_crash f' path = after_crash f path
     | Some None \<Rightarrow> current f' path = Some data \<and> map_option nd_perm (fs_node f' path) = Some perm \<and>
         (wf_syncdir fl = None \<longrightarrow> after_crash f' path = {Some data}))"
proof -
  have "\<exists>n. f = f\<lparr>fs_left := n\<rparr>" by (rule exI [of _ "fs_left f"]) simp
  note t = tripleD [OF WriteAtomic_triple [OF assms(1)] this assms(2)]
  have mode: "map_option nd_perm (fs_node f' path) = Some perm" if "placed f path data perm f'"
    using that by (simp add: placed_def fs_node_def)
  consider "r = None" "safe_at f path data perm f'" | e where "r = Some (Some e)" "untouched f path f'"
    | "r = Some None" "placed f path data perm f'" "wf_syncdir fl = None \<longrightarrow> bindings f' path = {Some (fs_next f)}"
    using t by (cases r) (auto split: option.splits)
  then show ?thesis
  proof cases
    case 1
    then show ?thesis unfolding safe_at_def using untouched_reads placed_reads by (metis insertI1 insertI2 option.simps(4) singletonI subset_insertI)
  next
    case 2
    then show ?thesis using untouched_reads [OF 2(2)] by auto
  next
    case 3
    then show ?thesis using placed_reads [OF 3(2)] mode by auto
  qed
qed

section \<open>Reading back\<close>

lemma ReadWhole_Inr:
  assumes "ReadWhole flt_open flt_stat rd f path maxBytes = Some (Inr (body, n))"
  shows "fs_node f path = Some n \<and> nd_kind n = RegularNode \<and> (maxBytes > 0 \<longrightarrow> int (length body) \<le> maxBytes) \<and>
    body = fst (rd n) \<and> snd (rd n) = None"
proof -
  have o: "safe_Open flt_open flt_stat f path = Some (Inr n)"
    using assms by (auto simp: ReadWhole_def split: option.splits sum.splits if_splits prod.splits)
  then have node: "fs_node f path = Some n \<and> nd_kind n = RegularNode"
    by (auto simp: safe_Open_def split: option.splits if_splits)
  have r: "read_limited (rd n) maxBytes = (body, None)" "maxBytes > 0 \<longrightarrow> int (length body) \<le> maxBytes"
    using assms o by (auto simp: ReadWhole_def split: option.splits sum.splits if_splits prod.splits)
  then have "body = fst (rd n) \<and> snd (rd n) = None"
    by (auto simp: read_limited_def split: if_splits)
  with node r(2) show ?thesis by simp
qed

text \<open>
  A bounded read is whole or refused. What \<^verbatim>\<open>ReadWhole\<close> returns is everything the descriptor
  yielded, of a regular file bound at the very path and never of what a symlink points to, and it
  is within the limit even when the file grew after its size was taken.
\<close>

theorem read_whole_bounded:
  assumes "ReadWhole flt_open flt_stat rd f path maxBytes = Some (Inr (body, n))" "maxBytes > 0"
  shows "int (length body) \<le> maxBytes \<and> fs_node f path = Some n \<and> nd_kind n = RegularNode \<and> rd n = (body, None)"
  using ReadWhole_Inr [OF assms(1)] assms(2) by (metis prod.collapse)

text \<open>The reader of a file nobody writes meanwhile, without errors.\<close>

definition quiet :: "inode \<Rightarrow> string \<times> goerr option" where
  "quiet n = (nd_data n, None)"

text \<open>
  A state file reads back as it was written: after a replacement that reported success, a read
  whose limit the content is within returns the content, and a private read returns it exactly
  when the mode it was written with grants nothing to group and others.
\<close>

theorem write_then_read:
  assumes "fs_ok f" "WriteAtomic fl rnds path data perm f = (Some None, f')"
    and "maxBytes \<le> 0 \<or> int (length data) \<le> maxBytes"
  shows "(\<exists>n. ReadWhole None None quiet f' path maxBytes = Some (Inr (data, n))) \<and>
    (ReadPrivate None None quiet f' path maxBytes = Some (Inr data) \<longleftrightarrow> perm mod 64 = 0)"
proof -
  have "\<exists>n. f = f\<lparr>fs_left := n\<rparr>" by (rule exI [of _ "fs_left f"]) simp
  from tripleD [OF WriteAtomic_triple [OF assms(1)] this assms(2)]
  have n: "fs_node f' path = Some \<lparr>nd_kind = RegularNode, nd_data = data, nd_synced = True, nd_perm = perm\<rparr>"
    by (simp add: placed_def fs_node_def)
  then have "ReadWhole None None quiet f' path maxBytes =
      Some (Inr (data, \<lparr>nd_kind = RegularNode, nd_data = data, nd_synced = True, nd_perm = perm\<rparr>))"
    using assms(3) by (auto simp: ReadWhole_def safe_Open_def quiet_def read_limited_def)
  then show ?thesis by (simp add: ReadPrivate_def)
qed


section \<open>Truncating\<close>

text \<open>
  A planted link is never truncated. When the path names anything but a regular file, opening it
  for truncation does not succeed and changes no file's content, kind or mode and no name,
  whatever fails and wherever the machine stops.
\<close>

theorem truncating_spares_special:
  assumes "fs_node f path = Some n" "nd_kind n \<noteq> RegularNode" "OpenTruncating fl path perm f = (r, f')"
  shows "fs_inodes f' = fs_inodes f \<and> fs_dir f' = fs_dir f \<and> r \<noteq> Some None"
proof -
  have [simp]: "fs_node (f\<lparr>fs_left := k\<rparr>) path = Some n" for k using assms(1) by (simp add: fs_node_def)
  obtain r1 f1 where o: "open_write fl path perm f = (r1, f1)" by fastforce
  have f1: "\<exists>k. f1 = f\<lparr>fs_left := k\<rparr>" using o assms(1)
    by (auto simp: open_write_def sys_op_def split: if_splits option.splits node_kind.splits bool.splits intro: exI [of _ "fs_left f"])
  then obtain k where k: "f1 = f\<lparr>fs_left := k\<rparr>" by blast
  show ?thesis
    using assms(2,3) o k
    by (auto simp: OpenTruncating_def sys_bind_def sys_op_def sys_return_def split: option.splits if_splits)
qed

section \<open>A disk\<close>

definition demo_fs :: "nat \<Rightarrow> fs" where
  "demo_fs left = \<lparr>fs_inodes = [0 \<mapsto> \<lparr>nd_kind = RegularNode, nd_data = ''old'', nd_synced = True, nd_perm = 384\<rparr>,
       1 \<mapsto> \<lparr>nd_kind = SymlinkNode, nd_data = [], nd_synced = True, nd_perm = 511\<rparr>],
     fs_dir = [''/s/doc'' \<mapsto> 0, ''/s/log'' \<mapsto> 1], fs_old = [], fs_next = 2, fs_left = left\<rparr>"

definition no_faults :: write_faults where
  "no_faults = \<lparr>wf_create = None, wf_write = None, wf_sync = None, wf_close = None, wf_chmod = None,
     wf_renames = [Some (new_error ''busy'')], wf_remove = None, wf_syncdir = None\<rparr>"

lemma demo_fs_ok: "fs_ok (demo_fs n)"
  by (auto simp: fs_ok_def bindings_def demo_fs_def split: if_splits)

lemma demo_write: "fst (WriteAtomic no_faults [''1''] ''/s/doc'' ''new'' 384 (demo_fs 20)) = Some None"
  by code_simp

theorem write_atomic_all_or_nothing_witness:
  "after_crash (snd (WriteAtomic no_faults [''1''] ''/s/doc'' ''new'' 384 (demo_fs 20))) ''/s/doc'' = {Some ''new''} \<and>
   current (snd (WriteAtomic no_faults [''1''] ''/s/doc'' ''new'' 384 (demo_fs 3))) ''/s/doc'' \<in> {Some ''old'', Some ''new''}"
proof -
  have "WriteAtomic no_faults [''1''] ''/s/doc'' ''new'' 384 (demo_fs 20) =
      (Some None, snd (WriteAtomic no_faults [''1''] ''/s/doc'' ''new'' 384 (demo_fs 20)))"
    using demo_write by (metis prod.collapse)
  from write_atomic_all_or_nothing [OF demo_fs_ok this]
    write_atomic_all_or_nothing [OF demo_fs_ok, of no_faults "[''1'']" "''/s/doc''" "''new''" 384 3,
      OF prod.collapse [symmetric]]
  show ?thesis by (simp add: no_faults_def current_def fs_node_def demo_fs_def)
qed

theorem read_whole_bounded_witness:
  "int (length ''old'') \<le> 3 \<and> fs_node (demo_fs 0) ''/s/doc'' =
     Some \<lparr>nd_kind = RegularNode, nd_data = ''old'', nd_synced = True, nd_perm = 384\<rparr>"
proof -
  have "ReadWhole None None quiet (demo_fs 0) ''/s/doc'' 3 =
      Some (Inr (''old'', \<lparr>nd_kind = RegularNode, nd_data = ''old'', nd_synced = True, nd_perm = 384\<rparr>))"
    by code_simp
  from read_whole_bounded [OF this] show ?thesis by simp
qed

theorem write_then_read_witness:
  "ReadPrivate None None quiet (snd (WriteAtomic no_faults [''1''] ''/s/doc'' ''new'' 384 (demo_fs 20))) ''/s/doc'' 9
     = Some (Inr ''new'')"
proof -
  have "WriteAtomic no_faults [''1''] ''/s/doc'' ''new'' 384 (demo_fs 20) =
      (Some None, snd (WriteAtomic no_faults [''1''] ''/s/doc'' ''new'' 384 (demo_fs 20)))"
    using demo_write by (metis prod.collapse)
  from write_then_read [OF demo_fs_ok this, of 9] show ?thesis by simp
qed

theorem truncating_spares_special_witness:
  "fs_inodes (snd (OpenTruncating \<lparr>tf_open = None, tf_stat = None, tf_chmod = None, tf_truncate = None\<rparr> ''/s/log'' 384 (demo_fs 9)))
     = fs_inodes (demo_fs 9)"
proof -
  let ?t = "\<lparr>tf_open = None, tf_stat = None, tf_chmod = None, tf_truncate = None\<rparr>"
  have "fs_node (demo_fs 9) ''/s/log'' = Some \<lparr>nd_kind = SymlinkNode, nd_data = [], nd_synced = True, nd_perm = 511\<rparr>"
    by (simp add: fs_node_def demo_fs_def)
  from truncating_spares_special [OF this, of ?t 384, OF _ prod.collapse [symmetric]] show ?thesis by simp
qed

end
