(* ===== verification/Pause.thy ===== *)
theory Pause
  imports Safe_IO Go_Time
begin

text \<open>
  The offline pause switch, \<^verbatim>\<open>src/internal/platform/pause.go\<close>: one file in the state directory, read
  before anything is collected. JSON and the parsing of a time are parameters; the file is read
  and replaced through \<^theory_text>\<open>Safe_IO\<close>.
\<close>

section \<open>The flag\<close>

record PauseState =
  ps_Paused :: bool
  ps_Reason :: string
  ps_At :: string
  ps_Until :: string

definition zero_pause :: PauseState where
  "zero_pause = \<lparr>ps_Paused = False, ps_Reason = [], ps_At = [], ps_Until = []\<rparr>"

record pause_codec =
  pc_marshal :: "PauseState \<Rightarrow> string result"
  pc_unmarshal :: "string \<Rightarrow> PauseState result"
  pc_parse :: "string \<Rightarrow> gotime option"

definition PauseFile :: string where "PauseFile = ''paused''"

text \<open>\<^verbatim>\<open>filepath.Join\<close> of the state directory, which is clean and absolute, and the file's name.\<close>

definition pause_path :: "string \<Rightarrow> string" where
  "pause_path stateDir = stateDir @ ''/'' @ PauseFile"

definition UntilTime :: "pause_codec \<Rightarrow> PauseState \<Rightarrow> gotime" where
  "UntilTime pc s = (case pc_parse pc (ps_Until s) of Some t \<Rightarrow> t | None \<Rightarrow> 0)"

definition pause_Set ::
  "pause_codec \<Rightarrow> goerr option \<Rightarrow> write_faults \<Rightarrow> string list \<Rightarrow> string \<Rightarrow> string \<Rightarrow> gotime \<Rightarrow> gotime \<Rightarrow> goerr option sys" where
  "pause_Set pc flt_mkdir fl rnds stateDir reason now until =
     (case flt_mkdir of
        Some e \<Rightarrow> sys_return (Some (wrap_error ''pause: '' e))
      | None \<Rightarrow>
          (let st = \<lparr>ps_Paused = True, ps_Reason = reason, ps_At = format_rfc3339 now, ps_Until = []\<rparr>;
               st = (if until \<noteq> 0 then st\<lparr>ps_Until := format_rfc3339 until\<rparr> else st)
           in WriteJSON fl rnds (pause_path stateDir) (pc_marshal pc) st 420))"

definition pause_Clear :: "goerr option \<Rightarrow> string \<Rightarrow> goerr option sys" where
  "pause_Clear flt stateDir = sys_op (\<lambda>f.
     case fs_dir f (pause_path stateDir) of
       None \<Rightarrow> (None, f)
     | Some _ \<Rightarrow> (case flt of
                    Some e \<Rightarrow> (if ErrNotExist \<in> set (err_chain e) then None else Some (wrap_error ''pause: '' e), f)
                  | None \<Rightarrow> (None, fs_remove (pause_path stateDir) f)))"

text \<open>\<^const>\<open>None\<close> is a read that does not return.\<close>

definition pause_ReadAt ::
  "pause_codec \<Rightarrow> goerr option \<Rightarrow> goerr option \<Rightarrow> (inode \<Rightarrow> string \<times> goerr option) \<Rightarrow> fs \<Rightarrow> string \<Rightarrow> gotime \<Rightarrow>
   PauseState option" where
  "pause_ReadAt pc flt_open flt_stat rd f stateDir now =
     (case ReadWhole flt_open flt_stat rd f (pause_path stateDir) (64 * 1024) of
        None \<Rightarrow> None
      | Some (Inl e) \<Rightarrow>
          Some (if errors_is (Some e) ErrNotExist then zero_pause
                else zero_pause\<lparr>ps_Paused := True,
                       ps_Reason := ''the pause flag exists but could not be read: '' @ err_msg e\<rparr>)
      | Some (Inr (raw, _)) \<Rightarrow>
          (case pc_unmarshal pc raw of
             Inl e \<Rightarrow> Some (zero_pause\<lparr>ps_Paused := True,
                            ps_Reason := ''the pause flag exists but could not be parsed: '' @ err_msg e\<rparr>)
           | Inr s \<Rightarrow> (let until = UntilTime pc s
                      in if until \<noteq> 0 \<and> \<not> now < until then Some zero_pause
                         else Some (s\<lparr>ps_Paused := True\<rparr>))))"

section \<open>Properties\<close>

text \<open>
  C29: The pause flag fails closed. Reading it answers "not paused" only when there is no flag, or
  when the flag was read, parsed, and carries an end that has passed; a flag that cannot be read,
  is a link, is too large or does not parse answers "paused", whatever it says of itself.
\<close>

theorem pause_fails_closed:
  assumes "pause_ReadAt pc flt_open flt_stat rd f stateDir now = Some s"
  shows "\<not> ps_Paused s \<longleftrightarrow>
    (\<exists>e. ReadWhole flt_open flt_stat rd f (pause_path stateDir) (64 * 1024) = Some (Inl e) \<and> errors_is (Some e) ErrNotExist) \<or>
    (\<exists>raw n flag. ReadWhole flt_open flt_stat rd f (pause_path stateDir) (64 * 1024) = Some (Inr (raw, n)) \<and>
       pc_unmarshal pc raw = Inr flag \<and> UntilTime pc flag \<noteq> 0 \<and> UntilTime pc flag \<le> now)"
  using assms by (auto simp: pause_ReadAt_def zero_pause_def Let_def split: option.splits sum.splits if_splits)

text \<open>What the JSON layer keeps of a flag, and that it is small.\<close>

definition pause_json_ok :: "pause_codec \<Rightarrow> string \<Rightarrow> bool" where
  "pause_json_ok pc reason \<longleftrightarrow> (\<forall>s b. ps_Reason s = reason \<and> pc_marshal pc s = Inr b \<longrightarrow>
     length b < 65536 \<and> (\<exists>s'. pc_unmarshal pc (b @ [CHR 0x0A]) = Inr s' \<and> ps_Until s' = ps_Until s))"

lemma ReadWhole_absent:
  "fs_dir f path = None \<Longrightarrow> \<exists>e. ReadWhole None None quiet f path m = Some (Inl e) \<and> errors_is (Some e) ErrNotExist"
  by (simp add: ReadWhole_def safe_Open_def fs_node_def)

text \<open>What a successful set leaves on the disk.\<close>

lemma pause_Set_written:
  assumes "fs_ok f" "pause_Set pc flt_mkdir fl rnds stateDir reason now until f = (Some None, f')" "pause_json_ok pc reason"
  obtains n b s where "ReadWhole None None quiet f' (pause_path stateDir) (64 * 1024) = Some (Inr (b, n))"
    "pc_unmarshal pc b = Inr s" "ps_Until s = (if until \<noteq> 0 then format_rfc3339 until else [])"
proof -
  let ?st = "\<lparr>ps_Paused = True, ps_Reason = reason, ps_At = format_rfc3339 now,
      ps_Until = (if until \<noteq> 0 then format_rfc3339 until else [])\<rparr>"
  obtain b where b: "pc_marshal pc ?st = Inr b"
    "WriteAtomic fl rnds (pause_path stateDir) (b @ [CHR 0x0A]) 420 f = (Some None, f')"
    using assms(2)
    by (auto simp: pause_Set_def WriteJSON_def sys_return_def Let_def split: option.splits sum.splits if_splits)
  have len: "length b < 65536" and "\<exists>s'. pc_unmarshal pc (b @ [CHR 0x0A]) = Inr s' \<and> ps_Until s' = ps_Until ?st"
    using assms(3) b(1) unfolding pause_json_ok_def by (metis PauseState.select_convs(2))+
  then obtain s where s: "pc_unmarshal pc (b @ [CHR 0x0A]) = Inr s" "ps_Until s = ps_Until ?st" by blast
  have "\<exists>n. f = f\<lparr>fs_left := n\<rparr>" by (rule exI [of _ "fs_left f"]) simp
  from tripleD [OF WriteAtomic_triple [OF assms(1)] this b(2)]
  have "fs_node f' (pause_path stateDir) =
      Some \<lparr>nd_kind = RegularNode, nd_data = b @ [CHR 0x0A], nd_synced = True, nd_perm = 420\<rparr>"
    by (simp add: placed_def fs_node_def)
  then have "ReadWhole None None quiet f' (pause_path stateDir) (64 * 1024) =
      Some (Inr (b @ [CHR 0x0A], \<lparr>nd_kind = RegularNode, nd_data = b @ [CHR 0x0A], nd_synced = True, nd_perm = 420\<rparr>))"
    using len by (auto simp: ReadWhole_def safe_Open_def quiet_def read_limited_def)
  with s that show ?thesis by simp
qed

text \<open>
  A pause lasts as it was asked for. After setting it succeeds, every read answers "paused" up
  to the second its end falls in and "not paused" from then on, or "paused" for ever when no end
  was given; and after clearing it succeeds every read answers "not paused".
\<close>

theorem pause_set_read_clear:
  assumes "fs_ok f" "pause_Set pc flt_mkdir fl rnds stateDir reason now until f = (Some None, f')"
    and "pause_json_ok pc reason" "pc_parse pc [] = None"
    and "until \<noteq> 0 \<longrightarrow> second \<le> until \<and> pc_parse pc (format_rfc3339 until) = Some (trunc_second until)"
    and "pause_Clear None stateDir f' = (Some None, f'')"
  shows "(\<exists>s. pause_ReadAt pc None None quiet f' stateDir later = Some s \<and>
      (ps_Paused s \<longleftrightarrow> until = 0 \<or> later < trunc_second until)) \<and>
    pause_ReadAt pc None None quiet f'' stateDir later = Some zero_pause"
proof -
  obtain n b s where r: "ReadWhole None None quiet f' (pause_path stateDir) (64 * 1024) = Some (Inr (b, n))"
    "pc_unmarshal pc b = Inr s" "ps_Until s = (if until \<noteq> 0 then format_rfc3339 until else [])"
    by (rule pause_Set_written [OF assms(1-3)])
  have "trunc_second until \<noteq> 0" if "second \<le> until"
    using that by (auto simp: trunc_second_def second_def)
  then have "\<exists>s. pause_ReadAt pc None None quiet f' stateDir later = Some s \<and>
      (ps_Paused s \<longleftrightarrow> until = 0 \<or> later < trunc_second until)"
    using r assms(4,5) by (auto simp: pause_ReadAt_def UntilTime_def Let_def zero_pause_def)
  moreover have "fs_dir f'' (pause_path stateDir) = None"
    using assms(6) by (auto simp: pause_Clear_def sys_op_def fs_remove_def split: if_splits option.splits)
  with ReadWhole_absent obtain e where
    "ReadWhole None None quiet f'' (pause_path stateDir) (64 * 1024) = Some (Inl e)" "errors_is (Some e) ErrNotExist" by metis
  then have "pause_ReadAt pc None None quiet f'' stateDir later = Some zero_pause"
    by (simp add: pause_ReadAt_def)
  ultimately show ?thesis by blast
qed

section \<open>A pause set, read and cleared\<close>

definition demo_pause_codec :: pause_codec where
  "demo_pause_codec = \<lparr>pc_marshal = (\<lambda>s. if length (ps_Until s) < 60 then Inr (ps_Until s) else Inl (new_error ''long'')),
     pc_unmarshal = (\<lambda>b. Inr (zero_pause\<lparr>ps_Until := butlast b\<rparr>)),
     pc_parse = (\<lambda>s. if s = format_rfc3339 (5 * second) then Some (5 * second) else None)\<rparr>"

definition demo_paused :: "goerr option option \<times> fs" where
  "demo_paused = pause_Set demo_pause_codec None no_faults [''1''] ''/p'' ''lunch'' second (5 * second) (demo_fs 40)"

theorem pause_set_read_clear_witness:
  "(\<exists>s. pause_ReadAt demo_pause_codec None None quiet (snd demo_paused) ''/p'' (4 * second) = Some s \<and> ps_Paused s) \<and>
   (\<exists>s. pause_ReadAt demo_pause_codec None None quiet (snd demo_paused) ''/p'' (5 * second) = Some s \<and> \<not> ps_Paused s)"
proof -
  have "fst demo_paused = Some None" unfolding demo_paused_def by code_simp
  then have s: "pause_Set demo_pause_codec None no_faults [''1''] ''/p'' ''lunch'' second (5 * second) (demo_fs 40)
      = (Some None, snd demo_paused)"
    unfolding demo_paused_def by (metis prod.collapse)
  have j: "pause_json_ok demo_pause_codec ''lunch''"
    by (auto simp: pause_json_ok_def demo_pause_codec_def zero_pause_def split: if_splits)
  have p: "pc_parse demo_pause_codec [] = None"
    using format_rfc3339_nonempty [of "5 * second"] by (simp add: demo_pause_codec_def eq_commute [of "[]"] del: format_rfc3339_nonempty)
  have u: "5 * second \<noteq> 0 \<longrightarrow> second \<le> 5 * second \<and>
      pc_parse demo_pause_codec (format_rfc3339 (5 * second)) = Some (trunc_second (5 * second))"
    by (simp add: demo_pause_codec_def second_def trunc_second_def)
  have "fst (pause_Clear None ''/p'' (snd demo_paused)) = Some None" unfolding demo_paused_def by code_simp
  then have c: "pause_Clear None ''/p'' (snd demo_paused) = (Some None, snd (pause_Clear None ''/p'' (snd demo_paused)))"
    by (metis prod.collapse)
  have "trunc_second (5 * second) = 5 * second" by (simp add: trunc_second_def second_def)
  with pause_set_read_clear [OF demo_fs_ok s j p u c, of "4 * second"]
    pause_set_read_clear [OF demo_fs_ok s j p u c, of "5 * second"]
  show ?thesis by (auto simp: second_def)
qed

definition demo_flag_fs :: fs where
  "demo_flag_fs = (demo_fs 0)\<lparr>fs_dir := [''/p/paused'' \<mapsto> 1]\<rparr>"

theorem pause_fails_closed_witness:
  "\<exists>s. pause_ReadAt demo_pause_codec None None quiet demo_flag_fs ''/p'' 0 = Some s \<and> ps_Paused s"
proof -
  obtain s where s: "pause_ReadAt demo_pause_codec None None quiet demo_flag_fs ''/p'' 0 = Some s"
    by (auto simp: pause_ReadAt_def ReadWhole_def safe_Open_def demo_flag_fs_def demo_fs_def fs_node_def pause_path_def PauseFile_def)
  have "ReadWhole None None quiet demo_flag_fs (pause_path ''/p'') (64 * 1024) =
      Some (Inl (ErrNotRegular_at ''/p/paused'' ''a symlink''))"
    by (simp add: ReadWhole_def safe_Open_def demo_flag_fs_def demo_fs_def fs_node_def pause_path_def PauseFile_def)
  with pause_fails_closed [OF s] s show ?thesis by (simp add: ErrNotRegular_at_def)
qed

end
