(* ===== verification/Engine.thy ===== *)
theory Engine
  imports Pool_Properties Enrichment Pause
begin

text \<open>
  One flush, \<^verbatim>\<open>src/internal/engine/engine.go\<close>: the sources of the plan one after another, each
  discovered, passed over, enriched and forgotten from, with one commit buffer, one budget and one
  report, and what is deferred to the end of the run. The pass of a source is a relation, because
  its interleaving is not determined, and so is the run.
\<close>

section \<open>What a run is given\<close>

text \<open>
  The fields of \<^verbatim>\<open>Options\<close> that only the run itself reads, and the readings of the world a run
  makes: whether the context is done when a source begins, the pause flag, the compiled scrubber, the user's name. A primitive is found by its
  name and answers with a discovery; the repository of a candidate is what the ignore filter says.
\<close>

record 'id runEnv =
  rv_o :: "'id Options"
  rv_cd :: codec
  rv_registry :: "string \<Rightarrow> (Resolved \<Rightarrow> Discovery result) option"
  rv_repository :: "Resolved \<Rightarrow> Candidate \<Rightarrow> Repository option"
  rv_enrich :: enrichEnv
  rv_CommitBatch :: int
  rv_gomaxprocs :: int
  rv_has_port :: bool
  rv_ctxErr :: "Resolved \<Rightarrow> goerr option"
  rv_pause :: PauseState
  rv_scrubber :: scrubber
  rv_slowest :: "int \<times> int"
  rv_heartbeat :: "(Report \<Rightarrow> goerr option) option"
  rv_now :: "nat \<Rightarrow> gotime"
  rv_started :: gotime
  rv_finished :: gotime

text \<open>The options as the run uses them: a preview has no log, the scrubber is the one it compiled.\<close>

definition run_options :: "'id runEnv \<Rightarrow> 'id Options" where
  "run_options rv = (rv_o rv)\<lparr>op_Log := op_Log (rv_o rv) \<and> \<not> op_DryRun (rv_o rv), op_scrub := rv_scrubber rv\<rparr>"

record 'w runState =
  ry_store :: commitBuffer
  ry_rep :: Report
  ry_budget :: int
  ry_log :: "Entry list"
  ry_world :: 'w

section \<open>Discovery\<close>

definition open_outcome :: "Resolved \<Rightarrow> SourceOutcome" where
  "open_outcome src = zero_source_outcome\<lparr>so_SourceID := src_ID src, so_Family := src_Family src,
     so_Root := src_Root src, so_Emitted := (src_Emit src \<noteq> [])\<rparr>"

definition with_repositories :: "'id runEnv \<Rightarrow> Resolved \<Rightarrow> Discovery \<Rightarrow> Discovery" where
  "with_repositories rv src disc = disc\<lparr>di_Candidates :=
     map (\<lambda>c. c\<lparr>ca_Repository := rv_repository rv src c\<rparr>) (di_Candidates disc)\<rparr>"

text \<open>The largest of the files the size cap kept out names the example.\<close>

definition note_oversize :: "Oversize \<Rightarrow> SourceOutcome \<Rightarrow> SourceOutcome" where
  "note_oversize big out =
     (if ov_Size big > so_OversizeLargest out
      then out\<lparr>so_OversizeLargest := ov_Size big, so_OversizeExample := ov_RelPath big, so_OversizeLimit := ov_Limit big\<rparr>
      else out)"

definition discovered_outcome :: "Resolved \<Rightarrow> Discovery \<Rightarrow> SourceOutcome" where
  "discovered_outcome src disc =
     fold note_oversize (di_Oversize disc)
       ((open_outcome src)\<lparr>so_Health := di_Health disc, so_Sniff := di_Sniff disc, so_AgentVersion := di_AgentVersion disc,
          so_Reason := di_Reason disc, so_Unreadable := di_Unreadable disc,
          so_UnreadableExample := di_UnreadableExample disc, so_UnreadableReason := di_UnreadableReason disc,
          so_Oversize := int (length (di_Oversize disc))\<rparr>)"

definition oversize_entry :: "'id Options \<Rightarrow> Resolved \<Rightarrow> Oversize \<Rightarrow> Entry" where
  "oversize_entry opt src big = zero_entry\<lparr>en_Decision := DecisionSkipped, en_SourceID := src_ID src,
     en_File := ov_RelPath big, en_BytesIn := ov_Size big, en_ConfigVersion := pn_ConfigVersion (op_Plan opt),
     en_Reason := ''over the size cap: '' @ itoa (ov_Size big) @ '' bytes, limit '' @ itoa (ov_Limit big) @ '' '' @
       [CHR 0xE2, CHR 0x80, CHR 0x94] @ '' not read''\<rparr>"

definition discovery_log :: "'id Options \<Rightarrow> Resolved \<Rightarrow> Discovery \<Rightarrow> Entry list" where
  "discovery_log opt src disc =
     (if op_Log opt
      then (if di_Unreadable disc > 0
            then [zero_entry\<lparr>en_Decision := DecisionSkipped, en_SourceID := src_ID src, en_File := di_UnreadableExample disc,
                    en_ConfigVersion := pn_ConfigVersion (op_Plan opt),
                    en_Reason := ''not readable during discovery: '' @ di_UnreadableReason disc\<rparr>]
            else []) @ map (oversize_entry opt src) (di_Oversize disc)
      else [])"

definition open_spec :: "'id runEnv \<Rightarrow> Resolved \<Rightarrow> commitBuffer \<Rightarrow> goerr option \<times> commitBuffer" where
  "open_spec rv src store =
     (if op_DryRun (rv_o rv) then (None, PreviewSpec (src_ID src) (src_SpecFingerprint src) store)
      else (case cb_EnsureSpec (rv_cd rv) (src_ID src) (src_SpecFingerprint src) store of ((_, e), s) \<Rightarrow> (e, s)))"

section \<open>After the pass\<close>

fun run_enrichers ::
  "'id runEnv \<Rightarrow> 'w port \<Rightarrow> Resolved \<Rightarrow> RawUnit list \<Rightarrow> Enricher list \<Rightarrow> 'w enrichState \<Rightarrow> goerr option \<times> 'w enrichState" where
  "run_enrichers rv port src staged [] st = (None, st)"
| "run_enrichers rv port src staged (e # es) st =
     (if staged = [] \<and> eh_NeedsUnits e then run_enrichers rv port src staged es st
      else (case enrichSource (run_options rv) (rv_cd rv) port (rv_enrich rv) (rv_now rv) src e staged st of
              (None, st) \<Rightarrow> run_enrichers rv port src staged es st
            | (Some err, st) \<Rightarrow> (Some err, st)))"

text \<open>The files a source still has: its candidates, and what it reported an outcome for.\<close>

definition live_paths :: "Resolved \<Rightarrow> Discovery \<Rightarrow> SourceOutcome \<Rightarrow> string list" where
  "live_paths src disc out = map (\<lambda>c. ID (KeyOf (src_ID src) c)) (di_Candidates disc) @ map fo_NativePath (so_Files out)"

definition forget_vanished ::
  "'id runEnv \<Rightarrow> Resolved \<Rightarrow> Discovery \<Rightarrow> SourceOutcome \<Rightarrow> commitBuffer \<Rightarrow> goerr option \<times> Entry list \<times> commitBuffer" where
  "forget_vanished rv src disc out store =
     (if \<not> op_DryRun (rv_o rv) \<and> so_Health out = Collected \<and> di_Candidates disc \<noteq> [] \<and> so_Remaining out = 0
      then (case cb_DropVanished (rv_cd rv) (src_ID src) (live_paths src disc out) store of
              ((_, Some e), s) \<Rightarrow> (Some e, [], s)
            | ((n, None), s) \<Rightarrow>
                (None, (if n > 0 \<and> op_Log (run_options rv)
                        then [zero_entry\<lparr>en_Decision := DecisionSkipped, en_SourceID := src_ID src,
                                en_ConfigVersion := pn_ConfigVersion (op_Plan (rv_o rv)),
                                en_Reason := ''forgot '' @ itoa n @ '' fingerprint(s) for files this source no longer has''\<rparr>]
                        else []), s))
      else (None, [], store))"

definition add_source :: "SourceOutcome \<Rightarrow> 'w runState \<Rightarrow> 'w runState" where
  "add_source out st = st\<lparr>ry_rep := (ry_rep st)\<lparr>rp_Sources := rp_Sources (ry_rep st) @ [out]\<rparr>\<rparr>"

text \<open>What follows a pass that ended without error: enrich, forget, flush, report.\<close>

definition close_source ::
  "'id runEnv \<Rightarrow> 'w port \<Rightarrow> Resolved \<Rightarrow> Discovery \<Rightarrow> RawUnit list \<Rightarrow> SourceOutcome \<Rightarrow> 'w runState \<Rightarrow> goerr option \<times> 'w runState" where
  "close_source rv port src disc staged out st =
     (case run_enrichers rv port src staged (enrichersFor (rv_enrich rv) src)
             \<lparr>es_store = ry_store st, es_out = out, es_rep = ry_rep st, es_log = ry_log st, es_world = ry_world st\<rparr> of
        (err, es) \<Rightarrow>
          (let st = st\<lparr>ry_store := es_store es, ry_rep := es_rep es, ry_log := es_log es, ry_world := es_world es\<rparr>
           in case err of
                Some e \<Rightarrow> (Some e, add_source (es_out es) st)
              | None \<Rightarrow>
                  (case forget_vanished rv src disc (es_out es) (ry_store st) of
                     (Some e, _, s) \<Rightarrow> (Some e, st\<lparr>ry_store := s\<rparr>)
                   | (None, entries, s) \<Rightarrow>
                       (case cb_Flush (rv_cd rv) s of
                          (Some e, s) \<Rightarrow> (Some e, st\<lparr>ry_store := s, ry_log := ry_log st @ entries\<rparr>)
                        | (None, s) \<Rightarrow> (None, add_source (es_out es) (st\<lparr>ry_store := s, ry_log := ry_log st @ entries\<rparr>))))))"

text \<open>The pass ended in \<open>p\<close>: its report, its budget, its log, and then its verdict.\<close>

definition after_pass ::
  "'id runEnv \<Rightarrow> 'w port \<Rightarrow> 'id passEnv \<Rightarrow> 'w sourcePass \<Rightarrow> 'w runState \<Rightarrow> goerr option \<times> 'w runState" where
  "after_pass rv port pe p st =
     (case finish_pass pe p of
        (err, q) \<Rightarrow>
          (let st = st\<lparr>ry_store := sp_store q, ry_rep := sp_rep q, ry_budget := sp_budget q,
                       ry_log := ry_log st @ sp_log q, ry_world := sp_world q\<rparr>
           in case err of
                Some e \<Rightarrow> (Some e, if stopsRun (Some e) then add_source (sp_out q) st else st)
              | None \<Rightarrow> close_source rv port (pe_src pe) (pe_disc pe) (stagedUnits q) (sp_out q) st))"

section \<open>One source\<close>

definition pass_env :: "'id runEnv \<Rightarrow> Resolved \<Rightarrow> Discovery \<Rightarrow> 'id passEnv" where
  "pass_env rv src disc = \<lparr>pe_o = run_options rv, pe_cd = rv_cd rv, pe_src = src, pe_disc = with_repositories rv src disc,
     pe_staging = (enrichersFor (rv_enrich rv) src \<noteq> []), pe_gomaxprocs = rv_gomaxprocs rv\<rparr>"

definition begin_pass :: "'id runEnv \<Rightarrow> Resolved \<Rightarrow> Discovery \<Rightarrow> commitBuffer \<Rightarrow> 'w runState \<Rightarrow> 'w sourcePass" where
  "begin_pass rv src disc store st =
     start_pass (pass_env rv src disc) store (ry_rep st) (discovered_outcome src disc) (ry_budget st) (ry_world st)"

definition failed_outcome :: "HealthState \<Rightarrow> string \<Rightarrow> Resolved \<Rightarrow> SourceOutcome" where
  "failed_outcome h reason src = (open_outcome src)\<lparr>so_Health := h, so_Reason := reason\<rparr>"

inductive run_source :: "'id runEnv \<Rightarrow> 'w port \<Rightarrow> Resolved \<Rightarrow> 'w runState \<Rightarrow> goerr option \<times> 'w runState \<Rightarrow> bool"
  for rv port src where
  cancelled: "rv_ctxErr rv src = Some e \<Longrightarrow> run_source rv port src st (Some e, st)"
| disabled: "rv_ctxErr rv src = None \<Longrightarrow> \<not> src_Enabled src \<Longrightarrow>
    run_source rv port src st (None, add_source (failed_outcome AgentAbsent ''disabled by configuration'' src) st)"
| unregistered: "rv_ctxErr rv src = None \<Longrightarrow> src_Enabled src \<Longrightarrow> rv_registry rv (src_Gather src) = None \<Longrightarrow>
    run_source rv port src st (None, add_source (failed_outcome MatchPresentUnreadable
      (''gather: no compiled primitive '' @ quote (src_Gather src)) src) st)"
| undiscovered: "rv_ctxErr rv src = None \<Longrightarrow> src_Enabled src \<Longrightarrow> rv_registry rv (src_Gather src) = Some prim \<Longrightarrow> prim src = Inl e \<Longrightarrow>
    run_source rv port src st (None, add_source (failed_outcome MatchPresentUnreadable (err_msg e) src) st)"
| unspecced: "rv_ctxErr rv src = None \<Longrightarrow> src_Enabled src \<Longrightarrow> rv_registry rv (src_Gather src) = Some prim \<Longrightarrow> prim src = Inr disc \<Longrightarrow>
    open_spec rv src (ry_store st) = (Some e, store) \<Longrightarrow>
    run_source rv port src st (Some e, st\<lparr>ry_store := store\<rparr>)"
| passed: "rv_ctxErr rv src = None \<Longrightarrow> src_Enabled src \<Longrightarrow> rv_registry rv (src_Gather src) = Some prim \<Longrightarrow> prim src = Inr disc \<Longrightarrow>
    open_spec rv src (ry_store st) = (None, store) \<Longrightarrow>
    (pass_step (pass_env rv src disc) port)\<^sup>*\<^sup>* (begin_pass rv src disc store st) p \<Longrightarrow> sp_phase p = Finished \<Longrightarrow>
    run_source rv port src st
      (after_pass rv port (pass_env rv src disc) p
        (st\<lparr>ry_log := ry_log st @ discovery_log (run_options rv) src (with_repositories rv src disc)\<rparr>))"

section \<open>The run\<close>

inductive run_sources :: "'id runEnv \<Rightarrow> 'w port \<Rightarrow> Resolved list \<Rightarrow> 'w runState \<Rightarrow> goerr option \<times> 'w runState \<Rightarrow> bool"
  for rv port where
  no_more: "run_sources rv port [] st (None, st)"
| stop: "run_source rv port src st (Some e, st') \<Longrightarrow> run_sources rv port (src # srcs) st (Some e, st')"
| go_on: "run_source rv port src st (None, st') \<Longrightarrow> run_sources rv port srcs st' r \<Longrightarrow>
    run_sources rv port (src # srcs) st r"

text \<open>Sorting by the source's id, and the heartbeat, which fails open.\<close>

definition end_run :: "'id runEnv \<Rightarrow> 'w runState \<Rightarrow> 'w runState" where
  "end_run rv st =
     (let rep = (ry_rep st)\<lparr>rp_Sources := sort_key so_SourceID (rp_Sources (ry_rep st))\<rparr>;
          st = st\<lparr>ry_rep := rep\<rparr>
      in case rv_heartbeat rv of
           None \<Rightarrow> st
         | Some hb \<Rightarrow>
             if op_DryRun (rv_o rv) then st
             else (case hb rep of
                     None \<Rightarrow> st
                   | Some e \<Rightarrow> if op_Log (run_options rv)
                       then st\<lparr>ry_log := ry_log st @ [zero_entry\<lparr>en_Decision := DecisionFailed,
                              en_Reason := ''heartbeat write failed: '' @ err_msg e\<rparr>]\<rparr>
                       else st))"

text \<open>What is deferred: the flush, whose error counts only when there is no other, then the totals.\<close>

definition deferred :: "'id runEnv \<Rightarrow> bool \<Rightarrow> goerr option \<times> 'w runState \<Rightarrow> goerr option \<times> 'w runState" where
  "deferred rv compiled r =
     (case r of (err, st) \<Rightarrow>
      case cb_Flush (rv_cd rv) (ry_store st) of (ferr, s) \<Rightarrow>
        (let rep = (ry_rep st)\<lparr>rp_FinishedAt := rv_finished rv\<rparr>;
             rep = (if compiled \<and> (\<exists>f. rv_scrubber rv = Inr f)
                    then rep\<lparr>rp_SlowestScrubNanos := fst (rv_slowest rv), rp_SlowestScrubBytes := snd (rv_slowest rv)\<rparr> else rep)
         in (if ferr \<noteq> None \<and> err = None then ferr else err, st\<lparr>ry_store := s, ry_rep := summarize rep\<rparr>)))"

definition MaxInt :: int where "MaxInt = 2 ^ 63 - 1"

definition run_start :: "'id runEnv \<Rightarrow> Store \<Rightarrow> 'w \<Rightarrow> 'w runState" where
  "run_start rv store w = \<lparr>ry_store = newCommitBuffer store (rv_CommitBatch rv), ry_rep = zero_report,
     ry_budget = (if op_Unbounded (rv_o rv) then MaxInt else pn_MaxFilesPerRun (op_Plan (rv_o rv))),
     ry_log = [], ry_world = w\<rparr>"

definition started :: "'id runEnv \<Rightarrow> Store \<Rightarrow> 'w runState \<Rightarrow> 'w runState" where
  "started rv store st = st\<lparr>ry_rep := zero_report\<lparr>rp_StartedAt := rv_started rv, rp_StoreCorrupt := st_corrupt store\<rparr>\<rparr>"

inductive Run :: "'id runEnv \<Rightarrow> 'w port \<Rightarrow> Store \<Rightarrow> 'w \<Rightarrow> goerr option \<times> 'w runState \<Rightarrow> bool"
  for rv port store w where
  no_port: "\<not> rv_has_port rv \<and> \<not> op_DryRun (rv_o rv) \<Longrightarrow>
    Run rv port store w (Some (new_error (''engine: no upload port; a run that ships needs one, and only '' @
      ''preview runs without it'')), run_start rv store w)"
| no_recipients: "rv_has_port rv \<or> op_DryRun (rv_o rv) \<Longrightarrow> op_Recipients (rv_o rv) = [] \<Longrightarrow>
    Run rv port store w (deferred rv False (Some (new_error ''engine: no age recipients configured''), run_start rv store w))"
| paused: "rv_has_port rv \<Longrightarrow> op_Recipients (rv_o rv) \<noteq> [] \<Longrightarrow> \<not> op_DryRun (rv_o rv) \<Longrightarrow> ps_Paused (rv_pause rv) \<Longrightarrow>
    st = started rv store (run_start rv store w) \<Longrightarrow>
    Run rv port store w (deferred rv False (None,
      st\<lparr>ry_rep := (ry_rep st)\<lparr>rp_Paused := True, rp_PauseReason := ps_Reason (rv_pause rv)\<rparr>\<rparr>))"
| ran: "rv_has_port rv \<or> op_DryRun (rv_o rv) \<Longrightarrow> op_Recipients (rv_o rv) \<noteq> [] \<Longrightarrow>
    op_DryRun (rv_o rv) \<or> \<not> ps_Paused (rv_pause rv) \<Longrightarrow>
    run_sources rv port (pn_Sources (op_Plan (rv_o rv))) (started rv store (run_start rv store w)) (err, st) \<Longrightarrow>
    Run rv port store w (deferred rv True (err, if err = None then end_run rv st else st))"

end
