(* ===== verification/World_Invariant.thy ===== *)
theory World_Invariant
  imports Engine
begin

text \<open>
  What a flush does to the world behind its upload port: nothing but calls of the port. The
  interface states the one law a client needs, that a call keeps a predicate of the world, and its
  lemmas carry the predicate through groups, passes, enrichers, sources and the whole run.
\<close>

lemma settle_world [simp]: "sp_world (settle pe rd r p) = sp_world p"
proof -
  obtain r' p' where "applyIntent (pe_cd pe) r p = (r', p')" by (rule prod.exhaust)
  from loop_part_eqD [OF settle_facts(1) [OF this, of rd]] show ?thesis by simp
qed

lemma fold_settle_world [simp]: "sp_world (fold (settle pe rd) rs p) = sp_world p"
  by (induction rs arbitrary: p) simp_all

lemma fold_settle_derived_world [simp]: "ds_world (fold (settle_derived cd) ios st) = ds_world st"
  by (induction ios arbitrary: st) (auto simp: settle_derived_def Let_def split: prod.split)

lemma finish_pass_frame:
  "sp_store (snd (finish_pass pe p)) = sp_store p" "sp_world (snd (finish_pass pe p)) = sp_world p"
  "sp_budget (snd (finish_pass pe p)) = sp_budget p"
  by (simp_all add: finish_pass_def assemble_def log_if_def Let_def)

lemma end_run_simps [simp]: "ry_store (end_run rv st) = ry_store st" "ry_world (end_run rv st) = ry_world st"
  by (simp_all add: end_run_def Let_def split: option.split)

locale kept_world =
  fixes port :: "'w port" and ok :: "'w \<Rightarrow> bool"
  assumes port_keeps: "ok w \<Longrightarrow> ok (snd (port batch w))"
begin

lemma port_keepsD: "port batch w = (oc, w') \<Longrightarrow> ok w \<Longrightarrow> ok w'"
  using port_keeps by (metis snd_conv)

lemma authorize_keeps: "ok w \<Longrightarrow> ok (snd (authorizeAndUpload port items w))"
  by (auto simp: authorizeAndUpload_def Let_def dest!: port_keepsD split: prod.split)

lemma sendBatch_keeps: "sendBatch port g w = (rs, w') \<Longrightarrow> ok w \<Longrightarrow> ok w'"
  using authorize_keeps [of w g] by (auto simp: sendBatch_def split: prod.splits)

lemma pass_step_keeps:
  assumes "pass_step pe port p q" "ok (sp_world p)"
  shows "ok (sp_world q)"
  using assms(1)
proof cases
  case (admit rd p')
  obtain ch c where "dispatch pe rd p' = p\<lparr>sp_charges := ch, sp_budget := sp_budget p - 1,
     sp_inFlightBytes := sp_inFlightBytes p + c, sp_jobs := sp_jobs p @ [job_for pe p (sp_next p)],
     sp_next := sp_next p + 1, sp_inFlight := sp_inFlight p + 1, sp_computing := sp_computing p + 1\<rparr>"
    by (rule admit_frame [OF admit(4)])
  with assms(2) show ?thesis unfolding admit(1) by simp
next
  case (admit_end p' rd)
  then have "sp_world p' = sp_world p" by (elim disjE conjE) (simp, erule canAdmit_False, simp)
  with assms(2) show ?thesis unfolding admit_end(1) by (simp add: end_admission_def Let_def split: prod.split)
next
  case (result job now r pending rd)
  with assms(2) show ?thesis unfolding result(1)
    by (auto simp: receive_result_def stageUpload_def Let_def split: prod.split option.split)
next
  case (batch g rs w rd)
  have "sp_world (receive_batch pe rd g rs w p) = w"
    by (simp add: receive_batch_def drainStaged_def Let_def split: prod.split)
  with sendBatch_keeps [OF batch(4) assms(2)] show ?thesis unfolding batch(1) by simp
qed

lemma pass_keeps:
  assumes "(pass_step pe port)\<^sup>*\<^sup>* p q" "ok (sp_world p)"
  shows "ok (sp_world q)"
  using assms by (induction rule: rtranclp_induct) (auto dest: pass_step_keeps)

lemma send_derived_keeps: "ok (ds_world st) \<Longrightarrow> ok (ds_world (send_derived cd port g st))"
  using authorize_keeps [of "ds_world st" g] by (auto simp: send_derived_def split: prod.split)

lemma fold_send_derived_keeps: "ok (ds_world st) \<Longrightarrow> ok (ds_world (fold (send_derived cd port) gs st))"
  by (induction gs arbitrary: st) (auto intro: send_derived_keeps)

lemma ship_flush_keeps: "ok (ds_world st) \<Longrightarrow> ok (ds_world (ship_flush cd port st))"
  by (auto simp: ship_flush_def intro!: fold_send_derived_keeps split: prod.split)

lemma ship_one_keeps: "ok (ds_world st) \<Longrightarrow> ok (ds_world (ship_one opt cd port now src e dbPath x st))"
  by (auto simp: ship_one_def Let_def intro!: fold_send_derived_keeps split: prod.split option.split)

lemma ship_derived_keeps:
  assumes "ok w"
  shows "ok (ds_world (shipDerivedGroups opt cd port now src e dbPath objs store w))"
proof -
  have "ok (ds_world st) \<Longrightarrow> ok (ds_world (fold (ship_one opt cd port now src e dbPath) xs st))" for xs st
    by (induction xs arbitrary: st) (auto intro: ship_one_keeps)
  with assms show ?thesis by (simp add: shipDerivedGroups_def ship_start_def ship_flush_keeps)
qed

lemma enrichSource_keeps:
  assumes "enrichSource opt cd port ee now src e staged st = (err, st')" "ok (es_world st)"
  shows "ok (es_world st')"
  using assms by (auto simp: enrichSource_def Let_def ship_derived_keeps split: option.splits)

lemma run_enrichers_keeps:
  assumes "run_enrichers rv port src staged es st = (err, st')" "ok (es_world st)"
  shows "ok (es_world st')"
  using assms
proof (induction es arbitrary: st)
  case (Cons e es)
  show ?case
  proof (cases "staged = [] \<and> eh_NeedsUnits e")
    case True
    with Cons show ?thesis by simp
  next
    case False
    obtain err1 st1 where e: "enrichSource (run_options rv) (rv_cd rv) port (rv_enrich rv) (rv_now rv) src e staged st = (err1, st1)"
      by (rule prod.exhaust)
    from enrichSource_keeps [OF e Cons.prems(2)] Cons e False show ?thesis by (auto split: option.splits)
  qed
qed simp

lemma close_source_keeps:
  assumes "close_source rv port src disc staged out st = (err, st')" "ok (ry_world st)"
  shows "ok (ry_world st')"
proof -
  obtain err1 es where re: "run_enrichers rv port src staged (enrichersFor (rv_enrich rv) src)
      \<lparr>es_store = ry_store st, es_out = out, es_rep = ry_rep st, es_log = ry_log st, es_world = ry_world st\<rparr> = (err1, es)"
    by (rule prod.exhaust)
  have "ok (es_world es)" by (rule run_enrichers_keeps [OF re]) (simp add: assms(2))
  with assms(1) re show ?thesis
    by (auto simp: close_source_def add_source_def Let_def split: option.splits prod.splits)
qed

lemma run_source_keeps:
  assumes "run_source rv port src st (err, st')" "ok (ry_world st)"
  shows "ok (ry_world st')"
  using assms(1)
proof cases
  case (passed prim disc s p)
  have "ok (sp_world (begin_pass rv src disc s st))" using assms(2) by (simp add: begin_pass_def start_pass_def Let_def)
  from pass_keeps [OF passed(7) this] have p: "ok (sp_world p)" .
  obtain e q where f: "finish_pass (pass_env rv src disc) p = (e, q)" by (rule prod.exhaust)
  have q: "ok (sp_world q)" using finish_pass_frame(2) [of "pass_env rv src disc" p] f p by simp
  note ap = passed(1) [symmetric, unfolded after_pass_def f prod.case Let_def]
  show ?thesis
  proof (cases e)
    case (Some x)
    with ap q show ?thesis by (auto simp: add_source_def split: if_splits)
  next
    case None
    from ap None have c: "close_source rv port (pe_src (pass_env rv src disc)) (pe_disc (pass_env rv src disc)) (stagedUnits q)
        (sp_out q) (st\<lparr>ry_store := sp_store q, ry_rep := sp_rep q, ry_budget := sp_budget q,
          ry_log := ry_log st @ discovery_log (run_options rv) src (with_repositories rv src disc) @ sp_log q,
          ry_world := sp_world q\<rparr>) = (err, st')" by simp
    from close_source_keeps [OF c] q show ?thesis by simp
  qed
qed (use assms(2) in \<open>simp_all add: add_source_def\<close>)

lemma run_sources_keeps:
  assumes "run_sources rv port srcs st r" "ok (ry_world st)"
  shows "ok (ry_world (snd r))"
  using assms by (induction rule: run_sources.induct) (auto dest: run_source_keeps)

lemma deferred_keeps: "deferred rv c (e, st) = (err, st') \<Longrightarrow> ok (ry_world st) \<Longrightarrow> ok (ry_world st')"
  by (auto simp: deferred_def Let_def split: prod.splits)

lemma Run_keeps:
  assumes "Run rv port store w (err, st)" "ok w"
  shows "ok (ry_world st)"
proof -
  have s: "ok (ry_world (run_start rv store w))" "ok (ry_world (started rv store (run_start rv store w)))"
    using assms(2) by (simp_all add: run_start_def started_def)
  from assms(1) show ?thesis
  proof cases
    case (ran e st1)
    have "ok (ry_world st1)" using run_sources_keeps [OF ran(5) s(2)] by simp
    then show ?thesis by (intro deferred_keeps [OF ran(1) [symmetric]]) simp
  qed (use s in \<open>auto dest: deferred_keeps [OF sym]\<close>)
qed

end

end
