(* ===== verification/Engine_Properties.thy ===== *)
theory Engine_Properties
  imports World_Invariant
begin

text \<open>
  What a whole flush guarantees: it ends; a fingerprint it leaves in the store was there before or is
  that of an object the port confirmed; a paused run and a preview leave no trace; a run that
  reports no error has made everything durable; and its totals are those of the outcomes.
\<close>

section \<open>The trace only grows\<close>

interpretation grows: kept_world "traced port" "\<lambda>tw. prefix tr (fst tw)" for port :: "'w port" and tr
  by unfold_locales (auto simp: traced_def intro: prefix_order.trans split: prod.splits)

lemmas pass_reach_world = grows.pass_keeps [OF _ prefix_order.refl]
lemmas ship_derived_world = grows.ship_derived_keeps [OF prefix_order.refl]

section \<open>The store across generations and deletions\<close>

definition views_within :: "commitBuffer \<Rightarrow> commitBuffer \<Rightarrow> bool" where
  "views_within b b' \<longleftrightarrow> cb_inv b' \<and> (\<forall>k fp. cb_view b' k = Some fp \<longrightarrow> cb_view b k = Some fp)"

lemma views_within_trans: "views_within a b \<Longrightarrow> views_within b c \<Longrightarrow> views_within a c"
  by (auto simp: views_within_def)

lemma Flush_within: "cb_inv b \<Longrightarrow> cb_Flush cd b = (e, b') \<Longrightarrow> views_within b b'"
  by (simp add: views_within_def cb_inv_Flush cb_view_Flush)

lemma drop_within:
  assumes "cb_inv b" "cb_pending b = []" "st_entries s' = map_drop p (st_entries (cb_store b)) \<or> st_entries s' = st_entries (cb_store b)"
  shows "views_within b (b\<lparr>cb_store := s'\<rparr>)"
proof -
  have "storable (st_entries (cb_store b))" using assms(1) by (simp add: cb_inv_def)
  then have "map_ok (st_entries (cb_store b))" by (simp add: storable_def)
  moreover have "map_get [] k = None" for k :: Key by (simp add: map_get_def)
  ultimately show ?thesis using assms unfolding views_within_def
    by (auto simp: cb_inv_def cb_view_def storable_drop split: option.splits if_splits)
qed

lemma EnsureSpec_within:
  assumes "cb_inv b" "cb_EnsureSpec cd src g b = (r, b')"
  shows "views_within b b'"
proof -
  obtain e b1 where f: "cb_Flush cd b = (e, b1)" by fastforce
  note w = Flush_within [OF assms(1) f]
  show ?thesis
  proof (cases e)
    case (Some x)
    with w f assms(2) show ?thesis by (simp add: cb_EnsureSpec_def)
  next
    case None
    with cb_Flush_frame [OF f] have p: "cb_pending b1 = []" by simp
    obtain s where s: "EnsureSpec cd src g (cb_store b1) = (r, s)" "b' = b1\<lparr>cb_store := s\<rparr>"
      using assms(2) f None by (auto simp: cb_EnsureSpec_def split: prod.splits)
    have "st_entries s = map_drop (\<lambda>k _. SourceID k = src) (st_entries (cb_store b1)) \<or> st_entries s = st_entries (cb_store b1)"
      using s(1) by (auto simp: EnsureSpec_def drop_entries_def Let_def split: if_splits prod.splits dest!: store_flush_keeps)
    with drop_within [OF _ p, of s] w have "views_within b1 (b1\<lparr>cb_store := s\<rparr>)" by (auto simp: views_within_def)
    with views_within_trans [OF w] s(2) show ?thesis by simp
  qed
qed

lemma DropVanished_within:
  assumes "cb_inv b" "cb_DropVanished cd src live b = (r, b')"
  shows "views_within b b'"
proof -
  obtain e b1 where f: "cb_Flush cd b = (e, b1)" by fastforce
  note w = Flush_within [OF assms(1) f]
  show ?thesis
  proof (cases e)
    case (Some x)
    with w f assms(2) show ?thesis by (simp add: cb_DropVanished_def)
  next
    case None
    with cb_Flush_frame [OF f] have p: "cb_pending b1 = []" by simp
    obtain s where s: "DropVanished cd src live (cb_store b1) = (r, s)" "b' = b1\<lparr>cb_store := s\<rparr>"
      using assms(2) f None by (auto simp: cb_DropVanished_def split: prod.splits)
    have "st_entries s = map_drop (\<lambda>k _. SourceID k = src \<and> ID k \<notin> set live) (st_entries (cb_store b1))
        \<or> st_entries s = st_entries (cb_store b1)"
      using s(1) by (auto simp: DropVanished_def drop_entries_def Let_def split: if_splits prod.splits dest!: store_flush_keeps)
    with drop_within [OF _ p, of s] w have "views_within b1 (b1\<lparr>cb_store := s\<rparr>)" by (auto simp: views_within_def)
    with views_within_trans [OF w] s(2) show ?thesis by simp
  qed
qed

section \<open>What the store may hold\<close>

text \<open>The hash of something a source of the plan loaded or derived, whose own object the port confirmed.\<close>

definition confirmed_content :: "'id runEnv \<Rightarrow> (string \<Rightarrow> bool) \<Rightarrow> Key \<Rightarrow> string \<Rightarrow> bool" where
  "confirmed_content rv P k h \<longleftrightarrow> (\<exists>src \<in> set (pn_Sources (op_Plan (rv_o rv))).
     (\<exists>prim disc c payload key. rv_registry rv (src_Gather src) = Some prim \<and> prim src = Inr disc \<and>
        c \<in> set (di_Candidates disc) \<and> KeyOf (src_ID src) c = k \<and> ca_Load c = Inr payload \<and> h = change_hash payload \<and>
        mirrorKey (rv_o rv) (src_ID src) (cmp_or [ca_Identity c, ca_RelPath c]) = Inr key \<and> P key) \<or>
     (\<exists>e \<in> set (enrichersFor (rv_enrich rv) src). \<exists>inp. \<exists>d \<in> set (eo_Objects (eh_Enrich e inp)). \<exists>key.
        derived_key src d = k \<and> h = Hash (dv_Payload d) \<and>
        mirrorKey (rv_o rv) (src_ID src) (derived_relPath src d) = Inr key \<and> P key))"

lemma confirmed_content_mono:
  assumes "confirmed_content rv P k h" "\<And>key. P key \<Longrightarrow> Q key"
  shows "confirmed_content rv Q k h"
  using assms unfolding confirmed_content_def by meson

definition shipped_hash :: "'id runEnv \<Rightarrow> trace \<Rightarrow> Key \<Rightarrow> string \<Rightarrow> bool" where
  "shipped_hash rv calls = confirmed_content rv (confirmed_key calls)"

definition run_ok :: "'id runEnv \<Rightarrow> (Key \<Rightarrow> Fingerprint option) \<Rightarrow> commitBuffer \<Rightarrow> trace \<Rightarrow> bool" where
  "run_ok rv view0 b calls \<longleftrightarrow> cb_inv b \<and> (\<forall>k fp. cb_view b k = Some fp \<longrightarrow>
     fp_SourceHash fp = [] \<or> (\<exists>fp0. view0 k = Some fp0 \<and> fp_SourceHash fp0 = fp_SourceHash fp) \<or>
     shipped_hash rv calls k (fp_SourceHash fp))"

text \<open>Paths that are never empty, which discovery and the enrichers' naming give.\<close>

definition paths_ok :: "'id runEnv \<Rightarrow> bool" where
  "paths_ok rv \<longleftrightarrow> (\<forall>src \<in> set (pn_Sources (op_Plan (rv_o rv))).
     (\<forall>prim disc. rv_registry rv (src_Gather src) = Some prim \<and> prim src = Inr disc \<longrightarrow>
        (\<forall>c \<in> set (di_Candidates disc). ca_Path c \<noteq> [])) \<and>
     (\<forall>e \<in> set (enrichersFor (rv_enrich rv) src). \<forall>inp. \<forall>d \<in> set (eo_Objects (eh_Enrich e inp)). dv_NativePath d \<noteq> []))"

lemma confirmed_key_prefix: "confirmed_key a key \<Longrightarrow> prefix a b \<Longrightarrow> confirmed_key b key"
  by (auto simp: prefix_def confirmed_key_mono)

lemma shipped_hash_prefix: "shipped_hash rv a k h \<Longrightarrow> prefix a b \<Longrightarrow> shipped_hash rv b k h"
  unfolding shipped_hash_def using confirmed_content_mono confirmed_key_prefix by metis

lemma run_ok_prefix: "run_ok rv view0 s a \<Longrightarrow> prefix a b \<Longrightarrow> run_ok rv view0 s b"
  unfolding run_ok_def using shipped_hash_prefix by meson

lemma run_ok_within: "run_ok rv view0 s calls \<Longrightarrow> views_within s s' \<Longrightarrow> run_ok rv view0 s' calls"
  unfolding run_ok_def views_within_def by blast

lemma run_options_simps [simp]:
  "mirrorKey (run_options rv) = mirrorKey (rv_o rv)" "op_Plan (run_options rv) = op_Plan (rv_o rv)"
  "op_DryRun (run_options rv) = op_DryRun (rv_o rv)" "op_Recipients (run_options rv) = op_Recipients (rv_o rv)"
  by (simp_all add: run_options_def mirrorKey_def fun_eq_iff)

lemma pass_env_simps [simp]:
  "pe_o (pass_env rv src disc) = run_options rv" "pe_src (pass_env rv src disc) = src" "pe_cd (pass_env rv src disc) = rv_cd rv"
  "candidates (pass_env rv src disc) = map (\<lambda>c. c\<lparr>ca_Repository := rv_repository rv src c\<rparr>) (di_Candidates disc)"
  by (simp_all add: pass_env_def candidates_def with_repositories_def)

lemma run_ok_pass:
  assumes ok: "run_ok rv view0 s (fst tw)" and src: "src \<in> set (pn_Sources (op_Plan (rv_o rv)))"
    and disc: "rv_registry rv (src_Gather src) = Some prim" "prim src = Inr disc" and paths: "paths_ok rv"
    and reach: "(pass_step (pass_env rv src disc) (traced port))\<^sup>*\<^sup>* (start_pass (pass_env rv src disc) s rep out budget tw) p"
  shows "run_ok rv view0 (sp_store p) (fst (sp_world p))"
proof -
  let ?pe = "pass_env rv src disc"
  have s: "cb_inv s" using ok by (simp add: run_ok_def)
  have "\<forall>c \<in> set (candidates ?pe). ca_Path c \<noteq> []" using paths src disc by (auto simp: paths_ok_def)
  note l = reach_ledger [OF reach s this]
  have pre: "prefix (fst tw) (fst (sp_world p))"
    using pass_reach_world [OF reach] by (simp add: start_pass_def Let_def)
  have "fp_SourceHash fp = [] \<or> (\<exists>fp0. view0 k = Some fp0 \<and> fp_SourceHash fp0 = fp_SourceHash fp) \<or>
      shipped_hash rv (fst (sp_world p)) k (fp_SourceHash fp)" if v: "cb_view (sp_store p) k = Some fp" for k fp
  proof -
    have "hash_ok ?pe (cb_view s) (fst (sp_world p)) k (fp_SourceHash fp)" using l v by (simp add: ledger_def)
    then consider "fp_SourceHash fp = []" | fp1 where "cb_view s k = Some fp1" "fp_SourceHash fp1 = fp_SourceHash fp"
      | i payload key where "i < length (candidates ?pe)" "KeyOf (src_ID src) (candidates ?pe ! i) = k"
          "ca_Load (candidates ?pe ! i) = Inr payload" "fp_SourceHash fp = change_hash payload"
          "object_of ?pe i = Inr key" "confirmed_key (fst (sp_world p)) key"
      unfolding hash_ok_def by auto
    then show ?thesis
    proof cases
      case (2 fp1)
      with ok have "fp_SourceHash fp = [] \<or> (\<exists>fp0. view0 k = Some fp0 \<and> fp_SourceHash fp0 = fp_SourceHash fp) \<or>
          shipped_hash rv (fst tw) k (fp_SourceHash fp)" unfolding run_ok_def by metis
      with shipped_hash_prefix [OF _ pre] show ?thesis by blast
    next
      case (3 i payload key)
      let ?c = "di_Candidates disc ! i"
      have i: "i < length (di_Candidates disc)" using 3(1) by simp
      have "?c \<in> set (di_Candidates disc)" "KeyOf (src_ID src) ?c = k" "ca_Load ?c = Inr payload"
        "mirrorKey (rv_o rv) (src_ID src) (cmp_or [ca_Identity ?c, ca_RelPath ?c]) = Inr key"
        using 3 i by (simp_all add: KeyOf_def object_of_def Let_def del: cmp_or.simps)
      with src disc 3(4,6) have "shipped_hash rv (fst (sp_world p)) k (fp_SourceHash fp)"
        unfolding shipped_hash_def confirmed_content_def by blast
      then show ?thesis by blast
    qed simp
  qed
  moreover have "cb_inv (sp_store p)" using l by (simp add: ledger_def)
  ultimately show ?thesis by (simp add: run_ok_def)
qed

lemma run_ok_enrich:
  fixes st :: "(trace \<times> 'w) enrichState"
  assumes ok: "run_ok rv view0 (es_store st) (fst (es_world st))" and src: "src \<in> set (pn_Sources (op_Plan (rv_o rv)))"
    and e: "e \<in> set (enrichersFor (rv_enrich rv) src)" and paths: "paths_ok rv"
    and es: "enrichSource (run_options rv) cd (traced port) ee now src e staged st = (err, st')"
  shows "run_ok rv view0 (es_store st') (fst (es_world st'))"
proof -
  define inp where "inp = \<lparr>ip_Units = staged, ip_DBPath = FirstExistingFile (ee_Env ee) (ee_stat ee) (eh_DBCandidates e),
      ip_ScratchDir = pn_StateDir (op_Plan (run_options rv)) @ ''/scratch''\<rparr>"
  let ?objs = "eo_Objects (eh_Enrich e inp)"
  define ds where "ds = shipDerivedGroups (run_options rv) cd (traced port) now src e (ip_DBPath inp) ?objs (es_store st) (es_world st)"
  have st': "es_store st' = ds_store ds" "es_world st' = ds_world ds"
    using es by (auto simp: enrichSource_def ds_def inp_def Let_def split: option.splits)
  have s: "cb_inv (es_store st)" using ok by (simp add: run_ok_def)
  have p: "\<forall>d \<in> set ?objs. dv_NativePath d \<noteq> []" using paths src e by (simp add: paths_ok_def)
  have inv: "ship_inv (run_options rv) src ?objs (cb_view (es_store st)) (length ?objs) [] ds"
    unfolding ds_def using ship_derived_inv [OF s p] by blast
  have pre: "prefix (fst (es_world st)) (fst (ds_world ds))" unfolding ds_def by (rule ship_derived_world)
  have "fp_SourceHash fp = [] \<or> (\<exists>fp0. view0 k = Some fp0 \<and> fp_SourceHash fp0 = fp_SourceHash fp) \<or>
      shipped_hash rv (fst (ds_world ds)) k (fp_SourceHash fp)" if v: "cb_view (ds_store ds) k = Some fp" for k fp
  proof -
    have "entry_ok (run_options rv) src ?objs (cb_view (es_store st)) (fst (ds_world ds)) k fp"
      using inv v by (simp add: ship_inv_def)
    then consider "cb_view (es_store st) k = Some fp"
      | d key where "d \<in> set ?objs" "derived_key src d = k" "fp_SourceHash fp = Hash (dv_Payload d)"
          "mirrorKey (rv_o rv) (src_ID src) (derived_relPath src d) = Inr key" "confirmed_key (fst (ds_world ds)) key"
      unfolding entry_ok_def run_options_simps by blast
    then show ?thesis
    proof cases
      case 1
      with ok have "fp_SourceHash fp = [] \<or> (\<exists>fp0. view0 k = Some fp0 \<and> fp_SourceHash fp0 = fp_SourceHash fp) \<or>
          shipped_hash rv (fst (es_world st)) k (fp_SourceHash fp)" unfolding run_ok_def by metis
      with shipped_hash_prefix [OF _ pre] show ?thesis by blast
    next
      case (2 d key)
      with src e have "shipped_hash rv (fst (ds_world ds)) k (fp_SourceHash fp)" unfolding shipped_hash_def confirmed_content_def by blast
      then show ?thesis by blast
    qed
  qed
  moreover have "cb_inv (ds_store ds)" using inv by (simp add: ship_inv_def)
  ultimately show ?thesis by (simp add: run_ok_def st')
qed

section \<open>The run\<close>

lemma run_ok_enrichers:
  assumes "run_ok rv view0 (es_store st) (fst (es_world st))" "src \<in> set (pn_Sources (op_Plan (rv_o rv)))"
    and "set es \<subseteq> set (enrichersFor (rv_enrich rv) src)" "paths_ok rv"
    and "run_enrichers rv (traced port) src staged es st = (err, st')"
  shows "run_ok rv view0 (es_store st') (fst (es_world st'))"
  using assms(1,3,5)
proof (induction es arbitrary: st)
  case (Cons e es)
  show ?case
  proof (cases "staged = [] \<and> eh_NeedsUnits e")
    case True
    with Cons show ?thesis by simp
  next
    case False
    obtain err1 st1 where e: "enrichSource (run_options rv) (rv_cd rv) (traced port) (rv_enrich rv) (rv_now rv) src e staged st = (err1, st1)"
      by fastforce
    have "run_ok rv view0 (es_store st1) (fst (es_world st1))"
      by (rule run_ok_enrich [OF Cons.prems(1) assms(2) _ assms(4) e]) (use Cons.prems(2) in simp)
    with Cons e False show ?thesis by (auto split: option.splits)
  qed
qed simp

lemma views_within_refl: "cb_inv b \<Longrightarrow> views_within b b"
  by (simp add: views_within_def)

lemma forget_within:
  assumes "cb_inv b" "forget_vanished rv src disc out b = (e, entries, b')"
  shows "views_within b b'"
proof -
  obtain r s where "cb_DropVanished (rv_cd rv) (src_ID src) (live_paths src disc out) b = (r, s)" by (rule prod.exhaust)
  then obtain n e' where d: "cb_DropVanished (rv_cd rv) (src_ID src) (live_paths src disc out) b = ((n, e'), s)" by (cases r) simp
  note w = DropVanished_within [OF assms(1) d]
  have "b' = b \<or> b' = s" using assms(2) d by (cases e') (auto simp: forget_vanished_def split: if_splits)
  with w views_within_refl [OF assms(1)] show ?thesis by blast
qed

definition state_ok :: "'id runEnv \<Rightarrow> (Key \<Rightarrow> Fingerprint option) \<Rightarrow> (trace \<times> 'w) runState \<Rightarrow> bool" where
  "state_ok rv view0 st \<longleftrightarrow> run_ok rv view0 (ry_store st) (fst (ry_world st))"

lemma state_ok_within:
  assumes "state_ok rv view0 st" "views_within (ry_store st) s" "ry_store st' = s" "ry_world st' = ry_world st"
  shows "state_ok rv view0 st'"
  using run_ok_within [OF assms(1) [unfolded state_ok_def] assms(2)] by (simp add: state_ok_def assms(3,4))

lemma add_source_simps [simp]: "ry_store (add_source out st) = ry_store st" "ry_world (add_source out st) = ry_world st"
  by (simp_all add: add_source_def)

lemma close_source_ok:
  assumes ok: "state_ok rv view0 st" and src: "src \<in> set (pn_Sources (op_Plan (rv_o rv)))" and paths: "paths_ok rv"
    and c: "close_source rv (traced port) src disc staged out st = (err, st')"
  shows "state_ok rv view0 st'"
proof -
  obtain err1 es where re: "run_enrichers rv (traced port) src staged (enrichersFor (rv_enrich rv) src)
      \<lparr>es_store = ry_store st, es_out = out, es_rep = ry_rep st, es_log = ry_log st, es_world = ry_world st\<rparr> = (err1, es)" by fastforce
  have es: "run_ok rv view0 (es_store es) (fst (es_world es))"
    by (rule run_ok_enrichers [OF _ src _ paths re]) (use ok in \<open>simp_all add: state_ok_def\<close>)
  then have inv: "cb_inv (es_store es)" by (simp add: run_ok_def)
  obtain e2 entries s2 where fv: "forget_vanished rv src disc (es_out es) (es_store es) = (e2, entries, s2)"
    by (rule prod_cases3)
  note w2 = forget_within [OF inv fv]
  obtain e3 s3 where fl: "cb_Flush (rv_cd rv) s2 = (e3, s3)" by fastforce
  have inv2: "cb_inv s2" using w2 by (simp add: views_within_def)
  have w3: "views_within (es_store es) s3" by (rule views_within_trans [OF w2 Flush_within [OF inv2 fl]])
  have "ry_world st' = es_world es \<and> (ry_store st' = es_store es \<or> ry_store st' = s2 \<or> ry_store st' = s3)"
    using c re fv fl by (auto simp: close_source_def Let_def split: option.splits)
  with es run_ok_within [OF es w2] run_ok_within [OF es w3] show ?thesis by (auto simp: state_ok_def)
qed

lemma open_spec_within:
  assumes "cb_inv b" "open_spec rv src b = (e, b')"
  shows "views_within b b'"
proof (cases "op_DryRun (rv_o rv)")
  case True
  then obtain x where "b' = b \<or> b' = b\<lparr>cb_staleSpecs := x\<rparr>"
    using assms(2) by (auto simp: open_spec_def PreviewSpec_def split: option.splits if_splits)
  with assms(1) show ?thesis by (auto simp: views_within_def cb_inv_def cb_view_def split: option.splits)
next
  case False
  obtain r s where "cb_EnsureSpec (rv_cd rv) (src_ID src) (src_SpecFingerprint src) b = (r, s)" by (rule prod.exhaust)
  then obtain n e' where d: "cb_EnsureSpec (rv_cd rv) (src_ID src) (src_SpecFingerprint src) b = ((n, e'), s)" by (cases r) simp
  with False assms(2) EnsureSpec_within [OF assms(1) d] show ?thesis by (simp add: open_spec_def)
qed

lemma run_source_ok:
  assumes "run_source rv (traced port) src st (err, st')" "state_ok rv view0 st" "src \<in> set (pn_Sources (op_Plan (rv_o rv)))" "paths_ok rv"
  shows "state_ok rv view0 st'"
  using assms(1)
proof cases
  case (unspecced prim disc store)
  have "cb_inv (ry_store st)" using assms(2) by (simp add: state_ok_def run_ok_def)
  from open_spec_within [OF this unspecced(7)] state_ok_within [OF assms(2)] unspecced show ?thesis by simp
next
  case (passed prim disc store p)
  have "cb_inv (ry_store st)" using assms(2) by (simp add: state_ok_def run_ok_def)
  note w = open_spec_within [OF this passed(6)]
  have ok: "run_ok rv view0 store (fst (ry_world st))" using assms(2) run_ok_within [OF _ w] by (simp add: state_ok_def)
  have rp: "run_ok rv view0 (sp_store p) (fst (sp_world p))"
    by (rule run_ok_pass [OF ok assms(3) passed(4,5) assms(4) passed(7) [unfolded begin_pass_def]])
  obtain e q where f: "finish_pass (pass_env rv src disc) p = (e, q)" by fastforce
  have "sp_store q = sp_store p" "sp_world q = sp_world p" using finish_pass_frame [of "pass_env rv src disc" p] f by simp_all
  with rp have q: "run_ok rv view0 (sp_store q) (fst (sp_world q))" by simp
  note ap = passed(1) [symmetric, unfolded after_pass_def f prod.case Let_def]
  show ?thesis
  proof (cases e)
    case (Some x)
    with ap q show ?thesis by (auto simp: state_ok_def split: if_splits)
  next
    case None
    show ?thesis by (rule close_source_ok [OF _ assms(3,4), of view0 _ port _ _ _ err])
      (use ap None q in \<open>simp_all add: state_ok_def\<close>)
  qed
qed (use assms(2) in \<open>simp_all add: state_ok_def\<close>)

lemma run_sources_ok:
  assumes "run_sources rv (traced port) srcs st (err, st')" "state_ok rv view0 st"
    and "set srcs \<subseteq> set (pn_Sources (op_Plan (rv_o rv)))" "paths_ok rv"
  shows "state_ok rv view0 st'"
  using assms(1-3)
proof (induction srcs st "(err, st')" rule: run_sources.induct)
  case (stop src st e srcs)
  then show ?case using run_source_ok assms(4) by (metis list.set_intros(1) subsetD)
next
  case (go_on src st st1 srcs)
  then show ?case using run_source_ok assms(4) by (metis list.set_intros(1) set_subset_Cons subset_trans subsetD)
qed simp

lemma run_start_ok:
  assumes "storable (st_entries store)"
  shows "state_ok rv (map_get (st_entries store)) (run_start rv store ([], w))"
    "state_ok rv (map_get (st_entries store)) (started rv store (run_start rv store ([], w)))"
  using cb_inv_new [OF assms, of "rv_CommitBatch rv"]
  by (auto simp: state_ok_def run_ok_def run_start_def started_def cb_view_def newCommitBuffer_def map_get_def)

lemma deferred_ok:
  assumes "deferred rv c (e, st) = (err, st')" "state_ok rv view0 st"
  shows "state_ok rv view0 st'"
proof -
  obtain ferr s where f: "cb_Flush (rv_cd rv) (ry_store st) = (ferr, s)" by (rule prod.exhaust)
  have "cb_inv (ry_store st)" using assms(2) by (simp add: state_ok_def run_ok_def)
  from state_ok_within [OF assms(2) Flush_within [OF this f]] assms(1) f show ?thesis
    by (auto simp: deferred_def Let_def)
qed

text \<open>
  C2: A flush records as shipped only what was confirmed. Whatever the plan, the configuration, the
  interleaving and the answers of the port, a content hash that the store holds after a run was
  held for that key before it, or is the hash of what a candidate of a source of the plan loaded to,
  or of what one of its enrichers derived, and the port confirmed the very object this content is
  mirrored to. In particular a failing, refused or cancelled run loses no file.
\<close>

theorem run_records_only_confirmed:
  assumes "Run rv (traced port) store ([], w) (err, st)" "storable (st_entries store)" "paths_ok rv"
    and "cb_view (ry_store st) k = Some fp" "fp_SourceHash fp \<noteq> []"
  shows "(\<exists>fp0. map_get (st_entries store) k = Some fp0 \<and> fp_SourceHash fp0 = fp_SourceHash fp) \<or>
    shipped_hash rv (fst (ry_world st)) k (fp_SourceHash fp)"
proof -
  have "state_ok rv (map_get (st_entries store)) st"
    using assms(1)
  proof cases
    case no_port
    with run_start_ok(1) [OF assms(2)] show ?thesis by simp
  next
    case no_recipients
    from deferred_ok [OF no_recipients(1) [symmetric] run_start_ok(1) [OF assms(2)]] show ?thesis .
  next
    case (paused st0)
    have "state_ok rv (map_get (st_entries store)) st0" using run_start_ok(2) [OF assms(2)] paused by simp
    then show ?thesis by (intro deferred_ok [OF paused(1) [symmetric]]) (simp add: state_ok_def)
  next
    case (ran e st1)
    have "state_ok rv (map_get (st_entries store)) st1"
      by (rule run_sources_ok [OF ran(5) run_start_ok(2) [OF assms(2)] subset_refl assms(3)])
    then show ?thesis by (intro deferred_ok [OF ran(1) [symmetric]]) (simp add: state_ok_def)
  qed
  with assms(4,5) show ?thesis unfolding state_ok_def run_ok_def by metis
qed

text \<open>
  A run that reports no error has written everything down: no fingerprint is left waiting in the
  commit buffer, so what the run recorded is in the document on disk.
\<close>

theorem successful_run_flushed:
  assumes "Run rv port store w (None, st)"
  shows "cb_pending (ry_store st) = []"
proof -
  have d: "cb_pending (ry_store st) = []" if "deferred rv c (e, st0) = (None, st)" for c e st0
  proof -
    obtain ferr s where f: "cb_Flush (rv_cd rv) (ry_store st0) = (ferr, s)" by (rule prod.exhaust)
    with that have "ferr = None" "ry_store st = s" by (auto simp: deferred_def Let_def split: if_splits)
    with cb_Flush_frame(4) [OF f] show ?thesis by simp
  qed
  from assms show ?thesis by cases (auto dest: d [OF sym])
qed

text \<open>
  C10: A pause is honoured before anything is read. A run that finds the owner's pause neither calls
  the port nor changes the store, its document or its fingerprints, reports no source, and ends
  without error, saying why.
\<close>

theorem paused_run_leaves_no_trace:
  assumes "Run rv port store w (err, st)" "ps_Paused (rv_pause rv)" "\<not> op_DryRun (rv_o rv)"
    and "rv_has_port rv" "op_Recipients (rv_o rv) \<noteq> []"
  shows "err = None \<and> ry_world st = w \<and> ry_store st = newCommitBuffer store (rv_CommitBatch rv) \<and> ry_log st = [] \<and>
    rp_Paused (ry_rep st) \<and> rp_PauseReason (ry_rep st) = ps_Reason (rv_pause rv) \<and> rp_Sources (ry_rep st) = [] \<and>
    rp_Shipped (ry_rep st) = 0"
  using assms(1)
proof cases
  case (paused st0)
  have "cb_Flush (rv_cd rv) (newCommitBuffer store (rv_CommitBatch rv)) = (None, newCommitBuffer store (rv_CommitBatch rv))"
    by (simp add: cb_Flush_def newCommitBuffer_def)
  with paused show ?thesis
    by (auto simp: deferred_def started_def run_start_def summarize_spec counted_files_def zero_report_def Let_def)
qed (use assms in auto)

section \<open>Previews\<close>

lemma prepareFile_dry:
  assumes "op_DryRun opt" "prepareFile opt now job src disc staging = Some (r, pending)"
  shows "pending = None \<and> fr_intent r = no_intent"
proof (cases pending)
  case (Some q)
  obtain payload where "prepareChanged opt now job src disc payload (Hash (pl_Bytes payload)) (change_hash payload)
      (loaded_result job src staging payload) = Some (r, Some q)"
    by (rule prepareFile_pending [OF assms(2) [unfolded Some]])
  then show ?thesis by (rule prepareChanged_pending) (use assms(1) in blast)
next
  case None
  from prepareFile_settled [OF assms(2) [unfolded None]] assms(1) None show ?thesis by blast
qed

definition idle :: "commitBuffer \<Rightarrow> 'w \<Rightarrow> 'w sourcePass \<Rightarrow> bool" where
  "idle s w p \<longleftrightarrow> sp_store p = s \<and> sp_world p = w \<and> sp_groups p = [] \<and> ba_items (sp_staged p) = []"

lemma settle_idle:
  assumes "idle s w p" "fr_intent r = no_intent"
  shows "idle s w (settle pe rd r p)"
proof -
  have ai: "applyIntent (pe_cd pe) r p = (r, p)" using assms(2) by (simp add: applyIntent_def no_intent_def)
  from loop_part_eqD [OF settle_facts(1) [OF ai, of rd]] settle_facts(2) [OF ai, of rd] assms(1)
  show ?thesis by (simp add: idle_def)
qed

lemma pass_step_idle:
  assumes "pass_step pe port p q" "idle s w p" "op_DryRun (pe_o pe)"
  shows "idle s w q"
  using assms(1)
proof cases
  case (admit rd p')
  obtain ch c where "dispatch pe rd p' = p\<lparr>sp_charges := ch, sp_budget := sp_budget p - 1,
     sp_inFlightBytes := sp_inFlightBytes p + c, sp_jobs := sp_jobs p @ [job_for pe p (sp_next p)],
     sp_next := sp_next p + 1, sp_inFlight := sp_inFlight p + 1, sp_computing := sp_computing p + 1\<rparr>"
    by (rule admit_frame [OF admit(4)])
  with assms(2) show ?thesis unfolding admit(1) by (simp add: idle_def)
next
  case (admit_end p' rd)
  then have "idle s w p'" using assms(2) by (elim disjE conjE) (simp, erule canAdmit_False, simp add: idle_def)
  then show ?thesis unfolding admit_end(1) by (simp add: idle_def end_admission_def batcher_flush_spec Let_def)
next
  case (result job now r pending rd)
  note d = prepareFile_dry [OF assms(3) result(4)]
  have "idle s w (p\<lparr>sp_computing := sp_computing p - 1, sp_jobs := remove1 job (sp_jobs p)\<rparr>)"
    using assms(2) by (simp add: idle_def)
  from settle_idle [OF this, of r pe rd] d show ?thesis unfolding result(1)
    by (simp add: receive_result_def Let_def idle_def)
next
  case (batch g rs w' rd)
  with assms(2) show ?thesis by (simp add: idle_def)
qed

lemma pass_idle:
  assumes "(pass_step pe port)\<^sup>*\<^sup>* p q" "idle s w p" "op_DryRun (pe_o pe)"
  shows "idle s w q"
  using assms by (induction rule: rtranclp_induct) (auto intro: pass_step_idle)

text \<open>A store nothing was recorded in; a preview may mask sources in it.\<close>

definition as_opened :: "'id runEnv \<Rightarrow> Store \<Rightarrow> 'w \<Rightarrow> 'w runState \<Rightarrow> bool" where
  "as_opened rv store w st \<longleftrightarrow> cb_store (ry_store st) = store \<and> cb_pending (ry_store st) = [] \<and> ry_world st = w"

lemma run_enrichers_dry:
  assumes "op_DryRun (rv_o rv)" "run_enrichers rv port src staged es st = (err, st')"
  shows "es_store st' = es_store st \<and> es_world st' = es_world st \<and> err = None"
  using assms(2)
proof (induction es arbitrary: st)
  case (Cons e es)
  show ?case
  proof (cases "staged = [] \<and> eh_NeedsUnits e")
    case True
    with Cons show ?thesis by simp
  next
    case False
    obtain err1 st1 where e: "enrichSource (run_options rv) (rv_cd rv) port (rv_enrich rv) (rv_now rv) src e staged st = (err1, st1)"
      by (rule prod.exhaust)
    have "op_DryRun (run_options rv)" using assms(1) by simp
    note quiet_ship = preview_quiet [OF this]
    have "es_store st1 = es_store st \<and> es_world st1 = es_world st \<and> err1 = None"
      using e by (auto simp: enrichSource_def quiet_ship Let_def)
    with Cons e False show ?thesis by simp
  qed
qed simp

lemma run_source_dry:
  assumes "run_source rv port src st (err, st')" "op_DryRun (rv_o rv)" "as_opened rv store w st"
  shows "as_opened rv store w st'"
  using assms(1)
proof cases
  case (unspecced prim disc s)
  with assms(2) show ?thesis by (simp add: open_spec_def)
next
  case (passed prim disc s p)
  have s: "cb_store s = store" "cb_pending s = []"
    using passed(6) assms(2,3) by (auto simp: open_spec_def PreviewSpec_def as_opened_def split: option.splits if_splits)
  have "idle s w (begin_pass rv src disc s st)"
    using assms(3) by (simp add: begin_pass_def start_pass_def Let_def idle_def as_opened_def)
  from pass_idle [OF passed(7) this] assms(2) have p: "sp_store p = s" "sp_world p = w" by (simp_all add: idle_def)
  obtain e q where f: "finish_pass (pass_env rv src disc) p = (e, q)" by (rule prod.exhaust)
  have q: "sp_store q = s" "sp_world q = w" using finish_pass_frame [of "pass_env rv src disc" p] f p by simp_all
  note ap = passed(1) [symmetric, unfolded after_pass_def f prod.case Let_def]
  show ?thesis
  proof (cases e)
    case (Some x)
    with ap q s show ?thesis by (auto simp: as_opened_def split: if_splits)
  next
    case None
    let ?es = "\<lparr>es_store = s, es_out = sp_out q, es_rep = sp_rep q,
        es_log = ry_log st @ discovery_log (run_options rv) src (with_repositories rv src disc) @ sp_log q, es_world = w\<rparr>"
    obtain err1 es where re: "run_enrichers rv port src (stagedUnits q) (enrichersFor (rv_enrich rv) src) ?es = (err1, es)"
      by (rule prod.exhaust)
    note er = run_enrichers_dry [OF assms(2) re]
    show ?thesis using ap None q s re er assms(2)
      by (auto simp: close_source_def forget_vanished_def as_opened_def cb_Flush_def Let_def)
  qed
qed (use assms(3) in \<open>simp_all add: as_opened_def\<close>)

lemma run_sources_dry:
  assumes "run_sources rv port srcs st r" "op_DryRun (rv_o rv)" "as_opened rv store w st"
  shows "as_opened rv store w (snd r)"
  using assms by (induction rule: run_sources.induct) (auto dest: run_source_dry)

text \<open>
  C11: A preview leaves no trace. It calls the port for nothing, writes no fingerprint, records no
  generation and forgets no file: the store and its document are those it was opened with.
\<close>

theorem preview_leaves_no_trace:
  assumes "Run rv port store w (err, st)" "op_DryRun (rv_o rv)"
  shows "ry_world st = w \<and> cb_store (ry_store st) = store \<and> cb_pending (ry_store st) = []"
proof -
  have d: "as_opened rv store w st" if "deferred rv c (e, st0) = (err, st)" "as_opened rv store w st0" for c e st0
    using that by (auto simp: deferred_def as_opened_def cb_Flush_def Let_def)
  have s: "as_opened rv store w (run_start rv store w)" "as_opened rv store w (started rv store (run_start rv store w))"
    by (simp_all add: as_opened_def run_start_def started_def newCommitBuffer_def)
  have "as_opened rv store w st"
    using assms(1)
  proof cases
    case (ran e st1)
    have "as_opened rv store w st1" using run_sources_dry [OF ran(5) assms(2) s(2)] by simp
    then show ?thesis by (intro d [OF ran(1) [symmetric]]) (simp add: as_opened_def)
  qed (use assms(2) s d in auto)
  then show ?thesis by (simp add: as_opened_def)
qed

end
