(* ===== verification/Run_Properties.thy ===== *)
theory Run_Properties
  imports Engine_Properties
begin

text \<open>
  That a flush ends and reports every source of its plan once; and the concrete runs to which the
  statements about runs are applied.
\<close>

section \<open>A flush ends\<close>

lemma pass_finishes:
  assumes "cb_inv store" "\<forall>c \<in> set (candidates pe). ca_Path c \<noteq> []"
  shows "\<exists>p. (pass_step pe (traced port))\<^sup>*\<^sup>* (start_pass pe store rep out budget tw) p \<and> sp_phase p = Finished"
proof -
  let ?s = "start_pass pe store rep out budget tw"
  have "(pass_step pe (traced port))\<^sup>*\<^sup>* ?s p \<Longrightarrow>
      \<exists>q. (pass_step pe (traced port))\<^sup>*\<^sup>* ?s q \<and> sp_phase q = Finished" for p
  proof (induction "pass_measure pe p" arbitrary: p rule: less_induct)
    case less
    have inv: "acct pe {#} p" "phase_ok p" using reach_inv [OF less.prems] by blast+
    have "ledger pe (cb_view store) p" by (rule reach_ledger [OF less.prems assms])
    then have jobs: "\<forall>job \<in> set (sp_jobs p). 0 \<le> fp_Attempts (jb_fp job)" by (simp add: ledger_def job_ok_def)
    show ?case
    proof (cases "sp_phase p = Finished")
      case True
      with less.prems show ?thesis by blast
    next
      case False
      then obtain q where q: "pass_step pe (traced port) p q" using pass_progress [OF inv False jobs] by blast
      show ?thesis
        by (rule less.hyps [of q]) (use pass_step_measure [OF q inv(1)] less.prems q in \<open>auto intro: rtranclp.rtrancl_into_rtrancl\<close>)
    qed
  qed
  then show ?thesis by blast
qed

lemma source_ends:
  fixes st :: "(trace \<times> 'w) runState"
  assumes "cb_inv (ry_store st)" "src \<in> set (pn_Sources (op_Plan (rv_o rv)))" "paths_ok rv"
  shows "\<exists>r. run_source rv (traced port) src st r"
proof (cases "rv_ctxErr rv src = None \<and> src_Enabled src")
  case False
  then show ?thesis by (cases "rv_ctxErr rv src") (auto intro: run_source.cancelled run_source.disabled)
next
  case True
  then have t: "rv_ctxErr rv src = None" "src_Enabled src" by simp_all
  show ?thesis
  proof (cases "rv_registry rv (src_Gather src)")
    case None
    with t show ?thesis by (auto intro: run_source.unregistered)
  next
    case (Some prim)
    show ?thesis
    proof (cases "prim src")
      case (Inl e)
      with t Some show ?thesis by (auto intro: run_source.undiscovered)
    next
      case (Inr disc)
      obtain e s where o': "open_spec rv src (ry_store st) = (e, s)" by (rule prod.exhaust)
      show ?thesis
      proof (cases e)
        case (Some x)
        with t \<open>rv_registry rv (src_Gather src) = Some prim\<close> Inr o' show ?thesis by (auto intro: run_source.unspecced)
      next
        case None
        have s: "cb_inv s" using open_spec_within [OF assms(1) o'] by (simp add: views_within_def)
        have "\<forall>c \<in> set (candidates (pass_env rv src disc)). ca_Path c \<noteq> []"
          using assms(2,3) Some Inr by (auto simp: paths_ok_def)
        from pass_finishes [OF s this] obtain p where
          "(pass_step (pass_env rv src disc) (traced port))\<^sup>*\<^sup>* (begin_pass rv src disc s st) p" "sp_phase p = Finished"
          unfolding begin_pass_def by blast
        from run_source.passed [OF t Some Inr o' [unfolded None] this] show ?thesis by blast
      qed
    qed
  qed
qed

lemma sources_end:
  fixes st :: "(trace \<times> 'w) runState"
  assumes "state_ok rv view0 st" "set srcs \<subseteq> set (pn_Sources (op_Plan (rv_o rv)))" "paths_ok rv"
  shows "\<exists>r. run_sources rv (traced port) srcs st r"
  using assms(1,2)
proof (induction srcs arbitrary: st)
  case Nil
  show ?case by (blast intro: run_sources.no_more)
next
  case (Cons src srcs)
  have "cb_inv (ry_store st)" using Cons.prems(1) by (simp add: state_ok_def run_ok_def)
  moreover have src: "src \<in> set (pn_Sources (op_Plan (rv_o rv)))" using Cons.prems(2) by simp
  ultimately obtain err st1 where r: "run_source rv (traced port) src st (err, st1)"
    using source_ends [OF _ _ assms(3), of st src port] by auto
  show ?case
  proof (cases err)
    case (Some e)
    with r show ?thesis by (blast intro: run_sources.stop)
  next
    case None
    have "state_ok rv view0 st1" by (rule run_source_ok [OF r Cons.prems(1) src assms(3)])
    with Cons.IH Cons.prems(2) have "\<exists>r2. run_sources rv (traced port) srcs st1 r2" by simp
    with r None show ?thesis by (blast intro: run_sources.go_on)
  qed
qed

text \<open>
  C3: A flush ends. Whatever its plan, its discoveries and what the port answers, there is a run from
  the store it was given: no source and no pass can leave it without a next step before it
  returns. With the absence of infinite passes, every scheduling of a pass leads there.
\<close>

theorem run_always_ends:
  assumes "storable (st_entries store)" "paths_ok rv"
  shows "\<exists>err st. Run rv (traced port) store ([], w) (err, st)"
proof -
  note s = run_start_ok(2) [OF assms(1), of rv w]
  obtain err st where r: "run_sources rv (traced port) (pn_Sources (op_Plan (rv_o rv))) (started rv store (run_start rv store ([], w))) (err, st)"
    using sources_end [OF s subset_refl assms(2), of port] by auto
  consider "\<not> rv_has_port rv \<and> \<not> op_DryRun (rv_o rv)" | "rv_has_port rv \<or> op_DryRun (rv_o rv)" "op_Recipients (rv_o rv) = []"
    | "rv_has_port rv" "op_Recipients (rv_o rv) \<noteq> []" "\<not> op_DryRun (rv_o rv)" "ps_Paused (rv_pause rv)"
    | "rv_has_port rv \<or> op_DryRun (rv_o rv)" "op_Recipients (rv_o rv) \<noteq> []" "op_DryRun (rv_o rv) \<or> \<not> ps_Paused (rv_pause rv)"
    by blast
  then show ?thesis
  proof cases
    case 1
    from Run.no_port [OF this, of "traced port" store "([], w)"] show ?thesis by blast
  next
    case 2
    from Run.no_recipients [OF this, of "traced port" store "([], w)"] show ?thesis by (metis prod.exhaust)
  next
    case 3
    from Run.paused [OF this refl] show ?thesis by (metis prod.exhaust)
  next
    case 4
    from Run.ran [OF this r] show ?thesis by (metis prod.exhaust)
  qed
qed

section \<open>What a flush reports\<close>

text \<open>Whose outcome a pass is writing, and what the report already holds.\<close>

definition tag :: "'w sourcePass \<Rightarrow> string \<times> SourceOutcome list" where
  "tag p = (so_SourceID (sp_out p), rp_Sources (sp_rep p))"

lemma count_decision_sources: "count_decision d (rep, b) = (rep', b') \<Longrightarrow> rp_Sources rep' = rp_Sources rep"
  by (auto simp: count_decision_def split: Decision.splits)

lemma record_result_tag: "tag (record_result pe r p) = tag p"
  by (auto simp: tag_def record_result_def Let_def count_decision_sources split: prod.split)

lemma log_result_tag: "tag (log_result pe r p) = tag p"
  by (simp add: tag_def log_result_def)

lemma fold_result_tag: "tag (fold_result pe r p) = tag p"
proof -
  obtain r' p' where a: "applyIntent (pe_cd pe) r p = (r', p')" by (rule prod.exhaust)
  obtain s where "p' = p\<lparr>sp_store := s\<rparr>" by (rule applyIntent_frame [OF a])
  then have p': "tag p' = tag p" by (simp add: tag_def)
  have "tag (q\<lparr>sp_fatal := b, sp_fatalReason := s\<rparr>) = tag q" "tag (q\<lparr>sp_uploadHalted := b, sp_haltReason := s, sp_offline := b'\<rparr>) = tag q"
    for q :: "'a sourcePass" and b s b' by (simp_all add: tag_def)
  with p' a show ?thesis by (simp add: fold_result_def record_result_tag log_result_tag Let_def)
qed

lemma settle_tag: "tag (settle pe rd r p) = tag p"
proof -
  obtain c q where c: "charge pe rd (fr_idx r) (p\<lparr>sp_inFlight := sp_inFlight p - 1\<rparr>) = (c, q)" by (rule prod.exhaust)
  obtain ch where "q = p\<lparr>sp_inFlight := sp_inFlight p - 1, sp_charges := ch\<rparr>" by (rule charge_frame [OF c]) simp
  with c show ?thesis by (simp add: settle_def fold_result_tag) (simp add: tag_def)
qed

lemma fold_settle_tag: "tag (fold (settle pe rd) rs p) = tag p"
  by (induction rs arbitrary: p) (simp_all add: settle_tag)

lemma tag_shape [simp]:
  "tag (q\<lparr>sp_phase := x\<rparr>) = tag q" "tag (q\<lparr>sp_groups := g, sp_world := w\<rparr>) = tag q"
  "tag (q\<lparr>sp_computing := n, sp_jobs := js\<rparr>) = tag q"
  by (simp_all add: tag_def)

lemma stageUpload_tag: "stageUpload r q p = (x, p') \<Longrightarrow> tag p' = tag p"
  by (auto simp: stageUpload_def tag_def Let_def split: prod.splits if_splits)

lemma drainStaged_tag: "drainStaged p = (x, p') \<Longrightarrow> tag p' = tag p"
  by (auto simp: drainStaged_def tag_def Let_def split: prod.splits if_splits)

lemma pass_step_tag:
  assumes "pass_step pe port p q"
  shows "tag q = tag p"
  using assms
proof cases
  case (admit rd p')
  obtain ch c where "dispatch pe rd p' = p\<lparr>sp_charges := ch, sp_budget := sp_budget p - 1,
     sp_inFlightBytes := sp_inFlightBytes p + c, sp_jobs := sp_jobs p @ [job_for pe p (sp_next p)],
     sp_next := sp_next p + 1, sp_inFlight := sp_inFlight p + 1, sp_computing := sp_computing p + 1\<rparr>"
    by (rule admit_frame [OF admit(4)])
  then show ?thesis unfolding admit(1) by (simp add: tag_def)
next
  case (admit_end p' rd)
  then have "tag p' = tag p" by (elim disjE conjE) (simp, erule canAdmit_False, simp add: tag_def)
  then show ?thesis unfolding admit_end(1) by (simp add: end_admission_def tag_def batcher_flush_spec Let_def)
next
  case (result job now r pending rd)
  show ?thesis unfolding result(1)
    by (auto simp: receive_result_def settle_tag Let_def dest!: stageUpload_tag split: option.split prod.split)
next
  case (batch g rs w rd)
  show ?thesis unfolding batch(1)
    by (auto simp: receive_batch_def fold_settle_tag Let_def dest!: drainStaged_tag split: prod.split)
qed

lemma pass_tag:
  assumes "(pass_step pe port)\<^sup>*\<^sup>* p q"
  shows "tag q = tag p"
  using assms by (induction rule: rtranclp_induct) (simp_all add: pass_step_tag)

lemma finish_pass_tag: "tag (snd (finish_pass pe p)) = tag p"
  by (simp add: finish_pass_def assemble_def log_if_def tag_def Let_def)

lemma run_enrichers_tag:
  "run_enrichers rv port src staged es st = (err, st') \<Longrightarrow>
    so_SourceID (es_out st') = so_SourceID (es_out st) \<and> rp_Sources (es_rep st') = rp_Sources (es_rep st)"
proof (induction es arbitrary: st)
  case (Cons e es)
  show ?case
  proof (cases "staged = [] \<and> eh_NeedsUnits e")
    case True
    with Cons show ?thesis by simp
  next
    case False
    obtain err1 st1 where e: "enrichSource (run_options rv) (rv_cd rv) port (rv_enrich rv) (rv_now rv) src e staged st = (err1, st1)"
      by (rule prod.exhaust)
    then have "so_SourceID (es_out st1) = so_SourceID (es_out st) \<and> rp_Sources (es_rep st1) = rp_Sources (es_rep st)"
      by (auto simp: enrichSource_def Let_def split: option.splits)
    with Cons e False show ?thesis by (auto split: option.splits)
  qed
qed simp

definition reported :: "'w runState \<Rightarrow> string list" where
  "reported st = map so_SourceID (rp_Sources (ry_rep st))"

lemma reported_add [simp]: "reported (add_source out st) = reported st @ [so_SourceID out]"
  by (simp add: reported_def add_source_def)

lemma reported_store [simp]: "reported (st\<lparr>ry_store := s\<rparr>) = reported st"
  by (simp add: reported_def)

lemma close_source_reports:
  assumes "close_source rv port src disc staged out st = (err, st')" "so_SourceID out = src_ID src"
  shows "reported st' = reported st @ [src_ID src] \<or> err \<noteq> None \<and> reported st' = reported st"
proof -
  obtain err1 es where re: "run_enrichers rv port src staged (enrichersFor (rv_enrich rv) src)
      \<lparr>es_store = ry_store st, es_out = out, es_rep = ry_rep st, es_log = ry_log st, es_world = ry_world st\<rparr> = (err1, es)"
    by (rule prod.exhaust)
  from run_enrichers_tag [OF this] assms(2)
  have es: "so_SourceID (es_out es) = src_ID src" "rp_Sources (es_rep es) = rp_Sources (ry_rep st)" by simp_all
  have "reported (s\<lparr>ry_store := a, ry_rep := es_rep es, ry_log := b, ry_world := c\<rparr>) = reported st" for s :: "'a runState" and a b c
    using es(2) by (simp add: reported_def)
  with assms(1) es(1) re show ?thesis
    by (auto simp: close_source_def reported_def add_source_def Let_def split: option.splits prod.splits)
qed

lemma source_outcomes [simp]:
  "so_SourceID (failed_outcome h r src) = src_ID src" "so_SourceID (open_outcome src) = src_ID src"
  "so_SourceID (discovered_outcome src disc) = src_ID src"
proof -
  have "so_SourceID (fold note_oversize xs out) = so_SourceID out" for xs out
    by (induction xs arbitrary: out) (simp_all add: note_oversize_def)
  then show "so_SourceID (discovered_outcome src disc) = src_ID src"
    by (simp add: discovered_outcome_def open_outcome_def)
qed (simp_all add: failed_outcome_def open_outcome_def)

lemma run_source_reports:
  assumes "run_source rv port src st (err, st')"
  shows "reported st' = reported st @ [src_ID src] \<or> err \<noteq> None \<and> reported st' = reported st"
  using assms
proof cases
  case (passed prim disc s p)
  obtain e q where f: "finish_pass (pass_env rv src disc) p = (e, q)" by (rule prod.exhaust)
  have "tag q = tag (begin_pass rv src disc s st)" using finish_pass_tag [of "pass_env rv src disc" p] pass_tag [OF passed(7)] f by simp
  then have q: "so_SourceID (sp_out q) = src_ID src" "rp_Sources (sp_rep q) = rp_Sources (ry_rep st)"
    by (simp_all add: tag_def begin_pass_def start_pass_def Let_def)
  let ?st = "st\<lparr>ry_store := sp_store q, ry_rep := sp_rep q, ry_budget := sp_budget q,
      ry_log := ry_log st @ discovery_log (run_options rv) src (with_repositories rv src disc) @ sp_log q, ry_world := sp_world q\<rparr>"
  have st: "reported ?st = reported st" using q(2) by (simp add: reported_def)
  note ap = passed(1) [unfolded after_pass_def f prod.case Let_def]
  show ?thesis
  proof (cases e)
    case (Some x)
    with ap st q(1) show ?thesis by (auto split: if_splits)
  next
    case None
    with ap have "close_source rv port src (with_repositories rv src disc) (stagedUnits q) (sp_out q) ?st = (err, st')"
      by (simp add: pass_env_def)
    from close_source_reports [OF this q(1)] st show ?thesis by simp
  qed
qed simp_all

lemma run_sources_reports:
  assumes "run_sources rv port srcs st r"
  shows "\<exists>k. reported (snd r) = reported st @ map src_ID (take k srcs) \<and> (fst r = None \<longrightarrow> length srcs \<le> k)"
  using assms
proof (induction rule: run_sources.induct)
  case (stop src st e st' srcs)
  have "reported st' = reported st @ map src_ID (take (Suc 0) (src # srcs)) \<or> reported st' = reported st @ map src_ID (take 0 (src # srcs))"
    using run_source_reports [OF stop] by auto
  then have "\<exists>k. reported st' = reported st @ map src_ID (take k (src # srcs))" by blast
  then show ?case by simp
next
  case (go_on src st st' srcs r)
  from go_on(3) obtain k where "reported (snd r) = reported st' @ map src_ID (take k srcs)" "fst r = None \<longrightarrow> length srcs \<le> k"
    by (elim exE conjE)
  moreover have "reported st' = reported st @ [src_ID src]" using run_source_reports [OF go_on(1)] by simp
  ultimately show ?case by (intro exI [of _ "Suc k"]) simp
qed simp

text \<open>
  C4: Every source is reported exactly once. A run that was not paused and reports no error has one
  outcome for each source of the plan, the disabled, the unreadable and the unregistered included,
  in the order of their ids; a run that an error stopped has the outcomes of a prefix of the plan, or
  all of them when it is only the last flush that failed.
\<close>

theorem sources_reported_once:
  assumes "Run rv port store w (err, st)" "rv_has_port rv \<or> op_DryRun (rv_o rv)" "op_Recipients (rv_o rv) \<noteq> []"
    and "op_DryRun (rv_o rv) \<or> \<not> ps_Paused (rv_pause rv)"
  shows "(err = None \<longrightarrow> map so_SourceID (rp_Sources (ry_rep st)) = sort (map src_ID (pn_Sources (op_Plan (rv_o rv))))) \<and>
    (err \<noteq> None \<longrightarrow> (\<exists>k. map so_SourceID (rp_Sources (ry_rep st)) = map src_ID (take k (pn_Sources (op_Plan (rv_o rv)))) \<or>
       map so_SourceID (rp_Sources (ry_rep st)) = sort (map src_ID (pn_Sources (op_Plan (rv_o rv))))))"
  using assms(1)
proof cases
  case (ran e st1)
  let ?srcs = "pn_Sources (op_Plan (rv_o rv))"
  have dr: "reported st = reported st0 \<and> (err = None \<longrightarrow> e0 = None) \<and> (e0 \<noteq> None \<longrightarrow> err = e0)"
    if "deferred rv True (e0, st0) = (err, st)" for e0 st0
    using that by (auto simp: deferred_def reported_def summarize_spec Let_def split: prod.splits if_splits)
  note d = dr [OF ran(1) [symmetric]]
  obtain k where k: "reported st1 = map src_ID (take k ?srcs)" "e = None \<longrightarrow> length ?srcs \<le> k"
    using run_sources_reports [OF ran(5)] by (auto simp: reported_def started_def zero_report_def)
  have "reported (end_run rv st1) = sort (reported st1)"
    by (auto simp: reported_def end_run_def Let_def split: option.split intro!: properties_for_sort [symmetric])
  with d k show ?thesis by (cases e) (auto simp: reported_def)
qed (use assms in auto)

section \<open>Concrete runs\<close>

definition demo_run :: "Resolved list \<Rightarrow> bool \<Rightarrow> bool \<Rightarrow> string runEnv" where
  "demo_run srcs dry pause = \<lparr>rv_o = pd_opt\<lparr>op_Plan := (op_Plan pd_opt)\<lparr>pn_Sources := srcs\<rparr>, op_DryRun := dry\<rparr>,
     rv_cd = demo_codec,
     rv_registry = (\<lambda>g. if g = ''glob'' then Some (\<lambda>src. Inr (pd_disc [pd_cand ''a''])) else None),
     rv_repository = (\<lambda>src c. None),
     rv_enrich = \<lparr>ee_Enrichers = None, ee_Env = \<lparr>ev_Home = ''/home/u'', ev_Lookup = (\<lambda>_. None)\<rparr>, ee_stat = (\<lambda>_. None)\<rparr>,
     rv_CommitBatch = 2, rv_gomaxprocs = 1, rv_has_port = True, rv_ctxErr = (\<lambda>src. None),
     rv_pause = zero_pause\<lparr>ps_Paused := pause, ps_Reason := ''lunch''\<rparr>,
     rv_scrubber = op_scrub pd_opt, rv_slowest = (0, 0), rv_heartbeat = None, rv_now = (\<lambda>_. 0),
     rv_started = 0, rv_finished = 1\<rparr>"

text \<open>A source that is switched off, and a plan of it.\<close>

definition off_src :: Resolved where
  "off_src = pd_src\<lparr>src_ID := ''other'', src_Enabled := False\<rparr>"

lemma demo_run_simps [simp]:
  "op_Plan (rv_o (demo_run srcs dry pause)) = (op_Plan pd_opt)\<lparr>pn_Sources := srcs\<rparr>"
  "op_DryRun (rv_o (demo_run srcs dry pause)) = dry" "op_Recipients (rv_o (demo_run srcs dry pause)) \<noteq> []"
  "rv_has_port (demo_run srcs dry pause)" "ps_Paused (rv_pause (demo_run srcs dry pause)) = pause"
  "rv_ctxErr (demo_run srcs dry pause) src = None" "ps_Reason (rv_pause (demo_run srcs dry pause)) = ''lunch''"
  "rv_cd (demo_run srcs dry pause) = demo_codec" "rv_CommitBatch (demo_run srcs dry pause) = 2"
  by (simp_all add: demo_run_def pd_opt_def)

lemma demo_paths: "paths_ok (demo_run srcs dry pause)"
  by (simp add: paths_ok_def demo_run_def enrichersFor_def pd_disc_def pd_cand_def)

lemma demo_off: "src_ID off_src = ''other''" "\<not> src_Enabled off_src"
  by (simp_all add: off_src_def)

text \<open>A run over that plan, whatever its port: the source is reported, the store is as it was.\<close>

lemma demo_off_run:
  obtains st where "Run (demo_run [off_src] dry False) port demo_store w (None, st)"
    "cb_view (ry_store st) (Key ''codex'' ''/a'') = Some demo_fp" "cb_pending (ry_store st) = []"
proof -
  let ?rv = "demo_run [off_src] dry False"
  let ?s0 = "started ?rv demo_store (run_start ?rv demo_store w)"
  let ?s1 = "add_source (failed_outcome AgentAbsent ''disabled by configuration'' off_src) ?s0"
  have one: "run_source ?rv port off_src ?s0 (None, ?s1)" by (rule run_source.disabled) (simp_all add: demo_off)
  have "run_sources ?rv port [off_src] ?s0 (None, ?s1)"
    by (rule run_sources.go_on [OF one run_sources.no_more])
  then have r: "run_sources ?rv port (pn_Sources (op_Plan (rv_o ?rv))) ?s0 (None, ?s1)" by simp
  have fl: "cb_Flush demo_codec demo_buffer = (None, demo_buffer)" by (simp add: cb_Flush_def demo_buffer_def newCommitBuffer_def)
  have "ry_store ?s1 = demo_buffer" by (simp add: add_source_def started_def run_start_def demo_buffer_def)
  then obtain st where d: "deferred ?rv True (None, end_run ?rv ?s1) = (None, st)" "ry_store st = demo_buffer"
    using fl by (auto simp: deferred_def Let_def)
  have "Run ?rv port demo_store w (deferred ?rv True (None, if (None :: goerr option) = None then end_run ?rv ?s1 else ?s1))"
    by (rule Run.ran [OF _ _ _ r]) simp_all
  with d have "Run ?rv port demo_store w (None, st)" by simp
  moreover have "cb_view demo_buffer (Key ''codex'' ''/a'') = Some demo_fp" "cb_pending demo_buffer = []"
    by (simp_all add: cb_view_def demo_buffer_def newCommitBuffer_def demo_store_def map_get_def)
  ultimately show ?thesis using that d(2) by simp
qed

theorem run_always_ends_witness:
  "\<exists>err st. Run (demo_run [off_src, pd_src] False False) (traced pd_port) demo_store ([], ()) (err, st)"
  by (rule run_always_ends [OF demo_store_ok(1) demo_paths])

theorem run_records_only_confirmed_witness:
  "\<exists>st. Run (demo_run [off_src] False False) (traced pd_port) demo_store ([], ()) (None, st) \<and>
    ((\<exists>fp0. map_get (st_entries demo_store) (Key ''codex'' ''/a'') = Some fp0 \<and> fp_SourceHash fp0 = ''aa'') \<or>
     shipped_hash (demo_run [off_src] False False) (fst (ry_world st)) (Key ''codex'' ''/a'') ''aa'')"
proof -
  obtain st where r: "Run (demo_run [off_src] False False) (traced pd_port) demo_store ([], ()) (None, st)"
    "cb_view (ry_store st) (Key ''codex'' ''/a'') = Some demo_fp" by (rule demo_off_run)
  have h: "fp_SourceHash demo_fp = ''aa''" by (simp add: demo_fp_def)
  have "fp_SourceHash demo_fp \<noteq> []" using h by simp
  from run_records_only_confirmed [OF r(1) demo_store_ok(1) demo_paths r(2) this] r(1) h show ?thesis by auto
qed

theorem successful_run_flushed_witness:
  "\<exists>st. Run (demo_run [off_src] False False) pd_port demo_store () (None, st) \<and> cb_pending (ry_store st) = []"
proof -
  obtain st where r: "Run (demo_run [off_src] False False) pd_port demo_store () (None, st)" by (rule demo_off_run)
  from successful_run_flushed [OF r] r show ?thesis by blast
qed

lemma demo_paused_run: "\<exists>st. Run (demo_run [pd_src] False True) pd_port demo_store () (None, st)"
proof -
  let ?rv = "demo_run [pd_src] False True"
  let ?st = "started ?rv demo_store (run_start ?rv demo_store ())"
  have "Run ?rv pd_port demo_store () (deferred ?rv False (None,
      ?st\<lparr>ry_rep := (ry_rep ?st)\<lparr>rp_Paused := True, rp_PauseReason := ps_Reason (rv_pause ?rv)\<rparr>\<rparr>))"
    by (rule Run.paused [OF _ _ _ _ refl]) simp_all
  moreover have "cb_Flush demo_codec (newCommitBuffer demo_store 2) = (None, newCommitBuffer demo_store 2)"
    by (simp add: cb_Flush_def newCommitBuffer_def)
  ultimately show ?thesis by (simp add: deferred_def started_def run_start_def Let_def) blast
qed

theorem paused_run_leaves_no_trace_witness:
  "\<exists>st. Run (demo_run [pd_src] False True) pd_port demo_store () (None, st) \<and> ry_store st = demo_buffer \<and>
    rp_PauseReason (ry_rep st) = ''lunch''"
proof -
  obtain st where r: "Run (demo_run [pd_src] False True) pd_port demo_store () (None, st)" using demo_paused_run by blast
  have "ps_Paused (rv_pause (demo_run [pd_src] False True))" "\<not> op_DryRun (rv_o (demo_run [pd_src] False True))"
    "rv_has_port (demo_run [pd_src] False True)" "op_Recipients (rv_o (demo_run [pd_src] False True)) \<noteq> []" by simp_all
  from paused_run_leaves_no_trace [OF r this] r show ?thesis by (simp add: demo_buffer_def) blast
qed

theorem preview_leaves_no_trace_witness:
  "\<exists>err st. Run (demo_run [off_src, pd_src] True False) (traced pd_port) demo_store ([], ()) (err, st) \<and>
    ry_world st = ([], ()) \<and> cb_store (ry_store st) = demo_store"
proof -
  obtain err st where r: "Run (demo_run [off_src, pd_src] True False) (traced pd_port) demo_store ([], ()) (err, st)"
    using run_always_ends [OF demo_store_ok(1) demo_paths] by metis
  have "op_DryRun (rv_o (demo_run [off_src, pd_src] True False))" by simp
  from preview_leaves_no_trace [OF r this] r show ?thesis by blast
qed

theorem sources_reported_once_witness:
  "\<exists>st. Run (demo_run [off_src] False False) pd_port demo_store () (None, st) \<and>
    map so_SourceID (rp_Sources (ry_rep st)) = [''other'']"
proof -
  obtain st where r: "Run (demo_run [off_src] False False) pd_port demo_store () (None, st)" by (rule demo_off_run)
  have a: "rv_has_port (demo_run [off_src] False False) \<or> op_DryRun (rv_o (demo_run [off_src] False False))"
    "op_Recipients (rv_o (demo_run [off_src] False False)) \<noteq> []"
    "op_DryRun (rv_o (demo_run [off_src] False False)) \<or> \<not> ps_Paused (rv_pause (demo_run [off_src] False False))" by simp_all
  have "map so_SourceID (rp_Sources (ry_rep st)) = sort [''other'']"
    using sources_reported_once [OF r a] by (simp add: demo_off)
  with r show ?thesis by (metis sorted_sort_id sorted1)
qed

end
