(* ===== verification/Go_Runes.thy ===== *)
theory Go_Runes
  imports Go_Prelude
begin

text \<open>
  Go strings read as runes. \<^verbatim>\<open>range\<close>, \<^verbatim>\<open>[]rune\<close> and the functions of \<^verbatim>\<open>strings\<close> decode
  UTF-8 as they go, each byte that starts no valid sequence being one replacement character;
  \<^verbatim>\<open>string(runes)\<close> encodes again. A string is cut into chunks, a rune with the bytes it was
  read from, so that trimming can say which bytes stay.
\<close>

section \<open>Decoding\<close>

definition RuneError :: nat where "RuneError = 0xFFFD"

definition byte :: "char \<Rightarrow> nat" where "byte c = of_char c"

text \<open>How many bytes follow a leading byte, and the range the first of them must be in.\<close>

definition lead :: "nat \<Rightarrow> (nat \<times> nat \<times> nat) option" where
  "lead b =
     (if 0xC2 \<le> b \<and> b \<le> 0xDF then Some (1, 0x80, 0xBF)
      else if b = 0xE0 then Some (2, 0xA0, 0xBF)
      else if b = 0xED then Some (2, 0x80, 0x9F)
      else if 0xE1 \<le> b \<and> b \<le> 0xEF then Some (2, 0x80, 0xBF)
      else if b = 0xF0 then Some (3, 0x90, 0xBF)
      else if 0xF1 \<le> b \<and> b \<le> 0xF3 then Some (3, 0x80, 0xBF)
      else if b = 0xF4 then Some (3, 0x80, 0x8F)
      else None)"

definition lead_bits :: "nat \<Rightarrow> nat \<Rightarrow> nat" where
  "lead_bits n b = (if n = 1 then b - 0xC0 else if n = 2 then b - 0xE0 else b - 0xF0)"

definition continuation :: "nat \<Rightarrow> bool" where
  "continuation b \<longleftrightarrow> 0x80 \<le> b \<and> b \<le> 0xBF"

text \<open>The first rune of a non-empty string and how many bytes it took.\<close>

definition decode_rune :: "char \<Rightarrow> string \<Rightarrow> nat \<times> nat" where
  "decode_rune c cs =
     (if byte c < 0x80 then (byte c, 1)
      else case lead (byte c) of
             None \<Rightarrow> (RuneError, 1)
           | Some (n, lo, hi) \<Rightarrow>
               (let t = map byte (take n cs)
                in if length t = n \<and> lo \<le> hd t \<and> hd t \<le> hi \<and> list_all continuation (tl t)
                   then (foldl (\<lambda>r b. r * 64 + (b - 0x80)) (lead_bits n (byte c)) t, Suc n)
                   else (RuneError, 1)))"

lemma decode_rune_size: "0 < snd (decode_rune c cs)"
  by (auto simp: decode_rune_def Let_def split: option.split)

function chunks :: "string \<Rightarrow> (nat \<times> string) list" where
  "chunks [] = []"
| "chunks (c # cs) =
     (let (r, n) = decode_rune c cs in (r, take n (c # cs)) # chunks (drop n (c # cs)))"
  by pat_completeness auto
termination
proof (relation "measure length")
  fix c cs x r n assume "x = decode_rune c cs" "(r, n) = x"
  then have "0 < n" using decode_rune_size [of c cs] by (metis snd_conv)
  then show "(drop n (c # cs), c # cs) \<in> measure length" by (cases n) auto
qed simp

definition runes :: "string \<Rightarrow> nat list" where
  "runes s = map fst (chunks s)"

lemma chunks_bytes [simp]: "concat (map snd (chunks s)) = s"
  by (induction s rule: chunks.induct) (simp_all split: prod.split)

lemma chunks_size: "length (chunks s) \<le> length s"
proof (induction s rule: chunks.induct)
  case (2 c cs)
  obtain r n where d: "decode_rune c cs = (r, n)" by (rule prod.exhaust)
  then have "0 < n" using decode_rune_size [of c cs] by simp
  moreover have "length (chunks (drop n (c # cs))) \<le> length (drop n (c # cs))" using 2 [OF d [symmetric] refl] .
  ultimately show ?case using d by simp
qed simp

section \<open>Encoding\<close>

definition encode_rune :: "nat \<Rightarrow> string" where
  "encode_rune r0 =
     (let r = (if r0 > 0x10FFFF \<or> (0xD800 \<le> r0 \<and> r0 \<le> 0xDFFF) then RuneError else r0);
          cont = (\<lambda>k. 0x80 + r div 64 ^ k mod 64)
      in map char_of
           (if r < 0x80 then [r]
            else if r < 0x800 then [0xC0 + r div 64, cont 0]
            else if r < 0x10000 then [0xE0 + r div 64 ^ 2, cont 1, cont 0]
            else [0xF0 + r div 64 ^ 3, cont 2, cont 1, cont 0]))"

definition string_of_runes :: "nat list \<Rightarrow> string" where
  "string_of_runes rs = concat (map encode_rune rs)"

section \<open>Spaces\<close>

text \<open>\<^verbatim>\<open>unicode.IsSpace\<close>.\<close>

definition is_space :: "nat \<Rightarrow> bool" where
  "is_space r \<longleftrightarrow> (9 \<le> r \<and> r \<le> 13) \<or> r \<in> {0x20, 0x85, 0xA0, 0x1680, 0x2028, 0x2029, 0x202F, 0x205F, 0x3000} \<or>
     (0x2000 \<le> r \<and> r \<le> 0x200A)"

definition trim_list :: "('a \<Rightarrow> bool) \<Rightarrow> 'a list \<Rightarrow> 'a list" where
  "trim_list p xs = rev (dropWhile p (rev (dropWhile p xs)))"

definition TrimSpace :: "string \<Rightarrow> string" where
  "TrimSpace s = concat (map snd (trim_list (is_space \<circ> fst) (chunks s)))"

text \<open>\<^verbatim>\<open>strings.Fields\<close> over runes: the maximal runs without a space.\<close>

fun Fields :: "nat list \<Rightarrow> nat list list" where
  "Fields [] = []"
| "Fields (r # rs) =
     (if is_space r then Fields rs
      else case rs of
             [] \<Rightarrow> [[r]]
           | s # _ \<Rightarrow> if is_space s then [r] # Fields rs
                      else (case Fields rs of [] \<Rightarrow> [[r]] | f # fs \<Rightarrow> (r # f) # fs))"

lemma Fields_parts: "\<forall>f \<in> set (Fields rs). f \<noteq> [] \<and> (\<forall>r \<in> set f. r \<in> set rs \<and> \<not> is_space r)"
proof (induction rs)
  case (Cons r rs)
  show ?case
  proof (cases "is_space r")
    case True
    with Cons show ?thesis by simp
  next
    case ns: False
    show ?thesis
    proof (cases rs)
      case Nil
      with ns show ?thesis by simp
    next
      case (Cons s ss)
      show ?thesis
      proof (cases "is_space s")
        case True
        with ns Cons have "Fields (r # rs) = [r] # Fields rs" by simp
        with ns Cons.IH show ?thesis by simp
      next
        case False
        with ns Cons have "Fields (r # rs) = (case Fields rs of [] \<Rightarrow> [[r]] | f # fs \<Rightarrow> (r # f) # fs)" by simp
        with ns Cons.IH show ?thesis by (cases "Fields rs") simp_all
      qed
    qed
  qed
qed simp

lemma trim_list_sub: "set (trim_list p xs) \<subseteq> set xs"
  by (metis set_dropWhileD set_rev subsetI trim_list_def)

lemma chunks_ascii: "list_all (\<lambda>c. byte c < 0x80) s \<Longrightarrow> chunks s = map (\<lambda>c. (byte c, [c])) s"
  by (induction s) (simp_all add: decode_rune_def)

end
