(* ===== verification/Http_Put.thy ===== *)
theory Http_Put
  imports Go_Runes Safe_IO Ticket
begin

text \<open>
  One presigned PUT, \<^verbatim>\<open>src/internal/upload/http.go\<close>: the request a validated ticket becomes, its
  deadline, the one status that counts as success, and what of the store's answer may be printed.
  The round trip itself is an argument: it takes a request and answers an error of the HTTP client
  or a status and a body, and changes the outside world.
\<close>

section \<open>The request\<close>

definition operationOverhead :: duration where "operationOverhead = 90 * second"
definition minThroughput :: int where "minThroughput = 64 * 1024"
definition maxOperation :: duration where "maxOperation = 30 * minute"

definition operation_bound :: "string \<Rightarrow> duration" where
  "operation_bound body = min (operationOverhead + int (length body) div minThroughput * second) maxOperation"

text \<open>The headers are the calls of \<^verbatim>\<open>Header.Set\<close>, in order.\<close>

record putRequest =
  rq_URL :: string
  rq_Headers :: "(string \<times> string) list"
  rq_ContentLength :: int
  rq_Body :: string
  rq_Timeout :: duration

text \<open>
  What the client answers: an error that may be a \<^verbatim>\<open>*url.Error\<close>, whose own message repeats the
  URL, around another; or a status with a body that ends or breaks off.
\<close>

datatype client_error = UrlError goerr | PlainError goerr

record response =
  rs_Status :: int
  rs_Body :: "string \<times> goerr option"

type_synonym 's transport = "putRequest \<Rightarrow> 's \<Rightarrow> (client_error + response) \<times> 's"

fun sanitizeURLError :: "client_error \<Rightarrow> goerr" where
  "sanitizeURLError (UrlError inner) = inner"
| "sanitizeURLError (PlainError e) = e"

definition put_headers :: "(string, string) gomap \<Rightarrow> (string \<times> string) list" where
  "put_headers h = map (\<lambda>name. (name, case map_get h name of Some v \<Rightarrow> v | None \<Rightarrow> [])) (sort (map fst h))"

definition put_request :: "Ticket \<Rightarrow> string \<Rightarrow> putRequest" where
  "put_request ticket body =
     \<lparr>rq_URL = tk_URL ticket, rq_Headers = put_headers (tk_RequiredHeaders ticket),
      rq_ContentLength = tk_ContentLength ticket, rq_Body = body, rq_Timeout = operation_bound body\<rparr>"

section \<open>Printable diagnostics\<close>

definition maxDiagnosticBytes :: int where "maxDiagnosticBytes = 4 * 1024"
definition maxReasonRunes :: nat where "maxReasonRunes = 200"

definition clean_rune :: "nat \<Rightarrow> nat option" where
  "clean_rune r = (if r = 9 then Some 0x20 else if r < 0x20 \<or> r = 0x7F then None else Some r)"

definition sanitizeReason :: "string \<Rightarrow> string" where
  "sanitizeReason body =
     (let cleaned = List.map_filter clean_rune (runes (TrimSpace body));
          oneLine = join_with [0x20] (Fields cleaned)
      in string_of_runes (take maxReasonRunes oneLine))"

section \<open>The PUT\<close>

text \<open>\<^verbatim>\<open>io.ReadAll\<close> of an \<^verbatim>\<open>io.LimitReader\<close>.\<close>

definition limit_reader :: "int \<Rightarrow> string \<times> goerr option \<Rightarrow> string \<times> goerr option" where
  "limit_reader n r = (if int (length (fst r)) \<ge> n then (take (nat n) (fst r), None) else r)"

text \<open>A \<^verbatim>\<open>*StatusError\<close> is found by \<^verbatim>\<open>errors.As\<close>; every other failure is an error as it is.\<close>

datatype put_error = StatusError int string | PutError goerr

definition status_message :: "int \<Rightarrow> string \<Rightarrow> string" where
  "status_message status reason =
     ''upload: object store answered HTTP '' @ itoa status @ (if reason = [] then [] else '': '' @ reason)"

fun put_goerr :: "put_error \<Rightarrow> goerr" where
  "put_goerr (StatusError status reason) = new_error (status_message status reason)"
| "put_goerr (PutError e) = e"

text \<open>\<open>build\<close> is what \<^verbatim>\<open>NewRequestWithContext\<close> answers for the URL.\<close>

definition Upload ::
  "(string \<Rightarrow> client_error option) \<Rightarrow> 's transport \<Rightarrow> Ticket \<Rightarrow> string \<Rightarrow> 's \<Rightarrow> put_error option \<times> 's" where
  "Upload build roundtrip ticket body s =
     (case build (tk_URL ticket) of
        Some e \<Rightarrow> (Some (PutError (wrap_error (''upload: build PUT for object '' @ quote (tk_ObjectID ticket) @ '': '')
                     (sanitizeURLError e))), s)
      | None \<Rightarrow>
          (case roundtrip (put_request ticket body) s of
             (Inl e, s) \<Rightarrow> (Some (PutError (wrap_error (''upload: PUT object '' @ quote (tk_ObjectID ticket) @ '': '')
                              (sanitizeURLError e))), s)
           | (Inr resp, s) \<Rightarrow>
               if rs_Status resp \<noteq> 200
               then (let (diagnostic, readErr) = limit_reader maxDiagnosticBytes (rs_Body resp);
                         diagnostic = (if readErr \<noteq> None then [] else diagnostic)
                     in (Some (StatusError (rs_Status resp) (sanitizeReason diagnostic)), s))
               else (None, s)))"

section \<open>Properties\<close>

lemma byte_char_of: "n < 256 \<Longrightarrow> byte (char_of n) = n"
  by (simp add: byte_def)

lemma encode_rune_bytes:
  assumes "0x20 \<le> r" "r \<noteq> 0x7F" "c \<in> set (encode_rune r)"
  shows "0x20 \<le> byte c \<and> byte c \<noteq> 0x7F"
proof -
  define x where "x = (if r > 0x10FFFF \<or> (0xD800 \<le> r \<and> r \<le> 0xDFFF) then RuneError else r)"
  have x: "0x20 \<le> x" "x \<noteq> 0x7F" "x \<le> 0x10FFFF" using assms(1,2) by (auto simp: x_def RuneError_def)
  have hi: "x div 64 < 32" if "x < 0x800" using that by simp
  have "x div 64 ^ 2 < 16" if "x < 0x10000" using that by simp
  moreover have "x div 64 ^ 3 < 5" using x(3) by simp
  moreover have "x div k mod 64 < 64" for k by simp
  ultimately show ?thesis
    using assms(3) x hi unfolding encode_rune_def x_def [symmetric] Let_def
    by (auto simp: byte_char_of split: if_splits)
qed

lemma encode_rune_length: "length (encode_rune r) \<le> 4"
  by (simp add: encode_rune_def Let_def)

lemma join_with_runes: "r \<in> set (join_with sep fs) \<Longrightarrow> r \<in> set sep \<or> (\<exists>f \<in> set fs. r \<in> set f)"
  by (induction sep fs rule: join_with.induct) auto

lemma reason_runes:
  assumes "r \<in> set (join_with [0x20] (Fields (List.map_filter clean_rune rs)))"
  shows "0x20 \<le> r \<and> r \<noteq> 0x7F \<and> (is_space r \<longrightarrow> r = 0x20)"
proof -
  have "r = 0x20 \<or> (\<exists>f \<in> set (Fields (List.map_filter clean_rune rs)). r \<in> set f)"
    using join_with_runes [OF assms] by auto
  then show ?thesis
  proof
    assume "\<exists>f \<in> set (Fields (List.map_filter clean_rune rs)). r \<in> set f"
    then have "r \<in> set (List.map_filter clean_rune rs)" "\<not> is_space r" using Fields_parts by blast+
    then show ?thesis by (auto simp: map_filter_def clean_rune_def split: if_splits)
  qed simp
qed

text \<open>
  C31: What the store says is safe to print. Whatever bytes a failing store answers, the reason that
  goes into the error has no byte below a space and no DEL, so no newline and no escape, no run of
  spaces it was not given as one, and is at most 200 characters, 800 bytes, long.
\<close>

theorem reason_is_printable:
  "list_all (\<lambda>c. 0x20 \<le> byte c \<and> byte c \<noteq> 0x7F) (sanitizeReason body) \<and> length (sanitizeReason body) \<le> 800 \<and>
   (\<exists>rs. sanitizeReason body = string_of_runes rs \<and> length rs \<le> 200)"
proof -
  define rs where "rs = take maxReasonRunes (join_with [0x20] (Fields (List.map_filter clean_rune (runes (TrimSpace body)))))"
  have s: "sanitizeReason body = string_of_runes rs" by (simp add: sanitizeReason_def rs_def)
  have len: "length rs \<le> 200" by (simp add: rs_def maxReasonRunes_def)
  have ok: "0x20 \<le> r \<and> r \<noteq> 0x7F" if "r \<in> set rs" for r
    using reason_runes [of r "runes (TrimSpace body)"] that in_set_takeD unfolding rs_def by metis
  have "length (string_of_runes xs) \<le> 4 * length xs" for xs
    by (induction xs) (auto simp: string_of_runes_def intro: order_trans [OF add_mono [OF encode_rune_length]])
  from order_trans [OF this] len have "length (string_of_runes rs) \<le> 800" by fastforce
  moreover have "list_all (\<lambda>c. 0x20 \<le> byte c \<and> byte c \<noteq> 0x7F) (string_of_runes rs)"
    using ok encode_rune_bytes by (auto simp: string_of_runes_def list_all_iff)
  ultimately show ?thesis using s len by auto
qed

lemma operation_bound_range: "operationOverhead \<le> operation_bound body \<and> operation_bound body \<le> maxOperation"
  by (simp add: operation_bound_def operationOverhead_def minThroughput_def maxOperation_def minute_def second_def)

end
