(* ===== verification/Vend_Port.thy ===== *)
theory Vend_Port
  imports Upload_Group Http_Put
begin

text \<open>
  The engine's upload port, assembled: the request for a batch of tickets and its answer
  (\<^verbatim>\<open>src/internal/controlplane/uploads.go\<close>), and what the port does with them
  (\<^verbatim>\<open>src/app/vendupload.go\<close>): metadata onto the closed request set, one ticket per object, every
  ticket validated against the object before a byte leaves, and every failure classified. The
  signed exchange with the control plane, the JSON codec and the HTTP round trip are arguments.
\<close>

section \<open>Authorization requests and answers\<close>

record UploadMetadata =
  um_ManifestVersion :: string
  um_SourceID :: string
  um_ShippedHash :: string
  um_ArtifactClass :: string
  um_AgentVersion :: string
  um_ShapeSniff :: string
  um_Derived :: string
  um_EnrichStatus :: string
  um_Kind :: string

definition no_metadata :: UploadMetadata where
  "no_metadata = \<lparr>um_ManifestVersion = [], um_SourceID = [], um_ShippedHash = [], um_ArtifactClass = [],
     um_AgentVersion = [], um_ShapeSniff = [], um_Derived = [], um_EnrichStatus = [], um_Kind = []\<rparr>"

record UploadObject =
  uo_ObjectID :: string
  uo_Key :: string
  uo_Size :: int
  uo_SourceHash :: string
  uo_Metadata :: UploadMetadata

record AuthorizeRequest =
  ar_WriterID :: string
  ar_IssuedAt :: gotime
  ar_Objects :: "UploadObject list"

text \<open>\<^verbatim>\<open>controlplane.Ticket\<close>; a nil header map differs from an empty one.\<close>

record issuedTicket =
  it_TicketID :: string
  it_ObjectID :: string
  it_AlreadyPresent :: bool
  it_Method :: string
  it_URL :: string
  it_ExpiresAt :: gotime
  it_RequiredHeaders :: "(string, string) gomap option"
  it_ContentLength :: int
  it_ContentLengthSigned :: bool

text \<open>\<open>pl_exchange\<close> is \<^verbatim>\<open>Client.exchange\<close> on the authorization path: a status and a bounded body.\<close>

record 's plane =
  pl_exchange :: "string \<Rightarrow> 's \<Rightarrow> (int \<times> string) result \<times> 's"
  pl_marshal :: "AuthorizeRequest \<Rightarrow> string result"
  pl_unmarshal :: "string \<Rightarrow> issuedTicket list result"

definition uploadAuthorizePath :: string where "uploadAuthorizePath = ''/v2/uploads/authorize''"

definition truncate_reason :: "string \<Rightarrow> nat \<Rightarrow> string" where
  "truncate_reason s n = (if length s \<le> n then s else take n s @ [CHR 0xE2, CHR 0x80, CHR 0xA6])"

text \<open>An already-present answer names its object and nothing that could be spent.\<close>

definition invalid_present :: "issuedTicket \<Rightarrow> bool" where
  "invalid_present t \<longleftrightarrow> it_AlreadyPresent t \<and>
     (it_TicketID t = [] \<or> it_ObjectID t = [] \<or> it_Method t \<noteq> [] \<or> it_URL t \<noteq> [] \<or> it_ExpiresAt t \<noteq> 0 \<or>
      it_RequiredHeaders t \<noteq> None \<or> it_ContentLength t \<noteq> 0 \<or> it_ContentLengthSigned t)"

definition authorize_status :: "int \<Rightarrow> string \<Rightarrow> goerr option" where
  "authorize_status status raw =
     (let reason = truncate_reason (TrimSpace raw) 200
      in if status = 200 then None
         else if status = 401 \<or> status = 403
         then Some (err_of_sentinel ErrCredentialsRefused (''backend: '' @ uploadAuthorizePath @
                '' refused this install's credentials (HTTP '' @ itoa status @ ''): this install's credentials were refused''))
         else if status = 429 \<or> status \<ge> 500
         then Some (err_of_sentinel ErrAuthorizeUnavailable
                (''backend: upload authorization is unavailable (HTTP '' @ itoa status @ ''): '' @ reason))
         else Some (new_error (''backend: '' @ uploadAuthorizePath @ '' returned HTTP '' @ itoa status @ '': '' @ reason)))"

definition AuthorizeUploads :: "'s plane \<Rightarrow> AuthorizeRequest \<Rightarrow> 's \<Rightarrow> issuedTicket list result \<times> 's" where
  "AuthorizeUploads pl req s =
     (if ar_WriterID req = [] then (Inl (new_error ''backend: authorize request carries no writer_id''), s)
      else if ar_IssuedAt req = 0 then (Inl (new_error ''backend: authorize request carries no issued_at''), s)
      else if ar_Objects req = [] then (Inl (new_error ''backend: authorize request carries no objects''), s)
      else case pl_marshal pl req of
             Inl e \<Rightarrow> (Inl (wrap_error ''backend: encode authorize request: '' e), s)
           | Inr payload \<Rightarrow>
               (case pl_exchange pl payload s of
                  (Inl e, s) \<Rightarrow> (Inl e, s)
                | (Inr (status, raw), s) \<Rightarrow>
                    (case authorize_status status raw of
                       Some e \<Rightarrow> (Inl e, s)
                     | None \<Rightarrow>
                         (case pl_unmarshal pl raw of
                            Inl e \<Rightarrow> (Inl (wrap_error (''backend: decode '' @ uploadAuthorizePath @ '' response: '') e), s)
                          | Inr tickets \<Rightarrow>
                              if length tickets \<noteq> length (ar_Objects req)
                              then (Inl (new_error (''backend: '' @ uploadAuthorizePath @ '' issued '' @ itoa (int (length tickets)) @
                                     '' tickets for '' @ itoa (int (length (ar_Objects req))) @ '' objects'')), s)
                              else (case find invalid_present tickets of
                                      Some t \<Rightarrow> (Inl (new_error (''backend: '' @ uploadAuthorizePath @
                                        '' returned an invalid already-present answer for object '' @ quote (it_ObjectID t))), s)
                                    | None \<Rightarrow> (Inr tickets, s))))))"

section \<open>Metadata onto the closed request set\<close>

definition printableASCII :: "string \<Rightarrow> nat \<Rightarrow> bool" where
  "printableASCII v n \<longleftrightarrow> length v \<le> n \<and> \<not> list_ex (\<lambda>r. r < 0x20 \<or> r > 0x7E) (runes v)"

text \<open>One entry of the manifest's metadata; the second component warns of a dropped value.\<close>

definition metadata_field :: "string \<Rightarrow> string \<Rightarrow> UploadMetadata \<Rightarrow> (UploadMetadata \<times> string list) result" where
  "metadata_field name v md =
     (if name = ''manifest-version'' then Inr (md\<lparr>um_ManifestVersion := v\<rparr>, [])
      else if name = ''source-id'' then Inr (md\<lparr>um_SourceID := v\<rparr>, [])
      else if name = ''shipped-hash'' then Inr (md\<lparr>um_ShippedHash := v\<rparr>, [])
      else if name = ''artifact-class'' then Inr (md\<lparr>um_ArtifactClass := v\<rparr>, [])
      else if name = ''agent-version''
      then (if printableASCII v 128 then Inr (md\<lparr>um_AgentVersion := v\<rparr>, [])
            else Inr (md, [''agent-version '' @ quote v @ '' is not printable ASCII within 128 bytes; '' @
                           ''shipping without it (the sealed manifest keeps it)'']))
      else if name = ''shape-sniff'' then Inr (md\<lparr>um_ShapeSniff := v\<rparr>, [])
      else if name = ''derived'' then Inr (md\<lparr>um_Derived := v\<rparr>, [])
      else if name = ''enrich-status'' then Inr (md\<lparr>um_EnrichStatus := v\<rparr>, [])
      else if name = ''kind'' then Inr (md\<lparr>um_Kind := v\<rparr>, [])
      else if name = ''source-hash'' \<or> name = ''ticket-id''
      then Inl (new_error (''metadata '' @ quote name @ '' is derived by the server and may not be requested''))
      else Inl (new_error (''metadata '' @ quote name @ '' is outside the closed request set'')))"

fun uploadMetadata :: "(string, string) gomap \<Rightarrow> UploadMetadata \<times> string list \<Rightarrow> (UploadMetadata \<times> string list) result" where
  "uploadMetadata [] acc = Inr acc"
| "uploadMetadata ((name, v) # rest) acc =
     (case metadata_field name v (fst acc) of
        Inl e \<Rightarrow> Inl e
      | Inr (md, dropped) \<Rightarrow> uploadMetadata rest (md, snd acc @ dropped))"

definition upload_object :: "PreparedObject \<Rightarrow> UploadObject result" where
  "upload_object o' =
     (case uploadMetadata (po_Metadata o') (no_metadata, []) of
        Inl e \<Rightarrow> Inl (wrap_error (''upload: object '' @ quote (po_ObjectID o') @ '': '') e)
      | Inr (md, dropped) \<Rightarrow>
          Inr \<lparr>uo_ObjectID = po_ObjectID o', uo_Key = po_Key o', uo_Size = int (length (po_Body o')),
               uo_SourceHash = po_SourceHash o', uo_Metadata = md\<rparr>)"

fun upload_objects :: "PreparedObject list \<Rightarrow> UploadObject list result" where
  "upload_objects [] = Inr []"
| "upload_objects (o' # os) =
     (case upload_object o' of
        Inl e \<Rightarrow> Inl e
      | Inr u \<Rightarrow> (case upload_objects os of Inl e \<Rightarrow> Inl e | Inr us \<Rightarrow> Inr (u # us)))"

section \<open>The port\<close>

text \<open>
  What the port holds, and what it reads of the world: the clock, whether the caller's context is
  still live, and the order in which the goroutines of a group reach the network.
\<close>

record 's vendPort =
  vp_plane :: "'s plane"
  vp_targets :: "UploadTarget list"
  vp_writerID :: string
  vp_now :: "'s \<Rightarrow> gotime"
  vp_live :: "'s \<Rightarrow> bool"
  vp_parse :: "string \<Rightarrow> URL option"
  vp_build :: "string \<Rightarrow> client_error option"
  vp_do :: "'s transport"
  vp_order :: "'s \<Rightarrow> nat list \<Rightarrow> nat list"

definition vend_request :: "'s vendPort \<Rightarrow> PreparedObject list \<Rightarrow> 's \<Rightarrow> AuthorizeRequest result" where
  "vend_request p batch s =
     (case upload_objects batch of
        Inl e \<Rightarrow> Inl e
      | Inr objects \<Rightarrow> Inr \<lparr>ar_WriterID = vp_writerID p, ar_IssuedAt = vp_now p s, ar_Objects = objects\<rparr>)"

definition toUploadTicket :: "issuedTicket \<Rightarrow> Ticket" where
  "toUploadTicket t =
     \<lparr>tk_TicketID = it_TicketID t, tk_ObjectID = it_ObjectID t, tk_Method = it_Method t, tk_URL = it_URL t,
      tk_ExpiresAt = it_ExpiresAt t,
      tk_RequiredHeaders = (case it_RequiredHeaders t of Some h \<Rightarrow> h | None \<Rightarrow> []),
      tk_ContentLength = it_ContentLength t, tk_ContentLengthSigned = it_ContentLengthSigned t\<rparr>"

definition toPreparedUpload :: "PreparedObject \<Rightarrow> PreparedUpload" where
  "toPreparedUpload obj =
     \<lparr>pu_ObjectID = po_ObjectID obj, pu_Key = po_Key obj, pu_Body = po_Body obj,
      pu_SourceHash = po_SourceHash obj, pu_Metadata = po_Metadata obj\<rparr>"

text \<open>\<^verbatim>\<open>platform.Offline\<close>: a name that did not resolve, or a dial that failed.\<close>

definition is_OpError :: "sentinel \<Rightarrow> bool" where
  "is_OpError x \<longleftrightarrow> (\<exists>op. x = OpError op)"

definition Offline :: "goerr \<Rightarrow> bool" where
  "Offline e \<longleftrightarrow> ErrCanceled \<notin> set (err_chain e) \<and>
     (DNSError \<in> set (err_chain e) \<or> find is_OpError (err_chain e) = Some (OpError ''dial''))"

definition classifyAuthorize :: "bool \<Rightarrow> goerr \<Rightarrow> goerr" where
  "classifyAuthorize live e =
     (if errors_is (Some e) ErrCredentialsRefused then e
      else if errors_is (Some e) ErrAuthorizeUnavailable
      then err_of_sentinel ErrUploadUnavailable (''engine: upload authorization is unavailable: '' @ err_msg e)
      else if live \<and> Offline e
      then \<lparr>err_msg = ''engine: the control plane could not be reached: '' @ err_msg e, err_chain = ErrOffline # err_chain e\<rparr>
      else e)"

definition classifyPut :: "gotime \<Rightarrow> put_error \<Rightarrow> Ticket \<Rightarrow> goerr" where
  "classifyPut now e ticket =
     (case e of
        StatusError status reason \<Rightarrow>
          if (status = 403 \<or> status = 400) \<and> tk_ExpiresAt ticket \<noteq> 0 \<and> tk_ExpiresAt ticket < now
          then err_of_sentinel ErrTicketExpired (''engine: upload ticket had expired: '' @ status_message status reason)
          else put_goerr e
      | PutError err \<Rightarrow> err)"

definition vend_send :: "'s vendPort \<Rightarrow> PreparedObject \<Rightarrow> issuedTicket \<Rightarrow> 's \<Rightarrow> goerr option \<times> 's" where
  "vend_send p obj issued s =
     (if it_AlreadyPresent issued then (None, s)
      else let ticket = toUploadTicket issued
           in case ValidateTicket (vp_parse p) (vp_targets p) (toPreparedUpload obj) ticket of
                Some e \<Rightarrow> (Some e, s)
              | None \<Rightarrow>
                  (case Upload (vp_build p) (vp_do p) ticket (po_Body obj) s of
                     (Some e, s) \<Rightarrow> (Some (classifyPut (vp_now p s) e ticket), s)
                   | (None, s) \<Rightarrow> (None, s)))"

fun ticket_map :: "issuedTicket list \<Rightarrow> (string, issuedTicket) gomap \<Rightarrow> (string, issuedTicket) gomap result" where
  "ticket_map [] m = Inr m"
| "ticket_map (t # ts) m =
     (if map_get m (it_ObjectID t) \<noteq> None
      then Inl (new_error (''upload: the control plane issued two tickets naming object '' @ quote (it_ObjectID t)))
      else ticket_map ts (map_put (it_ObjectID t) t m))"

text \<open>What the loop over the batch decides at once, and the ticket it starts a goroutine with.\<close>

definition first_outcome :: "(string, issuedTicket) gomap \<Rightarrow> PreparedObject \<Rightarrow> goerr option" where
  "first_outcome m obj =
     (case map_get m (po_ObjectID obj) of
        None \<Rightarrow> Some (new_error (''upload: the control plane issued no ticket for object '' @ quote (po_ObjectID obj)))
      | Some t \<Rightarrow> if it_AlreadyPresent t
                  then Some (err_of_sentinel ErrAlreadyPresent
                         ''engine: the control plane answered that the archive already holds this object'')
                  else None)"

definition to_send :: "(string, issuedTicket) gomap \<Rightarrow> PreparedObject list \<Rightarrow> nat list" where
  "to_send m batch = filter (\<lambda>i. first_outcome m (batch ! i) = None) [0..<length batch]"

definition send_at ::
  "'s vendPort \<Rightarrow> (string, issuedTicket) gomap \<Rightarrow> PreparedObject list \<Rightarrow> nat \<Rightarrow> goerr option list \<times> 's \<Rightarrow> goerr option list \<times> 's" where
  "send_at p m batch i st =
     (case st of (out, s) \<Rightarrow>
      case map_get m (po_ObjectID (batch ! i)) of
        None \<Rightarrow> (out, s)
      | Some t \<Rightarrow> (case vend_send p (batch ! i) t s of (e, s) \<Rightarrow> (out[i := e], s)))"

definition sameOutcome :: "PreparedObject list \<Rightarrow> goerr \<Rightarrow> goerr option list" where
  "sameOutcome batch e = replicate (length batch) (Some e)"

definition AuthorizeAndUpload :: "'s vendPort \<Rightarrow> 's port" where
  "AuthorizeAndUpload p batch s =
     (case vend_request p batch s of
        Inl e \<Rightarrow> (sameOutcome batch e, s)
      | Inr req \<Rightarrow>
          (case AuthorizeUploads (vp_plane p) req s of
             (Inl e, s) \<Rightarrow> (sameOutcome batch (classifyAuthorize (vp_live p s) e), s)
           | (Inr tickets, s) \<Rightarrow>
               (case ticket_map tickets [] of
                  Inl e \<Rightarrow> (sameOutcome batch e, s)
                | Inr m \<Rightarrow> fold (send_at p m batch) (vp_order p s (to_send m batch)) (map (first_outcome m) batch, s))))"

section \<open>What leaves the machine\<close>

text \<open>The requests sent, each with the status it was answered, kept beside the world.\<close>

type_synonym putlog = "(putRequest \<times> int option) list"

definition logged :: "'s transport \<Rightarrow> (putlog \<times> 's) transport" where
  "logged rt rq ls = (case ls of (l, s) \<Rightarrow> (case rt rq s of (r, s') \<Rightarrow>
     (r, (l @ [(rq, case r of Inl _ \<Rightarrow> None | Inr resp \<Rightarrow> Some (rs_Status resp))], s'))))"

definition with_log :: "'s vendPort \<Rightarrow> (putlog \<times> 's) vendPort" where
  "with_log p =
     \<lparr>vp_plane = \<lparr>pl_exchange = (\<lambda>payload ls. case pl_exchange (vp_plane p) payload (snd ls) of (r, s') \<Rightarrow> (r, (fst ls, s'))),
                  pl_marshal = pl_marshal (vp_plane p), pl_unmarshal = pl_unmarshal (vp_plane p)\<rparr>,
      vp_targets = vp_targets p, vp_writerID = vp_writerID p, vp_now = vp_now p \<circ> snd, vp_live = vp_live p \<circ> snd,
      vp_parse = vp_parse p, vp_build = vp_build p, vp_do = logged (vp_do p), vp_order = vp_order p \<circ> snd\<rparr>"

text \<open>A request that is the PUT of this very object under a ticket validated against it.\<close>

definition put_for :: "'s vendPort \<Rightarrow> PreparedObject \<Rightarrow> putRequest \<Rightarrow> bool" where
  "put_for p obj rq \<longleftrightarrow> (\<exists>ticket. ValidateTicket (vp_parse p) (vp_targets p) (toPreparedUpload obj) ticket = None \<and>
     rq = put_request ticket (po_Body obj))"

lemma send_logged:
  assumes "vend_send (with_log p) obj t (l, s) = (e, (l', s'))" "\<not> it_AlreadyPresent t"
  shows "\<exists>new. l' = l @ new \<and> length new \<le> 1 \<and> (\<forall>x \<in> set new. put_for p obj (fst x)) \<and>
    (e = None \<longrightarrow> (\<exists>x \<in> set new. put_for p obj (fst x) \<and> snd x = Some 200))"
proof -
  let ?tk = "toUploadTicket t"
  show ?thesis
  proof (cases "ValidateTicket (vp_parse p) (vp_targets p) (toPreparedUpload obj) ?tk = None \<and> vp_build p (tk_URL ?tk) = None")
    case False
    then consider x where "ValidateTicket (vp_parse p) (vp_targets p) (toPreparedUpload obj) ?tk = Some x"
      | y where "ValidateTicket (vp_parse p) (vp_targets p) (toPreparedUpload obj) ?tk = None" "vp_build p (tk_URL ?tk) = Some y"
      by (metis not_None_eq)
    then have "\<exists>z. vend_send (with_log p) obj t (l, s) = (Some z, (l, s))"
      using assms(2) by cases (simp_all add: vend_send_def Upload_def with_log_def Let_def)
    with assms(1) have "l' = l \<and> e \<noteq> None" by auto
    then show ?thesis by (intro exI [of _ "[]"]) simp
  next
    case True
    then have f: "put_for p obj (put_request ?tk (po_Body obj))" unfolding put_for_def by blast
    obtain r s1 where d: "vp_do p (put_request ?tk (po_Body obj)) s = (r, s1)" by (rule prod.exhaust)
    define x where "x = (put_request ?tk (po_Body obj), case r of Inl _ \<Rightarrow> None | Inr resp \<Rightarrow> Some (rs_Status resp))"
    have "l' = l @ [x]" "e = None \<longrightarrow> snd x = Some 200"
      using assms True d
      by (auto simp: vend_send_def Upload_def with_log_def logged_def x_def Let_def split: sum.splits if_splits prod.splits)
    with f show ?thesis by (intro exI [of _ "[x]"]) (simp add: x_def)
  qed
qed

text \<open>The goroutines of a group, in whatever order: every index keeps to its own slot.\<close>

lemma send_at_logged:
  assumes "fold (send_at (with_log p) m batch) is (out, (l, s)) = (out', (l', s'))"
    and "\<forall>i \<in> set is. i < length batch \<and> (\<exists>t. map_get m (po_ObjectID (batch ! i)) = Some t \<and> \<not> it_AlreadyPresent t)"
    and "length out = length batch"
  shows "length out' = length out \<and> (\<forall>j. j \<notin> set is \<longrightarrow> out' ! j = out ! j) \<and>
    (\<exists>new. l' = l @ new \<and> length new \<le> length is \<and> (\<forall>x \<in> set new. \<exists>i \<in> set is. put_for p (batch ! i) (fst x)) \<and>
       (\<forall>i \<in> set is. out' ! i = None \<longrightarrow> (\<exists>x \<in> set new. put_for p (batch ! i) (fst x) \<and> snd x = Some 200)))"
  using assms
proof (induction "is" arbitrary: out l s)
  case Nil
  then show ?case by auto
next
  case (Cons i "is")
  obtain t where t: "i < length batch" "map_get m (po_ObjectID (batch ! i)) = Some t" "\<not> it_AlreadyPresent t"
    using Cons.prems(2) by auto
  obtain e l1 s1 where e: "vend_send (with_log p) (batch ! i) t (l, s) = (e, (l1, s1))" by (metis prod.exhaust)
  from send_logged [OF e t(3)] obtain new1 where n1: "l1 = l @ new1" "length new1 \<le> 1"
    "\<forall>x \<in> set new1. put_for p (batch ! i) (fst x)"
    "e = None \<longrightarrow> (\<exists>x \<in> set new1. put_for p (batch ! i) (fst x) \<and> snd x = Some 200)" by blast
  have step: "send_at (with_log p) m batch i (out, (l, s)) = (out[i := e], (l1, s1))" using t e by (simp add: send_at_def)
  have f: "fold (send_at (with_log p) m batch) is (out[i := e], (l1, s1)) = (out', (l', s'))"
    using Cons.prems(1) step by simp
  have "length out' = length (out[i := e]) \<and> (\<forall>j. j \<notin> set is \<longrightarrow> out' ! j = out[i := e] ! j) \<and>
    (\<exists>new. l' = l1 @ new \<and> length new \<le> length is \<and> (\<forall>x \<in> set new. \<exists>i \<in> set is. put_for p (batch ! i) (fst x)) \<and>
       (\<forall>i \<in> set is. out' ! i = None \<longrightarrow> (\<exists>x \<in> set new. put_for p (batch ! i) (fst x) \<and> snd x = Some 200)))"
    by (rule Cons.IH [OF f]) (use Cons.prems(2,3) in simp_all)
  then obtain new2 where ih: "length out' = length out" "\<forall>j. j \<notin> set is \<longrightarrow> out' ! j = out[i := e] ! j"
    "l' = l1 @ new2" "length new2 \<le> length is" "\<forall>x \<in> set new2. \<exists>i \<in> set is. put_for p (batch ! i) (fst x)"
    "\<forall>i \<in> set is. out' ! i = None \<longrightarrow> (\<exists>x \<in> set new2. put_for p (batch ! i) (fst x) \<and> snd x = Some 200)" by auto
  have new: "l' = l @ (new1 @ new2)" "length (new1 @ new2) \<le> length (i # is)" using n1 ih by simp_all
  have each: "\<forall>x \<in> set (new1 @ new2). \<exists>i \<in> set (i # is). put_for p (batch ! i) (fst x)" using n1(3) ih(5) by auto
  have none: "\<exists>x \<in> set (new1 @ new2). put_for p (batch ! j) (fst x) \<and> snd x = Some 200"
    if j: "j \<in> set (i # is)" "out' ! j = None" for j
  proof (cases "j \<in> set is")
    case True
    with ih(6) j(2) show ?thesis by auto
  next
    case False
    with j(1) have "j = i" by simp
    with False ih(2) t(1) Cons.prems(3) j(2) have "e = None" by simp
    with n1(4) \<open>j = i\<close> show ?thesis by auto
  qed
  have "\<forall>j. j \<notin> set (i # is) \<longrightarrow> out' ! j = out ! j" using ih(2) by simp
  with ih(1) new each none show ?case by blast
qed

lemma sameOutcome_simps [simp]:
  "length (sameOutcome batch e) = length batch" "i < length batch \<Longrightarrow> sameOutcome batch e ! i = Some e"
  by (simp_all add: sameOutcome_def)

lemma with_log_simps [simp]:
  "vp_targets (with_log p) = vp_targets p" "vp_parse (with_log p) = vp_parse p"
  "pl_marshal (vp_plane (with_log p)) = pl_marshal (vp_plane p)" "pl_unmarshal (vp_plane (with_log p)) = pl_unmarshal (vp_plane p)"
  "vp_order (with_log p) (l, s) = vp_order p s"
  by (simp_all add: with_log_def)

lemma authorize_logged:
  "AuthorizeUploads (vp_plane (with_log p)) req (l, s) = (r, (l', s')) \<Longrightarrow> l' = l"
  by (auto simp: AuthorizeUploads_def with_log_def split: if_splits sum.splits prod.splits option.splits)

lemma vend_logged:
  assumes "AuthorizeAndUpload (with_log p) batch (l, s) = (out, (l', s'))"
    and order: "\<And>s is. mset (vp_order p s is) = mset is"
  shows "length out = length batch \<and> (\<exists>new. l' = l @ new \<and> length new \<le> length batch \<and>
    (\<forall>x \<in> set new. \<exists>i < length batch. put_for p (batch ! i) (fst x)) \<and>
    (\<forall>i < length batch. out ! i = None \<longrightarrow> (\<exists>x \<in> set new. put_for p (batch ! i) (fst x) \<and> snd x = Some 200)))"
proof -
  consider (same) e where "out = sameOutcome batch e" "l' = l"
    | (sent) m s1 where "fold (send_at (with_log p) m batch) (vp_order p s1 (to_send m batch)) (map (first_outcome m) batch, (l, s1)) = (out, (l', s'))"
  proof (cases "vend_request (with_log p) batch (l, s)")
    case (Inl e)
    show ?thesis by (rule same [of e]) (use assms(1) Inl in \<open>simp_all add: AuthorizeAndUpload_def\<close>)
  next
    case (Inr req)
    obtain r l1 s1 where a: "AuthorizeUploads (vp_plane (with_log p)) req (l, s) = (r, (l1, s1))" by (metis prod.exhaust)
    note l1 = authorize_logged [OF a]
    show ?thesis
    proof (cases r)
      case (Inl e)
      show ?thesis
        by (rule same [of "classifyAuthorize (vp_live (with_log p) (l, s1)) e"])
          (use assms(1) Inr a l1 Inl in \<open>auto simp: AuthorizeAndUpload_def\<close>)
    next
      case r: (Inr tickets)
      show ?thesis
      proof (cases "ticket_map tickets []")
        case (Inl e)
        show ?thesis by (rule same [of e]) (use assms(1) Inr a l1 r Inl in \<open>simp_all add: AuthorizeAndUpload_def\<close>)
      next
        case m: (Inr m)
        show ?thesis by (rule sent [of m s1]) (use assms(1) Inr a l1 r m in \<open>simp add: AuthorizeAndUpload_def\<close>)
      qed
    qed
  qed
  then show ?thesis
  proof cases
    case same
    then show ?thesis by simp
  next
    case (sent m s1)
    let ?is = "vp_order p s1 (to_send m batch)"
    have is_set: "set ?is = set (to_send m batch)" using order [of s1 "to_send m batch"] by (rule mset_eq_setD)
    have is_len: "length ?is = length (to_send m batch)" using order [of s1 "to_send m batch"] by (rule mset_eq_length)
    have "length (to_send m batch) \<le> length [0..<length batch]" unfolding to_send_def by (rule length_filter_le)
    then have len: "length ?is \<le> length batch" using is_len by simp
    have todo: "\<forall>i \<in> set ?is. i < length batch \<and> (\<exists>t. map_get m (po_ObjectID (batch ! i)) = Some t \<and> \<not> it_AlreadyPresent t)"
    proof
      fix i assume "i \<in> set ?is"
      then have "i \<in> set (to_send m batch)" by (simp only: is_set)
      then show "i < length batch \<and> (\<exists>t. map_get m (po_ObjectID (batch ! i)) = Some t \<and> \<not> it_AlreadyPresent t)"
        by (auto simp: to_send_def first_outcome_def split: option.splits if_splits)
    qed
    from send_at_logged [OF sent todo] obtain new where n: "length out = length batch"
      "\<forall>j. j \<notin> set ?is \<longrightarrow> out ! j = map (first_outcome m) batch ! j" "l' = l @ new" "length new \<le> length ?is"
      "\<forall>x \<in> set new. \<exists>i \<in> set ?is. put_for p (batch ! i) (fst x)"
      "\<forall>i \<in> set ?is. out ! i = None \<longrightarrow> (\<exists>x \<in> set new. put_for p (batch ! i) (fst x) \<and> snd x = Some 200)" by auto
    have "\<exists>x \<in> set new. put_for p (batch ! i) (fst x) \<and> snd x = Some 200" if "i < length batch" "out ! i = None" for i
    proof (cases "i \<in> set ?is")
      case True
      with n(6) that show ?thesis by blast
    next
      case False
      with n(2) that have "first_outcome m (batch ! i) = None" by simp
      with that(1) have "i \<in> set (to_send m batch)" by (simp add: to_send_def)
      with False is_set show ?thesis by simp
    qed
    moreover have "\<forall>x \<in> set new. \<exists>i < length batch. put_for p (batch ! i) (fst x)" using n(5) todo by blast
    moreover have "length new \<le> length batch" using n(4) len by simp
    ultimately show ?thesis using n(1,3) by blast
  qed
qed

section \<open>Properties\<close>

text \<open>
  C12: No byte leaves but under a ticket that was checked. However the goroutines of a group are ordered
  and whatever the control plane and the store answer, the port answers one verdict per object,
  sends at most one request per object, and every request it sends is the PUT of an object of the
  batch under a ticket validated against that very object; and an object it reports as stored was
  sent that way and answered HTTP 200.
\<close>

theorem only_validated_bytes_leave:
  assumes "AuthorizeAndUpload (with_log p) batch ([], s) = (out, (puts, s'))" "\<forall>s is. mset (vp_order p s is) = mset is"
  shows "length out = length batch \<and> length puts \<le> length batch \<and>
    (\<forall>x \<in> set puts. \<exists>i < length batch. put_for p (batch ! i) (fst x)) \<and>
    (\<forall>i < length batch. out ! i = None \<longrightarrow> (\<exists>x \<in> set puts. put_for p (batch ! i) (fst x) \<and> snd x = Some 200))"
  using vend_logged [OF assms(1)] assms(2) by auto

text \<open>
  C13: What the control plane's status does to a group. Any status but 200 sends nothing and gives
  every object of the batch the same verdict, which confirms none; 401 and 403, and no other, say
  that the credentials were refused; 429 and the server errors, and no other, say that uploads are
  unavailable; and the rest stop neither the run nor the install.
\<close>

theorem plane_refusals_classified:
  assumes "vend_request p batch s = Inr req" "ar_WriterID req \<noteq> []" "ar_IssuedAt req \<noteq> 0" "batch \<noteq> []"
    and "pl_marshal (vp_plane p) req = Inr payload" "pl_exchange (vp_plane p) payload s = (Inr (status, raw), s')" "status \<noteq> 200"
  shows "\<exists>e. AuthorizeAndUpload p batch s = (replicate (length batch) (Some e), s') \<and> \<not> confirmed (Some e) \<and>
    (errors_is (Some e) ErrCredentialsRefused \<longleftrightarrow> status = 401 \<or> status = 403) \<and>
    (errors_is (Some e) ErrUploadUnavailable \<longleftrightarrow> status = 429 \<or> status \<ge> 500) \<and>
    (stopsRun (Some e) \<longleftrightarrow> status = 401 \<or> status = 403 \<or> status = 429 \<or> status \<ge> 500)"
proof -
  have objs: "ar_Objects req \<noteq> []"
  proof -
    obtain us where us: "upload_objects batch = Inr us" "ar_Objects req = us"
      using assms(1) by (auto simp: vend_request_def split: sum.splits)
    from us(1) assms(4) have "us \<noteq> []" by (cases batch) (auto split: sum.splits)
    with us(2) show ?thesis by simp
  qed
  have "authorize_status status raw \<noteq> None" using assms(7) by (simp add: authorize_status_def Let_def)
  then obtain e where e: "authorize_status status raw = Some e" by blast
  have a: "AuthorizeUploads (vp_plane p) req s = (Inl e, s')"
    using assms objs e by (simp add: AuthorizeUploads_def)
  define c where "c = classifyAuthorize (vp_live p s') e"
  have out: "AuthorizeAndUpload p batch s = (replicate (length batch) (Some c), s')"
    using assms(1) a by (simp add: AuthorizeAndUpload_def sameOutcome_def c_def)
  have "Offline x = False" if "err_chain x = []" for x using that by (simp add: Offline_def)
  then have c: "err_chain c = (if status = 401 \<or> status = 403 then [ErrCredentialsRefused]
      else if status = 429 \<or> status \<ge> 500 then [ErrUploadUnavailable] else [])"
    using e assms(7) by (auto simp: c_def classifyAuthorize_def authorize_status_def Let_def split: if_splits)
  have "\<not> confirmed (Some c)" by (simp add: confirmed_def c)
  moreover have "stopsRun (Some c) \<longleftrightarrow> status = 401 \<or> status = 403 \<or> status = 429 \<or> status \<ge> 500"
    by (simp add: stopsRun_def c)
  ultimately show ?thesis using out c by auto
qed

section \<open>A concrete port\<close>

definition demo_object :: PreparedObject where
  "demo_object = \<lparr>po_ObjectID = ''0'', po_Key = demo_mirror_key, po_Body = ''xy'', po_SourceHash = ''h'',
     po_Metadata = [(''kind'', ''raw'')]\<rparr>"

definition demo_issued :: issuedTicket where
  "demo_issued = \<lparr>it_TicketID = ''t'', it_ObjectID = ''0'', it_AlreadyPresent = False, it_Method = ''PUT'',
     it_URL = ''/'' @ canonicalPath demo_mirror_key, it_ExpiresAt = 0,
     it_RequiredHeaders = Some (tk_RequiredHeaders demo_ticket), it_ContentLength = 2, it_ContentLengthSigned = True\<rparr>"

text \<open>A control plane that answers \<open>status\<close>, and a store that takes everything.\<close>

definition demo_vend :: "int \<Rightarrow> unit vendPort" where
  "demo_vend status = \<lparr>vp_plane = \<lparr>pl_exchange = (\<lambda>payload s. (Inr (status, ''{}''), s)), pl_marshal = (\<lambda>req. Inr ''{}''),
     pl_unmarshal = (\<lambda>raw. Inr [demo_issued])\<rparr>, vp_targets = [demo_target], vp_writerID = ''w1'', vp_now = (\<lambda>s. 7),
     vp_live = (\<lambda>s. True), vp_parse = demo_parse, vp_build = (\<lambda>u. None),
     vp_do = (\<lambda>rq s. (Inr \<lparr>rs_Status = 200, rs_Body = ([], None)\<rparr>, s)), vp_order = (\<lambda>s is. is)\<rparr>"

lemma demo_shapes: "toUploadTicket demo_issued = demo_ticket" "toPreparedUpload demo_object = demo_prepared"
  by (simp_all add: toUploadTicket_def demo_issued_def demo_ticket_def toPreparedUpload_def demo_object_def demo_prepared_def)

lemma demo_metadata:
  "upload_object demo_object = Inr \<lparr>uo_ObjectID = ''0'', uo_Key = demo_mirror_key, uo_Size = 2, uo_SourceHash = ''h'',
     uo_Metadata = no_metadata\<lparr>um_Kind := ''raw''\<rparr>\<rparr>"
  by (simp add: upload_object_def demo_object_def metadata_field_def)

lemma demo_request: "\<exists>req. vend_request (demo_vend status) [demo_object] s = Inr req \<and> ar_WriterID req = ''w1'' \<and> ar_IssuedAt req = 7 \<and>
    length (ar_Objects req) = 1"
  by (simp add: vend_request_def demo_metadata) (simp add: demo_vend_def)

lemma demo_send:
  "vend_send (with_log (demo_vend 200)) demo_object demo_issued (l, ()) = (None, (l @ [(put_request demo_ticket ''xy'', Some 200)], ()))"
proof -
  have "\<not> it_AlreadyPresent demo_issued" "po_Body demo_object = ''xy''" by (simp_all add: demo_issued_def demo_object_def)
  then show ?thesis
    using demo_validate(2) by (simp add: vend_send_def demo_shapes Upload_def with_log_def demo_vend_def logged_def)
qed

lemma demo_puts:
  "AuthorizeAndUpload (with_log (demo_vend 200)) [demo_object] ([], ()) = ([None], ([(put_request demo_ticket ''xy'', Some 200)], ()))"
proof -
  have i: "it_ObjectID demo_issued = ''0''" "\<not> it_AlreadyPresent demo_issued" "po_ObjectID demo_object = ''0''"
    by (simp_all add: demo_issued_def demo_object_def)
  obtain req where r: "vend_request (with_log (demo_vend 200)) [demo_object] ([], ()) = Inr req" "ar_WriterID req \<noteq> []"
    "ar_IssuedAt req \<noteq> 0" "length (ar_Objects req) = 1"
    by (simp add: vend_request_def demo_metadata) (simp add: demo_vend_def with_log_def)
  then have a: "AuthorizeUploads (vp_plane (with_log (demo_vend 200))) req ([], ()) = (Inr [demo_issued], ([], ()))"
    using i by (auto simp: AuthorizeUploads_def demo_vend_def with_log_def authorize_status_def invalid_present_def Let_def)
  have m: "map_put (it_ObjectID demo_issued) demo_issued [] = [(''0'', demo_issued)]" using i by (simp add: map_put_def)
  have fo: "first_outcome [(''0'', demo_issued)] demo_object = None" using i by (simp add: first_outcome_def map_get_def)
  have ord: "vp_order (with_log (demo_vend 200)) x is = is" for x "is" by (simp add: with_log_def demo_vend_def)
  have "send_at (with_log (demo_vend 200)) [(''0'', demo_issued)] [demo_object] 0 ([None], ([], ())) =
      ([None], ([(put_request demo_ticket ''xy'', Some 200)], ()))"
    using i demo_send [of "[]"] by (simp add: send_at_def map_get_def)
  then show ?thesis by (simp add: AuthorizeAndUpload_def r(1) a m ord to_send_def fo)
qed

theorem only_validated_bytes_leave_witness:
  "put_for (demo_vend 200) demo_object (put_request demo_ticket ''xy'')"
proof -
  have "\<forall>s is. mset (vp_order (demo_vend 200) s is) = mset is" by (simp add: demo_vend_def)
  from only_validated_bytes_leave [OF demo_puts this] show ?thesis by simp
qed

theorem plane_refusals_classified_witness:
  "\<exists>e. AuthorizeAndUpload (demo_vend 403) [demo_object] () = ([Some e], ()) \<and> errors_is (Some e) ErrCredentialsRefused"
proof -
  obtain req where r: "vend_request (demo_vend 403) [demo_object] () = Inr req" "ar_WriterID req \<noteq> []" "ar_IssuedAt req \<noteq> 0"
    using demo_request [of 403 "()"] by auto
  have x: "pl_marshal (vp_plane (demo_vend 403)) req = Inr ''{}''"
    "pl_exchange (vp_plane (demo_vend 403)) ''{}'' () = (Inr (403, ''{}''), ())" by (simp_all add: demo_vend_def)
  from plane_refusals_classified [OF r _ x] show ?thesis by auto
qed

end
