(* ===== verification/End_To_End.thy ===== *)
theory End_To_End
  imports Run_Properties Vend_Port
begin

text \<open>
  The flush on top of the port it really runs with: what a recorded fingerprint says about the
  requests that left the machine.
\<close>

section \<open>A trace the log of requests bears out\<close>

definition stored_put :: "'s vendPort \<Rightarrow> putlog \<Rightarrow> PreparedObject \<Rightarrow> bool" where
  "stored_put p puts obj \<longleftrightarrow> (\<exists>x \<in> set puts. put_for p obj (fst x) \<and> snd x = Some 200)"

definition honest_log :: "'s vendPort \<Rightarrow> trace \<times> (putlog \<times> 's) \<Rightarrow> bool" where
  "honest_log p tw \<longleftrightarrow> (\<forall>(batch, ans) \<in> set (fst tw). length ans = length batch \<and>
     (\<forall>i < length batch. ans ! i = None \<longrightarrow> stored_put p (fst (snd tw)) (batch ! i))) \<and>
   (\<forall>x \<in> set (fst (snd tw)). \<exists>(batch, ans) \<in> set (fst tw). \<exists>i < length batch. put_for p (batch ! i) (fst x))"

lemma stored_put_append: "stored_put p puts obj \<Longrightarrow> stored_put p (puts @ new) obj"
  by (auto simp: stored_put_def)

lemma kept_honest:
  assumes order: "\<And>s is. mset (vp_order p s is) = mset is"
  shows "kept_world (traced (AuthorizeAndUpload (with_log p))) (honest_log p)"
proof
  fix tw batch assume ok: "honest_log p tw"
  obtain tr l s where tw: "tw = (tr, (l, s))" by (rule prod_cases3)
  obtain out l' s' where v: "AuthorizeAndUpload (with_log p) batch (l, s) = (out, (l', s'))" by (rule prod_cases3)
  from vend_logged [OF v order] obtain new where n: "length out = length batch" "l' = l @ new"
    "\<forall>x \<in> set new. \<exists>i < length batch. put_for p (batch ! i) (fst x)"
    "\<forall>i < length batch. out ! i = None \<longrightarrow> stored_put p new (batch ! i)" unfolding stored_put_def by blast
  have w: "snd (traced (AuthorizeAndUpload (with_log p)) batch tw) = (tr @ [(batch, out)], (l', s'))"
    by (simp add: traced_def tw v)
  have old: "\<forall>(b, a) \<in> set tr. length a = length b \<and> (\<forall>i < length b. a ! i = None \<longrightarrow> stored_put p l (b ! i))"
    "\<forall>x \<in> set l. \<exists>(b, a) \<in> set tr. \<exists>i < length b. put_for p (b ! i) (fst x)"
    using ok by (simp_all add: honest_log_def tw)
  have "stored_put p l' (batch ! i)" if "i < length batch" "out ! i = None" for i
    using n(2,4) that by (auto simp: stored_put_def)
  then have "\<forall>(b, a) \<in> set (tr @ [(batch, out)]). length a = length b \<and> (\<forall>i < length b. a ! i = None \<longrightarrow> stored_put p l' (b ! i))"
    using old(1) n(1,2) stored_put_append by fastforce
  moreover have "\<forall>x \<in> set l'. \<exists>(b, a) \<in> set (tr @ [(batch, out)]). \<exists>i < length b. put_for p (b ! i) (fst x)"
    using old(2) n(2,3) by auto
  ultimately show "honest_log p (snd (traced (AuthorizeAndUpload (with_log p)) batch tw))"
    by (simp add: honest_log_def w)
qed

section \<open>Properties\<close>

text \<open>A verdict that the archive holds the object already.\<close>

definition answered_present :: "trace \<Rightarrow> string \<Rightarrow> bool" where
  "answered_present calls key \<longleftrightarrow> (\<exists>(batch, ans) \<in> set calls. \<exists>i < length batch. po_Key (batch ! i) = key \<and>
     errors_is (ans ! i) ErrAlreadyPresent)"

text \<open>
  C1: What is recorded is stored. Whatever the plan, the interleaving of the passes and of the
  requests, the answers of the control plane and of the store, a content hash that the fingerprint
  document holds after a flush and did not hold before is the hash of something a source of the plan
  loaded or derived, and for the key it is mirrored to either a PUT under a ticket validated for
  exactly that key, with the object's bytes, was answered HTTP 200, or the control plane said that
  the archive holds the object; and every request that left the machine was such a validated PUT.
\<close>

theorem recorded_means_stored:
  assumes run: "Run rv (traced (AuthorizeAndUpload (with_log p))) store ([], ([], s)) (err, st)"
    and "storable (st_entries store)" "paths_ok rv" "\<forall>s is. mset (vp_order p s is) = mset is"
    and "cb_view (ry_store st) k = Some fp" "fp_SourceHash fp \<noteq> []"
  shows "((\<exists>fp0. map_get (st_entries store) k = Some fp0 \<and> fp_SourceHash fp0 = fp_SourceHash fp) \<or>
     confirmed_content rv
       (\<lambda>key. (\<exists>obj. po_Key obj = key \<and> stored_put p (fst (snd (ry_world st))) obj) \<or> answered_present (fst (ry_world st)) key)
       k (fp_SourceHash fp)) \<and>
    (\<forall>x \<in> set (fst (snd (ry_world st))). \<exists>obj. put_for p obj (fst x))"
proof -
  have "honest_log p ([], ([], s))" by (simp add: honest_log_def)
  then have h: "honest_log p (ry_world st)"
    by (intro kept_world.Run_keeps [OF kept_honest run]) (use assms(4) in blast)
  have "P key" if "confirmed_key (fst (ry_world st)) key"
    and P: "P = (\<lambda>key. (\<exists>obj. po_Key obj = key \<and> stored_put p (fst (snd (ry_world st))) obj) \<or> answered_present (fst (ry_world st)) key)"
    for key P
  proof -
    from that(1) obtain b a i where c: "(b, a) \<in> set (fst (ry_world st))" "length a = length b" "i < length b"
      "confirmed (a ! i)" "po_Key (b ! i) = key" unfolding confirmed_key_def by blast
    show ?thesis
    proof (cases "a ! i = None")
      case True
      with h c have "stored_put p (fst (snd (ry_world st))) (b ! i)" unfolding honest_log_def by blast
      with c(5) P show ?thesis by blast
    next
      case False
      with c(4) have "errors_is (a ! i) ErrAlreadyPresent" by (simp add: confirmed_def)
      with c P show ?thesis unfolding answered_present_def by blast
    qed
  qed
  note key = this
  have "\<forall>x \<in> set (fst (snd (ry_world st))). \<exists>obj. put_for p obj (fst x)" using h unfolding honest_log_def by blast
  moreover have "(\<exists>fp0. map_get (st_entries store) k = Some fp0 \<and> fp_SourceHash fp0 = fp_SourceHash fp) \<or>
     confirmed_content rv
       (\<lambda>key. (\<exists>obj. po_Key obj = key \<and> stored_put p (fst (snd (ry_world st))) obj) \<or> answered_present (fst (ry_world st)) key)
       k (fp_SourceHash fp)" (is "?old \<or> ?new")
    using run_records_only_confirmed [OF run assms(2,3,5,6)]
  proof
    assume "shipped_hash rv (fst (ry_world st)) k (fp_SourceHash fp)"
    then have "confirmed_content rv (confirmed_key (fst (ry_world st))) k (fp_SourceHash fp)" by (simp only: shipped_hash_def)
    then have ?new by (rule confirmed_content_mono) (rule key [OF _ refl])
    then show ?thesis by (rule disjI2)
  qed (rule disjI1)
  ultimately show ?thesis by blast
qed

theorem recorded_means_stored_witness:
  "\<exists>st. Run (demo_run [off_src] False False) (traced (AuthorizeAndUpload (with_log (demo_vend 200)))) demo_store ([], ([], ())) (None, st) \<and>
    cb_view (ry_store st) (Key ''codex'' ''/a'') = Some demo_fp \<and>
    ((\<exists>fp0. map_get (st_entries demo_store) (Key ''codex'' ''/a'') = Some fp0 \<and> fp_SourceHash fp0 = ''aa'') \<or>
     confirmed_content (demo_run [off_src] False False)
       (\<lambda>key. (\<exists>obj. po_Key obj = key \<and> stored_put (demo_vend 200) (fst (snd (ry_world st))) obj) \<or> answered_present (fst (ry_world st)) key)
       (Key ''codex'' ''/a'') ''aa'')"
proof -
  obtain st where r: "Run (demo_run [off_src] False False) (traced (AuthorizeAndUpload (with_log (demo_vend 200)))) demo_store ([], ([], ())) (None, st)"
    "cb_view (ry_store st) (Key ''codex'' ''/a'') = Some demo_fp" by (rule demo_off_run)
  have h: "fp_SourceHash demo_fp = ''aa''" by (simp add: demo_fp_def)
  then have ne: "fp_SourceHash demo_fp \<noteq> []" by simp
  have order: "\<forall>s is. mset (vp_order (demo_vend 200) s is) = mset is" by (simp add: demo_vend_def)
  from recorded_means_stored [OF r(1) demo_store_ok(1) demo_paths order r(2) ne] r show ?thesis unfolding h by blast
qed

end
