(* ===== verification/Go_Strings.thy ===== *)
theory Go_Strings
  imports Go_Prelude
begin

text \<open>
  What the scanners need of Go's strings beyond the prelude: slicing, which panics out of range and
  is then \<^const>\<open>None\<close>, and searching for a substring. An index is a \<^typ>\<open>nat\<close>: none of
  the scanners computes a negative one other than the \<^verbatim>\<open>-1\<close> of a search that finds nothing,
  which is \<^const>\<open>None\<close>.
\<close>

section \<open>Slices\<close>

definition segment :: "nat \<Rightarrow> nat \<Rightarrow> 'a list \<Rightarrow> 'a list" where
  "segment a b v = take (b - a) (drop a v)"

text \<open>\<^verbatim>\<open>v[a:b]\<close>.\<close>

definition go_slice :: "nat \<Rightarrow> nat \<Rightarrow> 'a list \<Rightarrow> 'a list option" where
  "go_slice a b v = (if a \<le> b \<and> b \<le> length v then Some (segment a b v) else None)"

lemma length_segment [simp]: "b \<le> length v \<Longrightarrow> length (segment a b v) = b - a"
  by (simp add: segment_def)

lemma segment_nth: "i < b - a \<Longrightarrow> b \<le> length v \<Longrightarrow> segment a b v ! i = v ! (a + i)"
  by (simp add: segment_def)

lemma segment_map_nth: "b \<le> length v \<Longrightarrow> segment a b v = map ((!) v) [a ..< b]"
  by (simp add: list_eq_iff_nth_eq segment_nth)

lemma segment_refl [simp]: "segment a a v = []"
  by (simp add: segment_def)

lemma segment_whole [simp]: "segment 0 (length v) v = v"
  by (simp add: segment_def)

lemma segment_append: "a \<le> b \<Longrightarrow> b \<le> c \<Longrightarrow> segment a b v @ segment b c v = segment a c v"
proof -
  assume "a \<le> b" "b \<le> c"
  then have "c - a = (b - a) + (c - b)" "drop b v = drop (b - a) (drop a v)" by simp_all
  then show ?thesis by (simp only: segment_def take_add)
qed

lemma segment_Cons: "a < b \<Longrightarrow> b \<le> length v \<Longrightarrow> segment a b v = v ! a # segment (Suc a) b v"
  by (simp add: segment_def Cons_nth_drop_Suc [symmetric] take_Cons')

lemma segment_snoc: "a \<le> b \<Longrightarrow> b < length v \<Longrightarrow> segment a (Suc b) v = segment a b v @ [v ! b]"
  by (simp add: segment_def Suc_diff_le take_Suc_conv_app_nth)

lemma list_all_segment: "b \<le> length v \<Longrightarrow> list_all P (segment a b v) \<longleftrightarrow> (\<forall>i. a \<le> i \<and> i < b \<longrightarrow> P (v ! i))"
proof -
  assume b: "b \<le> length v"
  have "list_all P (segment a b v) \<longleftrightarrow> (\<forall>i < b - a. P (v ! (a + i)))"
    using b by (simp add: list_all_length segment_nth)
  also have "\<dots> \<longleftrightarrow> (\<forall>i. a \<le> i \<and> i < b \<longrightarrow> P (v ! i))"
    by (metis add_diff_inverse_nat diff_less_mono le_add1 less_diff_conv add.commute not_less)
  finally show ?thesis .
qed

lemma set_segment: "b \<le> length v \<Longrightarrow> set (segment a b v) = {v ! i | i. a \<le> i \<and> i < b}"
  using list_all_segment [of b v "\<lambda>x. x \<in> {v ! i | i. a \<le> i \<and> i < b}" a] list_all_segment [of b v "\<lambda>x. x \<in> set (segment a b v)" a]
  by (auto simp: list_all_iff)

section \<open>Searching\<close>

text \<open>\<^verbatim>\<open>strings.Index\<close> of a substring.\<close>

fun str_index :: "'a list \<Rightarrow> 'a list \<Rightarrow> nat option" where
  "str_index sub [] = (if sub = [] then Some 0 else None)"
| "str_index sub (c # cs) = (if prefix sub (c # cs) then Some 0 else map_option Suc (str_index sub cs))"

definition contains :: "'a list \<Rightarrow> 'a list \<Rightarrow> bool" where
  "contains s sub \<longleftrightarrow> str_index sub s \<noteq> None"

text \<open>\<^verbatim>\<open>strings.IndexByte\<close>.\<close>

definition index_byte :: "'a \<Rightarrow> 'a list \<Rightarrow> nat option" where
  "index_byte c s = str_index [c] s"

definition occurs_at :: "'a list \<Rightarrow> 'a list \<Rightarrow> nat \<Rightarrow> bool" where
  "occurs_at sub s i \<longleftrightarrow> i \<le> length s \<and> prefix sub (drop i s)"

lemma occurs_at_Suc [simp]: "occurs_at sub (c # cs) (Suc i) \<longleftrightarrow> occurs_at sub cs i"
  by (simp add: occurs_at_def)

lemma occurs_at_0 [simp]: "occurs_at sub s 0 \<longleftrightarrow> prefix sub s"
  by (simp add: occurs_at_def)

lemma occurs_at_end: "occurs_at sub s i \<Longrightarrow> i + length sub \<le> length s"
  using prefix_length_le [of sub "drop i s"] by (auto simp: occurs_at_def)

lemma occurs_at_segment: "occurs_at sub s i \<longleftrightarrow> i + length sub \<le> length s \<and> segment i (i + length sub) s = sub"
proof
  assume o: "occurs_at sub s i"
  then show "i + length sub \<le> length s \<and> segment i (i + length sub) s = sub"
    using occurs_at_end [OF o] by (auto simp: occurs_at_def segment_def prefix_def)
next
  assume o: "i + length sub \<le> length s \<and> segment i (i + length sub) s = sub"
  then have "take (length sub) (drop i s) = sub" by (simp add: segment_def)
  with o show "occurs_at sub s i" by (metis add_leD1 occurs_at_def take_is_prefix)
qed

lemma str_index_Some: "str_index sub s = Some i \<longleftrightarrow> occurs_at sub s i \<and> (\<forall>j < i. \<not> occurs_at sub s j)"
proof (induction s arbitrary: i)
  case Nil
  then show ?case by (auto simp: occurs_at_def)
next
  case (Cons c cs)
  show ?case
  proof (cases i)
    case 0
    then show ?thesis by auto
  next
    case (Suc k)
    have "(\<forall>j < Suc k. \<not> occurs_at sub (c # cs) j) \<longleftrightarrow> \<not> prefix sub (c # cs) \<and> (\<forall>j < k. \<not> occurs_at sub cs j)"
      by (auto simp: less_Suc_eq_0_disj)
    with Suc Cons show ?thesis by auto
  qed
qed

lemma str_index_occurs: "occurs_at sub s i \<Longrightarrow> \<exists>j. str_index sub s = Some j \<and> j \<le> i"
proof (induction s arbitrary: i)
  case (Cons c cs)
  then show ?case by (cases i) fastforce+
qed (simp add: occurs_at_def)

lemma str_index_None: "str_index sub s = None \<longleftrightarrow> (\<forall>i. \<not> occurs_at sub s i)"
  using str_index_occurs [of sub s] str_index_Some [of sub s] by (cases "str_index sub s") auto

lemma contains_iff: "contains s sub \<longleftrightarrow> (\<exists>i. occurs_at sub s i)"
  by (simp add: contains_def str_index_None)

lemma occurs_at_byte: "occurs_at [c] s i \<longleftrightarrow> i < length s \<and> s ! i = c"
  by (cases "i < length s") (simp_all add: occurs_at_segment segment_Cons)

lemma index_byte_Some: "index_byte c s = Some i \<longleftrightarrow> i < length s \<and> s ! i = c \<and> (\<forall>j < i. s ! j \<noteq> c)"
  unfolding index_byte_def str_index_Some occurs_at_byte using order.strict_trans by blast

lemma index_byte_None: "index_byte c s = None \<longleftrightarrow> c \<notin> set s"
  unfolding index_byte_def str_index_None occurs_at_byte in_set_conv_nth by blast

end
