(* ===== verification/Go_Regexp.thy ===== *)
theory Go_Regexp
  imports Go_Strings
begin

text \<open>
  What the rule corpora use of Go's \<^verbatim>\<open>regexp\<close>: leftmost-first matching as backtracking
  defines it. \<open>ends r v i\<close> lists where a match of \<open>r\<close> that starts at \<open>i\<close> can end, in the order a
  backtracking matcher would try them, so the first one is the match. The classes and word
  boundaries of the patterns are ASCII, so bytes decide them: no byte of a longer rune is in a
  class, and none is a word byte.
\<close>

section \<open>Patterns\<close>

datatype re =
    Cls "char \<Rightarrow> bool"
  | Seq re re
  | Rep nat "nat option" re
  | WordEdge

definition is_word :: "char \<Rightarrow> bool" where
  "is_word c \<longleftrightarrow> is_lower c \<or> is_upper c \<or> is_digit c \<or> c = CHR ''_''"

definition word_at :: "string \<Rightarrow> nat \<Rightarrow> bool" where
  "word_at v i \<longleftrightarrow> i < length v \<and> is_word (v ! i)"

text \<open>\<^verbatim>\<open>\b\<close>.\<close>

definition word_edge :: "string \<Rightarrow> nat \<Rightarrow> bool" where
  "word_edge v i \<longleftrightarrow> (0 < i \<and> word_at v (i - 1)) \<noteq> word_at v i"

text \<open>Greedy repetition: one more turn first, for at most \<open>n\<close> turns and at least \<open>lo\<close>.\<close>

fun rep_ends :: "(nat \<Rightarrow> nat list) \<Rightarrow> nat \<Rightarrow> nat \<Rightarrow> nat \<Rightarrow> nat list" where
  "rep_ends f lo 0 i = (if lo = 0 then [i] else [])"
| "rep_ends f lo (Suc n) i = concat (map (rep_ends f (lo - 1) n) (f i)) @ (if lo = 0 then [i] else [])"

text \<open>
  The patterns repeat without a bound only what consumes a byte, so the length of the text bounds
  the turns.
\<close>

primrec ends :: "re \<Rightarrow> string \<Rightarrow> nat \<Rightarrow> nat list" where
  "ends (Cls p) v i = (if i < length v \<and> p (v ! i) then [i + 1] else [])"
| "ends (Seq a b) v i = concat (map (ends b v) (ends a v i))"
| "ends (Rep lo hi r) v i = rep_ends (ends r v) lo (case hi of Some m \<Rightarrow> m | None \<Rightarrow> length v) i"
| "ends WordEdge v i = (if word_edge v i then [i] else [])"

definition match_at :: "re \<Rightarrow> string \<Rightarrow> nat \<Rightarrow> nat option" where
  "match_at r v i = (case ends r v i of [] \<Rightarrow> None | e # _ \<Rightarrow> Some e)"

text \<open>
  \<^verbatim>\<open>FindAll\<close>: the leftmost match, then again from its end; an empty match moves one on.
\<close>

function find_all :: "(nat \<Rightarrow> nat option) \<Rightarrow> nat \<Rightarrow> nat \<Rightarrow> (nat \<times> nat) list" where
  "find_all m len i =
     (if len < i then []
      else case m i of
             None \<Rightarrow> find_all m len (i + 1)
           | Some e \<Rightarrow> (i, e) # find_all m len (if i < e then e else i + 1))"
  by pat_completeness auto
termination
  by (relation "measure (\<lambda>(m, len, i). Suc len - i)") auto

declare find_all.simps [simp del]

definition FindAll :: "re \<Rightarrow> string \<Rightarrow> (nat \<times> nat) list" where
  "FindAll r v = find_all (match_at r v) (length v) 0"

section \<open>Searching past what does not match\<close>

lemma find_all_skip:
  assumes "i \<le> j" "\<And>k. i \<le> k \<Longrightarrow> k < j \<Longrightarrow> m k = None"
  shows "find_all m len i = find_all m len j"
  using assms
proof (induction "j - i" arbitrary: i)
  case (Suc d)
  then have "find_all m len (i + 1) = find_all m len j" by simp
  moreover have "m i = None" using Suc.prems(2) [of i] Suc.hyps(2) by simp
  moreover have "len < i \<Longrightarrow> find_all m len j = []" using Suc.hyps(2) by (simp add: find_all.simps)
  ultimately show ?case by (simp add: find_all.simps [of m len i])
qed simp

lemma find_all_hit:
  assumes "i \<le> len" "m i = Some e" "i < e"
  shows "find_all m len i = (i, e) # find_all m len e"
  using assms by (simp add: find_all.simps [of m len i])

lemma find_all_end:
  assumes "\<And>k. i \<le> k \<Longrightarrow> k \<le> len \<Longrightarrow> m k = None"
  shows "find_all m len i = []"
proof (cases "i \<le> len")
  case True
  have "find_all m len i = find_all m len (Suc len)" using True assms by (intro find_all_skip) auto
  then show ?thesis by (simp add: find_all.simps)
qed (simp add: find_all.simps)

section \<open>Runs of a class\<close>

text \<open>Where the run of bytes of a class that starts at an index ends.\<close>

definition run_end :: "(char \<Rightarrow> bool) \<Rightarrow> string \<Rightarrow> nat \<Rightarrow> nat" where
  "run_end p v i = i + length (takeWhile p (drop i v))"

lemma run_end_bounds: "i \<le> run_end p v i" "i \<le> length v \<Longrightarrow> run_end p v i \<le> length v"
  using length_takeWhile_le [of p "drop i v"] by (auto simp: run_end_def)

lemma run_end_in: "i \<le> k \<Longrightarrow> k < run_end p v i \<Longrightarrow> k < length v \<and> p (v ! k)"
proof -
  assume "i \<le> k" "k < run_end p v i"
  then have k: "k - i < length (takeWhile p (drop i v))" by (auto simp: run_end_def)
  then have "p (takeWhile p (drop i v) ! (k - i))" by (metis nth_mem set_takeWhileD)
  moreover have "k < length v" using k length_takeWhile_le [of p "drop i v"] \<open>i \<le> k\<close> by simp
  ultimately show ?thesis using k \<open>i \<le> k\<close> by (simp add: takeWhile_nth)
qed

lemma run_end_stops: "run_end p v i < length v \<Longrightarrow> \<not> p (v ! run_end p v i)"
  using nth_length_takeWhile [of p "drop i v"] by (auto simp: run_end_def nth_drop)

lemma run_end_eq:
  assumes "i \<le> e" "e \<le> length v" "\<And>k. i \<le> k \<Longrightarrow> k < e \<Longrightarrow> p (v ! k)" "e < length v \<Longrightarrow> \<not> p (v ! e)"
  shows "run_end p v i = e"
proof (rule antisym)
  show "run_end p v i \<le> e"
    using run_end_in [of i e p v] assms(1,2,4) by (meson not_le_imp_less)
  show "e \<le> run_end p v i"
  proof (rule ccontr)
    assume "\<not> e \<le> run_end p v i"
    with assms(2) have "run_end p v i < length v" "run_end p v i < e" by auto
    with run_end_stops [of p v i] assms(3) [of "run_end p v i"] run_end_bounds(1) [of i p v] show False by simp
  qed
qed

lemma run_end_ge: "i < j \<Longrightarrow> j \<le> run_end p v i \<longleftrightarrow> j \<le> length v \<and> (\<forall>k. i \<le> k \<and> k < j \<longrightarrow> p (v ! k))"
proof
  assume "i < j" "j \<le> run_end p v i"
  then show "j \<le> length v \<and> (\<forall>k. i \<le> k \<and> k < j \<longrightarrow> p (v ! k))"
    using run_end_in [of i _ p v] by (metis Suc_le_eq Suc_pred le_less_trans less_le_trans less_or_eq_imp_le not_less zero_le
        add_diff_inverse_nat diff_Suc_1 lessI less_Suc_eq_le less_nat_zero_code nat_neq_iff)
next
  assume *: "i < j" "j \<le> length v \<and> (\<forall>k. i \<le> k \<and> k < j \<longrightarrow> p (v ! k))"
  show "j \<le> run_end p v i"
  proof (rule ccontr)
    assume "\<not> j \<le> run_end p v i"
    with * have "run_end p v i < length v" "run_end p v i < j" by auto
    with run_end_stops [of p v i] * run_end_bounds(1) [of i p v] show False by auto
  qed
qed

lemma run_end_step: "i < length v \<Longrightarrow> p (v ! i) \<Longrightarrow> run_end p v i = run_end p v (i + 1)"
  by (simp add: run_end_def Cons_nth_drop_Suc [symmetric])

lemma run_end_self: "i \<ge> length v \<or> \<not> p (v ! i) \<Longrightarrow> run_end p v i = i"
  by (cases "i < length v") (auto simp: run_end_def Cons_nth_drop_Suc [symmetric])

text \<open>Where a class repeated ends: as far as its run goes, longest first.\<close>

lemma ends_Rep_Cls:
  "rep_ends (ends (Cls p) v) lo n i = rev [i + lo ..< Suc (min (run_end p v i) (i + n))]"
proof (induction n arbitrary: lo i)
  case 0
  then show ?case using run_end_bounds(1) [of i p v] by simp
next
  case (Suc n)
  show ?case
  proof (cases "i < length v \<and> p (v ! i)")
    case True
    then have r: "run_end p v i = run_end p v (i + 1)" "i + 1 \<le> run_end p v (i + 1)"
      using run_end_step run_end_bounds(1) by simp_all
    have split: "[i ..< Suc m] = i # [Suc i ..< Suc m]" if "i \<le> m" for m
      using that by (simp add: upt_conv_Cons del: upt_Suc)
    show ?thesis
      using Suc [of "lo - 1" "i + 1"] True r split [of "min (run_end p v (i + 1)) (i + Suc n)"]
      by (cases lo) (simp_all del: upt_Suc)
  next
    case False
    then have "run_end p v i = i" "ends (Cls p) v i = []" by (auto intro!: run_end_self)
    then show ?thesis by (simp only: rep_ends.simps list.map concat.simps append_Nil) simp
  qed
qed

lemma ends_class_some:
  "ends (Rep lo (Some n) (Cls p)) v i = rev [i + lo ..< Suc (min (run_end p v i) (i + n))]"
  using ends_Rep_Cls [of p v lo n i] by simp

lemma ends_class_none:
  "i \<le> length v \<Longrightarrow> ends (Rep lo None (Cls p)) v i = rev [i + lo ..< Suc (run_end p v i)]"
  using ends_Rep_Cls [of p v lo "length v" i] run_end_bounds(2) [of i v p] by (simp add: min_def)

lemma word_edge_start: "word_at v i \<Longrightarrow> word_edge v i \<longleftrightarrow> i = 0 \<or> \<not> word_at v (i - 1)"
  by (auto simp: word_edge_def)

lemma word_edge_end: "0 < i \<Longrightarrow> word_at v (i - 1) \<Longrightarrow> word_edge v i \<longleftrightarrow> \<not> word_at v i"
  by (auto simp: word_edge_def)

lemma match_at_filter:
  "ends r v i = filter P es \<Longrightarrow> match_at r v i = find P es"
  unfolding match_at_def by (induction es) auto

end
