(* ===== verification/Bitset.thy ===== *)
theory Bitset
  imports Go_Prelude "HOL-Library.Word"
begin

unbundle bit_operations_syntax

text \<open>
  The bit sets of \<^verbatim>\<open>src/internal/transforms/scrub.go\<close> (\<^verbatim>\<open>newBitset\<close>,
  \<^verbatim>\<open>setBit\<close>, \<^verbatim>\<open>hasBit\<close>): a set of byte positions packed into 64-bit words. The
  interface \<open>bitset\<close> says what the escape index relies on.
\<close>

locale bitset =
  fixes fresh :: "nat \<Rightarrow> 'b"
    and put :: "'b \<Rightarrow> nat \<Rightarrow> 'b"
    and has :: "'b \<Rightarrow> nat \<Rightarrow> bool"
    and room :: "'b \<Rightarrow> nat \<Rightarrow> bool"
  assumes has_fresh: "\<not> has (fresh n) k"
    and room_fresh: "k \<le> n \<Longrightarrow> room (fresh n) k"
    and has_put: "room b k \<Longrightarrow> has (put b k) j \<longleftrightarrow> j = k \<or> has b j"
    and room_put: "room (put b k) j \<longleftrightarrow> room b j"
begin

lemma room_puts: "room (foldl put b ks) j \<longleftrightarrow> room b j"
  by (induction ks arbitrary: b) (auto simp: room_put)

lemma has_puts:
  "(\<And>k. k \<in> set ks \<Longrightarrow> room b k) \<Longrightarrow> has (foldl put b ks) j \<longleftrightarrow> j \<in> set ks \<or> has b j"
  by (induction ks arbitrary: b) (auto simp: has_put room_put)

end

definition newBitset :: "nat \<Rightarrow> 64 word list" where
  "newBitset n = replicate (n div 64 + 1) 0"

definition setBit :: "64 word list \<Rightarrow> nat \<Rightarrow> 64 word list" where
  "setBit b k = b[k div 64 := (b ! (k div 64)) OR push_bit (k mod 64) 1]"

definition hasBit :: "64 word list \<Rightarrow> nat \<Rightarrow> bool" where
  "hasBit b k \<longleftrightarrow> k div 64 < length b \<and> (b ! (k div 64)) AND push_bit (k mod 64) 1 \<noteq> 0"

text \<open>An index \<^verbatim>\<open>setBit\<close> may be given; it panics on any other.\<close>

definition fits :: "64 word list \<Rightarrow> nat \<Rightarrow> bool" where
  "fits b k \<longleftrightarrow> k div 64 < length b"

lemma one_bit: "(w :: 'a::len word) AND push_bit m 1 \<noteq> 0 \<longleftrightarrow> bit w m"
proof
  assume "w AND push_bit m 1 \<noteq> 0"
  then obtain i where "bit (w AND push_bit m 1) i" by (auto simp: bit_eq_iff)
  then show "bit w m" by (auto simp: bit_simps)
next
  assume "bit w m"
  then have "bit (w AND push_bit m 1) m" using bit_imp_le_length [of w m] by (simp add: bit_simps)
  then show "w AND push_bit m 1 \<noteq> 0" by auto
qed

lemma hasBit_iff: "hasBit b k \<longleftrightarrow> k div 64 < length b \<and> bit (b ! (k div 64)) (k mod 64)"
  unfolding hasBit_def one_bit by auto

interpretation words: bitset newBitset setBit hasBit fits
proof unfold_locales
  show "\<not> hasBit (newBitset n) k" for n k by (simp add: hasBit_iff newBitset_def nth_append del: replicate_Suc)
  show "k \<le> n \<Longrightarrow> fits (newBitset n) k" for n k by (simp add: fits_def newBitset_def div_le_mono less_Suc_eq_le)
  show "fits (setBit b k) j \<longleftrightarrow> fits b j" for b k j by (simp add: fits_def setBit_def)
  show "fits b k \<Longrightarrow> hasBit (setBit b k) j \<longleftrightarrow> j = k \<or> hasBit b j" for b k j
  proof (cases "j div 64 = k div 64")
    case True
    then have "j = k \<longleftrightarrow> j mod 64 = k mod 64" by (metis mult_div_mod_eq)
    with True show "fits b k \<Longrightarrow> hasBit (setBit b k) j \<longleftrightarrow> j = k \<or> hasBit b j"
      by (auto simp: fits_def hasBit_iff setBit_def bit_simps)
  next
    case False
    then show "fits b k \<Longrightarrow> hasBit (setBit b k) j \<longleftrightarrow> j = k \<or> hasBit b j"
      by (auto simp: hasBit_iff setBit_def)
  qed
qed

lemmas bitset_simps [simp] = words.has_fresh words.has_put words.room_put

text \<open>\<^verbatim>\<open>for w := range a { a[w] |= b[w] & c[w] }\<close>.\<close>

definition or_and :: "64 word list \<Rightarrow> 64 word list \<Rightarrow> 64 word list \<Rightarrow> 64 word list" where
  "or_and a b c = map (\<lambda>w. (a ! w) OR ((b ! w) AND (c ! w))) [0 ..< length a]"

lemma hasBit_or_and:
  "length b = length a \<Longrightarrow> length c = length a \<Longrightarrow>
   hasBit (or_and a b c) k \<longleftrightarrow> hasBit a k \<or> hasBit b k \<and> hasBit c k"
  by (auto simp: hasBit_iff or_and_def bit_simps)

lemma length_setBit [simp]: "length (setBit b k) = length b"
  by (simp add: setBit_def)

lemma length_setBits [simp]: "length (foldl setBit b ks) = length b"
  by (induction ks arbitrary: b) simp_all

end
