(* ===== verification/Scrub_Spans.thy ===== *)
theory Scrub_Spans
  imports Go_Strings Naming Go_Map "HOL-Library.Product_Lexorder"
begin

text \<open>
  The spans a redaction is made of, \<^verbatim>\<open>src/internal/transforms/matcher.go\<close>,
  \<^verbatim>\<open>packs/packs.go\<close> (\<^verbatim>\<open>Span\<close>) and the plan of \<^verbatim>\<open>scrub.go\<close>: the byte
  ranges detectors report, how overlapping ones are merged, and how a plan rewrites a value. The
  abstract reading of a list of spans is the set of byte positions it covers.
\<close>

section \<open>Spans and the sentinel\<close>

record Span =
  sp_Start :: nat
  sp_End :: nat
  sp_RuleID :: string

definition covered :: "'a Span_scheme list \<Rightarrow> nat set" where
  "covered ss = (\<Union>s \<in> set ss. {sp_Start s ..< sp_End s})"

definition sentinelPrefix :: string where "sentinelPrefix = ''__REDACTED''"

definition Sentinel :: "string \<Rightarrow> string" where
  "Sentinel ruleID = sentinelPrefix @ '':'' @ ruleID @ ''__''"

definition cut_prefix :: "string \<Rightarrow> string \<Rightarrow> string option" where
  "cut_prefix s p = (if prefix p s then Some (drop (length p) s) else None)"

definition isSentinel :: "string \<Rightarrow> bool" where
  "isSentinel s =
     (case cut_prefix s (sentinelPrefix @ '':'') of
        None \<Rightarrow> False
      | Some tail \<Rightarrow>
          (case cut_suffix tail ''__'' of
             None \<Rightarrow> False
           | Some ident \<Rightarrow> ident \<noteq> [] \<and> list_all (\<lambda>c. c = CHR ''-'' \<or> is_lower c \<or> is_digit c) ident))"

lemma covered_simps [simp]:
  "covered [] = {}"
  "covered (s # ss) = {sp_Start s ..< sp_End s} \<union> covered ss"
  "covered (ss @ ts) = covered ss \<union> covered ts"
  by (auto simp: covered_def)

lemma finite_covered [simp]: "finite (covered ss)"
  by (simp add: covered_def)

lemma covered_rev [simp]: "covered (rev ss) = covered ss"
  by (simp add: covered_def)

lemma covered_sort_key [simp]: "covered (sort_key f ss) = covered ss"
  by (simp add: covered_def)

lemma covered_truncate [simp]: "covered (map Span.truncate ss) = covered ss"
  by (simp add: covered_def Span.truncate_def)

lemma cut_suffix_append: "cut_suffix (b @ suf) suf = Some b"
  by (simp add: cut_suffix_Some_iff)

lemma isSentinel_iff:
  "isSentinel s \<longleftrightarrow> (\<exists>ident. s = Sentinel ident \<and> ident \<noteq> [] \<and>
                          list_all (\<lambda>c. c = CHR ''-'' \<or> is_lower c \<or> is_digit c) ident)"
proof -
  have "isSentinel (Sentinel ident) \<longleftrightarrow> ident \<noteq> [] \<and> list_all (\<lambda>c. c = CHR ''-'' \<or> is_lower c \<or> is_digit c) ident" for ident
    by (simp add: isSentinel_def cut_prefix_def Sentinel_def cut_suffix_append)
  moreover have "\<exists>ident. s = Sentinel ident" if "isSentinel s"
    using that by (auto simp: isSentinel_def cut_prefix_def Sentinel_def prefix_def cut_suffix_Some_iff
                    split: option.splits if_splits)
  ultimately show ?thesis by blast
qed

section \<open>The ledger\<close>

text \<open>\<^verbatim>\<open>hits[id] += n\<close>; a missing entry of a Go map reads as zero.\<close>

type_synonym ledger = "(string, int) gomap"

definition count_of :: "ledger \<Rightarrow> string \<Rightarrow> int" where
  "count_of h ident = (case map_get h ident of None \<Rightarrow> 0 | Some c \<Rightarrow> c)"

definition bump :: "string \<Rightarrow> int \<Rightarrow> ledger \<Rightarrow> ledger" where
  "bump ident n h = map_put ident (count_of h ident + n) h"

lemma count_of_Nil [simp]: "count_of [] i = 0"
  by (simp add: count_of_def map_get_def)

lemma count_of_bump [simp]: "count_of (bump i n h) j = count_of h j + (if i = j then n else 0)"
  by (simp add: count_of_def bump_def map_get_def map_put_def update_conv split: option.splits)

lemma count_of_Cons: "count_of ((k, c) # h) i = (if i = k then c else count_of h i)"
  by (simp add: count_of_def map_get_def)

lemma map_ok_bump [simp]: "map_ok h \<Longrightarrow> map_ok (bump i n h)"
  by (simp add: bump_def)

text \<open>\<^verbatim>\<open>for id, c := range other { h[id] += c }\<close>.\<close>

definition add_ledger :: "ledger \<Rightarrow> ledger \<Rightarrow> ledger" where
  "add_ledger other h = foldl (\<lambda>h (ident, c). bump ident c h) h other"

lemma count_of_add_ledger:
  "map_ok other \<Longrightarrow> count_of (add_ledger other h) i = count_of h i + count_of other i"
proof (induction other arbitrary: h)
  case (Cons kc other)
  obtain k c where kc: "kc = (k, c)" by (rule prod.exhaust)
  with Cons.prems have ok: "map_ok other" and "k \<notin> fst ` set other" by (auto simp: map_ok_def)
  then have "count_of other k = 0" by (simp add: count_of_def map_get_def map_of_eq_None_iff [THEN iffD2])
  then show ?case using Cons.IH [OF ok, of "bump k c h"] by (simp add: kc add_ledger_def count_of_Cons)
qed (simp add: add_ledger_def)

lemma map_ok_add_ledger: "map_ok h \<Longrightarrow> map_ok (add_ledger other h)"
  unfolding add_ledger_def by (induction other arbitrary: h) auto

section \<open>Merging overlapping spans\<close>

record prioritizedSpan = Span +
  ps_priority :: nat

text \<open>
  The comparison of \<^verbatim>\<open>slices.SortFunc\<close>: two spans it does not order are equal, so the
  sorted list is determined although the sort is not stable.
\<close>

definition span_key :: "prioritizedSpan \<Rightarrow> nat \<times> nat \<times> int \<times> string" where
  "span_key s = (sp_Start s, ps_priority s, - int (sp_End s), sp_RuleID s)"

definition with_priority :: "nat \<Rightarrow> Span \<Rightarrow> prioritizedSpan" where
  "with_priority p s = Span.extend s \<lparr>ps_priority = p\<rparr>"

text \<open>One turn of the merging loop; the resolved spans are kept last first.\<close>

fun resolve_step :: "Span list \<times> int \<times> ledger \<Rightarrow> prioritizedSpan \<Rightarrow> Span list \<times> int \<times> ledger" where
  "resolve_step ([], redacted, hits) s =
     ([Span.truncate s], redacted + (int (sp_End s) - int (sp_Start s)), bump (sp_RuleID s) 1 hits)"
| "resolve_step (prev # resolved, redacted, hits) s =
     (if sp_Start s < sp_End prev
      then (if sp_End prev < sp_End s
            then (prev\<lparr>sp_End := sp_End s\<rparr> # resolved, redacted + (int (sp_End s) - int (sp_End prev)), hits)
            else (prev # resolved, redacted, hits))
      else (Span.truncate s # prev # resolved,
            redacted + (int (sp_End s) - int (sp_Start s)), bump (sp_RuleID s) 1 hits))"

definition resolveSpans :: "Span list \<Rightarrow> Span list \<Rightarrow> Span list \<times> int \<times> ledger" where
  "resolveSpans patternSpans heuristicSpans =
     (if patternSpans = [] \<and> heuristicSpans = [] then ([], 0, [])
      else let spans = map (with_priority 0) patternSpans @ map (with_priority 1) heuristicSpans;
               (resolved, redacted, hits) = foldl resolve_step ([], 0, []) (sort_key span_key spans)
           in (rev resolved, redacted, hits))"

lemma span_key_inj: "span_key s = span_key t \<Longrightarrow> s = (t :: prioritizedSpan)"
  by (cases s; cases t) (simp add: span_key_def)

lemma with_priority_sel [simp]:
  "sp_Start (with_priority p s) = sp_Start s" "sp_End (with_priority p s) = sp_End s"
  "sp_RuleID (with_priority p s) = sp_RuleID s" "ps_priority (with_priority p s) = p"
  by (simp_all add: with_priority_def Span.extend_def)

lemma truncate_sel [simp]:
  "sp_Start (Span.truncate s) = sp_Start s" "sp_End (Span.truncate s) = sp_End s"
  "sp_RuleID (Span.truncate s) = sp_RuleID s"
  by (simp_all add: Span.truncate_def)

lemma covered_with_priority [simp]: "covered (map (with_priority p) ss) = covered ss"
  by (simp add: covered_def)

text \<open>Spans in order that do not overlap; adjacent ones may touch.\<close>

definition in_order :: "'a Span_scheme list \<Rightarrow> bool" where
  "in_order = sorted_wrt (\<lambda>a b. sp_End a \<le> sp_Start b)"

definition span_ok :: "'a Span_scheme \<Rightarrow> bool" where
  "span_ok s \<longleftrightarrow> sp_Start s \<le> sp_End s"

text \<open>
  The state of the merging loop after a sorted list of spans: the resolved spans are in order,
  cover what was read and nothing else, the counter counts that, and the ledger the regions.
\<close>

definition merged :: "prioritizedSpan list \<Rightarrow> Span list \<times> int \<times> ledger \<Rightarrow> bool" where
  "merged seen st =
     (case st of (resolved, redacted, hits) \<Rightarrow>
        in_order (rev resolved) \<and> list_all span_ok resolved \<and>
        covered resolved = covered seen \<and> redacted = int (card (covered seen)) \<and>
        (\<forall>r \<in> set resolved. \<exists>s \<in> set seen. sp_Start s = sp_Start r \<and> sp_RuleID s = sp_RuleID r) \<and>
        (\<forall>i. count_of hits i = int (length (filter (\<lambda>r. sp_RuleID r = i) resolved))))"

lemma covered_below:
  assumes "in_order (rev (prev # resolved))" "list_all span_ok (prev # resolved)" "x \<in> covered (prev # resolved)"
  shows "x < sp_End prev"
proof -
  from assms(3) obtain r where r: "r \<in> set (prev # resolved)" "x < sp_End r" by (auto simp: covered_def)
  show ?thesis
  proof (cases "r = prev")
    case False
    with r assms(1) have "sp_End r \<le> sp_Start prev" by (auto simp: in_order_def sorted_wrt_append)
    with r(2) assms(2) show ?thesis by (auto simp: span_ok_def)
  qed (use r in simp)
qed

lemma mergedI:
  assumes "in_order (rev resolved)" "list_all span_ok resolved" "covered resolved = covered seen"
    and "redacted = int (card (covered seen))"
    and "\<And>r. r \<in> set resolved \<Longrightarrow> \<exists>s \<in> set seen. sp_Start s = sp_Start r \<and> sp_RuleID s = sp_RuleID r"
    and "\<And>i. count_of hits i = int (length (filter (\<lambda>r. sp_RuleID r = i) resolved))"
  shows "merged seen (resolved, redacted, hits)"
  using assms by (simp add: merged_def)

lemma mergedD:
  assumes "merged seen (resolved, redacted, hits)"
  shows "in_order (rev resolved)" "list_all span_ok resolved" "covered resolved = covered seen"
    and "redacted = int (card (covered seen))"
    and "\<And>r. r \<in> set resolved \<Longrightarrow> \<exists>s \<in> set seen. sp_Start s = sp_Start r \<and> sp_RuleID s = sp_RuleID r"
    and "\<And>i. count_of hits i = int (length (filter (\<lambda>r. sp_RuleID r = i) resolved))"
  using assms by (simp_all add: merged_def)

lemma in_order_snoc: "in_order (ss @ [s]) \<longleftrightarrow> in_order ss \<and> (\<forall>r \<in> set ss. sp_End r \<le> sp_Start s)"
  by (simp add: in_order_def sorted_wrt_append)

lemma merged_append:
  assumes "merged seen (resolved, redacted, hits)" "span_ok s" "\<forall>r \<in> set resolved. sp_End r \<le> sp_Start s"
  shows "merged (seen @ [s]) (Span.truncate s # resolved, redacted + (int (sp_End s) - int (sp_Start s)), bump (sp_RuleID s) 1 hits)"
proof (rule mergedI)
  note inv = mergedD [OF assms(1)]
  have "covered seen \<inter> {sp_Start s ..< sp_End s} = {}"
  proof (rule ccontr)
    assume "covered seen \<inter> {sp_Start s ..< sp_End s} \<noteq> {}"
    then obtain x r where "r \<in> set resolved" "x < sp_End r" "sp_Start s \<le> x"
      unfolding inv(3) [symmetric] by (auto simp: covered_def)
    with assms(3) show False by fastforce
  qed
  then have "card (covered (seen @ [s])) = card (covered seen) + (sp_End s - sp_Start s)"
    by (simp add: card_Un_disjoint)
  then show "redacted + (int (sp_End s) - int (sp_Start s)) = int (card (covered (seen @ [s])))"
    using inv(4) assms(2) by (simp add: span_ok_def of_nat_diff)
  show "in_order (rev (Span.truncate s # resolved))" using inv(1) assms(3) by (simp add: in_order_snoc)
  show "list_all span_ok (Span.truncate s # resolved)" using inv(2) assms(2) by (simp add: span_ok_def)
  show "covered (Span.truncate s # resolved) = covered (seen @ [s])" using inv(3) by auto
  show "\<exists>q \<in> set (seen @ [s]). sp_Start q = sp_Start r \<and> sp_RuleID q = sp_RuleID r"
    if "r \<in> set (Span.truncate s # resolved)" for r using that inv(5) [of r] by auto
  show "count_of (bump (sp_RuleID s) 1 hits) i = int (length (filter (\<lambda>r. sp_RuleID r = i) (Span.truncate s # resolved)))" for i
    using inv(6) [of i] by simp
qed

lemma merged_extend:
  assumes "merged seen (prev # earlier, redacted, hits)"
    and "sp_Start prev \<le> sp_Start s" "sp_Start s < sp_End prev" "sp_End prev < sp_End s"
  shows "merged (seen @ [s]) (prev\<lparr>sp_End := sp_End s\<rparr> # earlier, redacted + (int (sp_End s) - int (sp_End prev)), hits)"
proof (rule mergedI)
  note inv = mergedD [OF assms(1)]
  have below: "\<And>x. x \<in> covered seen \<Longrightarrow> x < sp_End prev"
    by (rule covered_below [OF inv(1,2)]) (simp only: inv(3))
  have ext: "covered (seen @ [s]) = covered seen \<union> {sp_End prev ..< sp_End s}"
  proof -
    have "{sp_Start s ..< sp_End prev} \<subseteq> covered seen" unfolding inv(3) [symmetric] using assms(2) by auto
    moreover have "{sp_Start s ..< sp_End s} = {sp_Start s ..< sp_End prev} \<union> {sp_End prev ..< sp_End s}"
      using assms(3,4) by (simp add: ivl_disj_un_two)
    ultimately show ?thesis by auto
  qed
  have disj: "covered seen \<inter> {sp_End prev ..< sp_End s} = {}" using below by fastforce
  have "card (covered (seen @ [s])) = card (covered seen) + (sp_End s - sp_End prev)"
    unfolding ext using disj by (simp add: card_Un_disjoint)
  then show "redacted + (int (sp_End s) - int (sp_End prev)) = int (card (covered (seen @ [s])))"
    using inv(4) assms(4) by (simp add: of_nat_diff)
  show "in_order (rev (prev\<lparr>sp_End := sp_End s\<rparr> # earlier))" using inv(1) by (simp add: in_order_snoc)
  show "list_all span_ok (prev\<lparr>sp_End := sp_End s\<rparr> # earlier)" using inv(2) assms(4) by (simp add: span_ok_def)
  show "covered (prev\<lparr>sp_End := sp_End s\<rparr> # earlier) = covered (seen @ [s])"
    unfolding ext inv(3) [symmetric] using assms(4) inv(2) by (auto simp: span_ok_def)
  show "\<exists>q \<in> set (seen @ [s]). sp_Start q = sp_Start r \<and> sp_RuleID q = sp_RuleID r"
    if "r \<in> set (prev\<lparr>sp_End := sp_End s\<rparr> # earlier)" for r
    using that inv(5) [of prev] inv(5) [of r] by auto
  show "count_of hits i = int (length (filter (\<lambda>r. sp_RuleID r = i) (prev\<lparr>sp_End := sp_End s\<rparr> # earlier)))" for i
    using inv(6) [of i] by simp
qed

lemma merged_within:
  assumes "merged seen (prev # earlier, redacted, hits)"
    and "sp_Start prev \<le> sp_Start s" "sp_End s \<le> sp_End prev"
  shows "merged (seen @ [s]) (prev # earlier, redacted, hits)"
proof -
  note inv = mergedD [OF assms(1)]
  have "{sp_Start s ..< sp_End s} \<subseteq> covered seen" unfolding inv(3) [symmetric] using assms(2,3) by auto
  then have same: "covered (seen @ [s]) = covered seen" by auto
  show ?thesis
    by (rule mergedI [OF inv(1,2)]) (use inv(3,4,6) same in \<open>simp_all only:\<close>, use inv(5) in fastforce)
qed

lemma merged_step:
  assumes "merged seen (resolved, redacted, hits)" "span_ok s" "\<forall>t \<in> set seen. sp_Start t \<le> sp_Start s"
  shows "merged (seen @ [s]) (resolve_step (resolved, redacted, hits) s)"
proof (cases resolved)
  case Nil
  with merged_append [OF assms(1,2)] show ?thesis by simp
next
  case (Cons prev earlier)
  note m = assms(1) [unfolded Cons]
  have start: "sp_Start prev \<le> sp_Start s" using mergedD(5) [OF m, of prev] assms(3) by fastforce
  have before: "\<forall>r \<in> set (prev # earlier). sp_End r \<le> sp_Start s" if "sp_End prev \<le> sp_Start s"
    using that mergedD(1,2) [OF m] by (fastforce simp: in_order_snoc span_ok_def)
  show ?thesis
    using merged_append [OF m assms(2) before] merged_extend [OF m start] merged_within [OF m start] Cons
    by (auto simp: not_less)
qed

lemma merged_foldl:
  assumes "merged seen st" "list_all span_ok ss" "sorted (map sp_Start (seen @ ss))"
  shows "merged (seen @ ss) (foldl resolve_step st ss)"
  using assms
proof (induction ss arbitrary: seen st)
  case (Cons s ss)
  obtain r n h where st: "st = (r, n, h)" by (rule prod_cases3)
  have "merged (seen @ [s]) (resolve_step st s)"
    unfolding st by (rule merged_step) (use Cons.prems st in \<open>auto simp: sorted_append\<close>)
  then show ?case using Cons.IH [of "seen @ [s]"] Cons.prems by simp
qed simp


lemma sorted_starts: "sorted (map sp_Start (sort_key span_key ss))"
proof -
  have "sorted_wrt (\<lambda>a b. span_key a \<le> span_key b) (sort_key span_key ss)"
    using sorted_sort_key [of span_key ss] by (simp add: sorted_map)
  then show ?thesis unfolding sorted_map
    by (rule sorted_wrt_mono_rel [rotated]) (auto simp: span_key_def)
qed

lemma merged_start: "merged [] ([], 0, [])"
  by (simp add: merged_def in_order_def)

lemma resolve_merged:
  assumes "list_all span_ok ps" "list_all span_ok hs"
  defines "spans \<equiv> sort_key span_key (map (with_priority 0) ps @ map (with_priority 1) hs)"
  shows "merged spans (foldl resolve_step ([], 0, []) spans)"
proof -
  have "list_all span_ok spans" using assms(1,2) by (auto simp: spans_def list_all_iff span_ok_def)
  moreover have "sorted (map sp_Start ([] @ spans))" unfolding spans_def append_Nil by (rule sorted_starts)
  ultimately show ?thesis using merged_foldl [OF merged_start, of spans] by simp
qed

lemma resolve_exact:
  assumes "list_all span_ok ps" "list_all span_ok hs" "resolveSpans ps hs = (rs, redacted, hits)"
  shows "in_order rs \<and> list_all span_ok rs \<and> covered rs = covered ps \<union> covered hs \<and> redacted = int (card (covered ps \<union> covered hs)) \<and>
         count_of hits i = int (length (filter (\<lambda>r. sp_RuleID r = i) rs))"
proof (cases "ps = [] \<and> hs = []")
  case False
  let ?spans = "sort_key span_key (map (with_priority 0) ps @ map (with_priority 1) hs)"
  obtain resolved where r: "rs = rev resolved" "foldl resolve_step ([], 0, []) ?spans = (resolved, redacted, hits)"
    using assms(3) False by (auto simp: resolveSpans_def Let_def split: prod.splits)
  from resolve_merged [OF assms(1,2)] have m: "merged ?spans (resolved, redacted, hits)" unfolding r(2) .
  from mergedD [OF m] r(1) show ?thesis by (simp add: rev_filter [symmetric])
qed (use assms(3) in \<open>simp add: resolveSpans_def in_order_def\<close>)

text \<open>
  C35: Merging is exact. From any spans two detectors report, the resolved spans are in order and
  do not overlap, they cover exactly the bytes some detector reported, the redaction counter is the
  number of those bytes, and the ledger has one hit per region for the rule of that region.
\<close>

theorem resolve_spans_exact:
  assumes "list_all span_ok ps" "list_all span_ok hs" "resolveSpans ps hs = (rs, redacted, hits)"
  shows "in_order rs \<and> covered rs = covered ps \<union> covered hs \<and> redacted = int (card (covered ps \<union> covered hs)) \<and>
         count_of hits i = int (length (filter (\<lambda>r. sp_RuleID r = i) rs))"
  using resolve_exact [OF assms] by blast

theorem resolve_spans_exact_witness:
  "\<exists>rs redacted hits.
     resolveSpans [\<lparr>sp_Start = 4, sp_End = 9, sp_RuleID = ''aws''\<rparr>] [\<lparr>sp_Start = 2, sp_End = 6, sp_RuleID = ''generic-entropy''\<rparr>]
       = (rs, redacted, hits) \<and>
     in_order rs \<and> covered rs = {2 ..< 9} \<and> redacted = 7 \<and> count_of hits ''generic-entropy'' = 1"
proof -
  let ?p = "[\<lparr>sp_Start = 4, sp_End = 9, sp_RuleID = ''aws''\<rparr>] :: Span list"
  let ?h = "[\<lparr>sp_Start = 2, sp_End = 6, sp_RuleID = ''generic-entropy''\<rparr>] :: Span list"
  have r: "resolveSpans ?p ?h = ([\<lparr>sp_Start = 2, sp_End = 9, sp_RuleID = ''generic-entropy''\<rparr>], 7, [(''generic-entropy'', 1)])"
    by code_simp
  have "covered ?p \<union> covered ?h = {2 ..< 9}" by auto
  with resolve_spans_exact [of ?p ?h, OF _ _ r, of "''generic-entropy''"] r show ?thesis
    by (simp add: span_ok_def)
qed

text \<open>
  A region takes the rule it starts with, and where a pattern and a heuristic start together, the
  pattern's: what opened it is the least span, in the order of the sort, that starts there.
\<close>

definition opened :: "prioritizedSpan list \<Rightarrow> Span list \<Rightarrow> bool" where
  "opened seen resolved \<longleftrightarrow>
     (\<forall>r \<in> set resolved. \<exists>s \<in> set seen. sp_Start s = sp_Start r \<and> sp_RuleID s = sp_RuleID r \<and>
        (\<forall>t \<in> set seen. sp_Start t = sp_Start s \<longrightarrow> span_key s \<le> span_key t))"

lemma openedE:
  assumes "opened seen resolved" "r \<in> set resolved"
  obtains s where "s \<in> set seen" "sp_Start s = sp_Start r" "sp_RuleID s = sp_RuleID r"
    "\<And>t. t \<in> set seen \<Longrightarrow> sp_Start t = sp_Start s \<Longrightarrow> span_key s \<le> span_key t"
  using assms unfolding opened_def by metis

lemma opened_later:
  assumes "opened seen resolved" "\<And>t. t \<in> set seen \<Longrightarrow> span_key t \<le> span_key s"
  shows "opened (seen @ [s]) resolved"
  unfolding opened_def
proof
  fix r assume "r \<in> set resolved"
  with assms(1) obtain q where q: "q \<in> set seen" "sp_Start q = sp_Start r" "sp_RuleID q = sp_RuleID r"
      "\<And>t. t \<in> set seen \<Longrightarrow> sp_Start t = sp_Start q \<Longrightarrow> span_key q \<le> span_key t" by (rule openedE) blast
  with assms(2) [OF q(1)] show "\<exists>s' \<in> set (seen @ [s]). sp_Start s' = sp_Start r \<and> sp_RuleID s' = sp_RuleID r \<and>
      (\<forall>t \<in> set (seen @ [s]). sp_Start t = sp_Start s' \<longrightarrow> span_key s' \<le> span_key t)"
    by (intro bexI [of _ q]) auto
qed

lemma opened_step:
  assumes m: "merged seen (resolved, redacted, hits)" and op: "opened seen resolved"
    and ne: "\<And>t. t \<in> set seen \<Longrightarrow> sp_Start t < sp_End t"
    and key: "\<And>t. t \<in> set seen \<Longrightarrow> span_key t \<le> span_key s"
  shows "opened (seen @ [s]) (fst (resolve_step (resolved, redacted, hits) s))"
proof -
  have fresh: "opened (seen @ [s]) (Span.truncate s # resolved)"
    if "\<And>x. x \<in> covered seen \<Longrightarrow> x < sp_Start s"
  proof -
    have "sp_Start t \<noteq> sp_Start s" if "t \<in> set seen" for t
      using \<open>\<And>x. x \<in> covered seen \<Longrightarrow> x < sp_Start s\<close> [of "sp_Start t"] ne [OF that] that
      by (fastforce simp: covered_def)
    then show ?thesis using opened_later [OF op key] by (fastforce simp: opened_def)
  qed
  show ?thesis
  proof (cases resolved)
    case Nil
    with mergedD(3) [OF m] fresh show ?thesis by simp
  next
    case (Cons prev earlier)
    note inv = mergedD [OF m [unfolded Cons]]
    have "x < sp_Start s" if "x \<in> covered seen" "sp_End prev \<le> sp_Start s" for x
      using covered_below [OF inv(1,2)] that inv(3) by fastforce
    with fresh Cons opened_later [OF op key] show ?thesis
      by (auto simp: opened_def)
  qed
qed

lemma opened_foldl:
  assumes "merged seen st" "opened seen (fst st)" "list_all (\<lambda>s. sp_Start s < sp_End s) (seen @ ss)"
    and "sorted (map span_key (seen @ ss))"
  shows "opened (seen @ ss) (fst (foldl resolve_step st ss))"
  using assms
proof (induction ss arbitrary: seen st)
  case (Cons s ss)
  obtain r n h where st: "st = (r, n, h)" by (rule prod_cases3)
  have key: "\<And>t. t \<in> set seen \<Longrightarrow> span_key t \<le> span_key s" using Cons.prems(4) by (auto simp: sorted_append)
  have start: "\<forall>t \<in> set seen. sp_Start t \<le> sp_Start s" using key by (fastforce simp: span_key_def)
  have ne: "\<And>t. t \<in> set seen \<Longrightarrow> sp_Start t < sp_End t" "sp_Start s < sp_End s"
    using Cons.prems(3) by (auto simp: list_all_iff)
  have "merged (seen @ [s]) (resolve_step st s)"
    unfolding st by (rule merged_step) (use Cons.prems(1) st ne(2) start in \<open>simp_all add: span_ok_def\<close>)
  moreover have "opened (seen @ [s]) (fst (resolve_step st s))"
    using opened_step [of seen r n h s] Cons.prems(1,2) key ne(1) unfolding st by simp
  ultimately show ?case using Cons.IH [of "seen @ [s]"] Cons.prems by simp
qed simp

lemma resolve_prefers_patterns:
  assumes ne: "list_all (\<lambda>s. sp_Start s < sp_End s) (ps @ hs)" and r: "resolveSpans ps hs = (rs, redacted, hits)"
    and "r \<in> set rs" and p: "p \<in> set ps" "sp_Start p = sp_Start r"
  shows "\<exists>p \<in> set ps. sp_Start p = sp_Start r \<and> sp_RuleID p = sp_RuleID r"
proof -
  let ?spans = "sort_key span_key (map (with_priority 0) ps @ map (with_priority 1) hs)"
  have ok: "list_all (\<lambda>s. sp_Start s < sp_End s) ?spans" using ne by (auto simp: list_all_iff)
  have "opened ([] @ ?spans) (fst (foldl resolve_step ([], 0, []) ?spans))"
    by (rule opened_foldl [OF merged_start]) (use ok in \<open>simp_all add: opened_def\<close>)
  moreover have "r \<in> set (fst (foldl resolve_step ([], 0, []) ?spans))"
    using r assms(3) p(1) by (auto simp: resolveSpans_def Let_def split: prod.splits if_splits)
  ultimately obtain s where s: "s \<in> set ?spans" "sp_Start s = sp_Start r" "sp_RuleID s = sp_RuleID r"
      "\<And>t. t \<in> set ?spans \<Longrightarrow> sp_Start t = sp_Start s \<Longrightarrow> span_key s \<le> span_key t"
    by (rule openedE) auto
  have "span_key s \<le> span_key (with_priority 0 p)" by (rule s(4)) (use p s(2) in auto)
  then have "ps_priority s = 0" using p(2) s(2) by (simp add: span_key_def)
  with s(1-3) show ?thesis by auto
qed

end
