(* ===== verification/Pii_Scan.thy ===== *)
theory Pii_Scan
  imports Go_Regexp Bitset Scrub_Spans
begin

text \<open>
  The hand-written scanners of personal data, \<^verbatim>\<open>src/internal/transforms/packs/pii.go\<close> and
  \<^verbatim>\<open>packs/handscan.go\<close>: one walk over the runs of word bytes that collects the candidates
  of the rules \<^verbatim>\<open>pesel\<close>, \<^verbatim>\<open>iban\<close> and \<^verbatim>\<open>card-pan\<close>, and the scanner of
  the rule \<^verbatim>\<open>email\<close>. Each is proved to find what the pattern the corpus
  \<^verbatim>\<open>packs/data/pii-core.json\<close> states for its rule finds, in the same order.
\<close>

section \<open>Byte classes\<close>

definition piiWord :: "8 word" where "piiWord = push_bit 0 1"
definition piiDigit :: "8 word" where "piiDigit = push_bit 1 1"
definition piiUpper :: "8 word" where "piiUpper = push_bit 2 1"
definition piiAlpha :: "8 word" where "piiAlpha = push_bit 3 1"

definition pii_class :: "char \<Rightarrow> 8 word" where
  "pii_class c =
     (if is_digit c then piiWord OR piiDigit OR piiUpper
      else if is_upper c then piiWord OR piiUpper OR piiAlpha
      else if is_lower c \<or> c = CHR ''_'' then piiWord
      else 0)"

definition isWordByte :: "char \<Rightarrow> bool" where
  "isWordByte c \<longleftrightarrow> pii_class c AND piiWord \<noteq> 0"

lemma char_classes [simp]:
  "is_digit c \<Longrightarrow> \<not> is_upper c" "is_digit c \<Longrightarrow> \<not> is_lower c" "is_upper c \<Longrightarrow> \<not> is_lower c"
  "\<not> is_digit CHR ''_''" "\<not> is_upper CHR ''_''" "\<not> is_lower CHR ''_''"
  by (auto simp: is_digit_def is_upper_def is_lower_def less_eq_char_def)

lemma pii_bits:
  "bit (pii_class c) 0 \<longleftrightarrow> is_word c" "bit (pii_class c) (Suc 0) \<longleftrightarrow> is_digit c"
  "bit (pii_class c) 2 \<longleftrightarrow> is_upper c \<or> is_digit c" "bit (pii_class c) 3 \<longleftrightarrow> is_upper c"
  by (auto simp: pii_class_def piiWord_def piiDigit_def piiUpper_def piiAlpha_def is_word_def bit_simps)

lemma no_bit: "(w :: 'a::len word) AND push_bit m 1 = 0 \<longleftrightarrow> \<not> bit w m"
  using one_bit [of w m] by blast

lemma pii_tests [simp]:
  "pii_class c AND piiWord = 0 \<longleftrightarrow> \<not> is_word c" "pii_class c AND piiDigit = 0 \<longleftrightarrow> \<not> is_digit c"
  "pii_class c AND piiUpper = 0 \<longleftrightarrow> \<not> (is_upper c \<or> is_digit c)" "pii_class c AND piiAlpha = 0 \<longleftrightarrow> \<not> is_upper c"
  unfolding piiWord_def piiDigit_def piiUpper_def piiAlpha_def no_bit using pii_bits by simp_all

lemma isWordByte [simp]: "isWordByte = is_word"
  by (rule ext) (simp add: isWordByte_def)

text \<open>A class bit survives the conjunction over a run exactly when every byte of the run has it.\<close>

lemma bit_foldl_and: "bit (foldl (\<lambda>a c. a AND f c) w cs) k \<longleftrightarrow> bit w k \<and> list_all (\<lambda>c. bit (f c) k) cs"
  by (induction cs arbitrary: w) (auto simp: bit_simps)

section \<open>The walk\<close>

record ValueScan =
  vs_pesel :: "Span list"
  vs_iban :: "Span list"
  vs_pan :: "Span list"

definition cand :: "nat \<Rightarrow> nat \<Rightarrow> Span" where
  "cand a b = \<lparr>sp_Start = a, sp_End = b, sp_RuleID = []\<rparr>"

definition panMaxDigits :: nat where "panMaxDigits = 19"
definition panMinReps :: nat where "panMinReps = 12"

text \<open>The next digit of a chain, behind the one at \<open>p\<close> or behind one separator.\<close>

definition next_digit :: "string \<Rightarrow> nat \<Rightarrow> nat option" where
  "next_digit v p =
     (if p + 1 < length v \<and> pii_class (v ! (p + 1)) AND piiDigit \<noteq> 0 then Some (p + 1)
      else if p + 2 < length v \<and> (v ! (p + 1) = CHR '' '' \<or> v ! (p + 1) = CHR ''-'') \<and>
              pii_class (v ! (p + 2)) AND piiDigit \<noteq> 0 then Some (p + 2)
      else None)"

text \<open>The first loop: the digit positions from \<open>p\<close> on, \<open>n\<close> at most.\<close>

fun pan_chain :: "string \<Rightarrow> nat \<Rightarrow> nat \<Rightarrow> nat list" where
  "pan_chain v p 0 = []"
| "pan_chain v p (Suc n) = p # (case next_digit v p of None \<Rightarrow> [] | Some q \<Rightarrow> pan_chain v q n)"

text \<open>The second loop: the longest prefix of the chain that ends on a word boundary.\<close>

definition scanCardPANFrom :: "string \<Rightarrow> nat \<Rightarrow> nat option" where
  "scanCardPANFrom v start =
     (let chain = pan_chain v start panMaxDigits
      in find (\<lambda>stop. \<not> (stop < length v \<and> pii_class (v ! stop) AND piiWord \<noteq> 0))
           (map (\<lambda>reps. chain ! reps + 1) (rev [panMinReps ..< length chain])))"

function pii_walk :: "string \<Rightarrow> nat \<Rightarrow> nat \<Rightarrow> ValueScan" where
  "pii_walk v i panCursor =
     (if length v \<le> i then \<lparr>vs_pesel = [], vs_iban = [], vs_pan = []\<rparr>
      else if pii_class (v ! i) AND piiWord = 0 then pii_walk v (i + 1) panCursor
      else let start = i;
               stop = run_end isWordByte v (i + 1);
               acc = foldl (\<lambda>a c. a AND pii_class c) (pii_class (v ! start)) (segment (start + 1) stop v);
               n = stop - start;
               pan = (if pii_class (v ! start) AND piiDigit \<noteq> 0 \<and> panCursor \<le> start then scanCardPANFrom v start else None);
               later = pii_walk v stop (case pan of Some e \<Rightarrow> e | None \<Rightarrow> panCursor)
           in \<lparr>vs_pesel = (if acc AND piiDigit \<noteq> 0 \<and> n = 11 then [cand start stop] else []) @ vs_pesel later,
               vs_iban = (if acc AND piiUpper \<noteq> 0 \<and> 15 \<le> n \<and> n \<le> 34 \<and> pii_class (v ! start) AND piiAlpha \<noteq> 0 \<and>
                             pii_class (v ! (start + 1)) AND piiAlpha \<noteq> 0 \<and>
                             pii_class (v ! (start + 2)) AND piiDigit \<noteq> 0 \<and>
                             pii_class (v ! (start + 3)) AND piiDigit \<noteq> 0
                          then [cand start stop] else []) @ vs_iban later,
               vs_pan = (case pan of Some e \<Rightarrow> [cand start e] | None \<Rightarrow> []) @ vs_pan later\<rparr>)"
  by pat_completeness auto
termination
  by (relation "measure (\<lambda>(v, i, c). length v - i)")
     (use run_end_bounds(1) [of "Suc _" is_word] in \<open>auto simp: Suc_le_eq intro!: diff_less_mono2\<close>)

declare pii_walk.simps [simp del]

definition walk :: "string \<Rightarrow> ValueScan" where
  "walk v = pii_walk v 0 0"

section \<open>The patterns\<close>

definition exactly :: "nat \<Rightarrow> re \<Rightarrow> re" where "exactly n r = Rep n (Some n) r"

text \<open>\<^verbatim>\<open>\b[0-9]{11}\b\<close>\<close>

definition pesel_re :: re where
  "pesel_re = Seq WordEdge (Seq (exactly 11 (Cls is_digit)) WordEdge)"

text \<open>\<^verbatim>\<open>\b[A-Z]{2}[0-9]{2}[A-Z0-9]{11,30}\b\<close>\<close>

definition iban_re :: re where
  "iban_re = Seq WordEdge (Seq (exactly 2 (Cls is_upper)) (Seq (exactly 2 (Cls is_digit))
     (Seq (Rep 11 (Some 30) (Cls (\<lambda>c. is_upper c \<or> is_digit c))) WordEdge)))"

text \<open>\<^verbatim>\<open>\b(?:[0-9][ -]?){12,18}[0-9]\b\<close>\<close>

definition card_re :: re where
  "card_re = Seq WordEdge (Seq (Rep 12 (Some 18) (Seq (Cls is_digit) (Rep 0 (Some 1) (Cls (\<lambda>c. c = CHR '' '' \<or> c = CHR ''-'')))))
     (Seq (Cls is_digit) WordEdge))"

section \<open>Whole runs\<close>

definition in_run :: "string \<Rightarrow> nat \<Rightarrow> bool" where
  "in_run v i \<longleftrightarrow> 0 < i \<and> word_at v (i - 1) \<and> word_at v i"

lemma ends_edge_first: "ends (Seq WordEdge r) v i = (if word_edge v i then ends r v i else [])"
  by simp

lemma ends_edge_last: "ends (Seq r WordEdge) v i = filter (word_edge v) (ends r v i)"
proof -
  have "concat (map (\<lambda>j. if word_edge v j then [j] else []) js) = filter (word_edge v) js" for js
    by (induction js) auto
  moreover have "ends WordEdge v = (\<lambda>j. if word_edge v j then [j] else [])" by (rule ext) simp
  ultimately show ?thesis by simp
qed

lemma ends_assoc: "ends (Seq a (Seq b c)) v i = ends (Seq (Seq a b) c) v i"
proof -
  have "concat (map (\<lambda>j. concat (map f (g j))) js) = concat (map f (concat (map g js)))" for f g and js :: "nat list"
    by (induction js) auto
  moreover have "ends (Seq b c) v = (\<lambda>j. concat (map (ends c v) (ends b v j)))" by (rule ext) simp
  ultimately show ?thesis by simp
qed

lemma ends_assoc_fun: "ends (Seq a (Seq b c)) v = ends (Seq (Seq a b) c) v"
  by (rule ext) (rule ends_assoc)

lemma ends_Seq_cong: "ends b v = ends b' v \<Longrightarrow> ends (Seq a b) v = ends (Seq a b') v"
  by (rule ext) simp

lemma ends_exactly:
  "ends (exactly n (Cls p)) v i = (if i + n \<le> run_end p v i then [i + n] else [])"
  by (auto simp: exactly_def ends_class_some min_def not_le simp del: ends.simps(3) upt_Suc) simp_all

lemma run_word_edge:
  assumes "i < length v" "is_word (v ! i)" "i < e" "e \<le> length v" "\<And>k. i \<le> k \<Longrightarrow> k < e \<Longrightarrow> is_word (v ! k)"
  shows "word_edge v e \<longleftrightarrow> e = run_end is_word v i"
proof -
  have "word_at v (e - 1)" using assms by (simp add: word_at_def)
  then have "word_edge v e \<longleftrightarrow> \<not> word_at v e" using word_edge_end [of e v] assms(3) by simp
  also have "\<dots> \<longleftrightarrow> e = run_end is_word v i"
    using run_end_eq [of i e v is_word] assms run_end_stops [of is_word v i] by (auto simp: word_at_def)
  finally show ?thesis .
qed


lemma match_at_edge: "match_at (Seq WordEdge r) v i = (if word_edge v i then match_at r v i else None)"
  by (simp add: match_at_def)

lemma find_unique: "(\<And>x. x \<in> set xs \<Longrightarrow> P x \<longleftrightarrow> x = y) \<Longrightarrow> find P xs = (if y \<in> set xs then Some y else None)"
  by (induction xs) auto

text \<open>A pattern of word bytes between two boundaries matches whole runs only.\<close>

lemma whole_run_match:
  assumes "\<And>e. e \<in> set (ends r v i) \<Longrightarrow> i < e \<and> e \<le> length v \<and> (\<forall>k. i \<le> k \<and> k < e \<longrightarrow> is_word (v ! k))"
  shows "match_at (Seq WordEdge (Seq r WordEdge)) v i =
    (if word_at v i \<and> \<not> in_run v i \<and> run_end is_word v i \<in> set (ends r v i) then Some (run_end is_word v i) else None)"
proof (cases "ends r v i = []")
  case True
  then show ?thesis by (simp add: match_at_def)
next
  case False
  then obtain e where "e \<in> set (ends r v i)" by (cases "ends r v i") auto
  with assms have w: "word_at v i" "i < length v" "is_word (v ! i)" by (fastforce simp: word_at_def)+
  have "word_edge v e \<longleftrightarrow> e = run_end is_word v i" if "e \<in> set (ends r v i)" for e
    using run_word_edge [of i v e] w(2,3) assms [OF that] by auto
  then have f: "find (word_edge v) (ends r v i) = (if run_end is_word v i \<in> set (ends r v i) then Some (run_end is_word v i) else None)"
    by (rule find_unique)
  have "match_at (Seq WordEdge (Seq r WordEdge)) v i = (if word_edge v i then find (word_edge v) (ends r v i) else None)"
    using match_at_filter [OF ends_edge_last, of r v i] by (simp add: match_at_edge)
  then show ?thesis using f word_edge_start [OF w(1)] w(1) by (auto simp: in_run_def)
qed

lemma pesel_match:
  "match_at pesel_re v i =
    (let stop = run_end is_word v i in
     if word_at v i \<and> \<not> in_run v i \<and> stop = i + 11 \<and> list_all is_digit (segment i stop v) then Some stop else None)"
proof -
  have e: "e \<in> set (ends (exactly 11 (Cls is_digit)) v i) \<longleftrightarrow>
      e = i + 11 \<and> e \<le> length v \<and> (\<forall>k. i \<le> k \<and> k < e \<longrightarrow> is_digit (v ! k))" for e
    unfolding ends_exactly using run_end_ge [of i "i + 11" is_digit v] by auto
  have "match_at pesel_re v i = (if word_at v i \<and> \<not> in_run v i \<and>
      run_end is_word v i \<in> set (ends (exactly 11 (Cls is_digit)) v i) then Some (run_end is_word v i) else None)"
    unfolding pesel_re_def by (rule whole_run_match) (use e in \<open>auto simp: is_word_def\<close>)
  then show ?thesis using run_end_bounds(2) [of i v is_word]
    unfolding e by (auto simp: Let_def list_all_segment word_at_def)
qed

lemma iban_match:
  "match_at iban_re v i =
    (let stop = run_end is_word v i in
     if word_at v i \<and> \<not> in_run v i \<and> i + 15 \<le> stop \<and> stop \<le> i + 34 \<and>
        list_all (\<lambda>c. is_upper c \<or> is_digit c) (segment i stop v) \<and>
        is_upper (v ! i) \<and> is_upper (v ! (i + 1)) \<and> is_digit (v ! (i + 2)) \<and> is_digit (v ! (i + 3))
     then Some stop else None)"
proof -
  let ?ud = "\<lambda>c. is_upper c \<or> is_digit c"
  let ?r = "Seq (exactly 2 (Cls is_upper)) (Seq (exactly 2 (Cls is_digit)) (Rep 11 (Some 30) (Cls ?ud)))"
  have two: "(\<forall>k. i \<le> k \<and> k < i + 2 \<longrightarrow> P k) \<longleftrightarrow> P i \<and> P (i + 1)" for P :: "nat \<Rightarrow> bool" and i
    by (auto simp: less_Suc_eq numeral_2_eq_2 le_Suc_eq)
  have e: "e \<in> set (ends ?r v i) \<longleftrightarrow> i + 15 \<le> e \<and> e \<le> i + 34 \<and> e \<le> length v \<and>
      (\<forall>k. i \<le> k \<and> k < e \<longrightarrow> ?ud (v ! k)) \<and> is_upper (v ! i) \<and> is_upper (v ! (i + 1)) \<and> is_digit (v ! (i + 2)) \<and> is_digit (v ! (i + 3))"
    (is "?L e \<longleftrightarrow> ?R e") for e
  proof -
    have "?L e \<longleftrightarrow> i + 2 \<le> run_end is_upper v i \<and> i + 4 \<le> run_end is_digit v (i + 2) \<and>
        i + 15 \<le> e \<and> e \<le> run_end ?ud v (i + 4) \<and> e \<le> i + 34"
    proof -
      have four: "Suc (Suc (Suc (Suc i))) = i + 4" by simp
      show ?thesis by (auto simp: ends_exactly ends_class_some four less_Suc_eq_le simp del: upt_Suc ends.simps(3))
    qed
    also have "\<dots> \<longleftrightarrow> i + 15 \<le> e \<and> e \<le> i + 34 \<and> e \<le> length v \<and> is_upper (v ! i) \<and> is_upper (v ! (i + 1)) \<and>
        is_digit (v ! (i + 2)) \<and> is_digit (v ! (i + 3)) \<and> (\<forall>k. i + 4 \<le> k \<and> k < e \<longrightarrow> ?ud (v ! k))"
    proof -
      have "i + 2 \<le> run_end is_upper v i \<longleftrightarrow> i + 2 \<le> length v \<and> is_upper (v ! i) \<and> is_upper (v ! (i + 1))"
      proof -
        have "i < i + 2" by simp
        with run_end_ge [of i "i + 2" is_upper v] two [of i "\<lambda>k. is_upper (v ! k)"] show ?thesis by metis
      qed
      moreover have "i + 4 \<le> run_end is_digit v (i + 2) \<longleftrightarrow> i + 4 \<le> length v \<and> is_digit (v ! (i + 2)) \<and> is_digit (v ! (i + 3))"
      proof -
        have "i + 2 < i + 4" "i + 2 + 2 = i + 4" "i + 2 + 1 = i + 3" by simp_all
        with run_end_ge [of "i + 2" "i + 4" is_digit v] two [of "i + 2" "\<lambda>k. is_digit (v ! k)"] show ?thesis by metis
      qed
      moreover have "i + 15 \<le> e \<Longrightarrow> e \<le> run_end ?ud v (i + 4) \<longleftrightarrow> e \<le> length v \<and> (\<forall>k. i + 4 \<le> k \<and> k < e \<longrightarrow> ?ud (v ! k))"
        by (rule run_end_ge) simp
      ultimately show ?thesis by auto
    qed
    also have "\<dots> \<longleftrightarrow> ?R e"
    proof -
      have "k = i \<or> k = i + 1 \<or> k = i + 2 \<or> k = i + 3 \<or> i + 4 \<le> k" if "i \<le> k" for k using that by linarith
      then have "(\<forall>k. i \<le> k \<and> k < e \<longrightarrow> ?ud (v ! k)) \<longleftrightarrow> (\<forall>k. i + 4 \<le> k \<and> k < e \<longrightarrow> ?ud (v ! k))"
        if "is_upper (v ! i)" "is_upper (v ! (i + 1))" "is_digit (v ! (i + 2))" "is_digit (v ! (i + 3))"
        using that by (metis add_leE)
      then show ?thesis by blast
    qed
    finally show ?thesis .
  qed
  have "ends (Seq (exactly 2 (Cls is_upper)) (Seq (exactly 2 (Cls is_digit)) (Seq (Rep 11 (Some 30) (Cls ?ud)) WordEdge))) v
      = ends (Seq ?r WordEdge) v"
    by (rule trans [OF ends_Seq_cong [OF ends_assoc_fun] ends_assoc_fun])
  then have "ends iban_re v i = ends (Seq WordEdge (Seq ?r WordEdge)) v i"
    unfolding iban_re_def by (simp only: ends_edge_first)
  then have "match_at iban_re v i = match_at (Seq WordEdge (Seq ?r WordEdge)) v i" by (simp only: match_at_def)
  also have "\<dots> = (if word_at v i \<and> \<not> in_run v i \<and> run_end is_word v i \<in> set (ends ?r v i) then Some (run_end is_word v i) else None)"
    by (rule whole_run_match) (use e in \<open>auto simp: is_word_def\<close>)
  finally have m: "match_at iban_re v i = (if word_at v i \<and> \<not> in_run v i \<and> run_end is_word v i \<in> set (ends ?r v i)
      then Some (run_end is_word v i) else None)" .
  show ?thesis
  proof (cases "word_at v i")
    case True
    then have "run_end is_word v i \<le> length v" using run_end_bounds(2) [of i v is_word] by (simp add: word_at_def)
    then show ?thesis unfolding m e Let_def using list_all_segment [of "run_end is_word v i" v ?ud i] by (intro if_cong) auto
  qed (simp add: m)
qed


section \<open>The walk finds what the patterns find\<close>

lemma bit_class_run:
  assumes "start < stop" "stop \<le> length v" "\<And>c. bit (pii_class c) k \<longleftrightarrow> P c"
  shows "bit (foldl (\<lambda>a c. a AND pii_class c) (pii_class (v ! start)) (segment (start + 1) stop v)) k \<longleftrightarrow>
         list_all P (segment start stop v)"
proof -
  have "segment start stop v = v ! start # segment (start + 1) stop v"
    using segment_Cons [OF assms(1,2)] by simp
  then show ?thesis using assms(3) by (simp add: bit_foldl_and)
qed

lemma run_tests:
  assumes "start < stop" "stop \<le> length v"
  defines "acc \<equiv> foldl (\<lambda>a c. a AND pii_class c) (pii_class (v ! start)) (segment (start + 1) stop v)"
  shows "acc AND piiDigit = 0 \<longleftrightarrow> \<not> list_all is_digit (segment start stop v)"
    "acc AND piiUpper = 0 \<longleftrightarrow> \<not> list_all (\<lambda>c. is_upper c \<or> is_digit c) (segment start stop v)"
  unfolding piiDigit_def piiUpper_def no_bit acc_def
  using bit_class_run [OF assms(1,2), of "Suc 0" is_digit] bit_class_run [OF assms(1,2), of 2 "\<lambda>c. is_upper c \<or> is_digit c"]
  by (simp_all add: pii_bits)

definition spans_of :: "(nat \<times> nat) list \<Rightarrow> Span list" where
  "spans_of ms = map (\<lambda>(a, b). cand a b) ms"

lemma spans_of_simps [simp]: "spans_of [] = []" "spans_of ((a, b) # ms) = cand a b # spans_of ms"
  by (simp_all add: spans_of_def)

text \<open>One turn of the walk at a run: where it ends, and what the three rules make of it.\<close>

lemma walk_gap:
  assumes "i < length v" "\<not> is_word (v ! i)"
  shows "pii_walk v i c = pii_walk v (i + 1) c"
  using assms by (subst pii_walk.simps) (simp add: Let_def not_le)

lemma walk_end: "length v \<le> i \<Longrightarrow> pii_walk v i c = \<lparr>vs_pesel = [], vs_iban = [], vs_pan = []\<rparr>"
  by (subst pii_walk.simps) simp

lemma walk_run:
  fixes c :: nat
  assumes "word_at v i" "\<not> in_run v i"
  defines "stop \<equiv> run_end is_word v i"
  defines "pan \<equiv> (if is_digit (v ! i) \<and> c \<le> i then scanCardPANFrom v i else None)"
  defines "later \<equiv> pii_walk v stop (case pan of Some e \<Rightarrow> e | None \<Rightarrow> c)"
  shows "vs_pesel (pii_walk v i c) = (case match_at pesel_re v i of Some e \<Rightarrow> [cand i e] | None \<Rightarrow> []) @ vs_pesel later"
    "vs_iban (pii_walk v i c) = (case match_at iban_re v i of Some e \<Rightarrow> [cand i e] | None \<Rightarrow> []) @ vs_iban later"
    "vs_pan (pii_walk v i c) = (case pan of Some e \<Rightarrow> [cand i e] | None \<Rightarrow> []) @ vs_pan later"
proof -
  have i: "i < length v" "is_word (v ! i)" using assms(1) by (auto simp: word_at_def)
  have stop: "run_end is_word v (i + 1) = stop" using run_end_step [of i v is_word] i by (simp add: stop_def)
  have b: "i < stop" "stop \<le> length v"
    using run_end_bounds(1) [of "i + 1" is_word v] run_end_bounds(2) [of i v is_word] i stop by (auto simp: stop_def)
  note t = run_tests [OF b]
  have unf: "pii_walk v i c =
      \<lparr>vs_pesel = (if list_all is_digit (segment i stop v) \<and> stop - i = 11 then [cand i stop] else []) @ vs_pesel later,
       vs_iban = (if list_all (\<lambda>c. is_upper c \<or> is_digit c) (segment i stop v) \<and> 15 \<le> stop - i \<and> stop - i \<le> 34 \<and>
          is_upper (v ! i) \<and> is_upper (v ! (i + 1)) \<and> is_digit (v ! (i + 2)) \<and> is_digit (v ! (i + 3))
          then [cand i stop] else []) @ vs_iban later,
       vs_pan = (case pan of Some e \<Rightarrow> [cand i e] | None \<Rightarrow> []) @ vs_pan later\<rparr>"
    using i by (subst pii_walk.simps) (simp add: Let_def not_le stop [simplified] t [simplified] pan_def later_def)
  show "vs_pesel (pii_walk v i c) = (case match_at pesel_re v i of Some e \<Rightarrow> [cand i e] | None \<Rightarrow> []) @ vs_pesel later"
    unfolding unf pesel_match using assms(1,2) b by (auto simp: Let_def stop_def)
  show "vs_iban (pii_walk v i c) = (case match_at iban_re v i of Some e \<Rightarrow> [cand i e] | None \<Rightarrow> []) @ vs_iban later"
    unfolding unf iban_match using assms(1,2) b by (auto simp: Let_def stop_def)
  show "vs_pan (pii_walk v i c) = (case pan of Some e \<Rightarrow> [cand i e] | None \<Rightarrow> []) @ vs_pan later"
    unfolding unf by simp
qed

text \<open>
  A matcher that matches whole runs: \<^verbatim>\<open>FindAll\<close> goes from run to run, like the walk.
\<close>

lemma walk_induct [consumes 1, case_names finish gap run]:
  assumes "\<not> in_run v i"
    and "\<And>i c. length v \<le> i \<Longrightarrow> P i c"
    and "\<And>i c. i < length v \<Longrightarrow> \<not> word_at v i \<Longrightarrow> (\<And>c. P (i + 1) c) \<Longrightarrow> P i c"
    and "\<And>i c. word_at v i \<Longrightarrow> \<not> in_run v i \<Longrightarrow> (\<And>c. P (run_end is_word v i) c) \<Longrightarrow> P i c"
  shows "P i c"
  using assms(1)
proof (induction "length v - i" arbitrary: i c rule: less_induct)
  case less
  consider "length v \<le> i" | "i < length v" "\<not> word_at v i" | "word_at v i" by fastforce
  then show ?case
  proof cases
    case 1
    then show ?thesis by (rule assms(2))
  next
    case 2
    have "P (i + 1) c'" for c' by (rule less.hyps) (use 2 in \<open>auto simp: in_run_def\<close>)
    with 2 show ?thesis by (rule assms(3))
  next
    case 3
    then have i: "i < length v" "is_word (v ! i)" by (auto simp: word_at_def)
    then have stop: "i < run_end is_word v i"
      using run_end_step [of i v is_word] run_end_bounds(1) [of "i + 1" is_word v] by simp
    have "P (run_end is_word v i) c'" for c'
      by (rule less.hyps) (use stop i run_end_stops [of is_word v i] in \<open>auto simp: in_run_def word_at_def\<close>)
    with 3 less.prems show ?thesis by (rule assms(4))
  qed
qed

lemma in_the_run: "word_at v i \<Longrightarrow> i < k \<Longrightarrow> k < run_end is_word v i \<Longrightarrow> in_run v k"
  using run_end_in [of i k is_word v] run_end_in [of i "k - 1" is_word v] by (auto simp: in_run_def word_at_def)

lemma find_all_runs:
  assumes whole: "\<And>k e. m k = Some e \<Longrightarrow> word_at v k \<and> \<not> in_run v k \<and> e = run_end is_word v k"
    and "word_at v i"
  shows "find_all m (length v) i = (case m i of Some e \<Rightarrow> [(i, e)] | None \<Rightarrow> []) @ find_all m (length v) (run_end is_word v i)"
proof -
  have i: "i < length v" "is_word (v ! i)" using assms(2) by (auto simp: word_at_def)
  then have stop: "i < run_end is_word v i"
    using run_end_step [of i v is_word] run_end_bounds(1) [of "i + 1" is_word v] by simp
  show ?thesis
  proof (cases "m i")
    case None
    have "m k = None" if "i \<le> k" "k < run_end is_word v i" for k
      using that None whole in_the_run [OF assms(2)] by (cases "k = i") (auto, metis le_neq_implies_less not_Some_eq)
    with None find_all_skip [of i "run_end is_word v i" m] stop show ?thesis by simp
  next
    case (Some e)
    with whole find_all_hit [of i "length v" m e] i stop show ?thesis by fastforce
  qed
qed


lemma no_match_outside: "length v \<le> i \<Longrightarrow> match_at pesel_re v i = None" "length v \<le> i \<Longrightarrow> match_at iban_re v i = None"
  by (simp_all add: pesel_match iban_match Let_def word_at_def)

lemma walk_whole:
  assumes "\<not> in_run v i"
    and whole: "\<And>k e. m k = Some e \<Longrightarrow> word_at v k \<and> \<not> in_run v k \<and> e = run_end is_word v k"
    and at_end: "\<And>i c. length v \<le> i \<Longrightarrow> sel (pii_walk v i c) = []"
    and at_gap: "\<And>i c. i < length v \<Longrightarrow> \<not> word_at v i \<Longrightarrow> sel (pii_walk v i c) = sel (pii_walk v (i + 1) c)"
    and at_run: "\<And>i c. word_at v i \<Longrightarrow> \<not> in_run v i \<Longrightarrow>
          \<exists>c'. sel (pii_walk v i c) = (case m i of Some e \<Rightarrow> [cand i e] | None \<Rightarrow> []) @ sel (pii_walk v (run_end is_word v i) c')"
  shows "sel (pii_walk v i c) = spans_of (find_all m (length v) i)"
  using assms(1)
proof (induction i c rule: walk_induct)
  case (finish i c)
  have "find_all m (length v) i = []"
  proof (rule find_all_end)
    fix k assume "i \<le> k"
    with finish whole [of k] show "m k = None" by (cases "m k") (auto simp: word_at_def)
  qed
  then show ?case using at_end [OF finish] by simp
next
  case (gap i c)
  have "m i = None" using whole [of i] gap(2) by (cases "m i") auto
  then have "find_all m (length v) i = find_all m (length v) (i + 1)"
    by (intro find_all_skip) (auto simp: less_Suc_eq_le dest: le_antisym)
  then show ?case using at_gap [OF gap(1,2)] gap(3) by simp
next
  case (run i c)
  from at_run [OF run(1,2), of c] obtain c' where
    c': "sel (pii_walk v i c) = (case m i of Some e \<Rightarrow> [cand i e] | None \<Rightarrow> []) @ sel (pii_walk v (run_end is_word v i) c')" by blast
  with find_all_runs [OF whole run(1)] run(3) show ?case by (simp split: option.splits)
qed

lemma gap_selects:
  assumes "i < length v" "\<not> word_at v i"
  shows "vs_pesel (pii_walk v i c) = vs_pesel (pii_walk v (i + 1) c)" "vs_iban (pii_walk v i c) = vs_iban (pii_walk v (i + 1) c)"
    "vs_pan (pii_walk v i c) = vs_pan (pii_walk v (i + 1) c)"
  using walk_gap [of i v c] assms by (simp_all add: word_at_def)

lemma walk_pesel: "vs_pesel (walk v) = spans_of (FindAll pesel_re v)"
  unfolding walk_def FindAll_def
  by (rule walk_whole)
     (auto simp: in_run_def walk_end gap_selects walk_run(1) pesel_match Let_def split: if_splits)

lemma walk_iban: "vs_iban (walk v) = spans_of (FindAll iban_re v)"
  unfolding walk_def FindAll_def
  by (rule walk_whole)
     (auto simp: in_run_def walk_end gap_selects walk_run(2) iban_match Let_def split: if_splits)

section \<open>Card numbers\<close>

definition is_sep :: "char \<Rightarrow> bool" where "is_sep c \<longleftrightarrow> c = CHR '' '' \<or> c = CHR ''-''"
definition card_group :: re where "card_group = Seq (Cls is_digit) (Rep 0 (Some 1) (Cls is_sep))"

definition digit_at :: "string \<Rightarrow> nat \<Rightarrow> bool" where
  "digit_at v i \<longleftrightarrow> i < length v \<and> is_digit (v ! i)"

lemma sep_not_digit: "is_sep c \<Longrightarrow> \<not> is_digit c"
  by (auto simp: is_sep_def is_digit_def less_eq_char_def)

lemma next_digit_alt:
  "next_digit v p = (if digit_at v (p + 1) then Some (p + 1)
     else if p + 1 < length v \<and> is_sep (v ! (p + 1)) \<and> digit_at v (p + 2) then Some (p + 2) else None)"
  by (auto simp: next_digit_def digit_at_def is_sep_def)

lemma ends_group:
  "ends card_group v i = (if digit_at v i then (if i + 1 < length v \<and> is_sep (v ! (i + 1)) then [i + 2, i + 1] else [i + 1]) else [])"
proof (cases "digit_at v i")
  case True
  have one: "ends (Rep 0 (Some (Suc 0)) (Cls is_sep)) v j = (if j < length v \<and> is_sep (v ! j) then [j + 1, j] else [j])" for j
    by simp
  from True show ?thesis by (simp add: card_group_def digit_at_def one del: ends.simps(3))
qed (simp add: card_group_def digit_at_def)

text \<open>Where repetitions of a group and a last digit can end.\<close>

definition chain_ends :: "string \<Rightarrow> nat \<Rightarrow> nat \<Rightarrow> nat \<Rightarrow> nat list" where
  "chain_ends v lo n i = ends (Seq (Rep lo (Some n) card_group) (Cls is_digit)) v i"

lemma chain_ends_0: "chain_ends v lo 0 i = (if lo = 0 \<and> digit_at v i then [i + 1] else [])"
  by (cases "lo = 0") (auto simp: chain_ends_def digit_at_def)

lemma chain_ends_Suc:
  "chain_ends v lo (Suc n) i = concat (map (chain_ends v (lo - 1) n) (ends card_group v i)) @
     (if lo = 0 \<and> digit_at v i then [i + 1] else [])"
proof -
  let ?R = "rep_ends (ends card_group v)" and ?D = "ends (Cls is_digit) v"
  have c: "concat (map f (concat (map g js))) = concat (map (\<lambda>j. concat (map f (g j))) js)" for f g and js :: "nat list"
    by (induction js) auto
  have e: "chain_ends v l m = (\<lambda>j. concat (map ?D (?R l m j)))" for l m
    by (rule ext) (simp add: chain_ends_def del: ends.simps(1))
  have "chain_ends v lo (Suc n) i = concat (map ?D (concat (map (?R (lo - 1) n) (ends card_group v i)))) @ (if lo = 0 then ?D i else [])"
    unfolding e by (simp del: ends.simps(1))
  also have "concat (map ?D (concat (map (?R (lo - 1) n) (ends card_group v i)))) = concat (map (chain_ends v (lo - 1) n) (ends card_group v i))"
    unfolding c e ..
  also have "(if lo = 0 then ?D i else []) = (if lo = 0 \<and> digit_at v i then [i + 1] else [])"
    by (simp add: digit_at_def)
  finally show ?thesis .
qed

lemma chain_ends_no_digit: "\<not> digit_at v i \<Longrightarrow> chain_ends v lo n i = []"
  by (cases n) (simp_all add: chain_ends_0 chain_ends_Suc ends_group)

lemma chain_ends_next:
  assumes "digit_at v i"
  shows "chain_ends v lo (Suc n) i =
    (case next_digit v i of None \<Rightarrow> [] | Some q \<Rightarrow> chain_ends v (lo - 1) n q) @ (if lo = 0 then [i + 1] else [])"
proof (cases "i + 1 < length v \<and> is_sep (v ! (i + 1))")
  case True
  then have "\<not> digit_at v (i + 1)" using sep_not_digit by (simp add: digit_at_def)
  with True assms show ?thesis
    using chain_ends_no_digit [of v "i + 1"] chain_ends_no_digit [of v "i + 2"]
    by (simp add: chain_ends_Suc ends_group next_digit_alt)
next
  case False
  then have "next_digit v i = (if digit_at v (i + 1) then Some (i + 1) else None)" "ends card_group v i = [i + 1]"
    using assms by (auto simp: next_digit_alt ends_group)
  with assms show ?thesis
    using chain_ends_no_digit [of v "i + 1"] by (simp add: chain_ends_Suc)
qed

lemma next_digit_at: "next_digit v p = Some q \<Longrightarrow> digit_at v q \<and> p < q"
  by (auto simp: next_digit_alt split: if_splits)

lemma rev_upt_Suc: "rev [Suc a ..< Suc b] = map Suc (rev [a ..< b])"
  by (simp add: map_Suc_upt [symmetric] rev_map del: upt_Suc)

lemma chain_ends_chain:
  "digit_at v i \<Longrightarrow> chain_ends v lo n i = map (\<lambda>r. pan_chain v i (Suc n) ! r + 1) (rev [lo ..< length (pan_chain v i (Suc n))])"
proof (induction n arbitrary: i lo)
  case 0
  then show ?case by (simp add: chain_ends_0 split: option.splits)
next
  case (Suc n)
  show ?case
  proof (cases "next_digit v i")
    case None
    then show ?thesis using Suc.prems by (simp add: chain_ends_next)
  next
    case (Some q)
    let ?c = "pan_chain v q (Suc n)"
    have ih: "chain_ends v (lo - 1) n q = map (\<lambda>r. ?c ! r + 1) (rev [lo - 1 ..< length ?c])"
      using Suc.IH next_digit_at [OF Some] by blast
    have rest: "map (\<lambda>r. (i # ?c) ! r + 1) (rev [lo ..< Suc (length ?c)])
        = map (\<lambda>r. ?c ! r + 1) (rev [lo - 1 ..< length ?c]) @ (if lo = 0 then [i + 1] else [])"
    proof (cases lo)
      case 0
      have "[0 ..< Suc (length ?c)] = 0 # [Suc 0 ..< Suc (length ?c)]" by (rule upt_conv_Cons) simp
      with 0 show ?thesis by (simp add: rev_upt_Suc comp_def del: upt_Suc pan_chain.simps)
    next
      case (Suc l)
      then show ?thesis by (simp add: rev_upt_Suc comp_def del: upt_Suc pan_chain.simps)
    qed
    have "pan_chain v i (Suc (Suc n)) = i # ?c"
      by (simp only: pan_chain.simps(2) [of v i "Suc n"] Some option.case)
    then show ?thesis
      by (simp only: chain_ends_next [OF Suc.prems] Some option.case ih length_Cons rest)
  qed
qed


lemma pan_chain_digits: "digit_at v i \<Longrightarrow> p \<in> set (pan_chain v i n) \<Longrightarrow> digit_at v p \<and> i \<le> p"
proof (induction n arbitrary: i)
  case (Suc n)
  show ?case
  proof (cases "p = i")
    case False
    with Suc.prems obtain q where q: "next_digit v i = Some q" "p \<in> set (pan_chain v q n)"
      by (cases "next_digit v i") auto
    with Suc.IH [of q] next_digit_at [OF q(1)] show ?thesis by simp
  qed (use Suc.prems in simp)
qed simp

lemma word_at_digit: "digit_at v p \<Longrightarrow> word_at v p"
  by (simp add: digit_at_def word_at_def is_word_def)

lemma find_SomeD: "find P xs = Some y \<Longrightarrow> y \<in> set xs \<and> P y"
  by (induction xs) (auto split: if_splits)

lemma find_map_cong: "(\<And>x. x \<in> set xs \<Longrightarrow> P x \<longleftrightarrow> Q x) \<Longrightarrow> find P xs = find Q xs"
  by (induction xs) auto

lemma card_match:
  "match_at card_re v i = (if digit_at v i \<and> \<not> in_run v i then scanCardPANFrom v i else None)"
proof -
  have sep: "(\<lambda>c. c = CHR '' '' \<or> c = CHR ''-'') = is_sep" by (rule ext) (simp add: is_sep_def)
  let ?R = "Rep 12 (Some 18) card_group"
  have "match_at card_re v i = (if word_edge v i then match_at (Seq (Seq ?R (Cls is_digit)) WordEdge) v i else None)"
    unfolding card_re_def sep card_group_def [symmetric] match_at_edge by (simp only: match_at_def ends_assoc)
  also have "match_at (Seq (Seq ?R (Cls is_digit)) WordEdge) v i = find (word_edge v) (chain_ends v 12 18 i)"
    by (simp only: match_at_filter [OF ends_edge_last] chain_ends_def)
  finally have m: "match_at card_re v i = (if word_edge v i then find (word_edge v) (chain_ends v 12 18 i) else None)" .
  show ?thesis
  proof (cases "digit_at v i")
    case True
    let ?c = "pan_chain v i 19"
    have nineteen: "Suc 18 = (19::nat)" by simp
    have "chain_ends v 12 18 i = map (\<lambda>r. ?c ! r + 1) (rev [12 ..< length ?c])"
      using chain_ends_chain [OF True, of 12 18] unfolding nineteen .
    moreover have "find (word_edge v) (map (\<lambda>r. ?c ! r + 1) (rev [12 ..< length ?c]))
        = find (\<lambda>stop. \<not> (stop < length v \<and> pii_class (v ! stop) AND piiWord \<noteq> 0)) (map (\<lambda>r. ?c ! r + 1) (rev [12 ..< length ?c]))"
    proof (rule find_map_cong)
      fix e assume "e \<in> set (map (\<lambda>r. ?c ! r + 1) (rev [12 ..< length ?c]))"
      then obtain r where r: "e = ?c ! r + 1" "r < length ?c" by auto
      then have "digit_at v (e - 1)" using pan_chain_digits [OF True, of "?c ! r" 19] by simp
      then show "word_edge v e \<longleftrightarrow> \<not> (e < length v \<and> pii_class (v ! e) AND piiWord \<noteq> 0)"
        using word_edge_end [of e v] word_at_digit [of v "e - 1"] r(1) by (simp add: word_at_def)
    qed
    ultimately have "find (word_edge v) (chain_ends v 12 18 i) = scanCardPANFrom v i"
      by (simp only: scanCardPANFrom_def Let_def panMaxDigits_def panMinReps_def)
    with m True word_edge_start [OF word_at_digit [OF True]] word_at_digit [OF True] show ?thesis by (auto simp: in_run_def)
  qed (simp add: m chain_ends_no_digit)
qed

lemma scan_card_end:
  assumes "digit_at v i" "scanCardPANFrom v i = Some e"
  shows "i < e" "e \<le> length v" "\<not> in_run v e" "word_at v (e - 1)"
proof -
  from assms(2) obtain r where r: "r < length (pan_chain v i panMaxDigits)" "e = pan_chain v i panMaxDigits ! r + 1"
      "\<not> (e < length v \<and> is_word (v ! e))"
    by (auto simp: scanCardPANFrom_def Let_def dest!: find_SomeD)
  with pan_chain_digits [OF assms(1) nth_mem [OF r(1)]] show "i < e" "e \<le> length v" "\<not> in_run v e" "word_at v (e - 1)"
    using word_at_digit [of v "e - 1"] by (auto simp: digit_at_def in_run_def word_at_def)
qed

text \<open>No boundary lies inside a run, so a boundary past its start is past its end.\<close>

lemma boundary_past_run:
  assumes "word_at v i" "i < e" "\<not> in_run v e"
  shows "run_end is_word v i \<le> e"
  using in_the_run [OF assms(1,2)] assms(3) by fastforce

lemma walk_pan_from:
  assumes "\<not> in_run v i"
  shows "\<not> in_run v c \<longrightarrow> vs_pan (pii_walk v i c) = spans_of (find_all (match_at card_re v) (length v) (max i c))"
  using assms
proof (induction i c rule: walk_induct)
  case (finish i c)
  have "find_all (match_at card_re v) (length v) (max i c) = []"
    by (rule find_all_end) (use finish in \<open>simp add: card_match digit_at_def\<close>)
  then show ?case using walk_end [OF finish] by simp
next
  case (gap i c)
  have "find_all (match_at card_re v) (length v) (max i c) = find_all (match_at card_re v) (length v) (max (i + 1) c)"
  proof (cases "c \<le> i")
    case True
    have "match_at card_re v i = None" using gap(1,2) word_at_digit [of v i] by (auto simp: card_match)
    then show ?thesis using True by (intro find_all_skip) (auto simp: less_Suc_eq_le dest: le_antisym)
  next
    case False
    then have "max i c = max (i + 1) c" by simp
    then show ?thesis by simp
  qed
  then show ?case using gap_selects(3) [OF gap(1,2)] gap(3) by simp
next
  case (run i c)
  show ?case
  proof
    assume c: "\<not> in_run v c"
    let ?m = "match_at card_re v" and ?stop = "run_end is_word v i"
    define pan where "pan = (if is_digit (v ! i) \<and> c \<le> i then scanCardPANFrom v i else None)"
    have i: "i < length v" using run(1) by (simp add: word_at_def)
    have stop: "i < ?stop" using run(1) run_end_step [of i v is_word] run_end_bounds(1) [of "i + 1" is_word v] by (simp add: word_at_def)
    note unf = walk_run(3) [OF run(1,2), of c, folded pan_def]
    show "vs_pan (pii_walk v i c) = spans_of (find_all ?m (length v) (max i c))"
    proof (cases "c \<le> i")
      case True
      then have m: "?m i = pan" using run(2) i by (simp add: pan_def card_match digit_at_def)
      show ?thesis
      proof (cases pan)
        case None
        have "?m k = None" if "i \<le> k" "k < ?stop" for k
          using that None m in_the_run [OF run(1), of k] by (cases "k = i") (auto simp: card_match)
        then have "find_all ?m (length v) (max i c) = find_all ?m (length v) (max ?stop c)"
          using True stop by (simp add: find_all_skip [of i ?stop ?m] max_def)
        then show ?thesis using unf None run(3) [of c] c by simp
      next
        case (Some e)
        then have d: "digit_at v i" "scanCardPANFrom v i = Some e" using i by (auto simp: pan_def digit_at_def split: if_splits)
        note e = scan_card_end [OF d]
        have "?stop \<le> e" by (rule boundary_past_run [OF run(1) e(1,3)])
        with e(3) run(3) [of e] have "vs_pan (pii_walk v ?stop e) = spans_of (find_all ?m (length v) e)" by (simp add: max_def)
        moreover have "find_all ?m (length v) i = (i, e) # find_all ?m (length v) e"
          by (rule find_all_hit) (use i m Some e(1) in simp_all)
        ultimately show ?thesis using unf Some True by (simp add: max_def)
      qed
    next
      case False
      then have "?stop \<le> c" using boundary_past_run [OF run(1) _ c] by simp
      with unf False run(3) [of c] c stop show ?thesis by (simp add: pan_def max_def)
    qed
  qed
qed

lemma walk_pan: "vs_pan (walk v) = spans_of (FindAll card_re v)"
  using walk_pan_from [of v 0 0] by (simp add: walk_def FindAll_def in_run_def)

end
