(* ===== verification/Checksums.thy ===== *)
theory Checksums
  imports Pii_Scan
begin

text \<open>
  The check digits of \<^verbatim>\<open>src/internal/transforms/packs/checksum.go\<close>, which decide whether a
  run of digits is a card number, a PESEL or an IBAN, and what they compute.
\<close>

section \<open>The code\<close>

definition digitsOnly :: "string \<Rightarrow> string" where
  "digitsOnly s = filter is_digit s"

definition digit_val :: "char \<Rightarrow> nat" where
  "digit_val c = of_char c - 48"

text \<open>The loop of \<^verbatim>\<open>luhnValid\<close>, from the last digit to the first.\<close>

fun luhn_sum :: "bool \<Rightarrow> string \<Rightarrow> nat" where
  "luhn_sum double [] = 0"
| "luhn_sum double (c # cs) =
     (let n = digit_val c;
          n = (if double then (if n * 2 > 9 then n * 2 - 9 else n * 2) else n)
      in n + luhn_sum (\<not> double) cs)"

definition luhnValid :: "string \<Rightarrow> bool" where
  "luhnValid d \<longleftrightarrow> luhn_sum False (rev d) mod 10 = 0"

text \<open>
  The first loop of \<^verbatim>\<open>panValid\<close>: the lengths of the digit groups, the last one first, and
  the separator seen, zero before the first; \<^const>\<open>None\<close> when separators are mixed.
\<close>

fun pan_groups :: "nat list \<Rightarrow> char \<Rightarrow> string \<Rightarrow> nat list option" where
  "pan_groups groups sep [] = Some groups"
| "pan_groups groups sep (c # cs) =
     (if is_digit c then pan_groups (Suc (hd groups) # tl groups) sep cs
      else if sep = CHR 0x00 then pan_groups (0 # groups) c cs
      else if c \<noteq> sep then None
      else pan_groups (0 # groups) sep cs)"

definition groupingIsCardShaped :: "nat list \<Rightarrow> bool" where
  "groupingIsCardShaped groups \<longleftrightarrow> groups = [4, 4, 4, 4] \<or> groups = [4, 6, 5] \<or> groups = [4, 4, 4, 4, 3]"

definition issuer_ok :: "string \<Rightarrow> bool" where
  "issuer_ok d =
     (if d ! 0 \<in> {CHR ''4'', CHR ''5'', CHR ''6''} then True
      else if d ! 0 = CHR ''3'' then d ! 1 \<in> {CHR ''0'', CHR ''4'', CHR ''6'', CHR ''7'', CHR ''8''}
      else if d ! 0 = CHR ''2''
      then (let iin = digit_val (d ! 0) * 1000 + digit_val (d ! 1) * 100 + digit_val (d ! 2) * 10 + digit_val (d ! 3)
            in 2221 \<le> iin \<and> iin \<le> 2720)
      else False)"

definition panValid :: "string \<Rightarrow> bool" where
  "panValid s =
     (case pan_groups [0] (CHR 0x00) s of
        None \<Rightarrow> False
      | Some rgroups \<Rightarrow>
          if length rgroups > 1 \<and> \<not> groupingIsCardShaped (rev rgroups) then False
          else let d = digitsOnly s
               in length d \<in> {13, 14, 15, 16, 19} \<and> issuer_ok d \<and> luhnValid d)"

definition pesel_weights :: "nat list" where
  "pesel_weights = [1, 3, 7, 9, 1, 3, 7, 9, 1, 3]"

definition month_ok :: "nat \<Rightarrow> bool" where
  "month_ok m \<longleftrightarrow> 1 \<le> m \<and> m \<le> 12 \<or> 21 \<le> m \<and> m \<le> 32 \<or> 41 \<le> m \<and> m \<le> 52 \<or> 61 \<le> m \<and> m \<le> 72 \<or> 81 \<le> m \<and> m \<le> 92"

definition peselValid :: "string \<Rightarrow> bool" where
  "peselValid s =
     (let d = digitsOnly s
      in if length d \<noteq> 11 then False
         else let sum = sum_list (map (\<lambda>i. pesel_weights ! i * digit_val (d ! i)) [0 ..< 10]);
                  check = (10 - sum mod 10) mod 10
              in if check \<noteq> digit_val (d ! 10) then False
                 else month_ok (digit_val (d ! 2) * 10 + digit_val (d ! 3)))"

text \<open>\<^verbatim>\<open>strings.ToUpper\<close> on ASCII: the candidates of the rule hold nothing else.\<close>

definition to_upper_char :: "char \<Rightarrow> char" where
  "to_upper_char c = (if is_lower c then char_of (of_char c - 32 :: nat) else c)"

text \<open>The loop of \<^verbatim>\<open>ibanValid\<close>: the remainder of the number the text spells, digit by digit.\<close>

fun iban_rem :: "nat \<Rightarrow> string \<Rightarrow> nat option" where
  "iban_rem rem [] = Some rem"
| "iban_rem rem (c # cs) =
     (if is_digit c then iban_rem ((rem * 10 + digit_val c) mod 97) cs
      else if is_upper c then iban_rem ((rem * 100 + (of_char c - 65) + 10) mod 97) cs
      else None)"

definition ibanValid :: "string \<Rightarrow> bool" where
  "ibanValid s =
     (let v = map to_upper_char (filter (\<lambda>c. c \<noteq> CHR '' '') s)
      in if length v < 15 \<or> length v > 34 then False
         else case iban_rem 0 (drop 4 v @ take 4 v) of None \<Rightarrow> False | Some rem \<Rightarrow> rem = 1)"

section \<open>What they compute\<close>

text \<open>A text of decimal digits as a number, and the digits an IBAN character stands for.\<close>

definition decimal :: "string \<Rightarrow> nat" where
  "decimal = foldl (\<lambda>n c. n * 10 + digit_val c) 0"

definition iban_digits :: "char \<Rightarrow> string" where
  "iban_digits c = (if is_digit c then [c] else nat_digits (of_char c - 65 + 10))"

lemma decimal_append: "decimal (s @ t) = foldl (\<lambda>n c. n * 10 + digit_val c) (decimal s) t"
  by (simp add: decimal_def)

lemma two_digits:
  assumes "10 \<le> n" "n < 100"
  shows "nat_digits n = [char_of (48 + n div 10), char_of (48 + n mod 10)]"
  using assms nat_digits.simps [of n] nat_digits.simps [of "n div 10"] by simp

lemma mod_step: "(x mod m * k + d) mod m = (x * k + d) mod (m :: nat)"
  by (metis mod_add_left_eq mod_mult_left_eq)

lemma digit_val_char: "n < 10 \<Longrightarrow> digit_val (char_of (48 + n)) = n"
  by (simp add: digit_val_def)

lemma decimal_two:
  assumes "10 \<le> n" "n < 100"
  shows "decimal (s @ nat_digits n) = decimal s * 100 + n"
proof -
  have "n div 10 < 10" "n mod 10 < 10" using assms by auto
  then have "decimal (s @ nat_digits n) = (decimal s * 10 + n div 10) * 10 + n mod 10"
    by (simp add: two_digits [OF assms] decimal_append digit_val_char)
  then show ?thesis by (simp add: add_mult_distrib)
qed

lemma decimal_iban:
  assumes "is_digit c \<or> is_upper c"
  shows "decimal (s @ iban_digits c) = (if is_digit c then decimal s * 10 + digit_val c else decimal s * 100 + (of_char c - 65 + 10))"
proof (cases "is_digit c")
  case True
  then show ?thesis by (simp add: iban_digits_def decimal_append)
next
  case False
  with assms have "65 \<le> (of_char c :: nat)" "(of_char c :: nat) \<le> 90"
    by (auto simp: is_upper_def less_eq_char_def)
  then have n: "10 \<le> (of_char c - 65 + 10 :: nat)" "(of_char c - 65 + 10 :: nat) < 100" by auto
  with False decimal_two [OF n] show ?thesis by (simp add: iban_digits_def)
qed

lemma iban_rem_decimal:
  "iban_rem (decimal p mod 97) cs =
    (if list_all (\<lambda>c. is_digit c \<or> is_upper c) cs then Some (decimal (p @ concat (map iban_digits cs)) mod 97) else None)"
proof (induction cs arbitrary: p)
  case (Cons c cs)
  have "iban_rem ((decimal p mod 97 * 10 + digit_val c) mod 97) cs = iban_rem (decimal (p @ iban_digits c) mod 97) cs" if "is_digit c"
    using that decimal_iban [of c p] by (simp add: mod_step)
  moreover have "iban_rem ((decimal p mod 97 * 100 + (of_char c - 65) + 10) mod 97) cs = iban_rem (decimal (p @ iban_digits c) mod 97) cs"
    if "\<not> is_digit c" "is_upper c"
    using that decimal_iban [of c p] by (simp add: mod_step add.assoc)
  ultimately show ?case using Cons.IH [of "p @ iban_digits c"] by auto
qed simp

text \<open>
  The streamed IBAN check is ISO 13616. A candidate is accepted exactly when it is 15 to 34
  letters and digits long and the number it spells, with its first four characters moved to the end
  and each letter written as two digits, is 1 modulo 97, however many digits that number has.
\<close>

theorem iban_check_is_mod_97:
  "ibanValid s \<longleftrightarrow>
    (let v = map to_upper_char (filter (\<lambda>c. c \<noteq> CHR '' '') s)
     in length v \<in> {15 .. 34} \<and> list_all (\<lambda>c. is_digit c \<or> is_upper c) v \<and>
        decimal (concat (map iban_digits (drop 4 v @ take 4 v))) mod 97 = 1)"
proof -
  let ?v = "map to_upper_char (filter (\<lambda>c. c \<noteq> CHR '' '') s)"
  have "list_all P (drop 4 ?v @ take 4 ?v) \<longleftrightarrow> list_all P ?v" for P
    by (metis append_take_drop_id conj_commute list_all_append)
  moreover have "decimal [] mod 97 = 0" by (simp add: decimal_def)
  ultimately show ?thesis
    using iban_rem_decimal [of "[]" "drop 4 ?v @ take 4 ?v"] by (auto simp: ibanValid_def Let_def)
qed

lemma ibanValid_example: "ibanValid ''DE89370400440532013000''" "\<not> ibanValid ''DE88370400440532013000''"
  by code_simp+

text \<open>A check digit catches every mistyped digit: the Luhn sum of two numbers that differ in one digit differs.\<close>

definition luhn_digit :: "bool \<Rightarrow> nat \<Rightarrow> nat" where
  "luhn_digit double n = (if double then (if n * 2 > 9 then n * 2 - 9 else n * 2) else n)"

definition luhn_undo :: "bool \<Rightarrow> nat \<Rightarrow> nat" where
  "luhn_undo double m = (if double then (if even m then m div 2 else (m + 9) div 2) else m)"

lemma luhn_undo: "a < 10 \<Longrightarrow> luhn_undo double (luhn_digit double a mod 10) = a"
  by (cases "a \<le> 4") (auto simp: luhn_undo_def luhn_digit_def)

lemma luhn_digit_inj: "a < 10 \<Longrightarrow> b < 10 \<Longrightarrow> luhn_digit double a mod 10 = luhn_digit double b mod 10 \<Longrightarrow> a = b"
  by (metis luhn_undo)

lemma luhn_sum_Cons: "luhn_sum double (c # cs) = luhn_digit double (digit_val c) + luhn_sum (\<not> double) cs"
  by (simp add: luhn_digit_def Let_def)

lemma luhn_sum_append: "luhn_sum double (s @ t) = luhn_sum double s + luhn_sum (double \<noteq> odd (length s)) t"
proof (induction s arbitrary: double)
  case (Cons c s)
  have "(\<not> double) \<noteq> odd (length s) \<longleftrightarrow> double \<noteq> odd (length (c # s))" by auto
  with Cons show ?case by (simp only: append_Cons luhn_sum_Cons add.assoc)
qed simp

lemma digit_val_bound: "is_digit c \<Longrightarrow> digit_val c < 10"
  by (auto simp: is_digit_def digit_val_def less_eq_char_def)

lemma digit_val_inj: "is_digit c \<Longrightarrow> is_digit d \<Longrightarrow> digit_val c = digit_val d \<Longrightarrow> c = d"
proof -
  assume "is_digit c" "is_digit d" "digit_val c = digit_val d"
  then have "48 \<le> (of_char c :: nat)" "48 \<le> (of_char d :: nat)" "(of_char c :: nat) - 48 = of_char d - 48"
    by (simp_all add: is_digit_def digit_val_def less_eq_char_def)
  then have "(of_char c :: nat) = of_char d" by linarith
  then show "c = d" by simp
qed

lemma mod_sandwich: "(a + x + b) mod 10 = (a + y + b) mod (10::nat) \<Longrightarrow> x mod 10 = y mod 10"
  unfolding nat_mod_eq_iff by (auto simp: algebra_simps)

lemma luhn_catches_one_digit:
  assumes "luhnValid (s @ c # t)" "luhnValid (s @ d # t)" "is_digit c" "is_digit d"
  shows "c = d"
proof -
  have sum: "luhn_sum False (rev (s @ x # t)) = luhn_sum False (rev t) + luhn_digit (odd (length t)) (digit_val x) +
      luhn_sum (\<not> odd (length t)) (rev s)" for x
    using luhn_sum_append [of False "rev t" "x # rev s"] by (simp add: luhn_sum_Cons del: luhn_sum.simps(2))
  let ?a = "luhn_sum False (rev t)" and ?b = "luhn_sum (\<not> odd (length t)) (rev s)"
  have "(?a + luhn_digit (odd (length t)) (digit_val c) + ?b) mod 10 = (?a + luhn_digit (odd (length t)) (digit_val d) + ?b) mod 10"
    using assms(1,2) unfolding luhnValid_def sum [symmetric] by simp
  then have "luhn_digit (odd (length t)) (digit_val c) mod 10 = luhn_digit (odd (length t)) (digit_val d) mod 10"
    by (rule mod_sandwich)
  with assms(3,4) show ?thesis by (metis digit_val_bound digit_val_inj luhn_digit_inj)
qed

end
