(* ===== verification/Anchor.thy ===== *)
theory Anchor
  imports Checksums Go_Runes
begin

text \<open>
  The literal entry points of a rule, \<^verbatim>\<open>src/internal/transforms/packs/anchor.go\<close>: the search
  for a literal under case folding and the cursor that finds the next place any of them occurs. What
  the code says of them is proved: \<open>indexFold\<close> finds the first place a literal matches when its
  first byte folds onto ASCII only, and \<open>cursor_next\<close> the lowest place at or after the position
  asked for.
\<close>

section \<open>Case folding\<close>

text \<open>
  \<^verbatim>\<open>unicode.SimpleFold\<close> steps to the next rune of an orbit. Only orbits that hold an ASCII
  letter matter here: those of two letters, and those of K and S, which also hold the Kelvin sign and
  the long s. A rune of any other orbit equals no ASCII rune, so it is left as its own orbit.
\<close>

definition SimpleFold :: "nat \<Rightarrow> nat" where
  "SimpleFold r =
     (if r = byte (CHR ''k'') then 0x212A
      else if r = 0x212A then byte (CHR ''K'')
      else if r = byte (CHR ''s'') then 0x17F
      else if r = 0x17F then byte (CHR ''S'')
      else if byte (CHR ''A'') \<le> r \<and> r \<le> byte (CHR ''Z'') then r + 32
      else if byte (CHR ''a'') \<le> r \<and> r \<le> byte (CHR ''z'') then r - 32
      else r)"

text \<open>The runes the loops over an orbit see after its start; an orbit that holds an ASCII rune has three at most.\<close>

definition orbit :: "nat \<Rightarrow> nat list" where
  "orbit r = takeWhile (\<lambda>f. f \<noteq> r) [SimpleFold r, SimpleFold (SimpleFold r)]"

definition foldOrbitASCII :: "nat \<Rightarrow> bool" where
  "foldOrbitASCII r = list_all (\<lambda>f. f < 0x80) (orbit r)"

definition foldEq :: "nat \<Rightarrow> nat \<Rightarrow> bool" where
  "foldEq a b \<longleftrightarrow> a = b \<or> b \<in> set (orbit a)"

definition asciiLower :: "char \<Rightarrow> char" where
  "asciiLower c = (if is_upper c then char_of (of_char c + 32 :: nat) else c)"

definition foldCases :: "char \<Rightarrow> char \<times> char" where
  "foldCases c =
     (if is_lower c then (c, char_of (of_char c - 32 :: nat))
      else if is_upper c then (c, char_of (of_char c + 32 :: nat))
      else (c, c))"

fun hasFoldPrefix :: "string \<Rightarrow> string \<Rightarrow> bool" where
  "hasFoldPrefix s [] = True"
| "hasFoldPrefix [] (w # ws) = False"
| "hasFoldPrefix (c # cs) (w # ws) =
     (if byte c < 0x80
      then (c = fst (foldCases w) \<or> c = snd (foldCases w)) \<and> hasFoldPrefix cs ws
      else (let (r, n) = decode_rune c cs in foldEq r (byte w) \<and> hasFoldPrefix (drop n (c # cs)) ws))"

lemma lead_range: "lead b = Some (n, lo, hi) \<Longrightarrow> 0x80 \<le> lo \<and> 0xC2 \<le> b"
  by (auto simp: lead_def split: if_splits)

text \<open>No sequence of bytes above ASCII decodes to an ASCII rune.\<close>

lemma foldl_runes_ge: "r \<le> foldl (\<lambda>r b. r * 64 + (b - 0x80)) r (t :: nat list)"
proof (induction t arbitrary: r)
  case (Cons b t)
  show ?case using Cons [of "r * 64 + (b - 0x80)"] by simp
qed simp

lemma decode_rune_wide:
  assumes "\<not> byte c < 0x80"
  shows "0x80 \<le> fst (decode_rune c cs)"
proof (cases "lead (byte c)")
  case None
  with assms show ?thesis by (simp add: decode_rune_def RuneError_def)
next
  case (Some p)
  then obtain n lo hi where l: "lead (byte c) = Some (n, lo, hi)" by (metis prod_cases3)
  let ?t = "map byte (take n cs)"
  let ?ok = "length ?t = n \<and> lo \<le> hd ?t \<and> hd ?t \<le> hi \<and> list_all continuation (tl ?t)"
  have "0x80 \<le> foldl (\<lambda>r b. r * 64 + (b - 0x80)) (lead_bits n (byte c)) ?t" if ok: ?ok
  proof -
    have n: "n = 1 \<and> 2 \<le> lead_bits n (byte c) \<or> n = 2 \<and> (lead_bits n (byte c) \<ge> 1 \<or> lo = 0xA0) \<or>
        n = 3 \<and> (lead_bits n (byte c) \<ge> 1 \<or> lo = 0x90)"
      using l by (auto simp: lead_def lead_bits_def split: if_splits)
    then obtain b t where t: "?t = b # t" using ok by (cases ?t) auto
    have lo: "lo \<le> b" using ok by (simp add: t)
    let ?r = "lead_bits n (byte c) * 64 + (b - 0x80)"
    have "?r \<le> foldl (\<lambda>r b. r * 64 + (b - 0x80)) ?r t" by (rule foldl_runes_ge)
    show ?thesis
    proof (cases "n = 1")
      case True
      then have "0x80 \<le> ?r" using n by auto
      then have "0x80 \<le> foldl (\<lambda>r b. r * 64 + (b - 0x80)) ?r t" using foldl_runes_ge [of ?r t] by (rule order.trans)
      then show ?thesis by (simp only: t foldl_Cons)
    next
      case False
      then obtain d u where u: "t = d # u" using ok n t by (cases t) auto
      have "16 \<le> ?r" using False n lo by auto
      moreover have "0x80 \<le> r * 64 + e" if "16 \<le> r" for r e :: nat using that by simp
      ultimately have "0x80 \<le> ?r * 64 + (d - 0x80)" by blast
      then have "0x80 \<le> foldl (\<lambda>r b. r * 64 + (b - 0x80)) (?r * 64 + (d - 0x80)) u"
        using foldl_runes_ge [of "?r * 64 + (d - 0x80)" u] by (rule order.trans)
      then show ?thesis by (simp only: t u foldl_Cons)
    qed
  qed
  moreover have "0x80 \<le> RuneError" by (simp add: RuneError_def)
  ultimately show ?thesis using assms l by (auto simp: decode_rune_def Let_def)
qed

text \<open>A first letter whose orbit is ASCII matches no wide rune, so its two spellings are the whole search.\<close>

lemma wide_orbits:
  "\<not> foldOrbitASCII (byte (asciiLower CHR ''K''))" "\<not> foldOrbitASCII (byte (asciiLower CHR ''k''))"
  "\<not> foldOrbitASCII (byte (asciiLower CHR ''S''))" "\<not> foldOrbitASCII (byte (asciiLower CHR ''s''))"
  by code_simp+

lemma foldEq_wide:
  assumes "0x80 \<le> r" "foldEq r (byte w)" "byte w < 0x80"
  shows "\<not> foldOrbitASCII (byte (asciiLower w))"
proof -
  have "byte w \<in> {byte CHR ''K'', byte CHR ''k'', byte CHR ''S'', byte CHR ''s''}"
    using assms by (auto simp: foldEq_def orbit_def SimpleFold_def byte_def split: if_splits)
  then have "w \<in> {CHR ''K'', CHR ''k'', CHR ''S'', CHR ''s''}"
    by (simp only: byte_def of_char_eq_iff insert_iff empty_iff)
  then show ?thesis using wide_orbits by fast
qed

lemma hasFoldPrefix_head:
  assumes "hasFoldPrefix s (w # ws)" "foldOrbitASCII (byte (asciiLower w))" "byte w < 0x80"
  shows "s \<noteq> [] \<and> (hd s = fst (foldCases w) \<or> hd s = snd (foldCases w))"
proof (cases s)
  case (Cons c cs)
  have "byte c < 0x80"
  proof (rule ccontr)
    assume "\<not> byte c < 0x80"
    with assms(1) Cons have "foldEq (fst (decode_rune c cs)) (byte w)" by (simp split: prod.splits)
    with foldEq_wide [OF decode_rune_wide [OF \<open>\<not> byte c < 0x80\<close>]] assms(2,3) show False by blast
  qed
  with assms(1) Cons show ?thesis by simp
qed (use assms in simp)

section \<open>Finding a literal\<close>

definition index_either :: "string \<Rightarrow> char \<Rightarrow> char \<Rightarrow> nat option" where
  "index_either s a b =
     (let ia = index_byte a s
      in if a = b \<or> ia = Some 0 then ia
         else case ia of
                None \<Rightarrow> index_byte b s
              | Some i \<Rightarrow> (case index_byte b (take i s) of Some ib \<Rightarrow> Some ib | None \<Rightarrow> Some i))"

lemma index_either_None: "index_either s a b = None \<longleftrightarrow> a \<notin> set s \<and> b \<notin> set s"
proof (cases "index_byte a s")
  case None
  moreover have "a \<notin> set s" using None by (simp add: index_byte_None)
  moreover have "index_either s a b = (if a = b then None else index_byte b s)" using None by (simp add: index_either_def)
  ultimately show ?thesis by (auto simp: index_byte_None)
next
  case (Some i)
  then have "a \<in> set s" by (metis index_byte_None option.distinct(1))
  with Some show ?thesis by (auto simp: index_either_def Let_def split: option.split)
qed

lemma index_either_Some:
  assumes "index_either s a b = Some i"
  shows "i < length s \<and> (s ! i = a \<or> s ! i = b) \<and> (\<forall>j < i. s ! j \<noteq> a \<and> s ! j \<noteq> b)"
proof (cases "index_byte a s")
  case None
  then have "a \<notin> set s" by (simp add: index_byte_None)
  moreover have "index_byte b s = Some i" using None assms by (auto simp: index_either_def Let_def split: if_splits)
  ultimately show ?thesis unfolding index_byte_Some by (metis nth_mem order.strict_trans)
next
  case (Some k)
  then have k: "k < length s" "s ! k = a" "\<forall>j < k. s ! j \<noteq> a" by (simp_all add: index_byte_Some)
  show ?thesis
  proof (cases "a = b \<or> k = 0")
    case True
    with assms Some have "i = k" by (auto simp: index_either_def Let_def)
    with k True show ?thesis by auto
  next
    case False
    show ?thesis
    proof (cases "index_byte b (take k s)")
      case None
      with assms Some False have "i = k" by (simp add: index_either_def Let_def)
      moreover from None have "\<forall>j < k. s ! j \<noteq> b"
        using k(1) by (auto simp: index_byte_None in_set_conv_nth)
      ultimately show ?thesis using k by auto
    next
      case ib: (Some ib)
      with assms Some False have "i = ib" by (simp add: index_either_def Let_def)
      with ib k show ?thesis by (auto simp: index_byte_Some)
    qed
  qed
qed

function index_fold_loop :: "string \<Rightarrow> string \<Rightarrow> nat \<Rightarrow> nat option" where
  "index_fold_loop s lit i =
     (if i < length s
      then case index_either (drop i s) (fst (foldCases (hd lit))) (snd (foldCases (hd lit))) of
             None \<Rightarrow> None
           | Some j \<Rightarrow> (if hasFoldPrefix (drop (i + j) s) lit then Some (i + j) else index_fold_loop s lit (i + j + 1))
      else None)"
  by pat_completeness auto
termination
  by (relation "measure (\<lambda>(s, lit, i). length s - i)") auto

declare index_fold_loop.simps [simp del]

definition indexFold :: "string \<Rightarrow> string \<Rightarrow> nat option" where
  "indexFold s lit = index_fold_loop s lit 0"

text \<open>A literal whose search is exact: what \<^verbatim>\<open>newAnchorScan\<close> checks of a keyword.\<close>

definition exact_lit :: "bool \<Rightarrow> string \<Rightarrow> bool" where
  "exact_lit folded lit \<longleftrightarrow> lit \<noteq> [] \<and> (folded \<longrightarrow> byte (hd lit) < 0x80 \<and> foldOrbitASCII (byte (asciiLower (hd lit))))"

lemma fold_prefix_head:
  assumes "hasFoldPrefix (drop k s) lit" "exact_lit True lit"
  shows "k < length s \<and> (s ! k = fst (foldCases (hd lit)) \<or> s ! k = snd (foldCases (hd lit)))"
proof (cases lit)
  case (Cons w ws)
  then show ?thesis
    using hasFoldPrefix_head [of "drop k s" w ws] assms by (auto simp: exact_lit_def hd_drop_conv_nth)
qed (use assms in \<open>simp add: exact_lit_def\<close>)

text \<open>The first index from \<open>i\<close> on that satisfies a predicate.\<close>

lemma find_upt_skip: "i \<le> j \<Longrightarrow> (\<And>k. i \<le> k \<Longrightarrow> k < j \<Longrightarrow> \<not> P k) \<Longrightarrow> find P [i ..< n] = find P [j ..< n]"
proof (induction "j - i" arbitrary: i)
  case (Suc d)
  then have "find P [Suc i ..< n] = find P [j ..< n]" "\<not> P i" by simp_all
  moreover have "j < i \<or> n \<le> i \<Longrightarrow> find P [j ..< n] = None" using Suc by simp
  ultimately show ?case by (cases "i < n") (simp_all add: upt_conv_Cons)
qed simp

lemma find_upt_hit: "i < n \<Longrightarrow> P i \<Longrightarrow> find P [i ..< n] = Some i"
  by (simp add: upt_conv_Cons)

lemma find_upt_Some: "find P [i ..< n] = Some k \<longleftrightarrow> i \<le> k \<and> k < n \<and> P k \<and> (\<forall>j. i \<le> j \<and> j < k \<longrightarrow> \<not> P j)"
proof
  assume "find P [i ..< n] = Some k"
  then obtain m where m: "m < n - i" "P (i + m)" "k = i + m" "\<forall>j < m. \<not> P (i + j)"
    unfolding find_Some_iff by auto
  have "\<not> P j" if "i \<le> j" "j < k" for j using m(3,4) that by (metis add_diff_inverse_nat not_less nat_add_left_cancel_less)
  with m show "i \<le> k \<and> k < n \<and> P k \<and> (\<forall>j. i \<le> j \<and> j < k \<longrightarrow> \<not> P j)" by auto
next
  assume *: "i \<le> k \<and> k < n \<and> P k \<and> (\<forall>j. i \<le> j \<and> j < k \<longrightarrow> \<not> P j)"
  then have "find P [i ..< n] = find P [k ..< n]" by (intro find_upt_skip) auto
  with * show "find P [i ..< n] = Some k" by (simp add: find_upt_hit)
qed

lemma find_upt_None: "find P [i ..< n] = None \<longleftrightarrow> (\<forall>j. i \<le> j \<and> j < n \<longrightarrow> \<not> P j)"
  by (auto simp: find_None_iff)

lemma index_fold_loop_find:
  "exact_lit True lit \<Longrightarrow> index_fold_loop s lit i = find (\<lambda>k. hasFoldPrefix (drop k s) lit) [i ..< length s]"
proof (induction s lit i rule: index_fold_loop.induct)
  case (1 s lit i)
  let ?P = "\<lambda>k. hasFoldPrefix (drop k s) lit"
  let ?c = "foldCases (hd lit)"
  show ?case
  proof (cases "i < length s")
    case True
    show ?thesis
    proof (cases "index_either (drop i s) (fst ?c) (snd ?c)")
      case None
      have "\<not> ?P k" if "i \<le> k" for k
      proof
        assume "?P k"
        then have k: "k < length s" "s ! k = fst ?c \<or> s ! k = snd ?c" using fold_prefix_head 1(2) by blast+
        have "drop i s ! (k - i) \<in> set (drop i s)" using k(1) that by (intro nth_mem) simp
        then have "s ! k \<in> set (drop i s)" using k(1) that by simp
        with k(2) have "fst ?c \<in> set (drop i s) \<or> snd ?c \<in> set (drop i s)" by metis
        with None show False by (simp add: index_either_None)
      qed
      then show ?thesis using True None by (subst index_fold_loop.simps) (auto simp: find_upt_None [THEN iffD2])
    next
      case (Some j)
      have skip: "\<not> ?P k" if "i \<le> k" "k < i + j" for k
      proof
        assume "?P k"
        then have k: "k < length s" "s ! k = fst ?c \<or> s ! k = snd ?c" using fold_prefix_head 1(2) by blast+
        have "k - i < j" using that by simp
        then have "drop i s ! (k - i) \<noteq> fst ?c \<and> drop i s ! (k - i) \<noteq> snd ?c" using index_either_Some [OF Some] by blast
        with k that show False by simp
      qed
      then have to: "find ?P [i ..< length s] = find ?P [i + j ..< length s]" by (intro find_upt_skip) auto
      have len: "i + j < length s" using index_either_Some [OF Some] True by auto
      show ?thesis
      proof (cases "?P (i + j)")
        case True
        then show ?thesis using \<open>i < length s\<close> Some to len by (subst index_fold_loop.simps) (simp add: find_upt_hit)
      next
        case False
        with 1(1) [OF True Some] 1(2) to len True Some show ?thesis
          by (subst index_fold_loop.simps) (simp add: upt_conv_Cons)
      qed
    qed
  qed (simp add: index_fold_loop.simps)
qed

lemma str_index_find: "lit \<noteq> [] \<Longrightarrow> str_index lit s = find (occurs_at lit s) [0 ..< length s]"
proof -
  assume "lit \<noteq> []"
  then have inside: "k < length s" if "occurs_at lit s k" for k using occurs_at_end [OF that] by (cases lit) auto
  show ?thesis
  proof (cases "str_index lit s")
    case None
    moreover have "find (occurs_at lit s) [0 ..< length s] = None" using None by (simp add: str_index_None find_upt_None)
    ultimately show ?thesis by simp
  next
    case (Some k)
    moreover have "find (occurs_at lit s) [0 ..< length s] = Some k"
      unfolding find_upt_Some using Some inside by (simp add: str_index_Some)
    ultimately show ?thesis by simp
  qed
qed

text \<open>A literal at a position, folded or not.\<close>

definition lit_at :: "bool \<Rightarrow> string \<Rightarrow> nat \<Rightarrow> string \<Rightarrow> bool" where
  "lit_at folded v i lit \<longleftrightarrow> (if folded then hasFoldPrefix (drop i v) lit else prefix lit (drop i v))"

section \<open>The cursor\<close>

type_synonym submatch = "(nat \<times> nat) option list"

record anchorScan =
  an_verify :: "string \<Rightarrow> submatch option"
  an_lits :: "string list"
  an_fold :: bool
  an_wordEdge :: bool

definition maxAnchorLits :: nat where "maxAnchorLits = 8"
definition minAnchorLen :: nat where "minAnchorLen = 2"

definition litUnscanned :: int where "litUnscanned = -2"
definition litExhausted :: int where "litExhausted = -1"

text \<open>\<^verbatim>\<open>litCursor\<close>: per literal the next occurrence known.\<close>

type_synonym litCursor = "int list"

definition init_cursor :: litCursor where
  "init_cursor = replicate maxAnchorLits litUnscanned"

definition anchor_index :: "anchorScan \<Rightarrow> string \<Rightarrow> nat \<Rightarrow> string \<Rightarrow> int" where
  "anchor_index s v from lit =
     (case (if an_fold s then indexFold (drop from v) lit else str_index lit (drop from v)) of
        None \<Rightarrow> litExhausted
      | Some at \<Rightarrow> int (from + at))"

text \<open>The lower of two positions, where a negative one is none.\<close>

definition pick :: "int \<Rightarrow> int \<Rightarrow> int" where
  "pick best a = (if 0 \<le> a \<and> (best < 0 \<or> a < best) then a else best)"

text \<open>The loop of \<^verbatim>\<open>litCursor.next\<close> over the literals and their entries.\<close>

fun next_loop :: "anchorScan \<Rightarrow> string \<Rightarrow> nat \<Rightarrow> string list \<Rightarrow> litCursor \<Rightarrow> int \<Rightarrow> int \<times> litCursor" where
  "next_loop s v pos (lit # lits) (a # ats) best =
     (if a = litExhausted
      then (let (b, rest) = next_loop s v pos lits ats best in (b, a # rest))
      else let a' = (if a < int pos then anchor_index s v pos lit else a);
               (b, rest) = next_loop s v pos lits ats (pick best a')
           in (b, a' # rest))"
| "next_loop s v pos lits ats best = (best, ats)"

definition cursor_next :: "anchorScan \<Rightarrow> string \<Rightarrow> nat \<Rightarrow> litCursor \<Rightarrow> int \<times> litCursor" where
  "cursor_next s v pos c = next_loop s v pos (an_lits s) c (- 1)"

text \<open>What a cursor entry knows once the scan has reached \<open>pos\<close>.\<close>

definition first_lit :: "anchorScan \<Rightarrow> string \<Rightarrow> nat \<Rightarrow> string \<Rightarrow> nat option" where
  "first_lit s v pos lit = find (\<lambda>k. lit_at (an_fold s) v k lit) [pos ..< length v]"

definition as_entry :: "nat option \<Rightarrow> int" where
  "as_entry p = (case p of None \<Rightarrow> litExhausted | Some k \<Rightarrow> int k)"

definition entry_ok :: "anchorScan \<Rightarrow> string \<Rightarrow> nat \<Rightarrow> string \<Rightarrow> int \<Rightarrow> bool" where
  "entry_ok s v pos lit a \<longleftrightarrow>
     a = litUnscanned \<or> (0 \<le> a \<and> a < int pos) \<or> a = as_entry (first_lit s v pos lit)"

lemma find_upt_drop: "find P [i ..< n] = map_option (\<lambda>k. i + k) (find (\<lambda>k. P (i + k)) [0 ..< n - i])"
proof (cases "i \<le> n")
  case True
  then have "[i ..< n] = map ((+) i) [0 ..< n - i]" by (intro nth_equalityI) auto
  moreover have "find P (map f xs) = map_option f (find (P \<circ> f) xs)" for f :: "nat \<Rightarrow> nat" and xs
    by (induction xs) auto
  ultimately show ?thesis by (simp add: comp_def)
qed simp

lemma anchor_index_first:
  assumes "exact_lit (an_fold s) lit"
  shows "anchor_index s v pos lit = as_entry (first_lit s v pos lit)"
proof -
  have "(if an_fold s then indexFold (drop pos v) lit else str_index lit (drop pos v)) =
      find (\<lambda>k. lit_at (an_fold s) v (pos + k) lit) [0 ..< length v - pos]"
  proof (cases "an_fold s")
    case True
    with assms show ?thesis by (simp add: indexFold_def index_fold_loop_find lit_at_def add.commute)
  next
    case False
    moreover have "lit \<noteq> []" using assms by (simp add: exact_lit_def)
    moreover have "find (occurs_at lit (drop pos v)) [0 ..< length v - pos] =
        find (\<lambda>k. lit_at False v (pos + k) lit) [0 ..< length v - pos]"
      by (intro find_cong) (simp_all add: occurs_at_def lit_at_def add.commute)
    ultimately show ?thesis by (simp add: str_index_find)
  qed
  then show ?thesis unfolding anchor_index_def first_lit_def find_upt_drop [of _ pos] as_entry_def
    by (auto split: option.split)
qed

lemma entry_mono:
  assumes "entry_ok s v pos lit a" "pos \<le> pos'"
  shows "entry_ok s v pos' lit a"
proof (cases "first_lit s v pos lit")
  case None
  then have "first_lit s v pos' lit = None" using assms(2) by (auto simp: first_lit_def find_upt_None)
  with assms None show ?thesis by (auto simp: entry_ok_def)
next
  case (Some k)
  have "first_lit s v pos' lit = Some k" if "pos' \<le> k"
    using Some that assms(2) by (auto simp: first_lit_def find_upt_Some)
  with assms Some show ?thesis by (cases "pos' \<le> k") (auto simp: entry_ok_def as_entry_def)
qed

lemma entry_refresh:
  assumes "entry_ok s v pos lit a" "exact_lit (an_fold s) lit" "a \<noteq> litExhausted"
  shows "(if a < int pos then anchor_index s v pos lit else a) = as_entry (first_lit s v pos lit)"
  using assms by (auto simp: entry_ok_def anchor_index_first litUnscanned_def)

lemma entry_exhausted: "entry_ok s v pos lit litExhausted \<Longrightarrow> as_entry (first_lit s v pos lit) = litExhausted"
  by (auto simp: entry_ok_def litExhausted_def litUnscanned_def)

lemma next_loop_spec:
  assumes "list_all2 (entry_ok s v pos) lits (take (length lits) ats)" "list_all (exact_lit (an_fold s)) lits"
  shows "fst (next_loop s v pos lits ats best) = foldl pick best (map (\<lambda>lit. as_entry (first_lit s v pos lit)) lits) \<and>
    list_all2 (entry_ok s v pos) lits (take (length lits) (snd (next_loop s v pos lits ats best)))"
  using assms
proof (induction s v pos lits ats best rule: next_loop.induct)
  case (1 s v pos lit lits a ats best)
  note ok = 1(3,4)
  have fresh: "entry_ok s v pos lit (as_entry (first_lit s v pos lit))" by (simp add: entry_ok_def)
  show ?case
  proof (cases "a = litExhausted")
    case True
    have "pick best (as_entry (first_lit s v pos lit)) = best"
      using entry_exhausted [of s v pos lit] ok True by (simp add: pick_def litExhausted_def)
    with True 1(1) ok show ?thesis by (simp split: prod.split) fastforce
  next
    case False
    have a': "(if a < int pos then anchor_index s v pos lit else a) = as_entry (first_lit s v pos lit)"
      by (rule entry_refresh) (use ok False in simp_all)
    show ?thesis using 1(2) [OF False a' [symmetric]] ok False a' fresh
      by (simp add: Let_def split: prod.split) fastforce
  qed
qed simp_all

lemma pick_first:
  "pick (as_entry (find A [i ..< n])) (as_entry (find B [i ..< n])) = as_entry (find (\<lambda>k. A k \<or> B k) [i ..< n])"
proof (cases "find (\<lambda>k. A k \<or> B k) [i ..< n]")
  case None
  then have "find A [i ..< n] = None" "find B [i ..< n] = None" unfolding find_upt_None by auto
  with None show ?thesis by (simp add: pick_def as_entry_def litExhausted_def)
next
  case (Some k)
  then have k: "i \<le> k" "k < n" "A k \<or> B k" "\<And>j. i \<le> j \<Longrightarrow> j < k \<Longrightarrow> \<not> A j \<and> \<not> B j" unfolding find_upt_Some by auto
  have later: "as_entry (find P [i ..< n]) = litExhausted \<or> (\<exists>m \<ge> k. find P [i ..< n] = Some m \<and> (P k \<longrightarrow> m = k))"
    if "P = A \<or> P = B" for P
  proof (cases "find P [i ..< n]")
    case (Some m)
    then have m: "i \<le> m" "P m" "\<And>j. i \<le> j \<Longrightarrow> j < m \<Longrightarrow> \<not> P j" unfolding find_upt_Some by auto
    have "k \<le> m" using m(1,2) k(4) [of m] that by (meson not_le_imp_less)
    moreover have "P k \<Longrightarrow> m = k" using m(3) [of k] k(1) \<open>k \<le> m\<close> by fastforce
    ultimately show ?thesis using Some by auto
  qed (simp add: as_entry_def)
  have hit: "P k \<Longrightarrow> find P [i ..< n] \<noteq> None" for P using k(1,2) by (auto simp: find_upt_None)
  show ?thesis using later [of A] later [of B] k(3) hit [of A] hit [of B] Some
    by (auto simp: pick_def as_entry_def litExhausted_def)
qed

lemma foldl_pick:
  "foldl pick (as_entry (find A [pos ..< length v])) (map (\<lambda>lit. as_entry (first_lit s v pos lit)) lits) =
   as_entry (find (\<lambda>k. A k \<or> list_ex (lit_at (an_fold s) v k) lits) [pos ..< length v])"
proof (induction lits arbitrary: A)
  case (Cons lit lits)
  show ?case using Cons [of "\<lambda>k. A k \<or> lit_at (an_fold s) v k lit"] pick_first
    by (simp add: first_lit_def disj_assoc)
qed simp

text \<open>Some entry literal occurs at an index.\<close>

definition entry_at :: "anchorScan \<Rightarrow> string \<Rightarrow> nat \<Rightarrow> bool" where
  "entry_at s v i \<longleftrightarrow> list_ex (lit_at (an_fold s) v i) (an_lits s)"

definition cursor_ok :: "anchorScan \<Rightarrow> string \<Rightarrow> nat \<Rightarrow> litCursor \<Rightarrow> bool" where
  "cursor_ok s v pos c \<longleftrightarrow> list_all2 (entry_ok s v pos) (an_lits s) (take (length (an_lits s)) c)"

lemma cursor_ok_mono: "cursor_ok s v pos c \<Longrightarrow> pos \<le> pos' \<Longrightarrow> cursor_ok s v pos' c"
  unfolding cursor_ok_def by (auto elim!: list_all2_mono intro: entry_mono)

lemma init_cursor_ok: "length (an_lits s) \<le> maxAnchorLits \<Longrightarrow> cursor_ok s v pos init_cursor"
  by (auto simp: cursor_ok_def init_cursor_def entry_ok_def list_all2_conv_all_nth min_def)

lemma cursor_next_spec:
  assumes "cursor_ok s v pos c" "list_all (exact_lit (an_fold s)) (an_lits s)"
  shows "fst (cursor_next s v pos c) = as_entry (find (entry_at s v) [pos ..< length v]) \<and>
    cursor_ok s v pos (snd (cursor_next s v pos c))"
proof -
  have "as_entry (find (\<lambda>k. False) [pos ..< length v]) = - 1"
    by (simp add: as_entry_def litExhausted_def find_upt_None [THEN iffD2])
  with next_loop_spec [of s v pos "an_lits s" c "- 1"] foldl_pick [of "\<lambda>k. False" pos v s "an_lits s"] assms show ?thesis
    by (simp add: cursor_next_def cursor_ok_def entry_at_def [abs_def])
qed

text \<open>The position is never behind the scan, whatever the cursor holds.\<close>

lemma anchor_index_ge: "anchor_index s v pos lit = litExhausted \<or> int pos \<le> anchor_index s v pos lit"
  by (auto simp: anchor_index_def split: option.split)

lemma next_loop_ge: "best < 0 \<or> int pos \<le> best \<Longrightarrow> fst (next_loop s v pos lits ats best) < 0 \<or> int pos \<le> fst (next_loop s v pos lits ats best)"
proof (induction s v pos lits ats best rule: next_loop.induct)
  case (1 s v pos lit lits a ats best)
  show ?case
  proof (cases "a = litExhausted")
    case True
    with 1 show ?thesis by (simp split: prod.split) fastforce
  next
    case False
    let ?a = "if a < int pos then anchor_index s v pos lit else a"
    have "pick best ?a < 0 \<or> int pos \<le> pick best ?a"
      using 1(3) anchor_index_ge [of s v pos lit] by (auto simp: litExhausted_def pick_def)
    from 1(2) [OF False refl this] False show ?thesis by (simp add: Let_def split: prod.split) fastforce
  qed
qed simp_all

lemma cursor_next_ge: "cursor_next s v pos c = (at, c') \<Longrightarrow> \<not> at < 0 \<Longrightarrow> pos \<le> nat at"
  using next_loop_ge [of "- 1" pos s v "an_lits s" c] by (auto simp: cursor_next_def)

end
