(* ===== verification/Email_Scan.thy ===== *)
theory Email_Scan
  imports Pii_Scan
begin

text \<open>
  The hand scanner of the rule \<^verbatim>\<open>email\<close>, \<^verbatim>\<open>src/internal/transforms/packs/handscan.go\<close>,
  and that it finds what the pattern of the rule finds.
\<close>

section \<open>The scanner\<close>

definition clsLocal :: "8 word" where "clsLocal = push_bit 0 1"
definition clsDomain :: "8 word" where "clsDomain = push_bit 1 1"
definition clsWord :: "8 word" where "clsWord = push_bit 2 1"
definition clsAlpha :: "8 word" where "clsAlpha = push_bit 3 1"

definition emailClass :: "char \<Rightarrow> 8 word" where
  "emailClass c =
     (if is_upper c \<or> is_lower c then clsLocal OR clsDomain OR clsWord OR clsAlpha
      else if is_digit c then clsLocal OR clsDomain OR clsWord
      else if c = CHR ''.'' \<or> c = CHR ''-'' then clsLocal OR clsDomain
      else if c = CHR ''_'' then clsLocal OR clsWord
      else if c = CHR ''%'' \<or> c = CHR ''+'' then clsLocal
      else 0)"

definition cls :: "8 word \<Rightarrow> char \<Rightarrow> bool" where
  "cls b c \<longleftrightarrow> emailClass c AND b \<noteq> 0"

text \<open>Back to the start of the local part, never before \<open>from\<close>.\<close>

fun local_start :: "string \<Rightarrow> nat \<Rightarrow> nat \<Rightarrow> nat" where
  "local_start v from 0 = 0"
| "local_start v from (Suc p) = (if Suc p > from \<and> cls clsLocal (v ! p) then local_start v from p else Suc p)"

definition email_edge :: "string \<Rightarrow> nat \<Rightarrow> bool" where
  "email_edge v i \<longleftrightarrow> (i > 0 \<and> cls clsWord (v ! (i - 1))) \<noteq> cls clsWord (v ! i)"

text \<open>The letters behind a dot, within the domain run.\<close>

definition tld_end :: "string \<Rightarrow> nat \<Rightarrow> nat \<Rightarrow> nat" where
  "tld_end v hi dot = dot + 1 + length (takeWhile (cls clsAlpha) (segment (dot + 1) hi v))"

definition usable_dot :: "string \<Rightarrow> nat \<Rightarrow> nat \<Rightarrow> bool" where
  "usable_dot v hi dot \<longleftrightarrow> v ! dot = CHR ''.'' \<and> 2 \<le> tld_end v hi dot - dot - 1 \<and>
     \<not> (tld_end v hi dot < length v \<and> cls clsWord (v ! tld_end v hi dot))"

definition domain_stop :: "string \<Rightarrow> nat \<Rightarrow> nat option" where
  "domain_stop v lo = (let hi = run_end (cls clsDomain) v lo
     in map_option (tld_end v hi) (find (usable_dot v hi) (rev [lo + 1 ..< hi])))"

function email_loop :: "string \<Rightarrow> nat \<Rightarrow> nat \<Rightarrow> Span list" where
  "email_loop v from at =
     (case index_byte CHR ''@'' (drop at v) of
        None \<Rightarrow> []
      | Some rel \<Rightarrow>
          let sign = at + rel;
              p = local_start v from sign
          in case find (email_edge v) [p ..< sign] of
               None \<Rightarrow> email_loop v from (sign + 1)
             | Some start \<Rightarrow>
                 (case domain_stop v (sign + 1) of
                    None \<Rightarrow> email_loop v from (sign + 1)
                  | Some stop \<Rightarrow> cand start stop # email_loop v stop stop))"
  by pat_completeness auto

lemma domain_stop_gt: "domain_stop v lo = Some stop \<Longrightarrow> lo < stop"
  by (auto simp: domain_stop_def Let_def tld_end_def dest!: find_SomeD)

termination email_loop
proof (relation "measure (\<lambda>(v, from, at). length v - at)")
  fix v :: string and "from" at rel sign p start stop
  assume "index_byte CHR ''@'' (drop at v) = Some rel" "sign = at + rel" "domain_stop v (sign + 1) = Some stop"
  with domain_stop_gt [of v "sign + 1" stop]
  show "((v, stop, stop), v, from, at) \<in> measure (\<lambda>(v, from, at). length v - at)" by (auto simp: index_byte_Some)
qed (auto simp: index_byte_Some)

declare email_loop.simps [simp del]

definition scanEmail :: "string \<Rightarrow> Span list" where
  "scanEmail v = email_loop v 0 0"

text \<open>\<^verbatim>\<open>\b[A-Za-z0-9._%+-]+@[A-Za-z0-9.-]+\.[A-Za-z]{2,}\b\<close>\<close>

definition is_alpha :: "char \<Rightarrow> bool" where "is_alpha c \<longleftrightarrow> is_upper c \<or> is_lower c"

definition is_local :: "char \<Rightarrow> bool" where
  "is_local c \<longleftrightarrow> is_alpha c \<or> is_digit c \<or> c = CHR ''.'' \<or> c = CHR ''_'' \<or> c = CHR ''%'' \<or> c = CHR ''+'' \<or> c = CHR ''-''"

definition is_domain :: "char \<Rightarrow> bool" where
  "is_domain c \<longleftrightarrow> is_alpha c \<or> is_digit c \<or> c = CHR ''.'' \<or> c = CHR ''-''"

definition email_re :: re where
  "email_re = Seq WordEdge (Seq (Rep 1 None (Cls is_local)) (Seq (Cls (\<lambda>c. c = CHR ''@''))
     (Seq (Rep 1 None (Cls is_domain)) (Seq (Cls (\<lambda>c. c = CHR ''.'')) (Seq (Rep 2 None (Cls is_alpha)) WordEdge)))))"

section \<open>Classes\<close>

lemma not_classes [simp]:
  "\<not> is_digit CHR ''.''" "\<not> is_digit CHR ''-''" "\<not> is_digit CHR ''%''" "\<not> is_digit CHR ''+''" "\<not> is_digit CHR ''@''"
  "\<not> is_upper CHR ''.''" "\<not> is_upper CHR ''-''" "\<not> is_upper CHR ''%''" "\<not> is_upper CHR ''+''" "\<not> is_upper CHR ''@''"
  "\<not> is_lower CHR ''.''" "\<not> is_lower CHR ''-''" "\<not> is_lower CHR ''%''" "\<not> is_lower CHR ''+''" "\<not> is_lower CHR ''@''"
  by (simp_all add: is_digit_def is_upper_def is_lower_def less_eq_char_def)

lemma email_bits:
  "bit (emailClass c) 0 \<longleftrightarrow> is_local c" "bit (emailClass c) (Suc 0) \<longleftrightarrow> is_domain c"
  "bit (emailClass c) 2 \<longleftrightarrow> is_word c" "bit (emailClass c) 3 \<longleftrightarrow> is_alpha c"
  by (auto simp: emailClass_def clsLocal_def clsDomain_def clsWord_def clsAlpha_def
      is_local_def is_domain_def is_word_def is_alpha_def bit_simps)

lemma cls_simps [simp]: "cls clsLocal = is_local" "cls clsDomain = is_domain" "cls clsWord = is_word" "cls clsAlpha = is_alpha"
  unfolding cls_def clsLocal_def clsDomain_def clsWord_def clsAlpha_def one_bit using email_bits by (auto simp: fun_eq_iff)

lemma class_facts [simp]:
  "\<not> is_local CHR ''@''" "\<not> is_word CHR ''.''" "is_alpha c \<Longrightarrow> is_domain c" "is_alpha c \<Longrightarrow> is_word c" "\<not> is_alpha CHR ''.''"
  by (auto simp: is_local_def is_domain_def is_word_def is_alpha_def)

section \<open>What the pattern matches at a position\<close>

lemma run_last: "i < run_end p v i \<Longrightarrow> p (v ! (run_end p v i - 1))"
  using run_end_in [of i "run_end p v i - 1" p v] by simp

lemma takeWhile_take: "takeWhile P (take n xs) = take n (takeWhile P xs)"
  by (induction xs arbitrary: n) (auto simp: take_Cons split: nat.splits)

lemma tld_run:
  assumes "dot + 1 \<le> hi" "hi = run_end is_domain v lo" "lo \<le> dot" "lo \<le> length v"
  shows "tld_end v hi dot = run_end is_alpha v (dot + 1)"
proof -
  have hi: "hi \<le> length v" using run_end_bounds(2) [of lo v is_domain] assms by simp
  let ?e = "run_end is_alpha v (dot + 1)"
  have "?e \<le> hi"
  proof (rule ccontr)
    assume "\<not> ?e \<le> hi"
    then have "is_alpha (v ! hi)" "hi < length v" using run_end_in [of "dot + 1" hi is_alpha v] assms(1) by auto
    with run_end_stops [of is_domain v lo] assms(2) show False by simp
  qed
  then have "takeWhile is_alpha (segment (dot + 1) hi v) = takeWhile is_alpha (drop (dot + 1) v)"
    unfolding segment_def takeWhile_take by (simp add: run_end_def)
  then show ?thesis by (simp add: tld_end_def run_end_def)
qed


definition good_dot :: "string \<Rightarrow> nat \<Rightarrow> bool" where
  "good_dot v dot \<longleftrightarrow> v ! dot = CHR ''.'' \<and> dot + 3 \<le> run_end is_alpha v (dot + 1) \<and> \<not> word_at v (run_end is_alpha v (dot + 1))"

lemma domain_stop_alt:
  assumes "lo \<le> length v"
  shows "domain_stop v lo = map_option (\<lambda>dot. run_end is_alpha v (dot + 1)) (find (good_dot v) (rev [lo + 1 ..< run_end is_domain v lo]))"
proof -
  let ?hi = "run_end is_domain v lo"
  have t: "tld_end v ?hi dot = run_end is_alpha v (dot + 1)" if "dot \<in> set (rev [lo + 1 ..< ?hi])" for dot
    using that tld_run [of dot ?hi v lo] assms by simp
  have "find (usable_dot v ?hi) (rev [lo + 1 ..< ?hi]) = find (good_dot v) (rev [lo + 1 ..< ?hi])"
    by (rule find_map_cong) (auto simp: usable_dot_def good_dot_def t word_at_def)
  then show ?thesis
    using t find_SomeD [of "good_dot v" "rev [lo + 1 ..< ?hi]"]
    by (cases "find (good_dot v) (rev [lo + 1 ..< ?hi])") (simp_all add: domain_stop_def Let_def)
qed

text \<open>The letters between a dot and the closing boundary: all of their run, or nothing.\<close>

lemma ends_tld:
  assumes "d \<le> length v"
  shows "ends (Seq (Rep 2 None (Cls is_alpha)) WordEdge) v d =
    (if d + 2 \<le> run_end is_alpha v d \<and> \<not> word_at v (run_end is_alpha v d) then [run_end is_alpha v d] else [])"
proof -
  let ?e = "run_end is_alpha v d"
  have edge: "word_edge v k \<longleftrightarrow> \<not> word_at v k" if "d < k" "k \<le> ?e" for k
    using word_edge_end [of k v] run_end_in [of d "k - 1" is_alpha v] that by (simp add: word_at_def)
  have inside: "word_at v k" if "d \<le> k" "k < ?e" for k
    using run_end_in [OF that] by (simp add: word_at_def)
  have "filter (word_edge v) (rev [d + 2 ..< Suc ?e]) = (if d + 2 \<le> ?e \<and> \<not> word_at v ?e then [?e] else [])"
  proof (cases "d + 2 \<le> ?e")
    case True
    then have "rev [d + 2 ..< Suc ?e] = ?e # rev [d + 2 ..< ?e]" by simp
    moreover have "filter (word_edge v) (rev [d + 2 ..< ?e]) = []" using edge inside by (auto simp: filter_empty_conv)
    ultimately show ?thesis using edge [of ?e] True by (simp del: upt_Suc)
  qed simp
  then show ?thesis unfolding ends_edge_last ends_class_none [OF assms] .
qed

lemma concat_filter_map: "concat (map (\<lambda>x. if P x then f x else []) xs) = concat (map f (filter P xs))"
  by (induction xs) auto

lemma find_map_first:
  "(case concat (map (\<lambda>x. if P x then [f x] else []) xs) of [] \<Rightarrow> None | e # _ \<Rightarrow> Some e) = map_option f (find P xs)"
  by (induction xs) auto

lemma ends_Cls_Seq: "ends (Seq (Cls p) r) v j = (if j < length v \<and> p (v ! j) then ends r v (j + 1) else [])"
  by auto

lemma email_match:
  assumes "i \<le> length v"
  shows "match_at email_re v i =
    (let sign = run_end is_local v i in
     if word_edge v i \<and> i < sign \<and> sign < length v \<and> v ! sign = CHR ''@'' then domain_stop v (sign + 1) else None)"
proof -
  let ?sign = "run_end is_local v i"
  let ?rest = "Seq (Rep 1 None (Cls is_domain)) (Seq (Cls (\<lambda>c. c = CHR ''.'')) (Seq (Rep 2 None (Cls is_alpha)) WordEdge))"
  have sl: "?sign \<le> length v" by (rule run_end_bounds(2) [OF assms])
  have dots: "ends ?rest v lo = concat (map (\<lambda>d. if good_dot v d then [run_end is_alpha v (d + 1)] else []) (rev [lo + 1 ..< run_end is_domain v lo]))"
    if "lo \<le> length v" for lo
  proof -
    let ?hi = "run_end is_domain v lo"
    have hi: "?hi \<le> length v" by (rule run_end_bounds(2) [OF that])
    have one: "ends (Seq (Cls (\<lambda>c. c = CHR ''.'')) (Seq (Rep 2 None (Cls is_alpha)) WordEdge)) v d =
        (if d < length v \<and> good_dot v d then [run_end is_alpha v (d + 1)] else [])" for d
      using ends_tld [of "d + 1" v] by (cases "d < length v \<and> v ! d = CHR ''.''") (auto simp: good_dot_def simp del: ends.simps(3))
    have last: "\<not> (?hi < length v \<and> good_dot v ?hi)"
      using run_end_stops [of is_domain v lo] by (auto simp: good_dot_def is_domain_def)
    have "ends ?rest v lo = concat (map (\<lambda>d. if d < length v \<and> good_dot v d then [run_end is_alpha v (d + 1)] else []) (rev [lo + 1 ..< Suc ?hi]))"
      unfolding ends.simps(2) [of "Rep 1 None (Cls is_domain)"] ends_class_none [OF that] one ..
    also have "\<dots> = concat (map (\<lambda>d. if good_dot v d then [run_end is_alpha v (d + 1)] else []) (rev [lo + 1 ..< ?hi]))"
    proof (cases "lo + 1 \<le> ?hi")
      case True
      then have r: "rev [lo + 1 ..< Suc ?hi] = ?hi # rev [lo + 1 ..< ?hi]" by simp
      have m: "map (\<lambda>d. if d < length v \<and> good_dot v d then [run_end is_alpha v (d + 1)] else []) (rev [lo + 1 ..< ?hi])
          = map (\<lambda>d. if good_dot v d then [run_end is_alpha v (d + 1)] else []) (rev [lo + 1 ..< ?hi])"
        using hi by (intro map_cong) auto
      show ?thesis by (simp only: r list.map concat.simps last if_False append_Nil m)
    qed simp
    finally show ?thesis .
  qed
  have sign: "ends (Seq (Rep 1 None (Cls is_local)) (Seq (Cls (\<lambda>c. c = CHR ''@'')) ?rest)) v i =
      (if i < ?sign \<and> ?sign < length v \<and> v ! ?sign = CHR ''@'' then ends ?rest v (?sign + 1) else [])"
  proof -
    have one: "ends (Seq (Cls (\<lambda>c. c = CHR ''@'')) ?rest) v j = (if j < length v \<and> v ! j = CHR ''@'' then ends ?rest v (j + 1) else [])" for j
      by (rule ends_Cls_Seq)
    have inner: "map (\<lambda>j. if j < length v \<and> v ! j = CHR ''@'' then ends ?rest v (j + 1) else []) (rev [i + 1 ..< ?sign]) = map (\<lambda>j. []) (rev [i + 1 ..< ?sign])"
    proof (rule map_cong [OF refl])
      fix j assume "j \<in> set (rev [i + 1 ..< ?sign])"
      then have "is_local (v ! j)" using run_end_in [of i j is_local v] by simp
      then have "v ! j \<noteq> CHR ''@''" by auto
      then show "(if j < length v \<and> v ! j = CHR ''@'' then ends ?rest v (j + 1) else []) = []" by (simp only: simp_thms if_False)
    qed
    have none: "concat (map (\<lambda>j. []) js) = ([] :: nat list)" for js :: "nat list" by (induction js) auto
    have "ends (Seq (Rep 1 None (Cls is_local)) (Seq (Cls (\<lambda>c. c = CHR ''@'')) ?rest)) v i
        = concat (map (\<lambda>j. if j < length v \<and> v ! j = CHR ''@'' then ends ?rest v (j + 1) else []) (rev [i + 1 ..< Suc ?sign]))"
      unfolding ends.simps(2) [of "Rep 1 None (Cls is_local)"] ends_class_none [OF assms] one ..
    also have "\<dots> = (if i < ?sign \<and> ?sign < length v \<and> v ! ?sign = CHR ''@'' then ends ?rest v (?sign + 1) else [])"
    proof (cases "i < ?sign")
      case True
      then have "rev [i + 1 ..< Suc ?sign] = ?sign # rev [i + 1 ..< ?sign]" by simp
      then show ?thesis using True inner none by (simp del: upt_Suc ends.simps)
    qed simp
    finally show ?thesis .
  qed
  have "match_at email_re v i = (if word_edge v i \<and> i < ?sign \<and> ?sign < length v \<and> v ! ?sign = CHR ''@''
      then (case ends ?rest v (?sign + 1) of [] \<Rightarrow> None | e # _ \<Rightarrow> Some e) else None)"
    unfolding email_re_def match_at_edge unfolding match_at_def sign by (auto simp del: ends.simps)
  then show ?thesis
    unfolding Let_def using dots [of "?sign + 1"] domain_stop_alt [of "?sign + 1" v] by (simp add: find_map_first del: ends.simps)
qed


section \<open>The scanner finds what the pattern finds\<close>

lemma local_start_spec:
  assumes "from \<le> sign" "sign \<le> length v"
  defines "p \<equiv> local_start v from sign"
  shows "from \<le> p" "p \<le> sign" "\<And>k. p \<le> k \<Longrightarrow> k < sign \<Longrightarrow> is_local (v ! k)" "from < p \<Longrightarrow> \<not> is_local (v ! (p - 1))"
proof -
  have "from \<le> local_start v from s \<and> local_start v from s \<le> s \<and>
      (\<forall>k. local_start v from s \<le> k \<and> k < s \<longrightarrow> is_local (v ! k)) \<and>
      (from < local_start v from s \<longrightarrow> \<not> is_local (v ! (local_start v from s - 1)))" if "from \<le> s" for s
    using that
  proof (induction s)
    case (Suc s)
    then show ?case by (cases "Suc s > from \<and> is_local (v ! s)") (auto simp: less_Suc_eq)
  qed simp
  from this [OF assms(1)] show "from \<le> p" "p \<le> sign" "\<And>k. p \<le> k \<Longrightarrow> k < sign \<Longrightarrow> is_local (v ! k)"
      "from < p \<Longrightarrow> \<not> is_local (v ! (p - 1))" by (auto simp: p_def)
qed

lemma email_edge_word: "i < length v \<Longrightarrow> email_edge v i \<longleftrightarrow> word_edge v i"
  by (auto simp: email_edge_def word_edge_def word_at_def)

text \<open>Where the sign of a match that starts at \<open>k\<close> is.\<close>

lemma email_match_sign:
  assumes "match_at email_re v k = Some e" "k \<le> length v"
  shows "k < run_end is_local v k" "run_end is_local v k < length v" "v ! run_end is_local v k = CHR ''@''"
    "word_edge v k" "domain_stop v (run_end is_local v k + 1) = Some e" "k < e" "e \<le> length v"
proof -
  from assms show *: "k < run_end is_local v k" "run_end is_local v k < length v" "v ! run_end is_local v k = CHR ''@''"
    "word_edge v k" "domain_stop v (run_end is_local v k + 1) = Some e"
    by (auto simp: email_match Let_def split: if_splits)
  from domain_stop_gt [OF *(5)] *(1) show "k < e" by simp
  let ?dots = "rev [run_end is_local v k + 1 + 1 ..< run_end is_domain v (run_end is_local v k + 1)]"
  have "map_option (\<lambda>dot. run_end is_alpha v (dot + 1)) (find (good_dot v) ?dots) = Some e"
    using *(2) domain_stop_alt [of "run_end is_local v k + 1" v] *(5) by (simp only: Suc_eq_plus1 [symmetric] Suc_le_eq)
  then obtain dot where "find (good_dot v) ?dots = Some dot" "e = run_end is_alpha v (dot + 1)"
    by (auto simp: map_option_eq_Some)
  moreover from this(1) have "dot < run_end is_domain v (run_end is_local v k + 1)" using find_SomeD by fastforce
  moreover have "run_end is_domain v (run_end is_local v k + 1) \<le> length v" using *(2) by (intro run_end_bounds) simp
  ultimately show "e \<le> length v" using run_end_bounds(2) [of "dot + 1" v is_alpha] by simp
qed

lemma email_loop_finds:
  assumes "from \<le> at" "at \<le> length v"
    and "\<And>k e. from \<le> k \<Longrightarrow> k \<le> length v \<Longrightarrow> match_at email_re v k = Some e \<Longrightarrow> at \<le> run_end is_local v k"
  shows "email_loop v from at = spans_of (find_all (match_at email_re v) (length v) from)"
  using assms
proof (induction v "from" at rule: email_loop.induct)
  case (1 v "from" at)
  let ?m = "match_at email_re v"
  show ?case
  proof (cases "index_byte CHR ''@'' (drop at v)")
    case None
    have "?m k = None" if "from \<le> k" "k \<le> length v" for k
    proof (rule ccontr)
      assume "?m k \<noteq> None"
      then obtain e where e: "?m k = Some e" by auto
      note s = email_match_sign [OF e that(2)] 1(6) [OF that e]
      then have "run_end is_local v k - at < length (drop at v)" "drop at v ! (run_end is_local v k - at) = CHR ''@''" by auto
      with None show False by (metis index_byte_None nth_mem)
    qed
    then have "find_all ?m (length v) from = []" by (rule find_all_end)
    with None show ?thesis by (subst email_loop.simps) simp
  next
    case (Some rel)
    define sign where "sign = at + rel"
    define p where "p = local_start v from sign"
    from Some 1(5) have sign: "at \<le> sign" "sign < length v" "v ! sign = CHR ''@''" "\<And>k. at \<le> k \<Longrightarrow> k < sign \<Longrightarrow> v ! k \<noteq> CHR ''@''"
      by (auto simp: index_byte_Some sign_def nth_drop) (metis add_diff_inverse_nat nat_add_left_cancel_less not_le)
    have fs: "from \<le> sign" using 1(4) sign(1) by simp
    note p = local_start_spec [OF fs less_imp_le [OF sign(2)], folded p_def]
    have which: "run_end is_local v k = sign \<and> p \<le> k \<and> k < sign \<and> word_edge v k \<or> sign < k"
      if k: "from \<le> k" "k \<le> length v" "?m k = Some e" for k e
    proof -
      note s = email_match_sign [OF k(3,2)]
      have ge: "sign \<le> run_end is_local v k" using 1(6) [OF k] sign(4) [of "run_end is_local v k"] s(3) by fastforce
      show ?thesis
      proof (cases "k \<le> sign")
        case True
        have eq: "run_end is_local v k = sign"
        proof (rule ccontr)
          assume "run_end is_local v k \<noteq> sign"
          with ge True have "is_local (v ! sign)" using run_end_in [of k sign is_local v] by simp
          with sign(3) show False by simp
        qed
        moreover have "p \<le> k"
        proof (rule ccontr)
          assume "\<not> p \<le> k"
          then have "is_local (v ! (p - 1))" using run_end_in [of k "p - 1" is_local v] eq p(2) by simp
          with p(4) \<open>\<not> p \<le> k\<close> k(1) show False by simp
        qed
        ultimately show ?thesis using s by simp
      qed simp
    qed
    have at_sign: "?m k = domain_stop v (sign + 1)" if "p \<le> k" "k < sign" "word_edge v k" for k
    proof -
      have "run_end is_local v k = sign" by (rule run_end_eq) (use that p(3) sign in auto)
      with that sign show ?thesis by (simp add: email_match Let_def)
    qed
    have later: "sign + 1 \<le> run_end is_local v k" if "sign < k" for k
      using that run_end_bounds(1) [of k is_local v] by simp
    show ?thesis
    proof (cases "find (email_edge v) [p ..< sign]")
      case None
      then have "\<not> word_edge v k" if "p \<le> k" "k < sign" for k
        using that email_edge_word [of k v] sign(2) by (auto simp: find_None_iff)
      then have m: "\<And>k e. from \<le> k \<Longrightarrow> k \<le> length v \<Longrightarrow> ?m k = Some e \<Longrightarrow> sign + 1 \<le> run_end is_local v k"
        using which later by blast
      have "email_loop v from (sign + 1) = spans_of (find_all ?m (length v) from)"
        by (rule 1(1) [OF Some sign_def p_def None _ _ m]) (use fs sign in auto)
      then show ?thesis using Some None by (subst email_loop.simps) (simp add: Let_def sign_def p_def)
    next
      case found: (Some start)
      then obtain s: "p \<le> start" "start < sign" "word_edge v start" and least: "\<And>k. p \<le> k \<Longrightarrow> k < start \<Longrightarrow> \<not> word_edge v k"
        using sign(2) p(2) by (auto simp: find_Some_iff email_edge_word) (metis add_diff_inverse_nat diff_less_mono email_edge_word
            le_add_diff_inverse less_trans nat_add_left_cancel_less not_le)
      show ?thesis
      proof (cases "domain_stop v (sign + 1)")
        case None
        have m: "sign + 1 \<le> run_end is_local v k" if "from \<le> k" "k \<le> length v" "?m k = Some e" for k e
          using which [OF that] later [of k] at_sign [of k] None that(3) by auto
        have "email_loop v from (sign + 1) = spans_of (find_all ?m (length v) from)"
          by (rule 1(2) [OF Some sign_def p_def found None _ _ m]) (use fs sign in auto)
        then show ?thesis using Some found None by (subst email_loop.simps) (simp add: Let_def sign_def p_def)
      next
        case stop: (Some stop)
        have hit: "?m start = Some stop" using at_sign [OF s] stop by simp
        note h = email_match_sign [OF hit]
        have "?m k = None" if "from \<le> k" "k < start" for k
        proof (rule ccontr)
          assume "?m k \<noteq> None"
          then obtain e where "?m k = Some e" by auto
          from which [OF that(1) _ this] that(2) s(2) sign(2) least [of k] show False by auto
        qed
        then have "find_all ?m (length v) from = find_all ?m (length v) start" using s p(1) by (intro find_all_skip) auto
        also have "\<dots> = (start, stop) # find_all ?m (length v) stop"
          by (rule find_all_hit) (use hit h(6) s sign in auto)
        finally have "find_all ?m (length v) from = (start, stop) # find_all ?m (length v) stop" .
        moreover have "email_loop v stop stop = spans_of (find_all ?m (length v) stop)"
          by (rule 1(3) [OF Some sign_def p_def found stop])
             (use h(7) s sign in \<open>auto intro: le_trans [OF _ run_end_bounds(1)]\<close>)
        ultimately show ?thesis using Some found stop by (subst email_loop.simps) (simp add: Let_def sign_def p_def)
      qed
    qed
  qed
qed

lemma scanEmail_finds: "scanEmail v = spans_of (FindAll email_re v)"
  unfolding scanEmail_def FindAll_def by (rule email_loop_finds) simp_all

text \<open>
  The hand scanners are their patterns. On every value the fused walk and the email scanner find
  exactly the matches \<^verbatim>\<open>FindAll\<close> finds for the four patterns of the personal-data corpus, in the
  same order.
\<close>

lemma hand_scanners_are_their_patterns:
  "vs_pesel (walk v) = spans_of (FindAll pesel_re v) \<and> vs_iban (walk v) = spans_of (FindAll iban_re v) \<and>
   vs_pan (walk v) = spans_of (FindAll card_re v) \<and> scanEmail v = spans_of (FindAll email_re v)"
  by (simp only: walk_pesel walk_iban walk_pan scanEmail_finds)

end
