(* ===== verification/Redaction_Plan.thy ===== *)
theory Redaction_Plan
  imports Scrub_Spans
begin

text \<open>
  How a plan rewrites a value, \<^verbatim>\<open>src/internal/transforms/scrub.go\<close>: the replacements of a
  \<^verbatim>\<open>valuePlan\<close> and \<^verbatim>\<open>apply\<close>, the union of spans found in different readings of a
  value (\<^verbatim>\<open>unionSpan\<close>), and the rewriter of the owner's user name
  (\<^verbatim>\<open>pathUserReplacementSpans\<close>).
\<close>

section \<open>Replacements\<close>

record replacementSpan =
  rp_Start :: nat
  rp_End :: nat
  rp_Replacement :: string

record valuePlan =
  vp_spans :: "replacementSpan list"
  vp_redacted :: int
  vp_hits :: ledger

text \<open>The loop of \<^verbatim>\<open>apply\<close>: a segment out of range panics, which is \<^const>\<open>None\<close>.\<close>

fun apply_from :: "nat \<Rightarrow> replacementSpan list \<Rightarrow> string \<Rightarrow> string option" where
  "apply_from cursor [] v = go_slice cursor (length v) v"
| "apply_from cursor (s # ss) v =
     (case go_slice cursor (rp_Start s) v of
        None \<Rightarrow> None
      | Some kept \<Rightarrow> map_option (\<lambda>rest. kept @ rp_Replacement s @ rest) (apply_from (rp_End s) ss v))"

definition plan_apply :: "valuePlan \<Rightarrow> string \<Rightarrow> string option" where
  "plan_apply p v = (if vp_spans p = [] then Some v else apply_from 0 (vp_spans p) v)"

text \<open>Replacements in order, from a position on, within a value of length \<open>n\<close>.\<close>

fun edits_ok :: "nat \<Rightarrow> nat \<Rightarrow> replacementSpan list \<Rightarrow> bool" where
  "edits_ok cursor n [] \<longleftrightarrow> cursor \<le> n"
| "edits_ok cursor n (s # ss) \<longleftrightarrow> cursor \<le> rp_Start s \<and> rp_Start s \<le> rp_End s \<and> edits_ok (rp_End s) n ss"

definition replaced :: "replacementSpan list \<Rightarrow> nat set" where
  "replaced ss = (\<Union>s \<in> set ss. {rp_Start s ..< rp_End s})"

lemma replaced_simps [simp]:
  "replaced [] = {}" "replaced (s # ss) = {rp_Start s ..< rp_End s} \<union> replaced ss"
  "replaced (ss @ ts) = replaced ss \<union> replaced ts"
  by (auto simp: replaced_def)

lemma edits_ok_bounds: "edits_ok c n ss \<Longrightarrow> c \<le> n \<and> (\<forall>s \<in> set ss. c \<le> rp_Start s \<and> rp_Start s \<le> rp_End s \<and> rp_End s \<le> n)"
  by (induction ss arbitrary: c) fastforce+

lemma edits_ok_replaced: "edits_ok c n ss \<Longrightarrow> replaced ss \<subseteq> {c ..< n}"
  using edits_ok_bounds [of c n ss] by (fastforce simp: replaced_def)

lemma edits_ok_starts:
  "edits_ok c n ss \<Longrightarrow> i \<le> j \<Longrightarrow> j < length ss \<Longrightarrow> rp_Start (ss ! i) \<le> rp_Start (ss ! j)"
proof (induction ss arbitrary: c i j)
  case (Cons s ss)
  then show ?case
  proof (cases i)
    case 0
    with Cons.prems show ?thesis
      using edits_ok_bounds [of "rp_End s" n ss] by (cases j) (auto, meson le_trans nth_mem)
  next
    case (Suc i')
    with Cons show ?thesis by (cases j) auto
  qed
qed simp

lemma edits_ok_le: "edits_ok c n ss \<Longrightarrow> c' \<le> c \<Longrightarrow> edits_ok c' n ss"
  by (cases ss) auto

text \<open>What a rewrite is: the kept pieces of the value with the replacements between them.\<close>

fun weave :: "string list \<Rightarrow> string list \<Rightarrow> string" where
  "weave (p # ps) (r # rs) = p @ r @ weave ps rs"
| "weave ps rs = concat ps"

lemma apply_from_weave:
  assumes "edits_ok c (length v) ss"
  shows "\<exists>ps. length ps = Suc (length ss) \<and> apply_from c ss v = Some (weave ps (map rp_Replacement ss)) \<and>
              concat ps = map ((!) v) (filter (\<lambda>i. i \<notin> replaced ss) [c ..< length v])"
  using assms
proof (induction ss arbitrary: c)
  case Nil
  then have "segment c (length v) v = map ((!) v) [c ..< length v]"
    by (simp add: segment_map_nth)
  with Nil show ?case by (intro exI [of _ "[segment c (length v) v]"]) (simp add: go_slice_def)
next
  case (Cons s ss)
  from Cons.prems have ok: "edits_ok (rp_End s) (length v) ss" and c: "c \<le> rp_Start s" "rp_Start s \<le> rp_End s" by auto
  from ok have e: "rp_End s \<le> length v" using edits_ok_bounds by blast
  from Cons.IH [OF ok] obtain ps where ps: "length ps = Suc (length ss)"
      "apply_from (rp_End s) ss v = Some (weave ps (map rp_Replacement ss))"
      "concat ps = map ((!) v) (filter (\<lambda>i. i \<notin> replaced ss) [rp_End s ..< length v])" by blast
  have split: "[c ..< length v] = [c ..< rp_Start s] @ [rp_Start s ..< rp_End s] @ [rp_End s ..< length v]"
    using c e by (metis le_Suc_ex le_trans upt_add_eq_append)
  have "filter (\<lambda>i. i \<notin> replaced (s # ss)) [c ..< length v]
      = [c ..< rp_Start s] @ filter (\<lambda>i. i \<notin> replaced ss) [rp_End s ..< length v]"
    unfolding split using edits_ok_replaced [OF ok] c
    by (auto simp: filter_empty_conv filter_append intro!: arg_cong2 [of _ _ _ _ append] filter_True filter_cong)
  moreover have "segment c (rp_Start s) v = map ((!) v) [c ..< rp_Start s]"
    using c e by (simp add: segment_map_nth)
  ultimately show ?case
    using ps c e by (intro exI [of _ "segment c (rp_Start s) v # ps"]) (simp add: go_slice_def)
qed

lemma go_slice_skip: "a \<le> b \<Longrightarrow> go_slice b c v = Some k \<Longrightarrow> go_slice a c v = Some (segment a b v @ k)"
  using segment_append [of a b c v] by (auto simp: go_slice_def split: if_splits)

lemma apply_from_skip:
  assumes "a \<le> b" "apply_from b ss v = Some out"
  shows "apply_from a ss v = Some (segment a b v @ out)"
proof (cases ss)
  case Nil
  with assms show ?thesis using go_slice_skip [OF assms(1)] by simp
next
  case (Cons s rest)
  with assms(2) obtain k where k: "go_slice b (rp_Start s) v = Some k" by (cases "go_slice b (rp_Start s) v") auto
  from go_slice_skip [OF assms(1) this] assms(2) k Cons show ?thesis by auto
qed

section \<open>Union of spans\<close>

definition overlaps :: "Span \<Rightarrow> Span \<Rightarrow> bool" where
  "overlaps sp o' \<longleftrightarrow> sp_Start o' < sp_End sp \<and> sp_Start sp < sp_End o'"

definition fold_into :: "Span \<Rightarrow> Span \<Rightarrow> Span" where
  "fold_into o' sp =
     \<lparr>sp_Start = min (sp_Start sp) (sp_Start o'), sp_End = max (sp_End sp) (sp_End o'),
      sp_RuleID = (if sp_Start o' \<le> sp_Start sp then sp_RuleID o' else sp_RuleID sp)\<rparr>"

text \<open>The loop: fold in the first span that overlaps, until none does.\<close>

function union_loop :: "Span list \<Rightarrow> Span \<Rightarrow> Span list" where
  "union_loop spans sp =
     (case List.extract (overlaps sp) spans of
        None \<Rightarrow> spans @ [sp]
      | Some (before, o', after) \<Rightarrow> union_loop (before @ after) (fold_into o' sp))"
  by pat_completeness auto
termination
  by (relation "measure (\<lambda>(spans, sp). length spans)") (auto simp: extract_Some_iff)

declare union_loop.simps [simp del]

definition unionSpan :: "Span list \<Rightarrow> Span \<Rightarrow> Span list" where
  "unionSpan spans sp =
     (if \<exists>o' \<in> set spans. sp_Start o' \<le> sp_Start sp \<and> sp_End sp \<le> sp_End o' then spans
      else union_loop spans sp)"

lemma fold_into_covers:
  "span_ok o' \<Longrightarrow> span_ok sp \<Longrightarrow> overlaps sp o' \<Longrightarrow> covered [fold_into o' sp] = covered [o'] \<union> covered [sp]"
  by (auto simp: fold_into_def overlaps_def span_ok_def)

lemma union_loop_covers:
  assumes "list_all span_ok spans" "span_ok sp"
  shows "covered (union_loop spans sp) = covered spans \<union> covered [sp] \<and> list_all span_ok (union_loop spans sp)"
  using assms
proof (induction spans sp rule: union_loop.induct)
  case (1 spans sp)
  show ?case
  proof (cases "List.extract (overlaps sp) spans")
    case None
    with 1 show ?thesis by (subst (1 2) union_loop.simps) auto
  next
    case (Some t)
    obtain before o' after where t: "t = (before, o', after)" by (rule prod_cases3)
    with Some have x: "spans = before @ o' # after" "overlaps sp o'" by (auto simp: extract_Some_iff)
    with 1(2,3) have ok: "list_all span_ok (before @ after)" "span_ok o'" by auto
    with 1(3) have ok3: "span_ok (fold_into o' sp)" by (simp add: fold_into_def span_ok_def)
    from 1(1) [OF Some, unfolded t, OF refl refl ok(1) ok3] fold_into_covers [OF ok(2) 1(3) x(2)] Some t x(1)
    show ?thesis by (subst (1 2) union_loop.simps) auto
  qed
qed

lemma unionSpan_covers:
  assumes "list_all span_ok spans" "span_ok sp"
  shows "covered (unionSpan spans sp) = covered spans \<union> covered [sp]" "list_all span_ok (unionSpan spans sp)"
proof -
  have "covered [sp] \<subseteq> covered spans" if "o' \<in> set spans" "sp_Start o' \<le> sp_Start sp" "sp_End sp \<le> sp_End o'" for o'
  proof -
    have "covered [sp] \<subseteq> covered [o']" using that(2,3) by auto
    also have "\<dots> \<subseteq> covered spans" using that(1) by (auto simp: covered_def)
    finally show ?thesis .
  qed
  then show "covered (unionSpan spans sp) = covered spans \<union> covered [sp]" "list_all span_ok (unionSpan spans sp)"
    using union_loop_covers [OF assms] assms by (auto simp: unionSpan_def)
qed

lemma union_loop_bounds:
  assumes "\<forall>s \<in> set spans. sp_Start s < sp_End s \<and> sp_End s \<le> n" "sp_Start sp < sp_End sp" "sp_End sp \<le> n"
  shows "\<forall>s \<in> set (union_loop spans sp). sp_Start s < sp_End s \<and> sp_End s \<le> n"
  using assms
proof (induction spans sp rule: union_loop.induct)
  case (1 spans sp)
  show ?case
  proof (cases "List.extract (overlaps sp) spans")
    case None
    with 1 show ?thesis by (subst union_loop.simps) auto
  next
    case (Some t)
    obtain before o' after where t: "t = (before, o', after)" by (rule prod_cases3)
    with Some have x: "spans = before @ o' # after" by (auto simp: extract_Some_iff)
    have "\<forall>s \<in> set (union_loop (before @ after) (fold_into o' sp)). sp_Start s < sp_End s \<and> sp_End s \<le> n"
      by (rule 1(1) [OF Some, unfolded t, OF refl refl]) (use 1(2-4) x in \<open>auto simp: fold_into_def\<close>)
    with Some t show ?thesis by (subst union_loop.simps) simp
  qed
qed

lemma unionSpan_bounds:
  assumes "\<forall>s \<in> set spans. sp_Start s < sp_End s \<and> sp_End s \<le> n" "sp_Start sp < sp_End sp" "sp_End sp \<le> n"
  shows "\<forall>s \<in> set (unionSpan spans sp). sp_Start s < sp_End s \<and> sp_End s \<le> n"
  using union_loop_bounds [OF assms] assms(1) by (simp add: unionSpan_def)


section \<open>The user name in a value\<close>

text \<open>The inner loop: the first replacement from an index on that ends past a position.\<close>

definition skip_ended :: "replacementSpan list \<Rightarrow> nat \<Rightarrow> nat \<Rightarrow> nat" where
  "skip_ended blocked at start = at + length (takeWhile (\<lambda>b. rp_End b \<le> start) (drop at blocked))"

definition left_ok :: "string \<Rightarrow> replacementSpan list \<Rightarrow> nat \<Rightarrow> nat \<Rightarrow> bool" where
  "left_ok v blocked at start =
     (if 0 < at \<and> rp_End (blocked ! (at - 1)) = start then \<not> isAlnum (last (rp_Replacement (blocked ! (at - 1))))
      else start = 0 \<or> \<not> isAlnum (v ! (start - 1)))"

definition right_ok :: "string \<Rightarrow> replacementSpan list \<Rightarrow> nat \<Rightarrow> nat \<Rightarrow> bool" where
  "right_ok v blocked at stop =
     (if at < length blocked \<and> rp_Start (blocked ! at) = stop then \<not> isAlnum (hd (rp_Replacement (blocked ! at)))
      else stop = length v \<or> \<not> isAlnum (v ! stop))"

definition user_span :: "nat \<Rightarrow> nat \<Rightarrow> replacementSpan" where
  "user_span a b = \<lparr>rp_Start = a, rp_End = b, rp_Replacement = UserPlaceholder\<rparr>"

text \<open>
  The outer loop. The code enters it only with a user name of two bytes or more, so the case of an
  empty one, which the loop would not leave, does not arise.
\<close>

function user_loop :: "string \<Rightarrow> string \<Rightarrow> replacementSpan list \<Rightarrow> nat \<Rightarrow> nat \<Rightarrow> replacementSpan list" where
  "user_loop v u blocked from at =
     (if u = [] \<or> length v < from + length u then []
      else case str_index u (drop from v) of
             None \<Rightarrow> []
           | Some rel \<Rightarrow>
               let start = from + rel;
                   stop = start + length u;
                   at = skip_ended blocked at start;
                   later = user_loop v u blocked stop at
               in if at < length blocked \<and> rp_Start (blocked ! at) < stop then later
                  else if left_ok v blocked at start \<and> right_ok v blocked at stop
                       then user_span start stop # later
                       else later)"
  by pat_completeness auto
termination
  by (relation "measure (\<lambda>(v, u, blocked, from, at). length v - from)")
     (auto simp: length_greater_0_conv [symmetric] simp del: length_greater_0_conv)

declare user_loop.simps [simp del]

definition pathUserReplacementSpans :: "string \<Rightarrow> string \<Rightarrow> replacementSpan list \<Rightarrow> replacementSpan list \<times> int" where
  "pathUserReplacementSpans v u blocked =
     (if length u < 2 \<or> v = [] \<or> \<not> contains v u then ([], 0)
      else let spans = user_loop v u blocked 0 0 in (spans, int (length spans) * int (length u)))"


lemma skip_ended_spec:
  assumes "at \<le> length blocked" "\<forall>k < at. rp_End (blocked ! k) \<le> start"
  defines "j \<equiv> skip_ended blocked at start"
  shows "at \<le> j" "j \<le> length blocked" "\<And>k. k < j \<Longrightarrow> rp_End (blocked ! k) \<le> start"
    "j < length blocked \<Longrightarrow> start < rp_End (blocked ! j)"
proof -
  let ?w = "takeWhile (\<lambda>b. rp_End b \<le> start) (drop at blocked)"
  have j: "j = at + length ?w" by (simp add: j_def skip_ended_def)
  have len: "length ?w \<le> length blocked - at" using length_takeWhile_le [of _ "drop at blocked"] by simp
  show "at \<le> j" "j \<le> length blocked" using len assms(1) by (auto simp: j)
  show "rp_End (blocked ! k) \<le> start" if "k < j" for k
  proof (cases "k < at")
    case False
    with that len assms(1) have "blocked ! k = ?w ! (k - at)" "k - at < length ?w"
      by (auto simp: j takeWhile_nth)
    then show ?thesis by (metis nth_mem set_takeWhileD)
  qed (use assms(2) in simp)
  show "start < rp_End (blocked ! j)" if "j < length blocked"
    using nth_length_takeWhile [of "\<lambda>b. rp_End b \<le> start" "drop at blocked"] that assms(1) by (auto simp: j not_le)
qed

lemma user_loop_spans:
  assumes "edits_ok 0 (length v) blocked" "at \<le> length blocked" "\<forall>k < at. rp_End (blocked ! k) \<le> from"
    and "s \<in> set (user_loop v u blocked from at)"
  shows "from \<le> rp_Start s \<and> rp_End s = rp_Start s + length u \<and> occurs_at u v (rp_Start s) \<and>
         rp_Replacement s = UserPlaceholder \<and> {rp_Start s ..< rp_End s} \<inter> replaced blocked = {}"
  using assms
proof (induction v u blocked "from" at rule: user_loop.induct)
  case (1 v u blocked "from" at)
  from 1(5) have "\<not> (u = [] \<or> length v < from + length u) \<and> (\<exists>rel. str_index u (drop from v) = Some rel)"
    by (subst (asm) user_loop.simps) (cases "str_index u (drop from v)"; simp split: if_splits)
  then obtain rel where cond: "\<not> (u = [] \<or> length v < from + length u)" and rel: "str_index u (drop from v) = Some rel" by auto
  define start where "start = from + rel"
  define j where "j = skip_ended blocked at start"
  have occ: "occurs_at u v start"
    using cond rel by (auto simp: str_index_Some occurs_at_def start_def add.commute)
  have ended: "\<forall>k < at. rp_End (blocked ! k) \<le> start" using 1(4) start_def by fastforce
  note sk = skip_ended_spec [OF 1(3) ended, folded j_def]
  have inv: "\<forall>k < j. rp_End (blocked ! k) \<le> start + length u" using sk(3) by (meson le_trans le_add1)
  note ih = 1(1) [OF cond rel start_def refl j_def 1(2) sk(2) inv]
  have new: "{start ..< start + length u} \<inter> replaced blocked = {}"
    if no: "\<not> (j < length blocked \<and> rp_Start (blocked ! j) < start + length u)"
  proof -
    have "rp_End b \<le> start \<or> start + length u \<le> rp_Start b" if "b \<in> set blocked" for b
    proof -
      from that obtain k where k: "k < length blocked" "b = blocked ! k" by (auto simp: in_set_conv_nth)
      show ?thesis
      proof (cases "k < j")
        case True
        with sk(3) [OF True] k show ?thesis by simp
      next
        case False
        with k(1) no have "start + length u \<le> rp_Start (blocked ! j)" "j < length blocked" by auto
        moreover have "rp_Start (blocked ! j) \<le> rp_Start (blocked ! k)"
          using edits_ok_starts [OF 1(2), of j k] False k(1) by simp
        ultimately show ?thesis using k by simp
      qed
    qed
    then show ?thesis by (fastforce simp: replaced_def)
  qed
  from 1(5) rel cond have "s = user_span start (start + length u) \<and> \<not> (j < length blocked \<and> rp_Start (blocked ! j) < start + length u)
      \<or> s \<in> set (user_loop v u blocked (start + length u) j)"
    by (subst (asm) user_loop.simps) (auto simp: Let_def start_def [symmetric] j_def [symmetric] split: if_splits)
  then show ?case
  proof (elim disjE conjE)
    assume "s = user_span start (start + length u)"
      "\<not> (j < length blocked \<and> rp_Start (blocked ! j) < start + length u)"
    with new occ show ?case by (simp add: user_span_def start_def)
  next
    assume "s \<in> set (user_loop v u blocked (start + length u) j)"
    with ih show ?case by (auto simp: start_def)
  qed
qed

lemma user_loop_ordered:
  assumes "edits_ok 0 (length v) blocked" "at \<le> length blocked" "\<forall>k < at. rp_End (blocked ! k) \<le> from" "from \<le> length v"
  shows "edits_ok from (length v) (user_loop v u blocked from at)"
  using assms
proof (induction v u blocked "from" at rule: user_loop.induct)
  case (1 v u blocked "from" at)
  show ?case
  proof (cases "u = [] \<or> length v < from + length u \<or> str_index u (drop from v) = None")
    case True
    with 1(5) show ?thesis by (subst user_loop.simps) auto
  next
    case False
    then obtain rel where cond: "\<not> (u = [] \<or> length v < from + length u)" and rel: "str_index u (drop from v) = Some rel" by auto
    define start where "start = from + rel"
    define j where "j = skip_ended blocked at start"
    have "rel + length u \<le> length v - from"
      using rel occurs_at_end [of u "drop from v" rel] by (simp add: str_index_Some)
    with cond have stop: "start + length u \<le> length v" unfolding start_def by linarith
    have ended: "\<forall>k < at. rp_End (blocked ! k) \<le> start" using 1(4) start_def by fastforce
    note sk = skip_ended_spec [OF 1(3) ended, folded j_def]
    have inv: "\<forall>k < j. rp_End (blocked ! k) \<le> start + length u" using sk(3) by (meson le_trans le_add1)
    note ih = 1(1) [OF cond rel start_def refl j_def 1(2) sk(2) inv stop]
    have le: "from \<le> start" "from \<le> start + length u" by (simp_all add: start_def)
    from cond rel edits_ok_le [OF ih le(2)] ih le(1) show ?thesis
      by (subst user_loop.simps) (auto simp: Let_def start_def [symmetric] j_def [symmetric] user_span_def)
  qed
qed

lemma user_spans_sound:
  assumes "edits_ok 0 (length v) blocked" "pathUserReplacementSpans v u blocked = (spans, n)"
  shows "edits_ok 0 (length v) spans" "replaced spans \<inter> replaced blocked = {}"
    "s \<in> set spans \<Longrightarrow> rp_Start s < rp_End s \<and> rp_Replacement s = UserPlaceholder \<and> segment (rp_Start s) (rp_End s) v = u"
    "n = int (length spans) * int (length u)"
proof -
  note snd_ = user_loop_spans [OF assms(1), of 0 0]
  show "edits_ok 0 (length v) spans"
    using assms(2) user_loop_ordered [OF assms(1), of 0 0] by (auto simp: pathUserReplacementSpans_def Let_def split: if_splits)
  show "replaced spans \<inter> replaced blocked = {}"
    using assms(2) snd_ by (fastforce simp: pathUserReplacementSpans_def Let_def replaced_def split: if_splits)
  show "n = int (length spans) * int (length u)"
    using assms(2) by (auto simp: pathUserReplacementSpans_def Let_def split: if_splits)
  show "s \<in> set spans \<Longrightarrow> rp_Start s < rp_End s \<and> rp_Replacement s = UserPlaceholder \<and> segment (rp_Start s) (rp_End s) v = u"
    using assms(2) snd_ [of s u] by (auto simp: pathUserReplacementSpans_def Let_def occurs_at_segment split: if_splits)
qed

section \<open>The rewriter and the placeholder of names\<close>

text \<open>
  The rewriter of values and \<^verbatim>\<open>formats.ApplyUserPlaceholder\<close>, which rewrites names, go
  through a string differently: the rewriter goes on behind an occurrence whether or not it replaced
  it, the other one byte on. For a user name of letters and digits that is the same.
\<close>

definition before :: "string \<Rightarrow> nat \<Rightarrow> char option" where
  "before v i = (if i = 0 then None else Some (v ! (i - 1)))"

definition stands_alone :: "string \<Rightarrow> string \<Rightarrow> nat \<Rightarrow> bool" where
  "stands_alone u v k \<longleftrightarrow> occurs_at u v k \<and> (k = 0 \<or> \<not> isAlnum (v ! (k - 1))) \<and>
     (k + length u = length v \<or> \<not> isAlnum (v ! (k + length u)))"

lemma placeholder_at:
  assumes "i < length v" "u \<noteq> []"
  shows "placeholder_loop u (before v i) (drop i v) =
    (if stands_alone u v i then UserPlaceholder @ placeholder_loop u (Some (last u)) (drop (i + length u) v)
     else v ! i # placeholder_loop u (before v (Suc i)) (drop (Suc i) v))"
proof -
  have d: "drop i v = v ! i # drop (Suc i) v" using assms(1) by (simp add: Cons_nth_drop_Suc)
  have rest: "drop (length u - 1) (drop (Suc i) v) = drop (i + length u) v"
    using assms(2) by (cases u) (simp_all add: add.commute)
  have key: "(prefix u (v ! i # drop (Suc i) v) \<and> (case before v i of None \<Rightarrow> True | Some p \<Rightarrow> \<not> isAlnum p) \<and>
      (drop (i + length u) v = [] \<or> \<not> isAlnum (hd (drop (i + length u) v)))) \<longleftrightarrow> stands_alone u v i"
  proof (cases "occurs_at u v i")
    case True
    from occurs_at_end [OF this] have "drop (i + length u) v = [] \<longleftrightarrow> i + length u = length v" by auto
    moreover have "prefix u (v ! i # drop (Suc i) v)" using True d by (simp add: occurs_at_def)
    moreover have "i + length u \<noteq> length v \<Longrightarrow> hd (drop (i + length u) v) = v ! (i + length u)"
      using occurs_at_end [OF True] by (simp add: hd_drop_conv_nth)
    ultimately show ?thesis using True by (auto simp: stands_alone_def before_def)
  next
    case False
    then show ?thesis using assms(1) d by (simp add: stands_alone_def occurs_at_def)
  qed
  show ?thesis unfolding d by (simp only: placeholder_loop.simps Let_def rest key) (simp add: before_def)
qed

lemma placeholder_copies:
  assumes "i \<le> j" "j \<le> length v" "u \<noteq> []" "\<forall>k. i \<le> k \<and> k < j \<longrightarrow> \<not> stands_alone u v k"
  shows "placeholder_loop u (before v i) (drop i v) = segment i j v @ placeholder_loop u (before v j) (drop j v)"
  using assms
proof (induction "j - i" arbitrary: i)
  case (Suc d)
  then have i: "i < j" "i < length v" by auto
  have "placeholder_loop u (before v (Suc i)) (drop (Suc i) v) = segment (Suc i) j v @ placeholder_loop u (before v j) (drop j v)"
    by (rule Suc.hyps(1)) (use Suc i in auto)
  with placeholder_at [OF i(2) Suc.prems(3)] Suc.prems(4) i segment_Cons [OF i(1) Suc.prems(2)] show ?case by simp
qed (simp add: le_antisym)

lemma user_loop_placeholder:
  assumes "u \<noteq> []" "list_all isAlnum u" "from \<le> length v"
  shows "apply_from from (user_loop v u [] from 0) v = Some (placeholder_loop u (before v from) (drop from v))"
  using assms(3)
proof (induction "length v - from" arbitrary: "from" rule: less_induct)
  case less
  have shift: "occurs_at u (drop from v) (k - from)" if "from \<le> k" "occurs_at u v k" for k
    using that by (auto simp: occurs_at_def)
  show ?case
  proof (cases "length v < from + length u \<or> str_index u (drop from v) = None")
    case True
    have "\<not> stands_alone u v k" if "from \<le> k" "k < length v" for k
    proof
      assume "stands_alone u v k"
      then have o: "occurs_at u v k" by (simp add: stands_alone_def)
      with True that occurs_at_end [OF o] shift [OF that(1) o] show False by (auto simp: str_index_None)
    qed
    then have "placeholder_loop u (before v from) (drop from v) = segment from (length v) v"
      using placeholder_copies [OF less.prems order_refl assms(1)] by simp
    with True less.prems assms(1) show ?thesis by (subst user_loop.simps) (auto simp: go_slice_def)
  next
    case False
    then obtain rel where rel: "str_index u (drop from v) = Some rel" by auto
    define start where "start = from + rel"
    from rel have found: "occurs_at u (drop from v) rel" "\<forall>j < rel. \<not> occurs_at u (drop from v) j"
      unfolding str_index_Some by blast+
    from found(1) less.prems have occ: "occurs_at u v start"
      by (auto simp: occurs_at_def start_def add.commute)
    have none: "\<not> occurs_at u v k" if "from \<le> k" "k < start" for k
    proof
      assume "occurs_at u v k"
      with found(2) shift [OF that(1) this] that show False by (auto simp: start_def)
    qed
    note stop = occurs_at_end [OF occ]
    have "0 < length u" using assms(1) by simp
    with stop have below: "start < length v" by linarith
    have up: "placeholder_loop u (before v from) (drop from v) = segment from start v @ placeholder_loop u (before v start) (drop start v)"
      by (rule placeholder_copies) (use none stop assms(1) in \<open>auto simp: start_def stands_alone_def\<close>)
    have chars: "v ! (start + k) = u ! k" if "k < length u" for k
      using occ stop that segment_nth [of k "start + length u" start v] by (simp add: occurs_at_segment)
    have last: "before v (start + length u) = Some (last u)"
      using assms(1) chars [of "length u - 1"] Nat.add_diff_assoc [of 1 "length u" start]
      by (simp add: before_def last_conv_nth Suc_le_eq)
    have ih: "apply_from (start + length u) (user_loop v u [] (start + length u) 0) v
        = Some (placeholder_loop u (Some (last u)) (drop (start + length u) v))"
    proof -
      have "0 < length u" using assms(1) by simp
      then have "length v - (start + length u) < length v - from" using stop unfolding start_def by linarith
      from less.hyps [OF this stop] last show ?thesis by simp
    qed
    have unfold: "user_loop v u [] from 0 =
        (if stands_alone u v start then user_span start (start + length u) # user_loop v u [] (start + length u) 0
         else user_loop v u [] (start + length u) 0)"
      using False rel assms(1) occ
      by (subst user_loop.simps) (auto simp: Let_def skip_ended_def start_def [symmetric] left_ok_def right_ok_def stands_alone_def)
    show ?thesis
    proof (cases "stands_alone u v start")
      case True
      with up placeholder_at [OF below assms(1)] ih stop show ?thesis
        unfolding unfold by (simp add: user_span_def go_slice_def start_def)
    next
      case no: False
      have "\<not> stands_alone u v k" if "start \<le> k" "k < start + length u" for k
      proof (cases "k = start")
        case False
        with that have "v ! (k - 1) = u ! (k - 1 - start)" "k - 1 - start < length u"
          using chars [of "k - 1 - start"] by auto
        with assms(2) False that show ?thesis by (auto simp: stands_alone_def list_all_length)
      qed (use no in simp)
      then have "placeholder_loop u (before v start) (drop start v)
          = segment start (start + length u) v @ placeholder_loop u (Some (last u)) (drop (start + length u) v)"
        using placeholder_copies [of start "start + length u" v u] stop assms(1) last by simp
      with up no apply_from_skip [OF _ ih] stop show ?thesis
        unfolding unfold by (simp add: start_def segment_append)
    qed
  qed
qed


text \<open>
  The value rewriter and the name rewriter agree. For a user name of letters and digits,
  rewriting a value no detector touched gives what \<^verbatim>\<open>ApplyUserPlaceholder\<close> gives.
\<close>

theorem user_rewrite_is_placeholder:
  assumes "list_all isAlnum u"
  shows "plan_apply \<lparr>vp_spans = fst (pathUserReplacementSpans v u []), vp_redacted = n, vp_hits = h\<rparr> v
         = Some (ApplyUserPlaceholder v u)"
proof (cases "length u < 2 \<or> v = []")
  case True
  then show ?thesis by (auto simp: plan_apply_def pathUserReplacementSpans_def ApplyUserPlaceholder_def)
next
  case False
  then have u: "u \<noteq> []" by auto
  have none: "user_loop v u [] 0 0 = []" if "\<not> contains v u"
    using that by (subst user_loop.simps) (auto simp: contains_def)
  have "apply_from 0 (user_loop v u [] 0 0) v = Some (placeholder_loop u None v)"
    using user_loop_placeholder [OF u assms, of 0 v] by (simp add: before_def)
  with False none show ?thesis
    by (auto simp: plan_apply_def pathUserReplacementSpans_def ApplyUserPlaceholder_def Let_def go_slice_def)
qed

theorem user_rewrite_is_placeholder_witness:
  "plan_apply \<lparr>vp_spans = fst (pathUserReplacementSpans ''/home/jo/jojo/jo'' ''jo'' []), vp_redacted = 4, vp_hits = []\<rparr> ''/home/jo/jojo/jo''
     = Some ''/home/__USER__/jojo/__USER__''"
proof -
  have "ApplyUserPlaceholder ''/home/jo/jojo/jo'' ''jo'' = ''/home/__USER__/jojo/__USER__''" by code_simp
  with user_rewrite_is_placeholder [of "''jo''" "''/home/jo/jojo/jo''" 4 "[]"] show ?thesis
    by (simp add: isAlnum_def is_lower_def)
qed

text \<open>
  For other user names it is not: an occurrence that begins inside one the rewriter passed over is
  left in the value, while the name rewriter finds it.
\<close>

lemma user_rewrite_misses:
  "plan_apply \<lparr>vp_spans = fst (pathUserReplacementSpans ''xa-a-a'' ''a-a'' []), vp_redacted = 0, vp_hits = []\<rparr> ''xa-a-a'' = Some ''xa-a-a''"
  "ApplyUserPlaceholder ''xa-a-a'' ''a-a'' = ''xa-__USER__''"
  by code_simp+

section \<open>Plans of several rewriters\<close>

definition apart :: "replacementSpan \<Rightarrow> replacementSpan \<Rightarrow> bool" where
  "apart a b \<longleftrightarrow> rp_End a \<le> rp_Start b \<or> rp_End b \<le> rp_Start a"

lemma edits_ok_iff:
  "edits_ok 0 n ss \<longleftrightarrow> sorted_wrt (\<lambda>a b. rp_End a \<le> rp_Start b) ss \<and> (\<forall>s \<in> set ss. rp_Start s \<le> rp_End s \<and> rp_End s \<le> n)"
proof -
  have "edits_ok c n ss \<longleftrightarrow> sorted_wrt (\<lambda>a b. rp_End a \<le> rp_Start b) ss \<and> c \<le> n \<and>
      (\<forall>s \<in> set ss. c \<le> rp_Start s \<and> rp_Start s \<le> rp_End s \<and> rp_End s \<le> n)" for c
  proof (induction ss arbitrary: c)
    case (Cons s ss)
    then show ?case by (auto dest: le_trans)
  qed simp
  then show ?thesis by simp
qed

lemma apart_in_order: "sorted_wrt (\<lambda>a b. rp_End a \<le> rp_Start b) ss \<Longrightarrow> sorted_wrt apart ss"
  by (induction ss) (auto simp: apart_def)

lemma sorted_wrt_and: "sorted_wrt P ss \<Longrightarrow> sorted_wrt Q ss \<Longrightarrow> sorted_wrt (\<lambda>a b. P a b \<and> Q a b) ss"
  by (induction ss) auto

lemma sort_apart:
  assumes "\<forall>s \<in> set ss. rp_Start s < rp_End s" "sorted_wrt apart ss"
  shows "sorted_wrt (\<lambda>a b. rp_End a \<le> rp_Start b) (sort_key rp_Start ss)"
proof -
  have "sorted_wrt apart (insort_key rp_Start s ts)" if "sorted_wrt apart ts" "\<forall>t \<in> set ts. apart s t" for s ts
    using that by (induction ts) (auto simp: apart_def set_insort_key)
  then have "sorted_wrt apart (sort_key rp_Start ss)"
    using assms(2) by (induction ss) auto
  moreover have "sorted_wrt (\<lambda>a b. rp_Start a \<le> rp_Start b) (sort_key rp_Start ss)"
    using sorted_sort_key [of rp_Start ss] by (simp add: sorted_map)
  ultimately have "sorted_wrt (\<lambda>a b. apart a b \<and> rp_Start a \<le> rp_Start b) (sort_key rp_Start ss)"
    using sorted_wrt_and by blast
  then show ?thesis
    by (rule sorted_wrt_mono_rel [rotated]) (use assms(1) in \<open>auto simp: apart_def\<close>)
qed

lemma edits_merge:
  assumes "edits_ok 0 n as" "edits_ok 0 n bs" "replaced as \<inter> replaced bs = {}"
    and "\<forall>s \<in> set as \<union> set bs. rp_Start s < rp_End s"
  shows "edits_ok 0 n (sort_key rp_Start (as @ bs))"
proof -
  have "apart a b" if "a \<in> set as" "b \<in> set bs" for a b
  proof (rule ccontr)
    assume "\<not> apart a b"
    then have "max (rp_Start a) (rp_Start b) \<in> {rp_Start a ..< rp_End a} \<inter> {rp_Start b ..< rp_End b}"
      using assms(4) that by (auto simp: apart_def)
    with that have "max (rp_Start a) (rp_Start b) \<in> replaced as \<inter> replaced bs" unfolding replaced_def by blast
    with assms(3) show False by simp
  qed
  moreover have "sorted_wrt apart as" "sorted_wrt apart bs"
    using assms(1,2) apart_in_order unfolding edits_ok_iff by blast+
  ultimately have "sorted_wrt apart (as @ bs)" by (simp add: sorted_wrt_append)
  from sort_apart [OF _ this] assms show ?thesis by (auto simp: edits_ok_iff)
qed

end
