(* ===== verification/Escapes.thy ===== *)
theory Escapes
  imports Bitset Go_Runes Redaction_Plan
begin

text \<open>
  The escape index of \<^verbatim>\<open>src/internal/transforms/scrub.go\<close>: a value that is itself encoded
  JSON is also scanned with its escapes blanked (\<^verbatim>\<open>escapeShadow\<close>), and a span found in
  either reading is widened so that it never splits an escape (\<^verbatim>\<open>snap\<close>). A redaction that
  ate the backslash of an escaped quote would turn it into a closing one.
\<close>

section \<open>One escape\<close>

definition backslash :: char where "backslash = CHR 0x5C"

definition hex_value :: "char \<Rightarrow> nat option" where
  "hex_value c =
     (if is_digit c then Some (byte c - 48)
      else if CHR ''a'' \<le> c \<and> c \<le> CHR ''f'' then Some (byte c - 87)
      else if CHR ''A'' \<le> c \<and> c \<le> CHR ''F'' then Some (byte c - 55)
      else None)"

text \<open>\<^verbatim>\<open>hex4\<close>: four hex digits, the value of the code unit they spell.\<close>

fun hex_digits :: "string \<Rightarrow> nat \<Rightarrow> nat option" where
  "hex_digits [] acc = Some acc"
| "hex_digits (c # cs) acc = (case hex_value c of None \<Rightarrow> None | Some d \<Rightarrow> hex_digits cs (acc * 16 + d))"

definition hex4 :: "string \<Rightarrow> nat \<Rightarrow> nat option" where
  "hex4 s at = (if at + 4 > length s then None else hex_digits (segment at (at + 4) s) 0)"

text \<open>The length of the escape at an index and the byte its shadow keeps; length 0 when there is none.\<close>

definition escapeAt :: "string \<Rightarrow> nat \<Rightarrow> nat \<times> char" where
  "escapeAt s i =
     (if s ! i \<noteq> backslash \<or> i + 1 \<ge> length s then (0, CHR 0x00)
      else let c = s ! (i + 1) in
        if c = CHR ''n'' then (2, CHR 0x0A)
        else if c = CHR ''t'' then (2, CHR 0x09)
        else if c = CHR ''r'' then (2, CHR 0x0D)
        else if c = CHR 0x22 \<or> c = CHR ''/'' \<or> c = backslash then (2, c)
        else if c = CHR ''u''
        then (case hex4 s (i + 2) of
                None \<Rightarrow> (0, CHR 0x00)
              | Some r \<Rightarrow>
                  (if r < 0x80 \<and> \<not> isAlnum (char_of r) \<and> r \<noteq> 0x5F \<and> r \<noteq> 0x5C \<and> r > 0x20
                   then (6, char_of r) else (6, CHR '' '')))
        else (0, CHR 0x00))"

lemma escapeAt_bounds:
  assumes "escapeAt s i = (n, c)" "n \<noteq> 0" "i < length s"
  shows "2 \<le> n" "i + n \<le> length s" "s ! i = backslash"
    "c = backslash \<longleftrightarrow> n = 2 \<and> s ! (i + 1) = backslash"
proof -
  have b: "CHR 0x0A \<noteq> backslash" "CHR 0x09 \<noteq> backslash" "CHR 0x0D \<noteq> backslash" "CHR 0x22 \<noteq> backslash"
      "CHR ''/'' \<noteq> backslash" "CHR '' '' \<noteq> backslash" "backslash \<noteq> CHR ''n''" "backslash \<noteq> CHR ''t''"
      "backslash \<noteq> CHR ''r''" "backslash \<noteq> CHR ''u''"
    by (simp_all add: backslash_def)
  have r: "char_of r \<noteq> backslash" if "r < 0x80" "r \<noteq> 0x5C" for r :: nat
  proof
    assume "char_of r = backslash"
    then have "of_char (char_of r :: char) = (of_char backslash :: nat)" by simp
    with that show False by (simp add: backslash_def)
  qed
  show "2 \<le> n" "i + n \<le> length s" "s ! i = backslash" "c = backslash \<longleftrightarrow> n = 2 \<and> s ! (i + 1) = backslash"
    using assms b by (auto simp: escapeAt_def Let_def hex4_def dest: r split: if_splits option.splits)
qed

text \<open>An escape is read from the bytes at its index on only.\<close>

lemma escapeAt_drop: "i < length s \<Longrightarrow> escapeAt s i = escapeAt (drop i s) 0"
  by (simp add: escapeAt_def hex4_def segment_def nth_drop Let_def add.commute) (auto simp: less_diff_conv add.commute)


section \<open>Blanking the escapes\<close>

record escScan =
  es_shadow :: string
  es_splits :: "64 word list"
  es_starts :: "64 word list"
  es_ends :: "64 word list"
  es_again :: bool

definition blank_escape :: "escScan \<Rightarrow> nat \<Rightarrow> nat \<Rightarrow> char \<Rightarrow> escScan" where
  "blank_escape st i n c =
     \<lparr>es_shadow = (foldl (\<lambda>s j. s[j := CHR '' '']) (es_shadow st) [i ..< i + n - 1])[i + n - 1 := c],
      es_splits = foldl setBit (es_splits st) [i + 1 ..< i + n],
      es_starts = setBit (es_starts st) i,
      es_ends = setBit (es_ends st) (i + n),
      es_again = (es_again st \<or> c = backslash)\<rparr>"

lemma blank_range:
  "i + m \<le> length s \<Longrightarrow>
   foldl (\<lambda>s j. s[j := CHR '' '']) s [i ..< i + m] = take i s @ replicate m (CHR '' '') @ drop (i + m) s"
proof (induction m)
  case (Suc m)
  then have "drop (i + m) s = s ! (i + m) # drop (Suc (i + m)) s" by (simp add: Cons_nth_drop_Suc)
  with Suc show ?case by (simp add: list_update_append replicate_append_same)
qed simp

lemma blank_shadow:
  assumes "i + n \<le> length (es_shadow st)" "2 \<le> n"
  shows "es_shadow (blank_escape st i n c) =
         take i (es_shadow st) @ replicate (n - 1) (CHR '' '') @ c # drop (i + n) (es_shadow st)"
proof -
  from assms(2) obtain m where m: "n = Suc m" by (cases n) auto
  with assms(1) have "drop (i + m) (es_shadow st) = es_shadow st ! (i + m) # drop (Suc (i + m)) (es_shadow st)"
    using Cons_nth_drop_Suc [of "i + m" "es_shadow st"] by simp
  with blank_range [of i m "es_shadow st"] assms(1) m show ?thesis
    by (simp add: blank_escape_def list_update_append)
qed

function escape_pass :: "escScan \<Rightarrow> nat \<Rightarrow> escScan" where
  "escape_pass st i =
     (if i + 1 < length (es_shadow st)
      then (case escapeAt (es_shadow st) i of
              (n, c) \<Rightarrow> if n = 0 then escape_pass st (i + 1) else escape_pass (blank_escape st i n c) (i + n))
      else st)"
  by pat_completeness auto

lemma length_blank [simp]: "length (es_shadow (blank_escape st i n c)) = length (es_shadow st)"
proof -
  have "length (foldl (\<lambda>s j. s[j := CHR '' '']) s js) = length s" for s js
    by (induction js arbitrary: s) auto
  then show ?thesis by (simp add: blank_escape_def)
qed

termination escape_pass
  by (relation "measure (\<lambda>(st, i). length (es_shadow st) - i)") auto

declare escape_pass.simps [simp del]

text \<open>The escapes of a string, each with its length, as one pass finds them.\<close>

function escapes_from :: "string \<Rightarrow> nat \<Rightarrow> (nat \<times> nat) list" where
  "escapes_from s i =
     (if i + 1 < length s
      then (case escapeAt s i of
              (n, c) \<Rightarrow> if n = 0 then escapes_from s (i + 1) else (i, n) # escapes_from s (i + n))
      else [])"
  by pat_completeness auto
termination
  by (relation "measure (\<lambda>(s, i). length s - i)") auto

declare escapes_from.simps [simp del]

definition backslashes :: "string \<Rightarrow> nat" where
  "backslashes s = length (filter (\<lambda>c. c = backslash) s)"

lemma blank_fewer:
  assumes "escapeAt (es_shadow st) i = (n, c)" "n \<noteq> 0" "i < length (es_shadow st)"
  shows "backslashes (es_shadow (blank_escape st i n c)) < backslashes (es_shadow st)"
proof -
  let ?s = "es_shadow st"
  note b = escapeAt_bounds [OF assms]
  have split: "?s = take i ?s @ segment i (i + n) ?s @ drop (i + n) ?s"
  proof -
    have "drop i ?s = take n (drop i ?s) @ drop n (drop i ?s)" by (simp only: append_take_drop_id)
    then have "drop i ?s = segment i (i + n) ?s @ drop (i + n) ?s" by (simp add: segment_def add.commute)
    then show ?thesis by (metis append_take_drop_id)
  qed
  have seg: "segment i (i + n) ?s = backslash # segment (Suc i) (i + n) ?s"
    using segment_Cons [of i "i + n" ?s] b by simp
  have "c = backslash \<Longrightarrow> segment (Suc i) (i + n) ?s = [backslash]"
    using b segment_Cons [of "Suc i" "i + n" ?s] by simp
  then have "(if c = backslash then 1 else 0) < backslashes (segment i (i + n) ?s)"
    unfolding seg by (simp add: backslashes_def)
  moreover have "CHR '' '' \<noteq> backslash" by (simp add: backslash_def)
  then have "backslashes (es_shadow (blank_escape st i n c))
      = backslashes (take i ?s) + (if c = backslash then 1 else 0) + backslashes (drop (i + n) ?s)"
    unfolding blank_shadow [OF b(2,1)] by (simp add: backslashes_def filter_replicate)
  moreover have "backslashes ?s = backslashes (take i ?s) + backslashes (segment i (i + n) ?s) + backslashes (drop (i + n) ?s)"
    by (subst split) (simp add: backslashes_def)
  ultimately show ?thesis by linarith
qed

lemma escape_pass_fewer:
  "backslashes (es_shadow (escape_pass st i)) \<le> backslashes (es_shadow st) \<and>
   (es_again (escape_pass st i) \<longrightarrow> es_again st \<or> backslashes (es_shadow (escape_pass st i)) < backslashes (es_shadow st)) \<and>
   length (es_shadow (escape_pass st i)) = length (es_shadow st)"
proof (induction st i rule: escape_pass.induct)
  case (1 st i)
  show ?case
  proof (cases "i + 1 < length (es_shadow st)")
    case True
    obtain n c where e: "escapeAt (es_shadow st) i = (n, c)" by (rule prod.exhaust)
    show ?thesis
    proof (cases "n = 0")
      case n: True
      with 1(1) [OF True e [symmetric]] True e show ?thesis by (subst (1 2 3 4) escape_pass.simps) simp
    next
      case n: False
      from blank_fewer [OF e n] True 1(2) [OF True e [symmetric] n] e n show ?thesis
        by (subst (1 2 3 4) escape_pass.simps) auto
    qed
  next
    case False
    then show ?thesis by (subst (1 2 3 4) escape_pass.simps) simp
  qed
qed

text \<open>A pass is repeated, from the start, as long as it left a backslash behind.\<close>

function escape_passes :: "escScan \<Rightarrow> nat \<Rightarrow> escScan" where
  "escape_passes st i =
     (let st' = escape_pass (st\<lparr>es_again := False\<rparr>) i in if es_again st' then escape_passes st' 0 else st')"
  by pat_completeness auto
termination
  by (relation "measure (\<lambda>(st, i). backslashes (es_shadow st))") (use escape_pass_fewer in \<open>fastforce+\<close>)

declare escape_passes.simps [simp del]

text \<open>The first index an escape is at.\<close>

function first_escape :: "string \<Rightarrow> nat \<Rightarrow> nat option" where
  "first_escape s at =
     (case index_byte backslash (drop at s) of
        None \<Rightarrow> None
      | Some rel \<Rightarrow> if fst (escapeAt s (at + rel)) > 0 then Some (at + rel) else first_escape s (at + rel + 1))"
  by pat_completeness auto
termination
  by (relation "measure (\<lambda>(s, at). length s - at)") (auto simp: index_byte_Some)

declare first_escape.simps [simp del]

text \<open>The index of \<^verbatim>\<open>escapeIndex\<close> is nil when there is no escape.\<close>

definition escapeShadow :: "string \<Rightarrow> string \<times> 64 word list option" where
  "escapeShadow v =
     (case first_escape v 0 of
        None \<Rightarrow> ([], None)
      | Some i \<Rightarrow>
          let empty = newBitset (length v);
              st = escape_passes \<lparr>es_shadow = v, es_splits = empty, es_starts = empty, es_ends = empty, es_again = False\<rparr> i
          in (es_shadow st, Some (or_and (es_splits st) (es_starts st) (es_ends st))))"


section \<open>Widening a span\<close>

primrec snap_left :: "64 word list \<Rightarrow> nat \<Rightarrow> nat" where
  "snap_left b 0 = 0"
| "snap_left b (Suc k) = (if hasBit b (Suc k) then snap_left b k else Suc k)"

function snap_right :: "64 word list \<Rightarrow> nat \<Rightarrow> nat" where
  "snap_right b k = (if hasBit b k then snap_right b (k + 1) else k)"
  by pat_completeness auto
termination
proof (relation "measure (\<lambda>(b, k). 64 * length b - k)")
  fix b k assume "hasBit b k"
  then have "k < 64 * length b" by (auto simp: hasBit_iff less_mult_imp_div_less div_less_iff_less_mult mult.commute)
  then show "((b, k + 1), b, k) \<in> measure (\<lambda>(b, k). 64 * length b - k)" by simp
qed simp

declare snap_right.simps [simp del]

definition snap :: "64 word list option \<Rightarrow> nat \<Rightarrow> nat \<Rightarrow> nat \<times> nat" where
  "snap x a e = (let b = (case x of None \<Rightarrow> [] | Some b \<Rightarrow> b) in (snap_left b a, snap_right b e))"

definition snap_span :: "64 word list option \<Rightarrow> Span \<Rightarrow> Span" where
  "snap_span x s = (case snap x (sp_Start s) (sp_End s) of (a, e) \<Rightarrow> s\<lparr>sp_Start := a, sp_End := e\<rparr>)"

definition snapAll :: "64 word list option \<Rightarrow> Span list \<Rightarrow> Span list" where
  "snapAll x spans = map (snap_span x) spans"

lemma snap_left_spec: "snap_left b k \<le> k \<and> (snap_left b k = 0 \<or> \<not> hasBit b (snap_left b k)) \<and>
    (\<forall>j. snap_left b k < j \<and> j \<le> k \<longrightarrow> hasBit b j)"
  by (induction k) (auto simp: le_Suc_eq)

lemma snap_right_spec: "k \<le> snap_right b k \<and> \<not> hasBit b (snap_right b k) \<and> (\<forall>j. k \<le> j \<and> j < snap_right b k \<longrightarrow> hasBit b j)"
proof (induction b k rule: snap_right.induct)
  case (1 b k)
  show ?case
  proof (cases "hasBit b k")
    case True
    have "hasBit b j" if "k \<le> j" "j < snap_right b (k + 1)" for j
      using that 1(1) [OF True] True by (cases "j = k") auto
    with 1(1) [OF True] True show ?thesis unfolding snap_right.simps [of b k] by auto
  next
    case False
    then show ?thesis unfolding snap_right.simps [of b k] by auto
  qed
qed

section \<open>What the index holds\<close>

lemma escapes_from_bounds:
  "(j, n) \<in> set (escapes_from s i) \<Longrightarrow> i \<le> j \<and> 2 \<le> n \<and> j + n \<le> length s \<and> s ! j = backslash"
proof (induction s i rule: escapes_from.induct)
  case (1 s i)
  from 1(3) have i: "i + 1 < length s" by (cases "i + 1 < length s") (simp_all add: escapes_from.simps [of s i])
  obtain m c where e: "escapeAt s i = (m, c)" by (rule prod.exhaust)
  show ?case
  proof (cases "m = 0")
    case True
    with 1(3) i e have "(j, n) \<in> set (escapes_from s (i + 1))" unfolding escapes_from.simps [of s i] by simp
    from 1(1) [OF i e [symmetric] True this] show ?thesis by simp
  next
    case False
    note b = escapeAt_bounds [OF e False]
    from 1(3) i e False have "(j, n) = (i, m) \<or> (j, n) \<in> set (escapes_from s (i + m))"
      unfolding escapes_from.simps [of s i] by auto
    then show ?thesis using 1(2) [OF i e [symmetric] False] b i by auto
  qed
qed

definition sized :: "nat \<Rightarrow> escScan \<Rightarrow> bool" where
  "sized n st \<longleftrightarrow> length (es_shadow st) = n \<and> length (es_splits st) = n div 64 + 1 \<and>
     length (es_starts st) = n div 64 + 1 \<and> length (es_ends st) = n div 64 + 1"

lemma sized_fits: "sized n st \<Longrightarrow> k \<le> n \<Longrightarrow> fits (es_splits st) k \<and> fits (es_starts st) k \<and> fits (es_ends st) k"
  by (simp add: sized_def fits_def div_le_mono less_Suc_eq_le)

lemma sized_blank: "sized m st \<Longrightarrow> sized m (blank_escape st i n c)"
  by (simp add: sized_def) (simp add: blank_escape_def)

lemma sized_again [simp]: "sized m (st\<lparr>es_again := g\<rparr>) = sized m st"
  by (simp add: sized_def)

lemma blank_bits:
  assumes "sized m st" "i + n \<le> m"
  shows "hasBit (es_splits (blank_escape st i n c)) k \<longleftrightarrow> i < k \<and> k < i + n \<or> hasBit (es_splits st) k"
    "hasBit (es_starts (blank_escape st i n c)) k \<longleftrightarrow> k = i \<or> hasBit (es_starts st) k"
    "hasBit (es_ends (blank_escape st i n c)) k \<longleftrightarrow> k = i + n \<or> hasBit (es_ends st) k"
proof -
  have room: "fits (es_splits st) j \<and> fits (es_starts st) j \<and> fits (es_ends st) j" if "j \<le> i + n" for j
    using sized_fits [OF assms(1)] that assms(2) by simp
  then have "hasBit (foldl setBit (es_splits st) [i + 1 ..< i + n]) k \<longleftrightarrow> k \<in> set [i + 1 ..< i + n] \<or> hasBit (es_splits st) k"
    by (intro words.has_puts) simp
  then show "hasBit (es_splits (blank_escape st i n c)) k \<longleftrightarrow> i < k \<and> k < i + n \<or> hasBit (es_splits st) k"
    by (auto simp: blank_escape_def)
  show "hasBit (es_starts (blank_escape st i n c)) k \<longleftrightarrow> k = i \<or> hasBit (es_starts st) k"
    "hasBit (es_ends (blank_escape st i n c)) k \<longleftrightarrow> k = i + n \<or> hasBit (es_ends st) k"
    using room by (simp_all add: blank_escape_def)
qed

text \<open>One pass adds to the index the escapes of the string it starts on.\<close>

definition adds_escapes :: "nat \<Rightarrow> (nat \<times> nat) list \<Rightarrow> escScan \<Rightarrow> escScan \<Rightarrow> bool" where
  "adds_escapes m es st st' \<longleftrightarrow> sized m st' \<and>
     (\<forall>k. (hasBit (es_splits st') k \<longleftrightarrow> hasBit (es_splits st) k \<or> (\<exists>(j, n) \<in> set es. j < k \<and> k < j + n)) \<and>
          (hasBit (es_starts st') k \<longleftrightarrow> hasBit (es_starts st) k \<or> (\<exists>(j, n) \<in> set es. k = j)) \<and>
          (hasBit (es_ends st') k \<longleftrightarrow> hasBit (es_ends st) k \<or> (\<exists>(j, n) \<in> set es. k = j + n)))"

lemma adds_Nil: "sized m st \<Longrightarrow> adds_escapes m [] st st"
  by (simp add: adds_escapes_def)

lemma adds_Cons:
  assumes "sized m st" "i + n \<le> m" "adds_escapes m es (blank_escape st i n c) st'"
  shows "adds_escapes m ((i, n) # es) st st'"
  using assms(3) unfolding adds_escapes_def blank_bits [OF assms(1,2)] by auto

lemma escape_pass_adds:
  assumes "sized (length v) st" "drop i (es_shadow st) = drop i v"
  shows "adds_escapes (length v) (escapes_from v i) st (escape_pass st i)"
  using assms
proof (induction st i rule: escape_pass.induct)
  case (1 st i)
  have len: "length (es_shadow st) = length v" using 1(3) by (simp add: sized_def)
  show ?case
  proof (cases "i + 1 < length (es_shadow st)")
    case True
    obtain n c where e: "escapeAt (es_shadow st) i = (n, c)" by (rule prod.exhaust)
    have ev: "escapeAt v i = (n, c)" using e escapeAt_drop [of i v] escapeAt_drop [of i "es_shadow st"] True len 1(4) by simp
    show ?thesis
    proof (cases "n = 0")
      case n: True
      have "drop (i + 1) (es_shadow st) = drop (i + 1) v" using 1(4) by (metis drop_drop add.commute)
      from 1(1) [OF True e [symmetric] n 1(3) this] show ?thesis
        using True e ev n len by (subst escapes_from.simps, subst escape_pass.simps) simp
    next
      case n: False
      note b = escapeAt_bounds [OF e n]
      from b True have bound: "i + n \<le> length (es_shadow st)" "2 \<le> n" by auto
      have "drop (i + n) (es_shadow st) = drop (i + n) v" using 1(4) by (metis drop_drop add.commute)
      then have "drop (i + n) (es_shadow (blank_escape st i n c)) = drop (i + n) v"
        unfolding blank_shadow [OF bound] using bound by simp
      note later = 1(2) [OF True e [symmetric] n sized_blank [OF 1(3)] this]
      have "adds_escapes (length v) ((i, n) # escapes_from v (i + n)) st (escape_pass (blank_escape st i n c) (i + n))"
        by (rule adds_Cons [OF 1(3) _ later]) (use bound len in simp)
      then show ?thesis using True e ev n len by (subst escapes_from.simps, subst escape_pass.simps) simp
    qed
  next
    case False
    then show ?thesis using adds_Nil [OF 1(3)] len by (subst escapes_from.simps, subst escape_pass.simps) simp
  qed
qed

text \<open>What the bits of an index can be: boundaries strictly inside the value.\<close>

definition bits_inside :: "nat \<Rightarrow> escScan \<Rightarrow> bool" where
  "bits_inside m st \<longleftrightarrow> sized m st \<and> (\<forall>k. (hasBit (es_splits st) k \<longrightarrow> 0 < k \<and> k < m) \<and>
     (hasBit (es_starts st) k \<longrightarrow> k < m) \<and> (hasBit (es_ends st) k \<longrightarrow> 0 < k))"

definition more_bits :: "escScan \<Rightarrow> escScan \<Rightarrow> bool" where
  "more_bits st st' \<longleftrightarrow> (\<forall>k. (hasBit (es_splits st) k \<longrightarrow> hasBit (es_splits st') k) \<and>
     (hasBit (es_starts st) k \<longrightarrow> hasBit (es_starts st') k) \<and> (hasBit (es_ends st) k \<longrightarrow> hasBit (es_ends st') k))"

lemma adds_bits:
  assumes "adds_escapes (length v) (escapes_from v i) st st'" "bits_inside (length v) st"
  shows "bits_inside (length v) st' \<and> more_bits st st'"
  using assms escapes_from_bounds [of _ _ v i] unfolding adds_escapes_def bits_inside_def more_bits_def
  by (fastforce simp del: bitset_simps)

lemma escape_pass_inside:
  assumes "bits_inside m st"
  shows "bits_inside m (escape_pass (st\<lparr>es_again := g\<rparr>) i) \<and> more_bits st (escape_pass (st\<lparr>es_again := g\<rparr>) i)"
proof -
  let ?st = "st\<lparr>es_again := g\<rparr>"
  have b: "bits_inside m ?st" "more_bits st ?st" "length (es_shadow ?st) = m"
    using assms by (auto simp: bits_inside_def more_bits_def sized_def)
  then have "adds_escapes m (escapes_from (es_shadow ?st) i) ?st (escape_pass ?st i)"
    using escape_pass_adds [of "es_shadow ?st" ?st i] by (simp add: bits_inside_def)
  with adds_bits [of "es_shadow ?st" i ?st "escape_pass ?st i"] b show ?thesis by (auto simp: more_bits_def)
qed

lemma escape_passes_inside:
  assumes "bits_inside m st"
  shows "bits_inside m (escape_passes st i) \<and> more_bits (escape_pass (st\<lparr>es_again := False\<rparr>) i) (escape_passes st i)"
  using assms
proof (induction st i rule: escape_passes.induct)
  case (1 st i)
  define st' where "st' = escape_pass (st\<lparr>es_again := False\<rparr>) i"
  have in': "bits_inside m st'" using escape_pass_inside [OF 1(2)] by (simp add: st'_def)
  have unf: "escape_passes st i = (if es_again st' then escape_passes st' 0 else st')"
    by (subst escape_passes.simps) (simp add: Let_def st'_def)
  show ?case
  proof (cases "es_again st'")
    case True
    from 1(1) [OF st'_def True in'] escape_pass_inside [OF in', of False 0] True show ?thesis
      unfolding unf st'_def [symmetric] by (auto simp: more_bits_def)
  next
    case False
    with in' show ?thesis unfolding unf st'_def [symmetric] by (simp add: more_bits_def)
  qed
qed

lemma escape_passes_length: "length (es_shadow (escape_passes st i)) = length (es_shadow st)"
proof (induction st i rule: escape_passes.induct)
  case (1 st i)
  then show ?case using escape_pass_fewer [of "st\<lparr>es_again := False\<rparr>" i]
    by (subst escape_passes.simps) (auto simp: Let_def)
qed

lemma escapes_from_skip:
  "at \<le> i \<Longrightarrow> (\<forall>k. at \<le> k \<and> k < i \<longrightarrow> fst (escapeAt v k) = 0) \<Longrightarrow> escapes_from v at = escapes_from v i"
proof (induction "i - at" arbitrary: at)
  case (Suc d)
  then have ih: "escapes_from v (at + 1) = escapes_from v i" by simp
  show ?case
  proof (cases "at + 1 < length v")
    case True
    obtain n c where e: "escapeAt v at = (n, c)" by (rule prod.exhaust)
    moreover have "n = 0" using Suc.prems(2) Suc.hyps(2) e by (metis fst_conv order_refl zero_less_Suc zero_less_diff)
    ultimately show ?thesis using ih True by (subst escapes_from.simps) simp
  next
    case False
    then have "escapes_from v at = []" by (subst escapes_from.simps) simp
    moreover have "escapes_from v i = []" using False Suc.hyps(2) by (subst escapes_from.simps) auto
    ultimately show ?thesis by simp
  qed
qed simp

lemma first_escape_spec:
  "(case first_escape v at of
      None \<Rightarrow> \<forall>k. at \<le> k \<and> k < length v \<longrightarrow> fst (escapeAt v k) = 0
    | Some i \<Rightarrow> at \<le> i \<and> i < length v \<and> 0 < fst (escapeAt v i) \<and> (\<forall>k. at \<le> k \<and> k < i \<longrightarrow> fst (escapeAt v k) = 0))"
proof (induction v at rule: first_escape.induct)
  case (1 v at)
  have none: "fst (escapeAt v k) = 0" if "at \<le> k" "k < length v" "\<forall>rel. k = at + rel \<longrightarrow> drop at v ! rel \<noteq> backslash" for k
    using that by (auto simp: escapeAt_def nth_drop dest: spec [of _ "k - at"])
  show ?case
  proof (cases "index_byte backslash (drop at v)")
    case None
    then have "\<forall>k. at \<le> k \<and> k < length v \<longrightarrow> fst (escapeAt v k) = 0"
      using none by (auto simp: index_byte_None in_set_conv_nth)
    with None show ?thesis by (subst first_escape.simps) simp
  next
    case (Some rel)
    then have r: "rel < length (drop at v)" "\<forall>j < rel. drop at v ! j \<noteq> backslash" by (auto simp: index_byte_Some)
    have before: "fst (escapeAt v k) = 0" if "at \<le> k" "k < at + rel" for k
      using none [of k] that r by auto
    show ?thesis
    proof (cases "0 < fst (escapeAt v (at + rel))")
      case True
      with Some before r show ?thesis by (subst first_escape.simps) auto
    next
      case False
      have "fst (escapeAt v k) = 0" if "at \<le> k" "k < at + rel + 1" for k
        using before [of k] False that by (cases "k = at + rel") auto
      with 1(1) [OF Some False] Some False show ?thesis
        by (subst first_escape.simps) (force split: option.splits simp: not_less)
    qed
  qed
qed


definition index_bits :: "64 word list option \<Rightarrow> 64 word list" where
  "index_bits x = (case x of None \<Rightarrow> [] | Some b \<Rightarrow> b)"

lemma escapeShadow_index:
  assumes "escapeShadow v = (shadow, x)"
  shows "hasBit (index_bits x) k \<Longrightarrow> 0 < k \<and> k < length v"
    "(j, n) \<in> set (escapes_from v 0) \<Longrightarrow> j < k \<Longrightarrow> k < j + n \<Longrightarrow> hasBit (index_bits x) k"
    "(j, n) \<in> set (escapes_from v 0) \<Longrightarrow> (j + n, m) \<in> set (escapes_from v 0) \<Longrightarrow> hasBit (index_bits x) (j + n)"
    "x \<noteq> None \<Longrightarrow> length shadow = length v"
proof (atomize (full), goal_cases)
  case 1
  show ?case
  proof (cases "first_escape v 0")
    case None
    then have "escapes_from v 0 = []"
      using first_escape_spec [of 0 v] escapes_from_skip [of 0 "length v" v] escapes_from.simps [of v "length v"] by auto
    with None assms show ?thesis by (auto simp: escapeShadow_def index_bits_def hasBit_def)
  next
    case (Some i)
    define start where "start = \<lparr>es_shadow = v, es_splits = newBitset (length v), es_starts = newBitset (length v),
        es_ends = newBitset (length v), es_again = False\<rparr>"
    define once where "once = escape_pass start i"
    define st where "st = escape_passes start i"
    have x: "x = Some (or_and (es_splits st) (es_starts st) (es_ends st))" "shadow = es_shadow st"
      using assms Some by (simp_all add: escapeShadow_def Let_def st_def start_def)
    have all: "escapes_from v 0 = escapes_from v i"
      using first_escape_spec [of 0 v] Some by (intro escapes_from_skip) auto
    have s: "bits_inside (length v) start" by (simp add: bits_inside_def start_def sized_def newBitset_def [symmetric]) (simp add: newBitset_def)
    have "start\<lparr>es_again := False\<rparr> = start" by (simp add: start_def)
    with escape_passes_inside [OF s, of i] have st: "bits_inside (length v) st" "more_bits once st"
      by (simp_all add: st_def once_def)
    have "adds_escapes (length v) (escapes_from v i) start once"
      unfolding once_def by (rule escape_pass_adds) (use s in \<open>simp_all add: bits_inside_def\<close>, simp add: start_def)
    then have once: "\<And>j n k. (j, n) \<in> set (escapes_from v 0) \<Longrightarrow> j < k \<Longrightarrow> k < j + n \<Longrightarrow> hasBit (es_splits once) k"
      "\<And>j n. (j, n) \<in> set (escapes_from v 0) \<Longrightarrow> hasBit (es_starts once) j \<and> hasBit (es_ends once) (j + n)"
      unfolding all adds_escapes_def by (auto simp del: bitset_simps)
    have bits: "hasBit (index_bits x) k \<longleftrightarrow> hasBit (es_splits st) k \<or> hasBit (es_starts st) k \<and> hasBit (es_ends st) k" for k
      unfolding x index_bits_def using st(1) by (simp add: hasBit_or_and bits_inside_def sized_def)
    have "length shadow = length v" using x(2) escape_passes_length [of start i] by (simp add: st_def start_def)
    with st once show ?thesis unfolding bits bits_inside_def more_bits_def by blast
  qed
qed

lemma snap_bits: "snap x a e = (snap_left (index_bits x) a, snap_right (index_bits x) e)"
  by (simp add: snap_def index_bits_def Let_def split: option.splits)

lemma snap_within:
  assumes "escapeShadow v = (shadow, x)" "snap x a e = (a', e')" "e \<le> length v"
  shows "a' \<le> a" "e \<le> e'" "e' \<le> length v" "\<not> hasBit (index_bits x) a'" "\<not> hasBit (index_bits x) e'"
proof -
  note inside = escapeShadow_index(1) [OF assms(1)]
  have a': "a' = snap_left (index_bits x) a" and e': "e' = snap_right (index_bits x) e"
    using assms(2) by (simp_all add: snap_bits)
  show "a' \<le> a" "e \<le> e'" "\<not> hasBit (index_bits x) e'"
    using snap_left_spec [of "index_bits x" a] snap_right_spec [of e "index_bits x"] by (simp_all add: a' e')
  show "\<not> hasBit (index_bits x) a'"
    using snap_left_spec [of "index_bits x" a] inside [of 0] by (auto simp: a')
  show "e' \<le> length v"
  proof (rule ccontr)
    assume "\<not> e' \<le> length v"
    with assms(3) have "hasBit (index_bits x) (length v)"
      using snap_right_spec [of e "index_bits x"] by (simp add: e')
    with inside show False by blast
  qed
qed



text \<open>The depth of the encoding does not matter: an escape that spells an escape is found in a later pass.\<close>

lemma escapes_of_escapes:
  "fst (escapeShadow [backslash, backslash, CHR ''n'']) = [CHR '' '', CHR '' '', CHR 0x0A]"
  by code_simp

end
