(* ===== verification/Entropy.thy ===== *)
theory Entropy
  imports Pattern_Rules Escapes
begin

text \<open>
  The entropy backstop, \<^verbatim>\<open>src/internal/transforms/heuristic.go\<close>: the search for long runs of
  candidate bytes by probing every \<open>minRun\<close>-th byte, the skip list, and the trimming of a run at the
  first pattern span it overlaps. The search is proved to report what a byte-at-a-time scan reports.
  The comparison of an entropy sum with its threshold is floating point and enters as a predicate on
  what the code computes it from: whether the candidate is all hex, its histogram, and its length.
\<close>

section \<open>The candidate alphabet\<close>

definition isCandidateByte :: "char \<Rightarrow> bool" where
  "isCandidateByte c \<longleftrightarrow> isAlnum c \<or> c = CHR ''+'' \<or> c = CHR ''='' \<or> c = CHR ''_'' \<or> c = CHR ''-''"

definition entropyHexBit :: "8 word" where "entropyHexBit = 0x80"

definition isHexByte :: "char \<Rightarrow> bool" where
  "isHexByte c \<longleftrightarrow> is_digit c \<or> CHR ''a'' \<le> c \<and> c \<le> CHR ''f'' \<or> CHR ''A'' \<le> c \<and> c \<le> CHR ''F''"

text \<open>The loop that hands out ranks in byte order, up to a byte.\<close>

definition rank_of :: "char \<Rightarrow> nat" where
  "rank_of c = length (filter (isCandidateByte \<circ> char_of) [0 ..< Suc (of_char c)])"

definition entropyClass :: "char \<Rightarrow> 8 word" where
  "entropyClass c =
     (if \<not> isCandidateByte c then 0
      else if isHexByte c then word_of_nat (rank_of c) OR entropyHexBit
      else word_of_nat (rank_of c))"

definition entropyHistSlots :: nat where "entropyHistSlots = 128"

definition slot_of :: "char \<Rightarrow> nat" where
  "slot_of c = unat (entropyClass c AND NOT entropyHexBit)"

lemma upt_glue: "i \<le> j \<Longrightarrow> j \<le> k \<Longrightarrow> [i ..< k] = [i ..< j] @ [j ..< k]"
  using upt_add_eq_append [of i j "k - j"] by simp

lemma candidate_ascii: "isCandidateByte c \<Longrightarrow> of_char c < (123 :: nat)"
  by (auto simp: isCandidateByte_def isAlnum_def is_lower_def is_upper_def is_digit_def less_eq_char_def)

lemma rank_bounds: "isCandidateByte c \<Longrightarrow> 0 < rank_of c" "rank_of c \<le> 123"
proof -
  have "of_char c \<in> set [0 ..< Suc (of_char c)]" by simp
  then show "isCandidateByte c \<Longrightarrow> 0 < rank_of c"
    unfolding rank_of_def by (auto simp: filter_empty_conv simp del: upt_Suc intro!: bexI [of _ "of_char c"])
  have "k < 123" if "k \<in> set (filter (isCandidateByte \<circ> char_of) [0 ..< Suc (of_char c)])" for k
  proof -
    have "k < 256" using that nat_of_char_less_256 [of c] by (auto simp del: upt_Suc nat_of_char_less_256)
    with that candidate_ascii [of "char_of k"] show ?thesis by (simp del: upt_Suc)
  qed
  then have "set (filter (isCandidateByte \<circ> char_of) [0 ..< Suc (of_char c)]) \<subseteq> {..< 123}" by blast
  from card_mono [OF _ this] show "rank_of c \<le> 123"
    by (simp add: rank_of_def distinct_card [symmetric] del: upt_Suc)
qed

text \<open>Seven bits hold a rank, so the hex bit leaves it alone.\<close>

lemma rank_bit: "\<not> bit (word_of_nat (rank_of c) :: 8 word) 7"
proof -
  have "rank_of c < 2 ^ 7" using rank_bounds(2) [of c] by simp
  then have "take_bit 7 (rank_of c) = rank_of c" by (simp add: take_bit_nat_eq_self)
  then have "\<not> bit (rank_of c) 7" by (metis bit_take_bit_iff less_irrefl)
  then show ?thesis by (simp add: bit_simps)
qed

lemma hex_push: "entropyHexBit = push_bit 7 1"
  by (simp add: entropyHexBit_def)

lemma hex_bit: "bit entropyHexBit n \<longleftrightarrow> n = 7"
  unfolding hex_push bit_push_bit_iff bit_1_iff by auto

lemma entropyClass_hex: "isCandidateByte c \<Longrightarrow> bit (entropyClass c) 7 \<longleftrightarrow> isHexByte c"
  using rank_bit [of c] by (simp add: entropyClass_def bit_simps hex_bit)

lemma slot_rank: "slot_of c = (if isCandidateByte c then rank_of c else 0)"
proof -
  have "(word_of_nat (rank_of c) OR entropyHexBit) AND NOT entropyHexBit = (word_of_nat (rank_of c) :: 8 word)"
    "word_of_nat (rank_of c) AND NOT entropyHexBit = (word_of_nat (rank_of c) :: 8 word)"
    using rank_bit [of c] by (auto intro!: bit_word_eqI simp: bit_simps hex_bit)
  moreover have "unat (word_of_nat (rank_of c) :: 8 word) = rank_of c"
    using rank_bounds(2) [of c] by (simp add: unat_of_nat)
  ultimately show ?thesis by (simp add: slot_of_def entropyClass_def)
qed

lemma entropyClass_zero [simp]: "entropyClass c = 0 \<longleftrightarrow> \<not> isCandidateByte c"
proof -
  have "slot_of c \<noteq> 0" if "isCandidateByte c" using that rank_bounds(1) by (simp add: slot_rank)
  then show ?thesis by (auto simp: slot_of_def entropyClass_def)
qed

lemma rank_less: "isCandidateByte d \<Longrightarrow> (of_char c :: nat) < of_char d \<Longrightarrow> rank_of c < rank_of d"
proof -
  assume d: "isCandidateByte d" and less: "(of_char c :: nat) < of_char d"
  then have "[0 ..< Suc (of_char d)] = [0 ..< Suc (of_char c)] @ [Suc (of_char c) ..< of_char d] @ [of_char d]"
    using upt_glue [of 0 "Suc (of_char c)" "of_char d"] by simp
  then show ?thesis unfolding rank_of_def using d by (simp only: filter_append length_append) simp
qed

lemma slot_inj: "isCandidateByte c \<Longrightarrow> isCandidateByte d \<Longrightarrow> slot_of c = slot_of d \<Longrightarrow> c = d"
  using rank_less [of d c] rank_less [of c d] by (simp add: slot_rank) (metis linorder_neqE_nat less_irrefl of_char_eq_iff)

section \<open>The score\<close>

record EntropyConfig =
  ec_MinLength :: nat
  ec_scores :: "bool \<Rightarrow> nat list \<Rightarrow> nat \<Rightarrow> bool"
  ec_floor :: nat
  ec_floorHex :: nat

record entropyMatcher =
  em_cfg :: EntropyConfig
  em_minRun :: nat
  em_skip :: "string list"

definition newEntropyMatcher :: "EntropyConfig \<Rightarrow> string \<Rightarrow> entropyMatcher" where
  "newEntropyMatcher cfg username =
     \<lparr>em_cfg = cfg, em_minRun = (if ec_MinLength cfg < 1 then 1 else ec_MinLength cfg),
      em_skip = [UserPlaceholder, sentinelPrefix] @ (if length username \<ge> 2 then [username] else [])\<rparr>"

text \<open>One turn of the histogram loop of \<^verbatim>\<open>clears\<close>.\<close>

definition hist_step :: "nat list \<times> nat \<times> 8 word \<Rightarrow> char \<Rightarrow> nat list \<times> nat \<times> 8 word" where
  "hist_step st c =
     (case st of (counts, kinds, hexAll) \<Rightarrow>
        let slot = slot_of c
        in (counts[slot := counts ! slot + 1],
            if counts ! slot = 0 then kinds + 1 else kinds,
            hexAll AND entropyClass c))"

definition clears :: "entropyMatcher \<Rightarrow> string \<Rightarrow> bool" where
  "clears m candidate =
     (let (counts, kinds, hexAll) = foldl hist_step (replicate entropyHistSlots 0, 0, 0xff) candidate;
          hex = hexAll AND entropyHexBit \<noteq> 0;
          least = (if hex then ec_floorHex (em_cfg m) else ec_floor (em_cfg m))
      in if kinds < least then False
         else ec_scores (em_cfg m) hex counts (length candidate))"

text \<open>
  The histogram loop computes what its comments say: how many distinct bytes there are, whether all are
  hex digits, and how often each occurs, by rank.
\<close>

definition hist_ok :: "string \<Rightarrow> nat list \<times> nat \<times> 8 word \<Rightarrow> bool" where
  "hist_ok cs st \<longleftrightarrow>
     length (fst st) = entropyHistSlots \<and>
     (\<forall>c. isCandidateByte c \<longrightarrow> fst st ! slot_of c = length (filter (\<lambda>d. d = c) cs)) \<and>
     fst (snd st) = card (set cs) \<and> (bit (snd (snd st)) 7 \<longleftrightarrow> list_all isHexByte cs)"

lemma slot_bound: "slot_of c < entropyHistSlots"
  using rank_bounds(2) [of c] by (simp add: slot_rank entropyHistSlots_def)

lemma hist_start: "hist_ok [] (replicate entropyHistSlots 0, 0, 0xff)"
proof -
  have e: "(0xff :: 8 word) = - 1" by simp
  show ?thesis unfolding hist_ok_def e using slot_bound by simp
qed

lemma hist_next:
  assumes "hist_ok cs (counts, kinds, hexAll)" "isCandidateByte d"
  shows "hist_ok (cs @ [d]) (hist_step (counts, kinds, hexAll) d)"
proof -
  have inv: "length counts = entropyHistSlots" "\<And>c. isCandidateByte c \<Longrightarrow> counts ! slot_of c = length (filter (\<lambda>d. d = c) cs)"
      "kinds = card (set cs)" "bit hexAll 7 \<longleftrightarrow> list_all isHexByte cs"
    using assms(1) by (simp_all add: hist_ok_def)
  have count: "counts[slot_of d := counts ! slot_of d + 1] ! slot_of c = length (filter (\<lambda>e. e = c) (cs @ [d]))"
    if "isCandidateByte c" for c
  proof (cases "c = d")
    case True
    then show ?thesis using inv(1,2) assms(2) slot_bound [of d] by simp
  next
    case False
    then have "slot_of d \<noteq> slot_of c" using slot_inj that assms(2) by blast
    with False inv(2) [OF that] show ?thesis by simp
  qed
  have new: "counts ! slot_of d = 0 \<longleftrightarrow> d \<notin> set cs" using inv(2) [OF assms(2)] by (auto simp: filter_empty_conv)
  have "card (set (cs @ [d])) = (if d \<in> set cs then card (set cs) else card (set cs) + 1)"
    by (simp add: insert_absorb)
  with count new inv show ?thesis using entropyClass_hex [OF assms(2)] by (simp add: hist_ok_def hist_step_def Let_def bit_simps)
qed

lemma hist_loop: "list_all isCandidateByte cs \<Longrightarrow> hist_ok cs (foldl hist_step (replicate entropyHistSlots 0, 0, 0xff) cs)"
proof (induction cs rule: rev_induct)
  case Nil
  show ?case using hist_start by simp
next
  case (snoc d cs)
  obtain counts kinds hexAll where st: "foldl hist_step (replicate entropyHistSlots 0, 0, 0xff) cs = (counts, kinds, hexAll)"
    by (rule prod_cases3)
  show ?case using hist_next [of cs counts kinds hexAll d] snoc st by simp
qed

lemma clears_floor:
  assumes "list_all isCandidateByte cs" "clears m cs"
  shows "(if list_all isHexByte cs then ec_floorHex (em_cfg m) else ec_floor (em_cfg m)) \<le> card (set cs)"
proof -
  obtain counts kinds hexAll where st: "foldl hist_step (replicate entropyHistSlots 0, 0, 0xff) cs = (counts, kinds, hexAll)"
    by (rule prod_cases3)
  have "hist_ok cs (counts, kinds, hexAll)" using hist_loop [OF assms(1)] st by simp
  then have "kinds = card (set cs)" "bit hexAll 7 \<longleftrightarrow> list_all isHexByte cs" by (simp_all add: hist_ok_def)
  moreover have "hexAll AND entropyHexBit \<noteq> 0 \<longleftrightarrow> bit hexAll 7"
    unfolding hex_push using no_bit [of hexAll 7] by blast
  ultimately show ?thesis using assms(2) st by (auto simp: clears_def Let_def split: if_splits)
qed

section \<open>Delimited occurrences\<close>

function delimited_loop :: "string \<Rightarrow> string \<Rightarrow> nat \<Rightarrow> bool" where
  "delimited_loop s sub i =
     (if i + length sub \<le> length s
      then case str_index sub (drop i s) of
             None \<Rightarrow> False
           | Some at \<Rightarrow>
               (let i' = i + at;
                    leftOK = (i' = 0 \<or> \<not> isAlnum (s ! (i' - 1)));
                    rightOK = (i' + length sub = length s \<or> \<not> isAlnum (s ! (i' + length sub)))
                in if leftOK \<and> rightOK then True else delimited_loop s sub (i' + 1))
      else False)"
  by pat_completeness auto
termination
  by (relation "measure (\<lambda>(s, sub, i). Suc (length s) - i)") (auto dest!: add_leD1)

declare delimited_loop.simps [simp del]

definition containsDelimited :: "string \<Rightarrow> string \<Rightarrow> bool" where
  "containsDelimited s sub = (if sub = [] then False else delimited_loop s sub 0)"

definition skipsCandidate :: "entropyMatcher \<Rightarrow> string \<Rightarrow> bool" where
  "skipsCandidate m candidate \<longleftrightarrow> list_ex (containsDelimited candidate) (em_skip m)"

definition delimited_at :: "string \<Rightarrow> string \<Rightarrow> nat \<Rightarrow> bool" where
  "delimited_at s sub i \<longleftrightarrow> occurs_at sub s i \<and> (i = 0 \<or> \<not> isAlnum (s ! (i - 1))) \<and>
     (i + length sub = length s \<or> \<not> isAlnum (s ! (i + length sub)))"

lemma occurs_at_drop: "i \<le> length s \<Longrightarrow> occurs_at sub (drop i s) k \<longleftrightarrow> occurs_at sub s (i + k)"
  by (auto simp: occurs_at_def add.commute)

lemma delimited_loop_iff: "delimited_loop s sub i \<longleftrightarrow> (\<exists>k \<ge> i. delimited_at s sub k)"
proof (induction s sub i rule: delimited_loop.induct)
  case (1 s sub i)
  show ?case
  proof (cases "i + length sub \<le> length s")
    case False
    then have "\<not> delimited_at s sub k" if "i \<le> k" for k
      using that occurs_at_end [of sub s k] by (auto simp: delimited_at_def)
    with False show ?thesis by (subst delimited_loop.simps) auto
  next
    case True
    show ?thesis
    proof (cases "str_index sub (drop i s)")
      case None
      have "\<not> occurs_at sub s k" if "i \<le> k" for k
        using None that occurs_at_drop [of i s sub "k - i"] True by (auto simp: str_index_None)
      with True None show ?thesis by (subst delimited_loop.simps) (auto simp: delimited_at_def)
    next
      case (Some at)
      have at: "occurs_at sub s (i + at)" "\<And>k. i \<le> k \<Longrightarrow> k < i + at \<Longrightarrow> \<not> occurs_at sub s k"
      proof -
        show "occurs_at sub s (i + at)" using Some True by (simp add: str_index_Some occurs_at_drop)
        show "\<not> occurs_at sub s k" if "i \<le> k" "k < i + at" for k
        proof -
          have "k - i < at" using that by simp
          with Some True have "\<not> occurs_at sub (drop i s) (k - i)" unfolding str_index_Some by blast
          with that True show ?thesis by (simp add: occurs_at_drop)
        qed
      qed
      have hit: "delimited_at s sub (i + at) \<longleftrightarrow> (i + at = 0 \<or> \<not> isAlnum (s ! (i + at - 1))) \<and>
          (i + at + length sub = length s \<or> \<not> isAlnum (s ! (i + at + length sub)))"
        using at(1) by (simp add: delimited_at_def)
      have later: "(\<exists>k \<ge> i. delimited_at s sub k) \<longleftrightarrow> (\<exists>k \<ge> i + at + 1. delimited_at s sub k)" if none: "\<not> delimited_at s sub (i + at)"
      proof -
        have "i + at + 1 \<le> k" if k: "i \<le> k" "delimited_at s sub k" for k
        proof -
          have "occurs_at sub s k" using k(2) by (simp only: delimited_at_def)
          then have "\<not> k < i + at" using at(2) k(1) by blast
          moreover have "k \<noteq> i + at" using k(2) none by blast
          ultimately show ?thesis by linarith
        qed
        moreover have "i \<le> k" if "i + at + 1 \<le> k" for k using that by linarith
        ultimately show ?thesis by blast
      qed
      show ?thesis
      proof (cases "delimited_at s sub (i + at)")
        case yes: True
        moreover have "\<exists>k \<ge> i. delimited_at s sub k" using yes by (intro exI [of _ "i + at"]) simp
        ultimately show ?thesis using True Some hit by (subst delimited_loop.simps) (simp add: Let_def)
      next
        case False
        then have "\<not> ((i + at = 0 \<or> \<not> isAlnum (s ! (i + at - 1))) \<and>
            (i + at + length sub = length s \<or> \<not> isAlnum (s ! (i + at + length sub))))" using hit by blast
        then show ?thesis using 1 [OF True Some refl refl refl] True Some later [OF False]
          by (subst delimited_loop.simps) (simp only: Let_def option.case if_True if_False simp_thms)
      qed
    qed
  qed
qed

lemma containsDelimited_iff: "sub \<noteq> [] \<Longrightarrow> containsDelimited s sub \<longleftrightarrow> (\<exists>k. delimited_at s sub k)"
  by (simp add: containsDelimited_def delimited_loop_iff)

section \<open>Runs of a class\<close>

text \<open>The maximal runs of a class between an index and a bound, left to right: what a byte-at-a-time scan finds.\<close>

function class_runs :: "(char \<Rightarrow> bool) \<Rightarrow> string \<Rightarrow> nat \<Rightarrow> (nat \<times> nat) list" where
  "class_runs p v i =
     (if length v \<le> i then []
      else if p (v ! i) then (i, run_end p v (i + 1)) # class_runs p v (run_end p v (i + 1))
      else class_runs p v (i + 1))"
  by pat_completeness auto
termination
  by (relation "measure (\<lambda>(p, v, i). length v - i)")
     (use run_end_bounds(1) [of "Suc _"] in \<open>auto simp: Suc_le_eq intro!: diff_less_mono2\<close>)

declare class_runs.simps [simp del]

lemma class_runs_end [simp]: "length v \<le> i \<Longrightarrow> class_runs p v i = []"
  by (simp add: class_runs.simps)

lemma class_runs_miss: "i < length v \<Longrightarrow> \<not> p (v ! i) \<Longrightarrow> class_runs p v i = class_runs p v (i + 1)"
  by (simp add: class_runs.simps [of p v i])

lemma class_runs_hit: "i < length v \<Longrightarrow> p (v ! i) \<Longrightarrow> class_runs p v i = (i, run_end p v i) # class_runs p v (run_end p v i)"
  by (simp add: class_runs.simps [of p v i] run_end_step)

lemma class_runs_in: "(a, b) \<in> set (class_runs p v i) \<Longrightarrow> i \<le> a \<and> a < length v \<and> p (v ! a) \<and> b = run_end p v a"
proof (induction p v i rule: class_runs.induct)
  case (1 p v i)
  show ?case
  proof (cases "length v \<le> i")
    case False
    show ?thesis
    proof (cases "p (v ! i)")
      case True
      have "i \<le> run_end p v (i + 1)" using run_end_bounds(1) [of "i + 1" p v] by simp
      with 1(1) [OF False True] 1(3) True False run_end_step [of i v p] show ?thesis
        by (auto simp: class_runs.simps [of p v i])
    next
      case miss: False
      with 1(2) [OF False miss] 1(3) False show ?thesis by (auto simp: class_runs.simps [of p v i])
    qed
  qed (use 1(3) in simp)
qed

text \<open>A scan may start anywhere that no run worth keeping is lost.\<close>

lemma class_runs_skip:
  assumes "i \<le> j" "\<And>a b. (a, b) \<in> set (class_runs p v i) \<Longrightarrow> a < j \<Longrightarrow> b \<le> j \<and> \<not> keep (a, b)"
  shows "filter keep (class_runs p v i) = filter keep (class_runs p v j)"
  using assms
proof (induction p v i rule: class_runs.induct)
  case (1 p v i)
  show ?case
  proof (cases "i = j \<or> length v \<le> i")
    case False
    then have i: "\<not> length v \<le> i" "i < j" using 1(3) by auto
    show ?thesis
    proof (cases "p (v ! i)")
      case True
      have eq: "class_runs p v i = (i, run_end p v i) # class_runs p v (run_end p v i)"
        using class_runs_hit True i(1) by (simp add: not_le)
      have gone: "run_end p v i \<le> j" "\<not> keep (i, run_end p v i)" using 1(4) [of i "run_end p v i"] i(2) by (simp_all add: eq)
      have step: "run_end p v (i + 1) = run_end p v i" using run_end_step True i(1) by (metis not_le)
      have "filter keep (class_runs p v (run_end p v i)) = filter keep (class_runs p v j)"
      proof (rule 1(1) [OF i(1) True, unfolded step])
        show "b \<le> j \<and> \<not> keep (a, b)" if "(a, b) \<in> set (class_runs p v (run_end p v i))" "a < j" for a b
          using 1(4) [of a b] that by (simp add: eq)
      qed (rule gone(1))
      then show ?thesis using gone(2) True i(1) by (simp add: eq run_end_step not_le)
    next
      case miss: False
      have eq: "class_runs p v i = class_runs p v (i + 1)" using class_runs_miss miss i(1) by (simp add: not_le)
      show ?thesis unfolding eq by (rule 1(2) [OF i(1) miss]) (use i(2) 1(4) in \<open>simp_all add: eq\<close>)
    qed
  qed (use 1(3) in auto)
qed

section \<open>The search\<close>

definition generic_entropy :: string where "generic_entropy = ''generic-entropy''"

definition entropy_span :: "nat \<Rightarrow> nat \<Rightarrow> Span" where
  "entropy_span a b = \<lparr>sp_Start = a, sp_End = b, sp_RuleID = generic_entropy\<rparr>"

text \<open>The loop of \<^verbatim>\<open>appendClearingWords\<close>.\<close>

function word_loop :: "entropyMatcher \<Rightarrow> string \<Rightarrow> nat \<Rightarrow> nat \<Rightarrow> Span list" where
  "word_loop m v stop j =
     (if j < stop
      then let k = min stop (run_end isAlnum v j)
           in (if em_minRun m \<le> k - j \<and> clears m (segment j k v) then [entropy_span j k] else []) @ word_loop m v stop (k + 1)
      else [])"
  by pat_completeness auto
termination
  by (relation "measure (\<lambda>(m, v, stop, j). stop - j)") (use run_end_bounds(1) [of _ isAlnum] in \<open>auto simp: min_def le_imp_less_Suc intro!: diff_less_mono2\<close>)

declare word_loop.simps [simp del]

definition appendClearingWords :: "entropyMatcher \<Rightarrow> Span list \<Rightarrow> string \<Rightarrow> nat \<Rightarrow> nat \<Rightarrow> Span list" where
  "appendClearingWords m out v start stop = out @ word_loop m v stop start"

text \<open>What the body of the loop appends for a run.\<close>

definition judge :: "entropyMatcher \<Rightarrow> string \<Rightarrow> nat \<times> nat \<Rightarrow> Span list" where
  "judge m v = (\<lambda>(start, i).
     if \<not> clears m (segment start i v) then []
     else if skipsCandidate m (segment start i v) then appendClearingWords m [] v start i
     else [entropy_span start i])"

text \<open>The inner loop that walks back from a probe.\<close>

fun walk_back :: "string \<Rightarrow> nat \<Rightarrow> nat \<Rightarrow> nat" where
  "walk_back v scanned 0 = 0"
| "walk_back v scanned (Suc n) =
     (if Suc n > scanned \<and> entropyClass (v ! n) \<noteq> 0 then walk_back v scanned n else Suc n)"

text \<open>A matcher made by \<open>newEntropyMatcher\<close> has \<open>em_minRun\<close> at least 1, so the probes advance.\<close>

function match_loop :: "entropyMatcher \<Rightarrow> string \<Rightarrow> nat \<Rightarrow> nat \<Rightarrow> Span list" where
  "match_loop m v p scanned =
     (if length v \<le> p \<or> em_minRun m = 0 then []
      else if p < scanned \<or> entropyClass (v ! p) = 0 then match_loop m v (p + em_minRun m) scanned
      else let start = walk_back v scanned p;
               i = run_end (\<lambda>c. entropyClass c \<noteq> 0) v (p + 1)
           in (if i - start < em_minRun m then [] else judge m v (start, i)) @ match_loop m v (p + em_minRun m) i)"
  by pat_completeness auto
termination
  by (relation "measure (\<lambda>(m, v, p, s). length v - p)") auto

declare match_loop.simps [simp del]

definition entropy_Match :: "entropyMatcher \<Rightarrow> string \<Rightarrow> Span list" where
  "entropy_Match m v = (if length v < ec_MinLength (em_cfg m) then [] else match_loop m v (em_minRun m - 1) 0)"

lemma walk_back_spec:
  assumes "scanned \<le> p"
  shows "scanned \<le> walk_back v scanned p \<and> walk_back v scanned p \<le> p \<and>
    (\<forall>k. walk_back v scanned p \<le> k \<and> k < p \<longrightarrow> isCandidateByte (v ! k)) \<and>
    (scanned < walk_back v scanned p \<longrightarrow> \<not> isCandidateByte (v ! (walk_back v scanned p - 1)))"
  using assms
proof (induction p)
  case (Suc n)
  show ?case
  proof (cases "Suc n > scanned \<and> isCandidateByte (v ! n)")
    case True
    then have "scanned \<le> n" by simp
    from Suc.IH [OF this] True show ?thesis by (auto simp: less_Suc_eq)
  next
    case False
    with Suc.prems show ?thesis by auto
  qed
qed simp

lemma run_end_shift: "i \<le> j \<Longrightarrow> j \<le> length v \<Longrightarrow> (\<And>k. i \<le> k \<Longrightarrow> k < j \<Longrightarrow> p (v ! k)) \<Longrightarrow> run_end p v i = run_end p v j"
proof (induction "j - i" arbitrary: i)
  case (Suc d)
  then have "run_end p v (i + 1) = run_end p v j" by simp
  moreover have "i < length v" "p (v ! i)" using Suc by simp_all
  ultimately show ?case by (simp add: run_end_step)
qed simp

text \<open>
  The probes miss only short runs: at a probe every run that ended before it is shorter than the step.
\<close>

lemma match_loop_runs:
  assumes "0 < em_minRun m" "\<And>a b. (a, b) \<in> set (class_runs isCandidateByte v scanned) \<Longrightarrow> b \<le> p \<Longrightarrow> b - a < em_minRun m"
  shows "match_loop m v p scanned =
    concat (map (judge m v) (filter (\<lambda>(a, b). em_minRun m \<le> b - a) (class_runs isCandidateByte v scanned)))"
  using assms
proof (induction m v p scanned rule: match_loop.induct)
  case (1 m v p scanned)
  let ?long = "\<lambda>(a, b). em_minRun m \<le> b - a"
  let ?runs = "class_runs isCandidateByte v"
  note short = 1(4)
  show ?case
  proof (cases "length v \<le> p")
    case True
    have "\<not> ?long (a, b)" if "(a, b) \<in> set (?runs scanned)" for a b
    proof -
      have "a < length v" "b = run_end isCandidateByte v a" using class_runs_in [OF that] by auto
      then have "b \<le> p" using run_end_bounds(2) [of a v isCandidateByte] True by simp
      with short [OF that] show ?thesis by simp
    qed
    then have "filter ?long (?runs scanned) = []" unfolding filter_empty_conv by (metis surj_pair)
    with True show ?thesis by (simp add: match_loop.simps [of m v p])
  next
    case inside: False
    with 1(3) have go: "\<not> (length v \<le> p \<or> em_minRun m = 0)" by simp
    show ?thesis
    proof (cases "p < scanned \<or> entropyClass (v ! p) = 0")
      case True
      have "b - a < em_minRun m" if run: "(a, b) \<in> set (?runs scanned)" and b: "b \<le> p + em_minRun m" for a b
      proof (cases "b \<le> p")
        case False
        have ab: "scanned \<le> a" "isCandidateByte (v ! a)" "b = run_end isCandidateByte v a" using class_runs_in [OF run] by auto
        have "p < a"
        proof (rule ccontr)
          assume "\<not> p < a"
          then have "isCandidateByte (v ! p)" using run_end_in [of a p isCandidateByte v] False ab(3) by simp
          with True ab(1) \<open>\<not> p < a\<close> show False by simp
        qed
        with b show ?thesis using 1(3) by simp
      qed (rule short [OF run])
      from 1(1) [OF go True 1(3) this] show ?thesis using go True by (simp add: match_loop.simps [of m v p])
    next
      case False
      define start where "start = walk_back v scanned p"
      define i where "i = run_end isCandidateByte v (p + 1)"
      have p: "scanned \<le> p" "isCandidateByte (v ! p)" "p < length v" using False inside by simp_all
      note bk = walk_back_spec [OF p(1), of v, folded start_def]
      have all: "isCandidateByte (v ! k)" if "start \<le> k" "k < p + 1" for k using bk p(2) that by (cases "k = p") auto
      have stop: "run_end isCandidateByte v start = i"
        unfolding i_def by (rule run_end_shift) (use bk p(3) all in \<open>auto\<close>)
      have skip: "filter ?long (?runs scanned) = filter ?long (?runs start)"
      proof (rule class_runs_skip)
        fix a b assume run: "(a, b) \<in> set (?runs scanned)" and a: "a < start"
        have ab: "scanned \<le> a" "b = run_end isCandidateByte v a" using class_runs_in [OF run] by auto
        have "b \<le> start"
        proof (rule ccontr)
          assume "\<not> b \<le> start"
          then have "isCandidateByte (v ! (start - 1))" using run_end_in [of a "start - 1" isCandidateByte v] a ab(2) by simp
          with bk a ab(1) show False by simp
        qed
        moreover from this have "b - a < em_minRun m" using short [OF run] bk by simp
        ultimately show "b \<le> start \<and> \<not> ?long (a, b)" by simp
      qed (use bk in blast)
      have "start < length v" using bk p(3) by simp
      then have runs: "?runs start = (start, i) # ?runs i" using class_runs_hit [of start v isCandidateByte] all [of start] bk stop by simp
      have rest: "match_loop m v (p + em_minRun m) i = concat (map (judge m v) (filter ?long (?runs i)))"
      proof (rule 1(2) [OF go False start_def])
        show "i = run_end (\<lambda>c. entropyClass c \<noteq> 0) v (p + 1)" by (simp add: i_def)
        show "b - a < em_minRun m" if "(a, b) \<in> set (?runs i)" "b \<le> p + em_minRun m" for a b
        proof -
          have "i \<le> a" using class_runs_in [OF that(1)] by simp
          moreover have "p + 1 \<le> i" using run_end_bounds(1) [of "p + 1" isCandidateByte v] by (simp add: i_def)
          ultimately show ?thesis using that(2) 1(3) by simp
        qed
      qed (rule 1(3))
      have i: "run_end isCandidateByte v (Suc p) = i" by (simp add: i_def)
      show ?thesis using go False rest unfolding skip runs
        by (simp add: match_loop.simps [of m v p] Let_def start_def [symmetric] i)
    qed
  qed
qed

text \<open>
  C39: Probing every \<open>minRun\<close>-th byte misses nothing. For every configuration and value the matcher
  reports, in order, what scanning byte by byte reports: each maximal run of candidate bytes of at least
  the configured length, judged by entropy and the skip list.
\<close>

theorem entropy_probe_is_byte_scan:
  "entropy_Match (newEntropyMatcher cfg user) v =
     concat (map (judge (newEntropyMatcher cfg user) v)
       (filter (\<lambda>(a, b). max 1 (ec_MinLength cfg) \<le> b - a) (class_runs isCandidateByte v 0)))"
proof -
  let ?m = "newEntropyMatcher cfg user"
  have run: "em_minRun ?m = max 1 (ec_MinLength cfg)" and cfg: "em_cfg ?m = cfg" by (auto simp: newEntropyMatcher_def)
  have loop: "match_loop ?m v (em_minRun ?m - 1) 0 =
      concat (map (judge ?m v) (filter (\<lambda>(a, b). em_minRun ?m \<le> b - a) (class_runs isCandidateByte v 0)))"
    by (rule match_loop_runs) (use run in auto)
  have "\<not> em_minRun ?m \<le> b - a" if "length v < ec_MinLength cfg" "(a, b) \<in> set (class_runs isCandidateByte v 0)" for a b
    using class_runs_in [OF that(2)] run_end_bounds(2) [of a v isCandidateByte] that(1) by (auto simp: run)
  then have "length v < ec_MinLength cfg \<Longrightarrow> filter (\<lambda>(a, b). em_minRun ?m \<le> b - a) (class_runs isCandidateByte v 0) = []"
    unfolding filter_empty_conv by (metis case_prod_conv surj_pair)
  with loop show ?thesis unfolding run by (cases "length v < ec_MinLength cfg") (simp_all only: entropy_Match_def run cfg if_True if_False list.map concat.simps)
qed

lemma word_loop_inside:
  assumes "s \<in> set (word_loop m v stop j)"
  shows "j \<le> sp_Start s \<and> sp_End s \<le> stop \<and> em_minRun m \<le> sp_End s - sp_Start s \<and> sp_RuleID s = generic_entropy \<and>
    list_all isAlnum (segment (sp_Start s) (sp_End s) v)"
  using assms
proof (induction m v stop j rule: word_loop.induct)
  case (1 m v stop j)
  then have j: "j < stop" by (auto simp: word_loop.simps [of m v stop j] split: if_splits)
  define k where "k = min stop (run_end isAlnum v j)"
  have jk: "j \<le> k" "k \<le> stop" using j run_end_bounds(1) [of j isAlnum v] by (auto simp: k_def)
  have alnum: "list_all isAlnum (segment j k v)"
  proof -
    have "segment j (run_end isAlnum v j) v = takeWhile isAlnum (drop j v)"
      by (simp add: segment_def run_end_def) (metis takeWhile_eq_take)
    moreover have "segment j k v = take (k - j) (segment j (run_end isAlnum v j) v)"
      by (simp add: segment_def k_def)
    ultimately show ?thesis by (auto simp: list_all_iff dest!: in_set_takeD set_takeWhileD)
  qed
  from 1(2) j consider "s = entropy_span j k" "em_minRun m \<le> k - j" | "s \<in> set (word_loop m v stop (k + 1))"
    by (auto simp: word_loop.simps [of m v stop j] Let_def k_def [symmetric] split: if_splits)
  then show ?case
  proof cases
    case 1
    with jk alnum show ?thesis by (simp add: entropy_span_def)
  next
    case 2
    from "1.IH" [OF j k_def 2] jk show ?thesis by auto
  qed
qed

lemma judge_inside:
  assumes "s \<in> set (judge m v (a, b))" "em_minRun m \<le> b - a"
  shows "a \<le> sp_Start s \<and> sp_End s \<le> b \<and> em_minRun m \<le> sp_End s - sp_Start s \<and> sp_RuleID s = generic_entropy"
  using assms word_loop_inside [of s m v b a]
  by (auto simp: judge_def appendClearingWords_def entropy_span_def split: if_splits)

lemma entropy_Match_inside:
  assumes "s \<in> set (entropy_Match (newEntropyMatcher cfg user) v)"
  shows "sp_Start s < sp_End s \<and> sp_End s \<le> length v \<and> max 1 (ec_MinLength cfg) \<le> sp_End s - sp_Start s"
proof -
  have run: "em_minRun (newEntropyMatcher cfg user) = max 1 (ec_MinLength cfg)" by (auto simp: newEntropyMatcher_def)
  obtain loop where m: "entropy_Match (newEntropyMatcher cfg user) v = match_loop (newEntropyMatcher cfg user) v (em_minRun (newEntropyMatcher cfg user) - 1) 0"
    using assms by (auto simp: entropy_Match_def split: if_splits)
  have "match_loop (newEntropyMatcher cfg user) v (em_minRun (newEntropyMatcher cfg user) - 1) 0 =
      concat (map (judge (newEntropyMatcher cfg user) v)
        (filter (\<lambda>(a, b). em_minRun (newEntropyMatcher cfg user) \<le> b - a) (class_runs isCandidateByte v 0)))"
    by (rule match_loop_runs) (use run in auto)
  with assms m obtain a b where ab: "(a, b) \<in> set (class_runs isCandidateByte v 0)"
      "em_minRun (newEntropyMatcher cfg user) \<le> b - a" "s \<in> set (judge (newEntropyMatcher cfg user) v (a, b))" by auto
  have "b \<le> length v" using class_runs_in [OF ab(1)] run_end_bounds(2) [of a v isCandidateByte] by simp
  with judge_inside [OF ab(3,2)] show ?thesis by (auto simp: run)
qed

interpretation entropy: span_matcher "entropy_Match (newEntropyMatcher cfg user)" for cfg user
  by unfold_locales (use entropy_Match_inside in blast)

section \<open>Trimming at the patterns\<close>

text \<open>The cut of a run at the first pattern left, and the heads that clear on their own.\<close>

definition trim_at :: "entropyMatcher \<Rightarrow> string \<Rightarrow> 64 word list option \<Rightarrow> Span \<Rightarrow> Span list \<Rightarrow> Span \<times> Span list" where
  "trim_at m v escapes run rest =
     (case rest of
        [] \<Rightarrow> (run, [])
      | q # _ \<Rightarrow>
          if sp_Start q \<le> sp_Start run \<or> sp_Start q \<ge> sp_End run then (run, [])
          else (run\<lparr>sp_Start := sp_Start q\<rparr>,
                map (\<lambda>h. snap_span escapes (h\<lparr>sp_Start := sp_Start run + sp_Start h, sp_End := sp_Start run + sp_End h\<rparr>))
                  (entropy_Match m (segment (sp_Start run) (sp_Start q) v))))"

fun trim_loop :: "entropyMatcher \<Rightarrow> string \<Rightarrow> 64 word list option \<Rightarrow> Span list \<Rightarrow> Span list \<Rightarrow> (Span \<times> Span list) list" where
  "trim_loop m v escapes [] patterns = []"
| "trim_loop m v escapes (run # runs) patterns =
     (let rest = dropWhile (\<lambda>q. sp_End q \<le> sp_Start run) patterns
      in trim_at m v escapes run rest # trim_loop m v escapes runs rest)"

definition trimAtPatterns :: "entropyMatcher \<Rightarrow> string \<Rightarrow> Span list \<Rightarrow> Span list \<Rightarrow> 64 word list option \<Rightarrow> Span list" where
  "trimAtPatterns m v runs patterns escapes =
     (let cuts = trim_loop m v escapes runs (sort_key sp_Start patterns) in map fst cuts @ concat (map snd cuts))"

lemma dropWhile_twice: "(\<And>x. P x \<Longrightarrow> Q x) \<Longrightarrow> dropWhile Q (dropWhile P xs) = dropWhile Q xs"
  by (induction xs) auto

text \<open>One pass over the patterns is a search per run, because the runs are in order.\<close>

lemma trim_one_pass:
  assumes "sorted (map sp_Start runs)"
  shows "trim_loop m v escapes runs patterns =
    map (\<lambda>run. trim_at m v escapes run (dropWhile (\<lambda>q. sp_End q \<le> sp_Start run) patterns)) runs"
  using assms
proof (induction runs arbitrary: patterns)
  case (Cons run runs)
  have "dropWhile (\<lambda>q. sp_End q \<le> sp_Start r) (dropWhile (\<lambda>q. sp_End q \<le> sp_Start run) patterns) =
      dropWhile (\<lambda>q. sp_End q \<le> sp_Start r) patterns" if "r \<in> set runs" for r
    by (rule dropWhile_twice) (use Cons.prems that in fastforce)
  with Cons show ?case by (simp add: Let_def cong: map_cong)
qed simp

text \<open>
  What a run loses is only what lies before a pattern span: every byte of a run is in the trimmed run or
  before the start of a pattern span that overlaps the run.
\<close>

lemma trim_at_keeps:
  assumes "sp_Start run < sp_End run"
  shows "sp_Start run \<le> sp_Start (fst (trim_at m v escapes run rest)) \<and> sp_End (fst (trim_at m v escapes run rest)) = sp_End run \<and>
    sp_Start (fst (trim_at m v escapes run rest)) < sp_End run \<and>
    (fst (trim_at m v escapes run rest) = run \<or> (\<exists>q \<in> set rest. sp_Start (fst (trim_at m v escapes run rest)) = sp_Start q))"
  using assms by (auto simp: trim_at_def split: list.split)

end
