(* ===== verification/Key_Names.thy ===== *)
theory Key_Names
  imports Pattern_Rules
begin

text \<open>
  Names that mark a value as a credential: the words of a field name,
  \<^verbatim>\<open>src/internal/transforms/keyname.go\<close>, and the configured names with the matcher that reads
  \<^verbatim>\<open>NAME=value\<close>, \<^verbatim>\<open>keyNameMatcher\<close> of \<^verbatim>\<open>heuristic.go\<close>.
  \<^verbatim>\<open>strings.ToLower\<close> and \<^verbatim>\<open>strings.ToUpper\<close> fold Unicode and are parameters; a law says
  what they do to ASCII. \<^verbatim>\<open>regexp.MustCompile\<close> is the compiler of \<open>Pattern_Rules\<close>.
\<close>

section \<open>Field names as words\<close>

definition secretWords :: "string list" where
  "secretWords = [''password'', ''passwd'', ''pwd'', ''secret'', ''token'', ''apikey'', ''credential'', ''credentials'', ''auth'',
     ''authorization'', ''cookie'']"

definition keyQualifiers :: "string list" where
  "keyQualifiers = [''api'', ''secret'', ''private'', ''access'', ''signing'', ''encryption'', ''auth'']"

definition is_separator :: "char \<Rightarrow> bool" where
  "is_separator c \<longleftrightarrow> c = CHR ''_'' \<or> c = CHR ''-'' \<or> c = CHR ''.'' \<or> c = CHR '' '' \<or> c = CHR '':'' \<or> c = CHR ''/''"

text \<open>Where a new word starts without a separator: after a hump, or at the last capital of a run.\<close>

definition hump_at :: "string \<Rightarrow> nat \<Rightarrow> bool" where
  "hump_at key i \<longleftrightarrow> is_upper (key ! i) \<and> i > 0 \<and> (is_lower (key ! (i - 1)) \<or> is_digit (key ! (i - 1)))"

definition run_breaks_at :: "string \<Rightarrow> nat \<Rightarrow> bool" where
  "run_breaks_at key i \<longleftrightarrow> is_upper (key ! i) \<and> i > 0 \<and> is_upper (key ! (i - 1)) \<and> i + 1 < length key \<and> is_lower (key ! (i + 1))"

text \<open>The closure \<^verbatim>\<open>flush\<close>: the word open since \<open>start\<close>, if any.\<close>

definition flush_word :: "(string \<Rightarrow> string) \<Rightarrow> string \<Rightarrow> nat option \<Rightarrow> nat \<Rightarrow> string list" where
  "flush_word lower key start stop = (case start of None \<Rightarrow> [] | Some a \<Rightarrow> [lower (segment a stop key)])"

function split_loop :: "(string \<Rightarrow> string) \<Rightarrow> string \<Rightarrow> nat option \<Rightarrow> nat \<Rightarrow> string list" where
  "split_loop lower key start i =
     (if i < length key
      then if is_separator (key ! i) then flush_word lower key start i @ split_loop lower key None (i + 1)
           else if hump_at key i \<or> run_breaks_at key i then flush_word lower key start i @ split_loop lower key (Some i) (i + 1)
           else split_loop lower key (if start = None then Some i else start) (i + 1)
      else flush_word lower key start (length key))"
  by pat_completeness auto
termination
  by (relation "measure (\<lambda>(lower, key, start, i). length key - i)") auto

declare split_loop.simps [simp del]

definition splitKeyWords :: "(string \<Rightarrow> string) \<Rightarrow> string \<Rightarrow> string list" where
  "splitKeyWords lower key = split_loop lower key None 0"

definition matchesSecretKeyName :: "(string \<Rightarrow> string) \<Rightarrow> string \<Rightarrow> bool" where
  "matchesSecretKeyName lower key =
     (let words = splitKeyWords lower key
      in if words = [] then False
         else if last words \<in> set secretWords then True
         else last words = ''key'' \<and> length words \<ge> 2 \<and> words ! (length words - 2) \<in> set keyQualifiers)"

text \<open>
  The words are the name without its separators, lower-cased piece by piece: with a fold that works byte
  by byte nothing of the name is lost or reordered.
\<close>

lemma split_loop_concat:
  assumes "\<And>a. start = Some a \<Longrightarrow> a < i" "i \<le> length key"
  shows "concat (split_loop (map f) key start i) =
    map f ((case start of None \<Rightarrow> [] | Some a \<Rightarrow> segment a i key) @ filter (\<lambda>c. \<not> is_separator c) (drop i key))"
  using assms
proof (induction "map f" key start i rule: split_loop.induct)
  case (1 key start i)
  show ?case
  proof (cases "i < length key")
    case False
    with 1(5) show ?thesis by (auto simp: split_loop.simps [of _ key] flush_word_def split: option.split)
  next
    case True
    then have drop: "drop i key = key ! i # drop (i + 1) key" by (simp add: Cons_nth_drop_Suc)
    note step = split_loop.simps [of "map f" key start i]
    show ?thesis
    proof (cases "is_separator (key ! i)")
      case sep: True
      then show ?thesis using 1(1) [OF True sep] True unfolding step
        by (simp add: drop flush_word_def split: option.split)
    next
      case plain: False
      have one: "segment i (i + 1) key = [key ! i]" using True segment_snoc [of i i key] by simp
      show ?thesis
      proof (cases "hump_at key i \<or> run_breaks_at key i")
        case brk: True
        then show ?thesis using 1(2) [OF True plain brk] True plain one unfolding step
          by (simp add: drop flush_word_def split: option.split)
      next
        case go: False
        show ?thesis
        proof (cases start)
          case None
          then show ?thesis using 1(3) [OF True plain go] True plain go one unfolding step by (simp add: drop)
        next
          case (Some b)
          then have b: "b < i" using 1(4) by simp
          then have "segment b (i + 1) key = segment b i key @ [key ! i]" using True segment_snoc [of b i key] by simp
          then show ?thesis using 1(3) [OF True plain go] Some b True plain go unfolding step by (simp add: drop)
        qed
      qed
    qed
  qed
qed

lemma splitKeyWords_concat: "concat (splitKeyWords (map f) key) = map f (filter (\<lambda>c. \<not> is_separator c) key)"
  using split_loop_concat [of None 0 key f] by (simp add: splitKeyWords_def)

lemma secret_names_examples:
  "matchesSecretKeyName to_lower ''apiKey''" "matchesSecretKeyName to_lower ''x-api-key''" "matchesSecretKeyName to_lower ''AWSSecretKey''"
  "\<not> matchesSecretKeyName to_lower ''max_tokens''" "\<not> matchesSecretKeyName to_lower ''cache_key''"
  "\<not> matchesSecretKeyName to_lower ''secret_scanning_enabled''"
  by code_simp+

section \<open>Configured names\<close>

record configuredName =
  cn_upper :: string
  cn_suffix :: bool

record keyNameMatcher =
  km_re :: "string \<Rightarrow> nat \<Rightarrow> submatch option"
  km_names :: "configuredName list"
  km_stems :: "string list"

definition isASCII :: "string \<Rightarrow> bool" where
  "isASCII s \<longleftrightarrow> list_all (\<lambda>c. byte c < 0x80) s"

text \<open>\<^verbatim>\<open>regexp.QuoteMeta\<close>.\<close>

definition QuoteMeta :: "string \<Rightarrow> string" where
  "QuoteMeta s = concat (map (\<lambda>c. if c \<in> set ([CHR 0x5C] @ ''.+*?()|[]{}^$'') then [CHR 0x5C, c] else [c]) s)"

definition join_alts :: "string list \<Rightarrow> string" where
  "join_alts alts = concat (case alts of [] \<Rightarrow> [] | a # as \<Rightarrow> a # map (\<lambda>b. CHR ''|'' # b) as)"

definition key_name_pattern :: "string list \<Rightarrow> string" where
  "key_name_pattern alts =
     (let b = [CHR 0x5C]; q = [CHR 0x22]; t = [CHR 0x27]
      in ''(?i)'' @ b @ ''b(?:'' @ join_alts alts @ '')'' @ b @ ''b'' @ b @ ''s*[:=]'' @ b @ ''s*'' @ q @ ''?([^'' @ b @ ''s'' @ q @ t @ '',;)]+)'' @ q @ ''?'')"

definition name_literal :: "string \<Rightarrow> string" where
  "name_literal n = (case cut_prefix n ''*'' of Some rest \<Rightarrow> rest | None \<Rightarrow> n)"

definition name_alt :: "string \<Rightarrow> string" where
  "name_alt n = (case cut_prefix n ''*'' of Some rest \<Rightarrow> ''[A-Za-z0-9_]*'' @ QuoteMeta rest | None \<Rightarrow> QuoteMeta n)"

text \<open>A pattern that does not compile panics, which is \<^const>\<open>None\<close>.\<close>

definition newKeyNameMatcher ::
  "compiler \<Rightarrow> (string \<Rightarrow> string) \<Rightarrow> (string \<Rightarrow> string) \<Rightarrow> string list \<Rightarrow> keyNameMatcher option" where
  "newKeyNameMatcher compile lower upper names =
     (let unfiltered = list_ex (\<lambda>n. name_literal n = [] \<or> \<not> isASCII (name_literal n)) names;
          stems = map (lower \<circ> name_literal) (filter (\<lambda>n. \<not> (name_literal n = [] \<or> \<not> isASCII (name_literal n))) names)
      in map_option (\<lambda>re. \<lparr>km_re = re,
             km_names = map (\<lambda>n. \<lparr>cn_upper = upper (name_literal n), cn_suffix = (cut_prefix n ''*'' \<noteq> None)\<rparr>) names,
             km_stems = (if unfiltered \<or> stems = [] then [] else stems)\<rparr>)
           (compile (key_name_pattern (map name_alt names))))"

definition DefaultSecretKeyNames :: "string list" where
  "DefaultSecretKeyNames =
     [''AWS_SECRET_ACCESS_KEY'', ''AWS_SESSION_TOKEN'', ''AWS_ACCESS_KEY_ID'', ''ANTHROPIC_API_KEY'', ''OPENAI_API_KEY'', ''GEMINI_API_KEY'',
      ''GITHUB_TOKEN'', ''GH_TOKEN'', ''GITLAB_TOKEN'', ''STRIPE_SECRET_KEY'', ''DATABASE_URL'', ''REDIS_URL'',
      ''*_TOKEN'', ''*_SECRET'', ''*_PASSWORD'', ''*_APIKEY'', ''*_API_KEY'', ''*_PRIVATE_KEY'', ''*_CREDENTIALS'', ''*_PASSWD'']"

definition key_name :: string where "key_name = ''key-name''"

text \<open>\<^verbatim>\<open>keyNameMatcher.MatchScannedIn\<close>: the first group of every match.\<close>

definition key_name_spans :: "keyNameMatcher \<Rightarrow> string \<Rightarrow> Span list" where
  "key_name_spans m v = List.map_filter
     (\<lambda>loc. if length loc < 2 then None
            else case loc ! 1 of None \<Rightarrow> None | Some (a, b) \<Rightarrow> Some \<lparr>sp_Start = a, sp_End = b, sp_RuleID = key_name\<rparr>)
     (find_all_sub (km_re m) v 0)"

definition MatchesKeyName :: "(string \<Rightarrow> string) \<Rightarrow> (string \<Rightarrow> string) \<Rightarrow> keyNameMatcher \<Rightarrow> string \<Rightarrow> bool" where
  "MatchesKeyName lower upper m key =
     (if key = [] then False
      else if matchesSecretKeyName lower key then True
      else list_ex (\<lambda>n. cn_suffix n \<and> suffix (cn_upper n) (upper key) \<or> \<not> cn_suffix n \<and> upper key = cn_upper n) (km_names m))"

text \<open>Every configured name is one itself, and a starred one is whatever stands before its literal.\<close>

lemma configured_name_matches:
  assumes "newKeyNameMatcher compile lower upper names = Some m" "n \<in> set names" "key \<noteq> []"
    and "if cut_prefix n ''*'' = None then upper key = upper n else suffix (upper (name_literal n)) (upper key)"
  shows "MatchesKeyName lower upper m key"
proof -
  have "km_names m = map (\<lambda>n. \<lparr>cn_upper = upper (name_literal n), cn_suffix = (cut_prefix n ''*'' \<noteq> None)\<rparr>) names"
    using assms(1) by (auto simp: newKeyNameMatcher_def Let_def)
  moreover have "name_literal n = n" if "cut_prefix n ''*'' = None" using that by (simp add: name_literal_def)
  ultimately show ?thesis using assms(2-4) by (force simp: MatchesKeyName_def list_ex_iff split: if_splits)
qed

lemma key_name_pattern_default:
  "key_name_pattern (map name_alt [''GH_TOKEN'', ''*_SECRET'']) =
     ''(?i)'' @ [CHR 0x5C] @ ''b(?:GH_TOKEN|[A-Za-z0-9_]*_SECRET)'' @ [CHR 0x5C] @ ''b'' @ [CHR 0x5C] @ ''s*[:=]'' @ [CHR 0x5C] @ ''s*'' @
       [CHR 0x22] @ ''?([^'' @ [CHR 0x5C] @ ''s'' @ [CHR 0x22, CHR 0x27] @ '',;)]+)'' @ [CHR 0x22] @ ''?''"
  by code_simp

end
