(* ===== verification/Exemptions.thy ===== *)
theory Exemptions
  imports Scrub_Spans
begin

text \<open>
  Which fields the heuristics leave alone and which are dropped whole:
  \<^verbatim>\<open>ExemptionSet\<close> of \<^verbatim>\<open>src/internal/transforms/matcher.go\<close> and
  \<^verbatim>\<open>drops.go\<close>. A Go map is its entries in some order; the sets built from it do not depend on
  it. The compiled tables of \<^verbatim>\<open>exemptions.go\<close> and \<^verbatim>\<open>drops.go\<close> are data and enter as arguments.
\<close>

type_synonym FieldPath = string

definition joinFieldPath :: "FieldPath \<Rightarrow> string \<Rightarrow> FieldPath" where
  "joinFieldPath parent child = (if parent = [] then child else parent @ ''.'' @ child)"

section \<open>Exemptions\<close>

record ExemptionSet =
  ex_byFamily :: "(string, FieldPath list) gomap"
  ex_global :: "FieldPath list"

definition family_paths :: "(string, FieldPath list) gomap \<Rightarrow> string \<Rightarrow> FieldPath list" where
  "family_paths m family = (case map_get m family of None \<Rightarrow> [] | Some ps \<Rightarrow> ps)"

text \<open>One turn of the loop over the configured families.\<close>

definition add_exempt :: "ExemptionSet \<Rightarrow> string \<times> FieldPath list \<Rightarrow> ExemptionSet" where
  "add_exempt e entry =
     (case entry of (family, paths) \<Rightarrow>
        if family = ''*'' then e\<lparr>ex_global := ex_global e @ paths\<rparr>
        else e\<lparr>ex_byFamily := map_put family (family_paths (ex_byFamily e) family @ paths) (ex_byFamily e)\<rparr>)"

definition NewExemptionSet :: "(string \<times> FieldPath list) list \<Rightarrow> ExemptionSet" where
  "NewExemptionSet spec = foldl add_exempt \<lparr>ex_byFamily = [], ex_global = []\<rparr> spec"

definition Exempt :: "ExemptionSet \<Rightarrow> string \<Rightarrow> FieldPath \<Rightarrow> bool" where
  "Exempt e family field = (if field \<in> set (ex_global e) then True else field \<in> set (family_paths (ex_byFamily e) family))"

definition ExemptKeys :: "ExemptionSet \<Rightarrow> string \<Rightarrow> FieldPath \<Rightarrow> bool" where
  "ExemptKeys e family parent = Exempt e family (joinFieldPath parent ''*'')"

lemma foldl_add_exempt:
  assumes "map_ok (ex_byFamily e)" "family \<noteq> ''*''"
  shows "Exempt (foldl add_exempt e spec) family field \<longleftrightarrow>
    Exempt e family field \<or> (\<exists>(f, ps) \<in> set spec. (f = ''*'' \<or> f = family) \<and> field \<in> set ps)"
  using assms(1)
proof (induction spec arbitrary: e)
  case (Cons entry spec)
  obtain f ps where entry: "entry = (f, ps)" by (rule prod.exhaust)
  have ok: "map_ok (ex_byFamily (add_exempt e entry))" using Cons.prems by (simp add: add_exempt_def entry)
  have "Exempt (add_exempt e entry) family field \<longleftrightarrow> Exempt e family field \<or> (f = ''*'' \<or> f = family) \<and> field \<in> set ps"
    using Cons.prems assms(2) by (auto simp: add_exempt_def entry Exempt_def family_paths_def)
  then show ?case using Cons.IH [OF ok] by (simp add: entry)
qed simp

text \<open>A field is exempt exactly when the configuration lists it, for its family or for all.\<close>

lemma Exempt_iff:
  "family \<noteq> ''*'' \<Longrightarrow> Exempt (NewExemptionSet spec) family field \<longleftrightarrow>
     (\<exists>(f, ps) \<in> set spec. (f = ''*'' \<or> f = family) \<and> field \<in> set ps)"
  using foldl_add_exempt [of "\<lparr>ex_byFamily = [], ex_global = []\<rparr>" family spec field]
  by (simp add: NewExemptionSet_def Exempt_def family_paths_def map_get_def)

section \<open>Drops\<close>

definition Dropped :: string where "Dropped = ''dropped''"
definition droppedSentinel :: string where "droppedSentinel = Sentinel Dropped"
definition dropMinLength :: nat where "dropMinLength = 160"
definition embeddedSuffix :: string where "embeddedSuffix = ''#json''"

datatype drop_error = DropNeedsFamily string | DropNeedsPath string | DropEmbedded string string | DropTwice string string

text \<open>The loop over the paths of a family, and the one over the families.\<close>

fun drop_paths :: "string \<Rightarrow> FieldPath list \<Rightarrow> FieldPath list \<Rightarrow> drop_error + FieldPath list" where
  "drop_paths family seen [] = Inr seen"
| "drop_paths family seen (p # ps) =
     (if p = [] then Inl (DropNeedsPath family)
      else if contains p embeddedSuffix then Inl (DropEmbedded family p)
      else if p \<in> set seen then Inl (DropTwice family p)
      else drop_paths family (seen @ [p]) ps)"

fun compileDrops :: "(string \<times> FieldPath list) list \<Rightarrow> drop_error + (string, FieldPath list) gomap" where
  "compileDrops [] = Inr []"
| "compileDrops ((family, paths) # spec) =
     (if family = ''*'' \<or> family = [] then Inl (DropNeedsFamily family)
      else case drop_paths family [] paths of
             Inl e \<Rightarrow> Inl e
           | Inr ps \<Rightarrow> (case compileDrops spec of Inl e \<Rightarrow> Inl e | Inr m \<Rightarrow> Inr ((family, ps) # m)))"

text \<open>The part of \<^verbatim>\<open>New\<close> that lets an exemption outrank a drop.\<close>

definition live_drops :: "ExemptionSet \<Rightarrow> (string, FieldPath list) gomap \<Rightarrow> (string, FieldPath list) gomap" where
  "live_drops e m = map (\<lambda>(family, ps). (family, filter (\<lambda>p. \<not> Exempt e family p) ps)) m"

lemma drop_paths_ok:
  "drop_paths family seen ps = Inr out \<Longrightarrow>
     out = seen @ ps \<and> [] \<notin> set ps \<and> list_all (\<lambda>p. \<not> contains p embeddedSuffix) ps \<and> (distinct seen \<longrightarrow> distinct out)"
  by (induction family seen ps rule: drop_paths.induct) (auto split: if_splits)

lemma compileDrops_ok:
  "compileDrops spec = Inr m \<Longrightarrow>
     m = spec \<and> list_all (\<lambda>(f, ps). f \<noteq> ''*'' \<and> f \<noteq> [] \<and> distinct ps \<and> [] \<notin> set ps \<and> list_all (\<lambda>p. \<not> contains p embeddedSuffix) ps) spec"
proof (induction spec arbitrary: m rule: compileDrops.induct)
  case (2 family paths spec)
  from "2.prems" obtain ps m' where "family \<noteq> ''*''" "family \<noteq> []" "drop_paths family [] paths = Inr ps"
      "compileDrops spec = Inr m'" "m = (family, ps) # m'"
    by (auto split: if_splits sum.splits)
  with "2.IH" drop_paths_ok [of family "[]" paths ps] show ?case by auto
qed simp

text \<open>An exempt path is never dropped, whatever the compiled table says.\<close>

lemma live_drops_not_exempt:
  "map_get (live_drops e m) family = Some ps \<Longrightarrow> p \<in> set ps \<Longrightarrow> \<not> Exempt e family p"
  unfolding live_drops_def map_get_def by (auto simp: map_of_map dest!: map_of_SomeD)

end
