(* ===== verification/Base64_Text.thy ===== *)
theory Base64_Text
  imports Entropy Go_Runes
begin

text \<open>
  The speculative decoding of \<^verbatim>\<open>base64Hit\<close>, \<^verbatim>\<open>src/internal/transforms/scrub.go\<close>: the shape
  test and the four decoders of \<^verbatim>\<open>encoding/base64\<close>, which skip carriage returns and line feeds
  and do not look at the unused bits of the last character.
\<close>

definition base64MinLength :: nat where "base64MinLength = 32"

definition base64Shaped :: "string \<Rightarrow> bool" where
  "base64Shaped s \<longleftrightarrow> list_all (\<lambda>c. isAlnum c \<or> c = CHR ''+'' \<or> c = CHR ''/'' \<or> c = CHR ''='' \<or> c = CHR ''-'' \<or> c = CHR ''_'' \<or> c = CHR 0x0D) s"

section \<open>The decoders\<close>

record base64_enc =
  b64_url :: bool
  b64_padded :: bool

definition StdEncoding :: base64_enc where "StdEncoding = \<lparr>b64_url = False, b64_padded = True\<rparr>"
definition RawStdEncoding :: base64_enc where "RawStdEncoding = \<lparr>b64_url = False, b64_padded = False\<rparr>"
definition URLEncoding :: base64_enc where "URLEncoding = \<lparr>b64_url = True, b64_padded = True\<rparr>"
definition RawURLEncoding :: base64_enc where "RawURLEncoding = \<lparr>b64_url = True, b64_padded = False\<rparr>"

definition sextet :: "base64_enc \<Rightarrow> char \<Rightarrow> nat option" where
  "sextet e c =
     (if is_upper c then Some (byte c - 65)
      else if is_lower c then Some (byte c - 71)
      else if is_digit c then Some (byte c + 4)
      else if c = (if b64_url e then CHR ''-'' else CHR ''+'') then Some 62
      else if c = (if b64_url e then CHR ''_'' else CHR ''/'') then Some 63
      else None)"

text \<open>The bytes of two, three or four sextets.\<close>

definition bytes1 :: "nat \<Rightarrow> nat \<Rightarrow> string" where
  "bytes1 a b = [char_of (a * 4 + b div 16)]"

definition bytes2 :: "nat \<Rightarrow> nat \<Rightarrow> nat \<Rightarrow> string" where
  "bytes2 a b c = bytes1 a b @ [char_of (b mod 16 * 16 + c div 4)]"

definition bytes3 :: "nat \<Rightarrow> nat \<Rightarrow> nat \<Rightarrow> nat \<Rightarrow> string" where
  "bytes3 a b c d = bytes2 a b c @ [char_of (c mod 4 * 64 + d)]"

definition is_pad :: "base64_enc \<Rightarrow> char \<Rightarrow> bool" where
  "is_pad e c \<longleftrightarrow> b64_padded e \<and> c = CHR ''=''"

text \<open>One quantum after another; padding ends the input, and only the raw encodings end in a short quantum.\<close>

fun quanta :: "base64_enc \<Rightarrow> string \<Rightarrow> string option" where
  "quanta e [] = Some []"
| "quanta e [a] = None"
| "quanta e [a, b] =
     (if b64_padded e then None
      else case (sextet e a, sextet e b) of (Some x, Some y) \<Rightarrow> Some (bytes1 x y) | _ \<Rightarrow> None)"
| "quanta e [a, b, c] =
     (if b64_padded e then None
      else case (sextet e a, sextet e b, sextet e c) of (Some x, Some y, Some z) \<Rightarrow> Some (bytes2 x y z) | _ \<Rightarrow> None)"
| "quanta e (a # b # c # d # rest) =
     (case (sextet e a, sextet e b) of
        (Some x, Some y) \<Rightarrow>
          (case sextet e c of
             Some z \<Rightarrow>
               (case sextet e d of
                  Some w \<Rightarrow> map_option ((@) (bytes3 x y z w)) (quanta e rest)
                | None \<Rightarrow> if is_pad e d \<and> rest = [] then Some (bytes2 x y z) else None)
           | None \<Rightarrow> if is_pad e c \<and> is_pad e d \<and> rest = [] then Some (bytes1 x y) else None)
      | _ \<Rightarrow> None)"

definition DecodeString :: "base64_enc \<Rightarrow> string \<Rightarrow> string option" where
  "DecodeString e s = quanta e (filter (\<lambda>c. c \<noteq> CHR 0x0D \<and> c \<noteq> CHR 0x0A) s)"

text \<open>The first of the four that decodes to something.\<close>

definition first_decoded :: "string \<Rightarrow> string option" where
  "first_decoded s =
     (case List.map_filter (\<lambda>e. case DecodeString e s of None \<Rightarrow> None | Some t \<Rightarrow> if t = [] then None else Some t)
            [StdEncoding, RawStdEncoding, URLEncoding, RawURLEncoding] of
        [] \<Rightarrow> None
      | t # _ \<Rightarrow> Some t)"

section \<open>What the shape test rejects\<close>

text \<open>
  A text the shape test rejects for a byte other than a line feed is one no decoder accepts; the
  line feed is the byte the test leaves out.
\<close>

lemma quanta_alphabet: "quanta e s = Some t \<Longrightarrow> list_all (\<lambda>c. sextet e c \<noteq> None \<or> is_pad e c) s"
proof (induction e s arbitrary: t rule: quanta.induct)
  case (5 e a b c d rest)
  then show ?case by (cases "sextet e c"; cases "sextet e d") (auto split: option.splits if_splits)
qed (auto split: option.splits if_splits)

lemma sextet_shaped: "sextet e c \<noteq> None \<or> is_pad e c \<Longrightarrow> base64Shaped [c]"
  by (auto simp: sextet_def base64Shaped_def isAlnum_def is_pad_def is_upper_def split: if_splits)

lemma decoded_is_shaped:
  assumes "DecodeString e s = Some t"
  shows "list_all (\<lambda>c. base64Shaped [c] \<or> c = CHR 0x0A) s"
proof -
  have "list_all (\<lambda>c. sextet e c \<noteq> None \<or> is_pad e c) (filter (\<lambda>c. c \<noteq> CHR 0x0D \<and> c \<noteq> CHR 0x0A) s)"
    using quanta_alphabet assms by (auto simp: DecodeString_def)
  moreover have "base64Shaped [CHR 0x0D]" by (simp add: base64Shaped_def)
  ultimately show ?thesis using sextet_shaped by (fastforce simp: list_all_iff)
qed

lemma base64Shaped_iff: "base64Shaped s \<longleftrightarrow> list_all (\<lambda>c. base64Shaped [c]) s"
  by (simp add: base64Shaped_def list_all_iff)

lemma unshaped_never_decodes:
  assumes "\<not> base64Shaped s" "CHR 0x0A \<notin> set s"
  shows "first_decoded s = None"
proof -
  have "DecodeString e s = None" for e
    using decoded_is_shaped [of e s] assms base64Shaped_iff [of s] by (cases "DecodeString e s") (auto simp: list_all_iff)
  then show ?thesis by (simp add: first_decoded_def map_filter_simps)
qed

lemma base64_examples:
  "DecodeString StdEncoding ''aGVsbG8='' = Some ''hello''" "DecodeString RawStdEncoding ''aGVsbG8'' = Some ''hello''"
  "DecodeString StdEncoding ''aGVsbG8'' = None" "DecodeString URLEncoding ''-_-_'' = Some (map char_of [251::nat, 255, 191])"
  "DecodeString StdEncoding ''aGVs=G8='' = None"
  "DecodeString StdEncoding (''aGVs'' @ [CHR 0x0A] @ ''bG8='') = Some ''hello''" "\<not> base64Shaped (''aGVs'' @ [CHR 0x0A] @ ''bG8='')"
  by code_simp+

end
