(* ===== verification/Suffix_Words.thy ===== *)
theory Suffix_Words
  imports Go_Prelude "HOL-Library.Sublist"
begin

text \<open>
  The longest suffix of a text that belongs to a prefix-closed set of words: what a state of an
  Aho-Corasick automaton stands for.
\<close>

fun lsuf :: "'a list list \<Rightarrow> 'a list \<Rightarrow> 'a list" where
  "lsuf W [] = []"
| "lsuf W (x # xs) = (if x # xs \<in> set W then x # xs else lsuf W xs)"

definition prefix_closed :: "'a list list \<Rightarrow> bool" where
  "prefix_closed W \<longleftrightarrow> [] \<in> set W \<and> (\<forall>w c. w @ [c] \<in> set W \<longrightarrow> w \<in> set W)"

lemma lsuf_in: "[] \<in> set W \<Longrightarrow> lsuf W s \<in> set W"
  by (induction s) auto

lemma lsuf_suffix: "suffix (lsuf W s) s"
  by (induction s) (auto intro: suffix_ConsI)

lemma lsuf_fix: "s \<in> set W \<Longrightarrow> lsuf W s = s"
  by (cases s) auto

lemma lsuf_length: "length (lsuf W s) \<le> length s"
  using lsuf_suffix [of W s] by (rule suffix_length_le)

text \<open>A word ends a text exactly when it ends the longest suffix.\<close>

lemma suffix_lsuf: "w \<in> set W \<Longrightarrow> suffix w s \<longleftrightarrow> suffix w (lsuf W s)"
proof (induction s)
  case (Cons x xs)
  then show ?case by (auto simp: suffix_Cons)
qed simp

text \<open>Reading one more symbol needs only the longest suffix.\<close>

lemma lsuf_step: "prefix_closed W \<Longrightarrow> lsuf W (lsuf W s @ [c]) = lsuf W (s @ [c])"
proof (induction s)
  case (Cons x xs)
  show ?case
  proof (cases "x # xs \<in> set W")
    case False
    then have "(x # xs) @ [c] \<notin> set W" using Cons.prems unfolding prefix_closed_def by blast
    with False Cons show ?thesis by simp
  qed simp
qed simp

lemma lsuf_tail: "prefix_closed W \<Longrightarrow> w \<noteq> [] \<Longrightarrow> w @ [c] \<notin> set W \<Longrightarrow> lsuf W (w @ [c]) = lsuf W (lsuf W (tl w) @ [c])"
  by (cases w) (simp_all add: lsuf_step)

lemma prefix_closedD: "prefix_closed W \<Longrightarrow> w @ [c] \<in> set W \<Longrightarrow> w \<in> set W" "prefix_closed W \<Longrightarrow> [] \<in> set W"
  by (auto simp: prefix_closed_def)

end
