(* ===== verification/Prefilter.thy ===== *)
theory Prefilter
  imports Anchor Bitset Suffix_Words
begin

text \<open>
  The keyword prefilter, \<^verbatim>\<open>src/internal/transforms/packs/prefilter.go\<close>: an Aho-Corasick
  automaton over the folded keywords of all the rules, compiled into one table, which a scan walks once
  to say which rules can match at all.
\<close>

section \<open>Gates\<close>

type_synonym Seen = "64 word list"
type_synonym Gate = int

definition AlwaysGate :: Gate where "AlwaysGate = -1"
definition maxGates :: nat where "maxGates = 256"
definition seenWords :: nat where "seenWords = maxGates div 64"

definition no_gates :: Seen where "no_gates = replicate seenWords 0"

definition seen_Has :: "Seen \<Rightarrow> Gate \<Rightarrow> bool" where
  "seen_Has s g = (if g < 0 then True else hasBit s (nat g))"

definition seen_or :: "Seen \<Rightarrow> Seen \<Rightarrow> Seen" where
  "seen_or s t = map2 (OR) s t"

definition seen_set :: "Seen \<Rightarrow> Gate \<Rightarrow> Seen" where
  "seen_set s g = setBit s (nat g)"

section \<open>Collecting keywords\<close>

datatype prefilter_error = TooManyGates | EmptyKeyword | KeywordNotASCII string

record PrefilterBuilder =
  pb_keywords :: "(string \<times> Gate) list"
  pb_gates :: nat

definition NewPrefilterBuilder :: PrefilterBuilder where
  "NewPrefilterBuilder = \<lparr>pb_keywords = [], pb_gates = 0\<rparr>"

definition foldKeyword :: "string \<Rightarrow> prefilter_error + string" where
  "foldKeyword k = (if \<not> list_all (\<lambda>c. byte c < 0x80) k then Inl (KeywordNotASCII k) else Inr (map asciiLower k))"

fun add_keywords :: "string list \<Rightarrow> Gate \<Rightarrow> (string \<times> Gate) list \<Rightarrow> prefilter_error + (string \<times> Gate) list" where
  "add_keywords [] g acc = Inr acc"
| "add_keywords (k # ks) g acc =
     (if k = [] then Inl EmptyKeyword
      else case foldKeyword k of Inl e \<Rightarrow> Inl e | Inr f \<Rightarrow> add_keywords ks g (acc @ [(f, g)]))"

definition AddKeywords :: "string list \<Rightarrow> PrefilterBuilder \<Rightarrow> prefilter_error + Gate \<times> PrefilterBuilder" where
  "AddKeywords keywords b =
     (if keywords = [] then Inr (AlwaysGate, b)
      else if pb_gates b \<ge> maxGates then Inl TooManyGates
      else case add_keywords keywords (int (pb_gates b)) (pb_keywords b) of
             Inl e \<Rightarrow> Inl e
           | Inr kws \<Rightarrow> Inr (int (pb_gates b), \<lparr>pb_keywords = kws, pb_gates = pb_gates b + 1\<rparr>))"

section \<open>The alphabet\<close>

definition used_bytes :: "(string \<times> Gate) list \<Rightarrow> nat \<Rightarrow> bool" where
  "used_bytes kws n \<longleftrightarrow> list_ex (\<lambda>(k, g). list_ex (\<lambda>c. byte c = n) k) kws"

text \<open>The columns handed out to the used bytes, in byte order; column 0 is every other byte.\<close>

definition column :: "(nat \<Rightarrow> bool) \<Rightarrow> nat \<Rightarrow> nat" where
  "column used n = (if n < 0x80 \<and> used n then Suc (length (filter used [0 ..< n])) else 0)"

definition table_width :: "(nat \<Rightarrow> bool) \<Rightarrow> nat" where
  "table_width used = Suc (length (filter used [0 ..< 0x80]))"

text \<open>Upper case takes the column of lower case.\<close>

definition class_table :: "(nat \<Rightarrow> bool) \<Rightarrow> nat list" where
  "class_table used = map (\<lambda>n. if 65 \<le> n \<and> n \<le> 90 then column used (n + 32) else column used n) [0 ..< 256]"

section \<open>The trie\<close>

record node =
  nd_next :: "int list"
  nd_out :: Seen
  nd_fail :: nat

definition newNode :: "nat \<Rightarrow> node" where
  "newNode width = \<lparr>nd_next = replicate width (- 1), nd_out = no_gates, nd_fail = 0\<rparr>"

definition set_next :: "nat \<Rightarrow> nat \<Rightarrow> int \<Rightarrow> node list \<Rightarrow> node list" where
  "set_next u c v nodes = nodes[u := (nodes ! u)\<lparr>nd_next := (nd_next (nodes ! u))[c := v]\<rparr>]"

text \<open>The inner loop over the bytes of a keyword, and its end.\<close>

fun insert_bytes :: "nat list \<Rightarrow> nat \<Rightarrow> string \<Rightarrow> nat \<Rightarrow> node list \<Rightarrow> nat \<times> node list" where
  "insert_bytes classes width [] cur nodes = (cur, nodes)"
| "insert_bytes classes width (b # bs) cur nodes =
     (let c = classes ! byte b
      in if nd_next (nodes ! cur) ! c < 0
         then insert_bytes classes width bs (length nodes) (set_next cur c (int (length nodes)) (nodes @ [newNode width]))
         else insert_bytes classes width bs (nat (nd_next (nodes ! cur) ! c)) nodes)"

definition insert_keyword :: "nat list \<Rightarrow> nat \<Rightarrow> node list \<Rightarrow> string \<times> Gate \<Rightarrow> node list" where
  "insert_keyword classes width nodes k =
     (let (cur, nodes') = insert_bytes classes width (fst k) 0 nodes
      in nodes'[cur := (nodes' ! cur)\<lparr>nd_out := seen_set (nd_out (nodes' ! cur)) (snd k)\<rparr>])"

section \<open>Failure links\<close>

text \<open>The root: an absent edge leads back to it, a child fails to it and is queued.\<close>

definition root_column :: "node list \<times> nat list \<Rightarrow> nat \<Rightarrow> node list \<times> nat list" where
  "root_column st c =
     (let (nodes, queue) = st; child = nd_next (nodes ! 0) ! c
      in if child < 0 then (set_next 0 c 0 nodes, queue)
         else (nodes[nat child := (nodes ! nat child)\<lparr>nd_fail := 0\<rparr>], queue @ [nat child]))"

text \<open>One column of a queued node: an absent edge becomes the one of the failure target.\<close>

definition node_column :: "nat \<Rightarrow> node list \<times> nat list \<Rightarrow> nat \<Rightarrow> node list \<times> nat list" where
  "node_column u st c =
     (let (nodes, queue) = st;
          child = nd_next (nodes ! u) ! c;
          via = nd_next (nodes ! nd_fail (nodes ! u)) ! c
      in if child < 0 then (set_next u c via nodes, queue)
         else (nodes[nat child := (nodes ! nat child)\<lparr>nd_fail := nat via\<rparr>], queue @ [nat child]))"

definition node_out :: "nat \<Rightarrow> node list \<Rightarrow> node list" where
  "node_out u nodes = nodes[u := (nodes ! u)\<lparr>nd_out := seen_or (nd_out (nodes ! u)) (nd_out (nodes ! nd_fail (nodes ! u)))\<rparr>]"

text \<open>The queue holds every node but the root once, so as many turns as there are nodes empty it.\<close>

fun link_loop :: "nat \<Rightarrow> nat \<Rightarrow> node list \<times> nat list \<Rightarrow> nat \<Rightarrow> node list" where
  "link_loop 0 width st i = fst st"
| "link_loop (Suc n) width st i =
     (if i < length (snd st)
      then let u = snd st ! i
           in link_loop n width (foldl (node_column u) (node_out u (fst st), snd st) [0 ..< width]) (i + 1)
      else fst st)"

section \<open>The table\<close>

record Prefilter =
  pf_classes :: "nat list"
  pf_next :: "32 word list"
  pf_width :: nat
  pf_outputs :: "Seen list"

definition hasOutput :: "32 word" where "hasOutput = push_bit 31 1"

definition table_entry :: "node list \<Rightarrow> int \<Rightarrow> 32 word" where
  "table_entry nodes target =
     (let e = word_of_int target
      in if nd_out (nodes ! nat target) \<noteq> no_gates then e OR hasOutput else e)"

definition trie_of :: "nat list \<Rightarrow> nat \<Rightarrow> (string \<times> Gate) list \<Rightarrow> node list" where
  "trie_of classes width kws = foldl (insert_keyword classes width) [newNode width] kws"

definition linked :: "nat \<Rightarrow> node list \<Rightarrow> node list" where
  "linked width nodes = link_loop (length nodes) width (foldl root_column (nodes, []) [0 ..< width]) 0"

definition Build :: "PrefilterBuilder \<Rightarrow> Prefilter" where
  "Build b =
     (let used = used_bytes (pb_keywords b);
          classes = class_table used;
          width = table_width used;
          nodes = linked width (trie_of classes width (pb_keywords b))
      in \<lparr>pf_classes = classes,
          pf_next = concat (map (\<lambda>n. map (\<lambda>c. table_entry nodes (nd_next n ! c)) [0 ..< width]) nodes),
          pf_width = width,
          pf_outputs = map nd_out nodes\<rparr>)"

section \<open>Scanning\<close>

definition scan_step :: "Prefilter \<Rightarrow> Seen \<times> 32 word \<Rightarrow> char \<Rightarrow> Seen \<times> 32 word" where
  "scan_step p st c =
     (let (seen, state) = st;
          entry = pf_next p ! (unat state * pf_width p + pf_classes p ! byte c);
          state' = entry AND NOT hasOutput
      in (if entry AND hasOutput \<noteq> 0 then seen_or seen (pf_outputs p ! unat state') else seen, state'))"

definition Scan :: "Prefilter \<Rightarrow> string \<Rightarrow> Seen" where
  "Scan p value = fst (foldl (scan_step p) (no_gates, 0) value)"

end
