(* ===== verification/Scrub_Plan.thy ===== *)
theory Scrub_Plan
  imports Base64_Text Redaction_Plan Escapes Exemptions Key_Names Prefilter
begin

text \<open>
  The ladder one value goes through, \<^verbatim>\<open>planValueWith\<close> of
  \<^verbatim>\<open>src/internal/transforms/scrub.go\<close>: the pattern rules behind the keyword prefilter, the
  entropy backstop, the second reading of a value that is itself encoded, the speculative base64
  decoding, the merging of what they report and the rewriter of user names. The shared walk of
  \<^verbatim>\<open>ValueScan\<close> is a cache of what a rule computes from the value and does not show here.
\<close>

section \<open>The compiled scrubber\<close>

datatype gatedMatcher = PackRule Rule | KeyNames keyNameMatcher

fun MatchScannedIn :: "gatedMatcher \<Rightarrow> string \<Rightarrow> Span list" where
  "MatchScannedIn (PackRule r) v = MatchScanned r v"
| "MatchScannedIn (KeyNames m) v = key_name_spans m v"

record gatedPattern =
  gp_m :: gatedMatcher
  gp_gate :: Gate

record Scrubber =
  sc_patterns :: "gatedPattern list"
  sc_entropy :: "entropyMatcher option"
  sc_pathUser :: string
  sc_keyNames :: keyNameMatcher
  sc_exempt :: ExemptionSet
  sc_drops :: "(string, FieldPath list) gomap"
  sc_prefilter :: Prefilter
  sc_keyValue :: "gatedPattern list"
  sc_keyValuePrefilter :: Prefilter

section \<open>The pattern rules\<close>

text \<open>What one pattern finds: nothing when its gate did not fire.\<close>

definition fired_spans :: "Prefilter \<Rightarrow> string \<Rightarrow> gatedPattern \<Rightarrow> Span list" where
  "fired_spans f v p = (if seen_Has (Scan f v) (gp_gate p) then MatchScannedIn (gp_m p) v else [])"

definition appendPatternSpans :: "Scrubber \<Rightarrow> Span list \<Rightarrow> string \<Rightarrow> Span list" where
  "appendPatternSpans s dst v = dst @ concat (map (fired_spans (sc_prefilter s) v) (sc_patterns s))"

definition spansKeyAndValue :: "Scrubber \<Rightarrow> string \<Rightarrow> bool" where
  "spansKeyAndValue s doc =
     (if sc_keyValue s = [] then False
      else list_ex (\<lambda>p. fired_spans (sc_keyValuePrefilter s) doc p \<noteq> []) (sc_keyValue s))"

definition keyNamesSecret :: "(string \<Rightarrow> string) \<Rightarrow> (string \<Rightarrow> string) \<Rightarrow> Scrubber \<Rightarrow> string \<Rightarrow> string \<Rightarrow> bool" where
  "keyNamesSecret lower upper s key v \<longleftrightarrow>
     key \<noteq> [] \<and> MatchesKeyName lower upper (sc_keyNames s) key \<and> v \<noteq> [] \<and> \<not> isSentinel v"

text \<open>\<^verbatim>\<open>strings.Trim(value[sp.Start:sp.End], `\`) == ""\<close>.\<close>

definition only_backslashes :: "string \<Rightarrow> Span \<Rightarrow> bool" where
  "only_backslashes v sp = (trim_list (\<lambda>c. c = backslash) (segment (sp_Start sp) (sp_End sp) v) = [])"

definition unionEscapeShadow :: "Scrubber \<Rightarrow> string \<Rightarrow> string \<Rightarrow> 64 word list option \<Rightarrow> Span list \<Rightarrow> Span list" where
  "unionEscapeShadow s v shadow escapes spans =
     (let kept = snapAll escapes (filter (\<lambda>sp. \<not> only_backslashes v sp) spans);
          found = snapAll escapes (appendPatternSpans s [] shadow)
      in foldl unionSpan kept found)"

section \<open>The base64 reading\<close>

definition base64Hit :: "Scrubber \<Rightarrow> string \<Rightarrow> string option" where
  "base64Hit s v =
     (let trimmed = TrimSpace v in
      if \<not> base64Shaped trimmed then None
      else case first_decoded trimmed of
             None \<Rightarrow> None
           | Some t \<Rightarrow>
               (case concat (map (fired_spans (sc_prefilter s) t) (sc_patterns s)) of
                  [] \<Rightarrow> None
                | sp # _ \<Rightarrow> Some (sp_RuleID sp)))"

section \<open>The plan of a value\<close>

text \<open>One replacement that takes the whole value.\<close>

definition whole_plan :: "string \<Rightarrow> string \<Rightarrow> valuePlan" where
  "whole_plan v ident =
     \<lparr>vp_spans = [\<lparr>rp_Start = 0, rp_End = length v, rp_Replacement = Sentinel ident\<rparr>],
      vp_redacted = int (length v), vp_hits = [(ident, 1)]\<rparr>"

definition sentinel_span :: "Span \<Rightarrow> replacementSpan" where
  "sentinel_span sp = \<lparr>rp_Start = sp_Start sp, rp_End = sp_End sp, rp_Replacement = Sentinel (sp_RuleID sp)\<rparr>"

text \<open>
  The user name rewriter runs last. \<^verbatim>\<open>slices.SortFunc\<close> is not stable, but the spans it sorts
  have distinct starts.
\<close>

definition add_user_spans :: "Scrubber \<Rightarrow> string \<Rightarrow> valuePlan \<Rightarrow> valuePlan" where
  "add_user_spans s v plan =
     (if sc_pathUser s = [] then plan
      else case pathUserReplacementSpans v (sc_pathUser s) (vp_spans plan) of
             (pathSpans, n) \<Rightarrow>
               if n > 0
               then \<lparr>vp_spans = sort_key rp_Start (vp_spans plan @ pathSpans), vp_redacted = vp_redacted plan + n,
                     vp_hits = bump ''path-user'' 1 (vp_hits plan)\<rparr>
               else plan)"

text \<open>What the pattern rules and the backstop report, after the second reading of an encoded value.\<close>

definition both_readings :: "Scrubber \<Rightarrow> string \<Rightarrow> entropyMatcher option \<Rightarrow> Span list \<times> Span list \<times> 64 word list option" where
  "both_readings s v entropy =
     (let patternSpans = appendPatternSpans s [] v;
          heuristicSpans = (case entropy of None \<Rightarrow> [] | Some m \<Rightarrow> entropy_Match m v);
          (shadow, escapes) = (if backslash \<in> set v then escapeShadow v else ([], None))
      in if escapes = None then (patternSpans, heuristicSpans, None)
         else (unionEscapeShadow s v shadow escapes patternSpans, snapAll escapes heuristicSpans, escapes))"

definition resolve_plan :: "Scrubber \<Rightarrow> string \<Rightarrow> entropyMatcher option \<Rightarrow> Span list \<Rightarrow> Span list \<Rightarrow> 64 word list option \<Rightarrow> valuePlan" where
  "resolve_plan s v entropy patternSpans heuristicSpans escapes =
     (let trimmed = (case entropy of
                       Some m \<Rightarrow> if patternSpans \<noteq> [] \<and> heuristicSpans \<noteq> []
                                 then trimAtPatterns m v heuristicSpans patternSpans escapes else heuristicSpans
                     | None \<Rightarrow> heuristicSpans);
          (resolved, redacted, hits) = resolveSpans patternSpans trimmed
      in add_user_spans s v \<lparr>vp_spans = map sentinel_span resolved, vp_redacted = redacted, vp_hits = hits\<rparr>)"

definition planValueWith :: "Scrubber \<Rightarrow> string \<Rightarrow> entropyMatcher option \<Rightarrow> bool \<Rightarrow> valuePlan" where
  "planValueWith s v entropy secretKey =
     (if secretKey then whole_plan v key_name
      else let (patternSpans, heuristicSpans, escapes) = both_readings s v entropy
           in case (if patternSpans = [] \<and> heuristicSpans = [] \<and> base64MinLength \<le> length v then base64Hit s v else None) of
                Some ident \<Rightarrow> whole_plan v ident
              | None \<Rightarrow> resolve_plan s v entropy patternSpans heuristicSpans escapes)"

text \<open>An exempt field stands down the backstop and nothing else.\<close>

definition planValue :: "Scrubber \<Rightarrow> string \<Rightarrow> bool \<Rightarrow> FieldPath \<Rightarrow> string \<Rightarrow> valuePlan" where
  "planValue s v secretKey field family =
     planValueWith s v (if Exempt (sc_exempt s) family field then None else sc_entropy s) secretKey"

definition planKey :: "Scrubber \<Rightarrow> string \<Rightarrow> FieldPath \<Rightarrow> string \<Rightarrow> valuePlan" where
  "planKey s key parent family =
     planValueWith s key
       (if Exempt (sc_exempt s) family (joinFieldPath parent key) \<or> ExemptKeys (sc_exempt s) family parent then None
        else sc_entropy s) False"

section \<open>Every plan is in order\<close>

text \<open>
  What the engine relies on of its matchers is the interface \<open>span_matcher\<close>: no empty span, none
  outside the value. \<open>scrubber_ok\<close> says it of every pattern; the backstop has it by construction.
\<close>

definition matcher_ok :: "gatedMatcher \<Rightarrow> bool" where
  "matcher_ok m \<longleftrightarrow> span_matcher (MatchScannedIn m)"

definition entropy_ok :: "entropyMatcher option \<Rightarrow> bool" where
  "entropy_ok e \<longleftrightarrow> (case e of None \<Rightarrow> True | Some m \<Rightarrow> \<exists>cfg user. m = newEntropyMatcher cfg user)"

definition scrubber_ok :: "Scrubber \<Rightarrow> bool" where
  "scrubber_ok s \<longleftrightarrow> (\<forall>p \<in> set (sc_patterns s). matcher_ok (gp_m p)) \<and> entropy_ok (sc_entropy s)"

definition spans_inside :: "nat \<Rightarrow> Span list \<Rightarrow> bool" where
  "spans_inside n ss \<longleftrightarrow> (\<forall>sp \<in> set ss. sp_Start sp < sp_End sp \<and> sp_End sp \<le> n)"

lemma spans_inside_simps [simp]:
  "spans_inside n []" "spans_inside n (as @ bs) \<longleftrightarrow> spans_inside n as \<and> spans_inside n bs"
  "spans_inside n (sp # as) \<longleftrightarrow> sp_Start sp < sp_End sp \<and> sp_End sp \<le> n \<and> spans_inside n as"
  by (auto simp: spans_inside_def)

lemma spans_inside_ok: "spans_inside n ss \<Longrightarrow> list_all span_ok ss"
  by (auto simp: spans_inside_def list_all_iff span_ok_def)

lemma spans_inside_filter: "spans_inside n ss \<Longrightarrow> spans_inside n (filter P ss)"
  by (auto simp: spans_inside_def)

lemma patterns_inside:
  assumes "scrubber_ok s"
  shows "spans_inside (length v) (appendPatternSpans s [] v)"
  using assms span_matcher.inside
  by (fastforce simp: appendPatternSpans_def spans_inside_def fired_spans_def scrubber_ok_def matcher_ok_def split: if_splits)

lemma heuristics_inside: "entropy_ok (Some m) \<Longrightarrow> spans_inside (length v) (entropy_Match m v)"
  using entropy.inside by (auto simp: entropy_ok_def spans_inside_def)

lemma snap_inside:
  assumes "escapeShadow v = (shadow, x)" "spans_inside (length v) ss"
  shows "spans_inside (length v) (snapAll x ss)"
    "covered ss \<subseteq> covered (snapAll x ss)"
proof -
  have *: "sp_Start (snap_span x sp) \<le> sp_Start sp \<and> sp_End sp \<le> sp_End (snap_span x sp) \<and> sp_End (snap_span x sp) \<le> length v"
    if "sp \<in> set ss" for sp
    using snap_within(1-3) [OF assms(1), of "sp_Start sp" "sp_End sp"] assms(2) that
    by (auto simp: snap_span_def spans_inside_def split: prod.splits)
  then show "spans_inside (length v) (snapAll x ss)"
    using assms(2) by (fastforce simp: snapAll_def spans_inside_def)
  show "covered ss \<subseteq> covered (snapAll x ss)"
  proof
    fix k assume "k \<in> covered ss"
    then obtain sp where sp: "sp \<in> set ss" "sp_Start sp \<le> k" "k < sp_End sp" by (auto simp: covered_def)
    with * [OF sp(1)] have "k \<in> {sp_Start (snap_span x sp) ..< sp_End (snap_span x sp)}" by auto
    with sp(1) show "k \<in> covered (snapAll x ss)" by (auto simp: covered_def snapAll_def)
  qed
qed

lemma unionSpan_inside:
  assumes "spans_inside n ss" "sp_Start sp < sp_End sp" "sp_End sp \<le> n"
  shows "spans_inside n (unionSpan ss sp)" "covered (unionSpan ss sp) = covered ss \<union> covered [sp]"
proof -
  from unionSpan_bounds [OF assms(1) [unfolded spans_inside_def] assms(2,3)]
  show "spans_inside n (unionSpan ss sp)" unfolding spans_inside_def .
  have "span_ok sp" using assms(2) by (simp add: span_ok_def)
  from unionSpan_covers(1) [OF spans_inside_ok [OF assms(1)] this]
  show "covered (unionSpan ss sp) = covered ss \<union> covered [sp]" .
qed

lemma union_all:
  "spans_inside n ss \<Longrightarrow> spans_inside n found \<Longrightarrow>
   spans_inside n (foldl unionSpan ss found) \<and> covered (foldl unionSpan ss found) = covered ss \<union> covered found"
proof (induction found arbitrary: ss)
  case (Cons sp found)
  then have sp: "sp_Start sp < sp_End sp" "sp_End sp \<le> n" "spans_inside n found" by simp_all
  note u = unionSpan_inside [OF Cons.prems(1) sp(1,2)]
  from Cons.IH [OF u(1) sp(3)] u(2) show ?case by (auto simp: Un_assoc)
qed simp

lemma resolve_step_inside:
  "spans_inside n resolved \<Longrightarrow> sp_Start s < sp_End s \<Longrightarrow> sp_End s \<le> n \<Longrightarrow>
   spans_inside n (fst (resolve_step (resolved, redacted, hits) s))"
  by (cases resolved) (auto intro: less_trans)

lemma resolve_fold_inside:
  "spans_inside n (fst st) \<Longrightarrow> list_all (\<lambda>s. sp_Start s < sp_End s \<and> sp_End s \<le> n) ss \<Longrightarrow>
   spans_inside n (fst (foldl resolve_step st ss))"
proof (induction ss arbitrary: st)
  case (Cons s ss)
  obtain r d h where st: "st = (r, d, h)" by (rule prod_cases3)
  have "spans_inside n (fst (resolve_step st s))"
    using resolve_step_inside [of n r s d h] Cons.prems st by simp
  then show ?case using Cons by simp
qed simp

lemma resolve_inside:
  assumes "spans_inside n ps" "spans_inside n hs" "resolveSpans ps hs = (rs, redacted, hits)"
  shows "spans_inside n rs"
proof (cases "ps = [] \<and> hs = []")
  case False
  let ?ss = "sort_key span_key (map (with_priority 0) ps @ map (with_priority 1) hs)"
  have "list_all (\<lambda>s. sp_Start s < sp_End s \<and> sp_End s \<le> n) ?ss"
    using assms(1,2) by (auto simp: list_all_iff spans_inside_def)
  then have "spans_inside n (fst (foldl resolve_step ([], 0, []) ?ss))" by (intro resolve_fold_inside) simp_all
  moreover have "rs = rev (fst (foldl resolve_step ([], 0, []) ?ss))"
    using assms(3) False by (auto simp: resolveSpans_def Let_def split: prod.splits)
  ultimately show ?thesis by (simp add: spans_inside_def)
qed (use assms(3) in \<open>simp add: resolveSpans_def\<close>)

lemma escapeShadow_plain: "backslash \<notin> set v \<Longrightarrow> escapeShadow v = ([], None)"
proof -
  assume "backslash \<notin> set v"
  then have "index_byte backslash (drop 0 v) = None" by (simp add: index_byte_None)
  then have "first_escape v 0 = None" by (subst first_escape.simps) simp
  then show ?thesis by (simp add: escapeShadow_def)
qed

lemma both_readings_spec:
  assumes "scrubber_ok s" "entropy_ok e" "both_readings s v e = (ps, hs, x)" "escapeShadow v = (shadow, x')"
  shows "x = x'" "spans_inside (length v) ps" "spans_inside (length v) hs"
    "covered (filter (\<lambda>sp. \<not> only_backslashes v sp) (appendPatternSpans s [] v)) \<subseteq> covered ps"
    "x' \<noteq> None \<Longrightarrow> covered (appendPatternSpans s [] shadow) \<subseteq> covered ps"
    "covered (case e of None \<Rightarrow> [] | Some m \<Rightarrow> entropy_Match m v) \<subseteq> covered hs"
proof -
  define h where "h = (case e of None \<Rightarrow> [] | Some m \<Rightarrow> entropy_Match m v)"
  have h: "spans_inside (length v) h" using heuristics_inside assms(2) by (auto simp: h_def split: option.splits)
  have b: "both_readings s v e =
      (if x' = None then (appendPatternSpans s [] v, h, None)
       else (unionEscapeShadow s v shadow x' (appendPatternSpans s [] v), snapAll x' h, x'))"
    using assms(4) escapeShadow_plain [of v] by (auto simp: both_readings_def h_def Let_def)
  note p = patterns_inside [OF assms(1), of v]
  define kept where "kept = filter (\<lambda>sp. \<not> only_backslashes v sp) (appendPatternSpans s [] v)"
  have kept: "spans_inside (length v) kept" "covered kept \<subseteq> covered (appendPatternSpans s [] v)"
    using spans_inside_filter [OF p] by (auto simp: kept_def covered_def)
  have same: "length shadow = length v" if "x' \<noteq> None" using escapeShadow_index(4) [OF assms(4) that] .
  note k = snap_inside [OF assms(4) kept(1)]
  have f: "spans_inside (length v) (snapAll x' (appendPatternSpans s [] shadow))"
      "covered (appendPatternSpans s [] shadow) \<subseteq> covered (snapAll x' (appendPatternSpans s [] shadow))" if "x' \<noteq> None"
    using snap_inside [OF assms(4), of "appendPatternSpans s [] shadow"] patterns_inside [OF assms(1), of shadow] same [OF that] by simp_all
  have u: "spans_inside (length v) (unionEscapeShadow s v shadow x' (appendPatternSpans s [] v)) \<and>
      covered (unionEscapeShadow s v shadow x' (appendPatternSpans s [] v)) =
      covered (snapAll x' kept) \<union> covered (snapAll x' (appendPatternSpans s [] shadow))" if "x' \<noteq> None"
    using union_all [OF k(1) f(1) [OF that]] by (simp add: unionEscapeShadow_def Let_def kept_def)
  note hh = snap_inside [OF assms(4) h]
  show "x = x'" "spans_inside (length v) ps" "spans_inside (length v) hs"
    using assms(3) b p h u hh(1) by (auto split: if_splits)
  show "covered kept \<subseteq> covered ps" using assms(3) b kept(2) u k(2) by (auto split: if_splits)
  show "x' \<noteq> None \<Longrightarrow> covered (appendPatternSpans s [] shadow) \<subseteq> covered ps"
    using assms(3) b u f(2) by (auto split: if_splits)
  show "covered h \<subseteq> covered hs" using assms(3) b hh(2) by (auto split: if_splits)
qed

lemma trim_at_inside:
  assumes "escapeShadow v = (shadow, x)" "entropy_ok (Some m)" "sp_Start run < sp_End run" "sp_End run \<le> length v"
  shows "spans_inside (length v) [fst (trim_at m v x run rest)]" "spans_inside (length v) (snd (trim_at m v x run rest))"
proof -
  show "spans_inside (length v) [fst (trim_at m v x run rest)]"
    using trim_at_keeps [OF assms(3), of m v x rest] assms(4) by simp
  show "spans_inside (length v) (snd (trim_at m v x run rest))"
  proof (cases rest)
    case (Cons q qs)
    show ?thesis
    proof (cases "sp_Start q \<le> sp_Start run \<or> sp_Start q \<ge> sp_End run")
      case False
      let ?heads = "map (\<lambda>h. h\<lparr>sp_Start := sp_Start run + sp_Start h, sp_End := sp_Start run + sp_End h\<rparr>)
        (entropy_Match m (segment (sp_Start run) (sp_Start q) v))"
      have "spans_inside (sp_Start q - sp_Start run) (entropy_Match m (segment (sp_Start run) (sp_Start q) v))"
        using heuristics_inside [OF assms(2), of "segment (sp_Start run) (sp_Start q) v"] False assms(4) by simp
      then have "spans_inside (length v) ?heads"
        using False assms(4) by (fastforce simp: spans_inside_def)
      from snap_inside(1) [OF assms(1) this] have "spans_inside (length v) (snapAll x ?heads)" .
      then show ?thesis using False Cons by (simp add: trim_at_def snapAll_def comp_def)
    qed (use Cons in \<open>auto simp: trim_at_def\<close>)
  qed (simp add: trim_at_def)
qed

lemma trim_loop_inside:
  assumes "escapeShadow v = (shadow, x)" "entropy_ok (Some m)" "spans_inside (length v) runs"
  shows "spans_inside (length v) (map fst (trim_loop m v x runs ps) @ concat (map snd (trim_loop m v x runs ps)))"
  using assms(3)
proof (induction runs arbitrary: ps)
  case (Cons run runs)
  then have run: "sp_Start run < sp_End run" "sp_End run \<le> length v" "spans_inside (length v) runs" by simp_all
  note t = trim_at_inside [OF assms(1,2) run(1,2), of "dropWhile (\<lambda>q. sp_End q \<le> sp_Start run) ps"]
  from Cons.IH [OF run(3), of "dropWhile (\<lambda>q. sp_End q \<le> sp_Start run) ps"] t show ?case
    by (simp add: Let_def)
qed simp

lemma trim_inside:
  assumes "escapeShadow v = (shadow, x)" "entropy_ok (Some m)" "spans_inside (length v) runs"
  shows "spans_inside (length v) (trimAtPatterns m v runs ps x)"
  using trim_loop_inside [OF assms] by (simp add: trimAtPatterns_def Let_def)

section \<open>What a plan replaces\<close>

text \<open>A plan for a value: in order, nothing empty, every replacement a sentinel or the placeholder of names.\<close>

definition plan_ok :: "string \<Rightarrow> valuePlan \<Rightarrow> bool" where
  "plan_ok v p \<longleftrightarrow> edits_ok 0 (length v) (vp_spans p) \<and>
     (\<forall>r \<in> set (vp_spans p). rp_Replacement r = UserPlaceholder \<or> (\<exists>ident. rp_Replacement r = Sentinel ident))"

lemma sentinel_span_sel [simp]:
  "rp_Start (sentinel_span sp) = sp_Start sp" "rp_End (sentinel_span sp) = sp_End sp"
  "rp_Replacement (sentinel_span sp) = Sentinel (sp_RuleID sp)"
  by (simp_all add: sentinel_span_def)

lemma replaced_sentinels [simp]: "replaced (map sentinel_span rs) = covered rs"
  by (simp add: replaced_def covered_def)

lemma resolved_edits:
  assumes "in_order rs" "spans_inside n rs"
  shows "edits_ok 0 n (map sentinel_span rs)"
  using assms by (auto simp: edits_ok_iff in_order_def spans_inside_def sorted_wrt_map)

lemma add_user_spans_spec:
  assumes "edits_ok 0 (length v) (vp_spans p)" "\<forall>r \<in> set (vp_spans p). rp_Start r < rp_End r"
  shows "edits_ok 0 (length v) (vp_spans (add_user_spans s v p))"
    "replaced (vp_spans p) \<subseteq> replaced (vp_spans (add_user_spans s v p))"
    "r \<in> set (vp_spans (add_user_spans s v p)) \<Longrightarrow> r \<in> set (vp_spans p) \<or> rp_Replacement r = UserPlaceholder"
proof -
  obtain us n where u: "pathUserReplacementSpans v (sc_pathUser s) (vp_spans p) = (us, n)" by (rule prod.exhaust)
  note sound = user_spans_sound [OF assms(1) u]
  have new: "vp_spans (add_user_spans s v p) = vp_spans p \<or> vp_spans (add_user_spans s v p) = sort_key rp_Start (vp_spans p @ us)"
    using u by (simp add: add_user_spans_def)
  have "edits_ok 0 (length v) (sort_key rp_Start (vp_spans p @ us))"
    by (rule edits_merge [OF assms(1) sound(1)]) (use sound(2,3) assms(2) in auto)
  with new assms(1) show "edits_ok 0 (length v) (vp_spans (add_user_spans s v p))" by auto
  show "replaced (vp_spans p) \<subseteq> replaced (vp_spans (add_user_spans s v p))"
    using new by (auto simp: replaced_def)
  show "r \<in> set (vp_spans (add_user_spans s v p)) \<Longrightarrow> r \<in> set (vp_spans p) \<or> rp_Replacement r = UserPlaceholder"
    using new sound(3) by auto
qed

lemma resolve_plan_spec:
  assumes "escapeShadow v = (shadow, x)" "entropy_ok e" "spans_inside (length v) ps" "spans_inside (length v) hs"
  shows "plan_ok v (resolve_plan s v e ps hs x)" "covered ps \<subseteq> replaced (vp_spans (resolve_plan s v e ps hs x))"
proof -
  define trimmed where "trimmed = (case e of
      Some m \<Rightarrow> if ps \<noteq> [] \<and> hs \<noteq> [] then trimAtPatterns m v hs ps x else hs | None \<Rightarrow> hs)"
  have t: "spans_inside (length v) trimmed"
    using trim_inside [OF assms(1) _ assms(4)] assms(2,4) by (auto simp: trimmed_def split: option.split)
  obtain rs n h where r: "resolveSpans ps trimmed = (rs, n, h)" by (rule prod_cases3)
  let ?p = "\<lparr>vp_spans = map sentinel_span rs, vp_redacted = n, vp_hits = h\<rparr>"
  have plan: "resolve_plan s v e ps hs x = add_user_spans s v ?p"
    using r by (simp add: resolve_plan_def trimmed_def [symmetric])
  note exact = resolve_exact [OF spans_inside_ok [OF assms(3)] spans_inside_ok [OF t] r]
  note inside = resolve_inside [OF assms(3) t r]
  have ok: "edits_ok 0 (length v) (vp_spans ?p)" using exact inside resolved_edits by auto
  have ne: "\<forall>r \<in> set (vp_spans ?p). rp_Start r < rp_End r" using inside by (auto simp: spans_inside_def)
  note u = add_user_spans_spec [OF ok ne, where s = s]
  show "plan_ok v (resolve_plan s v e ps hs x)" unfolding plan plan_ok_def using u(1,3) by fastforce
  show "covered ps \<subseteq> replaced (vp_spans (resolve_plan s v e ps hs x))" unfolding plan using u(2) exact by auto
qed

lemma whole_plan_ok [simp]: "plan_ok v (whole_plan v ident)" "replaced (vp_spans (whole_plan v ident)) = {0 ..< length v}"
  by (auto simp: plan_ok_def whole_plan_def)

text \<open>What the pattern rules report on a value and, for an encoded one, on its second reading.\<close>

definition reported :: "Scrubber \<Rightarrow> string \<Rightarrow> nat set" where
  "reported s v =
     covered (filter (\<lambda>sp. \<not> only_backslashes v sp) (appendPatternSpans s [] v)) \<union>
     (case escapeShadow v of (shadow, x) \<Rightarrow> if x = None then {} else covered (appendPatternSpans s [] shadow))"

lemma planValueWith_spec:
  assumes "scrubber_ok s" "entropy_ok e"
  shows "plan_ok v (planValueWith s v e secret)" "reported s v \<subseteq> replaced (vp_spans (planValueWith s v e secret))"
proof -
  obtain ps hs x where b: "both_readings s v e = (ps, hs, x)" by (rule prod_cases3)
  obtain shadow x' where e: "escapeShadow v = (shadow, x')" by (rule prod.exhaust)
  note r = both_readings_spec [OF assms b e]
  note p = resolve_plan_spec [OF e assms(2) r(2,3), where s = s]
  have rep: "reported s v \<subseteq> covered ps" using r(4,5) by (auto simp: reported_def e)
  have "reported s v \<subseteq> {0 ..< length v}" using rep r(2) by (fastforce simp: covered_def spans_inside_def)
  with p rep r(1) show "plan_ok v (planValueWith s v e secret)"
      "reported s v \<subseteq> replaced (vp_spans (planValueWith s v e secret))"
    unfolding planValueWith_def b Let_def by (auto split: option.split)
qed

end
