(* ===== verification/Aho_Corasick.thy ===== *)
theory Aho_Corasick
  imports Prefilter
begin

text \<open>
  The automaton of \<open>Prefilter\<close> is right: a gate fires on a value exactly when one of its keywords
  occurs in it under the ASCII fold. The states of the automaton stand for the words of the trie,
  written in columns, and the table leads from a state to the longest suffix that is such a word.
\<close>

section \<open>The trie holds the prefixes of the keywords\<close>

definition edge_ok :: "nat list list \<Rightarrow> nat \<Rightarrow> nat \<Rightarrow> int \<Rightarrow> bool" where
  "edge_ok W u c x \<longleftrightarrow> (if x < 0 then W ! u @ [c] \<notin> set W else nat x < length W \<and> W ! nat x = W ! u @ [c])"

definition out_ok :: "(nat list \<times> Gate) list \<Rightarrow> nat list \<Rightarrow> Seen \<Rightarrow> bool" where
  "out_ok K w s \<longleftrightarrow> length s = seenWords \<and> (\<forall>g. hasBit s g \<longleftrightarrow> (w, int g) \<in> set K)"

definition node_ok :: "nat \<Rightarrow> (nat list \<times> Gate) list \<Rightarrow> nat list list \<Rightarrow> nat \<Rightarrow> node \<Rightarrow> bool" where
  "node_ok width K W u n \<longleftrightarrow>
     length (nd_next n) = width \<and> (\<forall>c < width. edge_ok W u c (nd_next n ! c)) \<and> out_ok K (W ! u) (nd_out n)"

definition trie_ok :: "nat \<Rightarrow> (nat list \<times> Gate) list \<Rightarrow> node list \<Rightarrow> nat list list \<Rightarrow> bool" where
  "trie_ok width K nodes W \<longleftrightarrow>
     length W = length nodes \<and> distinct W \<and> W \<noteq> [] \<and> W ! 0 = [] \<and> prefix_closed W \<and>
     (\<forall>u < length W. node_ok width K W u (nodes ! u)) \<and>
     (\<forall>w \<in> set W. \<forall>c \<in> set w. c < width) \<and> fst ` set K \<subseteq> set W"

lemma trie_okD:
  assumes "trie_ok width K nodes W"
  shows "length nodes = length W" "distinct W" "0 < length W" "W ! 0 = []" "prefix_closed W"
    "\<And>u. u < length W \<Longrightarrow> node_ok width K W u (nodes ! u)"
    "\<And>w c. w \<in> set W \<Longrightarrow> c \<in> set w \<Longrightarrow> c < width" "\<And>w g. (w, g) \<in> set K \<Longrightarrow> w \<in> set W"
  using assms by (auto simp: trie_ok_def)

lemma no_gates_has [simp]: "\<not> hasBit no_gates g"
  by (auto simp: hasBit_iff no_gates_def)

lemma trie_start: "trie_ok width [] [newNode width] [[]]"
  by (auto simp: trie_ok_def node_ok_def edge_ok_def out_ok_def newNode_def prefix_closed_def no_gates_def hasBit_iff)

lemma trie_extend:
  assumes "trie_ok width K nodes W" "cur < length W" "c < width" "nd_next (nodes ! cur) ! c < 0"
  shows "trie_ok width K (set_next cur c (int (length nodes)) (nodes @ [newNode width])) (W @ [W ! cur @ [c]])"
proof -
  note t = trie_okD [OF assms(1)]
  let ?W = "W @ [W ! cur @ [c]]" and ?nodes = "set_next cur c (int (length nodes)) (nodes @ [newNode width])"
  have new: "W ! cur @ [c] \<notin> set W" using t(6) [OF assms(2)] assms(3,4) by (auto simp: node_ok_def edge_ok_def)
  have closed: "prefix_closed ?W" using t(5) assms(2) by (auto simp: prefix_closed_def)
  have node: "node_ok width K ?W u (?nodes ! u)" if "u < length ?W" for u
  proof (cases "u < length W")
    case True
    have old: "node_ok width K W u (nodes ! u)" by (rule t(6) [OF True])
    have edge: "edge_ok ?W u d (nd_next (nodes ! u) ! d)" if "d < width" "\<not> (u = cur \<and> d = c)" for d
    proof -
      have "W ! u @ [d] \<noteq> W ! cur @ [c]" using that(2) t(2) True assms(2) by (auto simp: nth_eq_iff_index_eq)
      with old that(1) True show ?thesis by (auto simp: node_ok_def edge_ok_def nth_append)
    qed
    show ?thesis
    proof (cases "u = cur")
      case c: True
      have "edge_ok ?W cur c (int (length nodes))" using assms(2) t(1) by (simp add: edge_ok_def nth_append)
      with edge c old True assms(2,3) t(1) show ?thesis
        by (auto simp: node_ok_def set_next_def nth_append nth_list_update)
    next
      case False
      with edge old True t(1) show ?thesis by (auto simp: node_ok_def set_next_def nth_append)
    qed
  next
    case False
    with that have u: "u = length W" by simp
    have "(W ! cur @ [c]) @ [d] \<notin> set ?W" for d using new prefix_closedD(1) [OF t(5), of "W ! cur @ [c]" d] by auto
    moreover have "(W ! cur @ [c], g) \<notin> set K" for g using new t(8) by blast
    ultimately show ?thesis using u t(1) assms(2)
      by (auto simp: node_ok_def set_next_def newNode_def nth_append edge_ok_def out_ok_def no_gates_def [symmetric])
        (simp add: no_gates_def)
  qed
  have cols: "\<forall>w \<in> set ?W. \<forall>c \<in> set w. c < width" using t(7) t(7) [OF nth_mem [OF assms(2)]] assms(3) by auto
  show ?thesis unfolding trie_ok_def
    using t(1-4,8) new closed node cols assms(2) by (auto simp: set_next_def nth_append)
qed

lemma insert_bytes_ok:
  assumes "trie_ok width K nodes W" "cur < length W" "list_all (\<lambda>b. classes ! byte b < width) bs"
  shows "\<exists>W' cur' nodes'. insert_bytes classes width bs cur nodes = (cur', nodes') \<and> trie_ok width K nodes' W' \<and>
    cur' < length W' \<and> W' ! cur' = W ! cur @ map (\<lambda>b. classes ! byte b) bs"
  using assms
proof (induction bs arbitrary: cur nodes W)
  case (Cons b bs)
  let ?c = "classes ! byte b"
  note t = trie_okD [OF Cons.prems(1)]
  have c: "?c < width" using Cons.prems(3) by simp
  show ?case
  proof (cases "nd_next (nodes ! cur) ! ?c < 0")
    case True
    let ?W = "W @ [W ! cur @ [?c]]"
    have "\<exists>W' cur' nodes'. insert_bytes classes width bs (length nodes) (set_next cur ?c (int (length nodes)) (nodes @ [newNode width])) = (cur', nodes') \<and>
        trie_ok width K nodes' W' \<and> cur' < length W' \<and> W' ! cur' = ?W ! length nodes @ map (\<lambda>b. classes ! byte b) bs"
      by (rule Cons.IH [OF trie_extend [OF Cons.prems(1,2) c True]]) (use t(1) Cons.prems(3) in simp_all)
    with True t(1) show ?thesis by (simp add: Let_def nth_append)
  next
    case False
    let ?v = "nat (nd_next (nodes ! cur) ! ?c)"
    have v: "?v < length W" "W ! ?v = W ! cur @ [?c]"
      using t(6) [OF Cons.prems(2)] c False by (auto simp: node_ok_def edge_ok_def)
    from Cons.IH [OF Cons.prems(1) v(1)] Cons.prems(3) v(2) False show ?thesis by (simp add: Let_def)
  qed
qed auto

lemma insert_keyword_ok:
  assumes "trie_ok width K nodes W" "list_all (\<lambda>b. classes ! byte b < width) k" "0 \<le> g" "nat g < maxGates"
  shows "\<exists>W'. trie_ok width (K @ [(map (\<lambda>b. classes ! byte b) k, g)]) (insert_keyword classes width nodes (k, g)) W'"
proof -
  note t0 = trie_okD [OF assms(1)]
  obtain W' cur nodes' where i: "insert_bytes classes width k 0 nodes = (cur, nodes')" and t: "trie_ok width K nodes' W'"
    and cur: "cur < length W'" "W' ! cur = map (\<lambda>b. classes ! byte b) k"
    using insert_bytes_ok [OF assms(1) t0(3) assms(2)] t0(4) by auto
  note d = trie_okD [OF t]
  let ?w = "map (\<lambda>b. classes ! byte b) k"
  let ?n = "(nodes' ! cur)\<lparr>nd_out := seen_set (nd_out (nodes' ! cur)) g\<rparr>"
  have old: "out_ok K ?w (nd_out (nodes' ! cur))" using d(6) [OF cur(1)] by (simp add: node_ok_def cur(2))
  have room: "fits (nd_out (nodes' ! cur)) (nat g)"
    using old assms(4) by (simp add: out_ok_def fits_def seenWords_def maxGates_def)
  have out: "out_ok (K @ [(?w, g)]) ?w (nd_out ?n)"
    using old room assms(3) by (auto simp: out_ok_def seen_set_def)
  have other: "out_ok (K @ [(?w, g)]) (W' ! u) s \<longleftrightarrow> out_ok K (W' ! u) s" if "u < length W'" "u \<noteq> cur" for u s
  proof -
    have "W' ! u \<noteq> ?w" using that d(2) cur by (metis nth_eq_iff_index_eq)
    then show ?thesis by (simp add: out_ok_def)
  qed
  have node: "node_ok width (K @ [(?w, g)]) W' u (nodes'[cur := ?n] ! u)" if "u < length W'" for u
    using d(1) d(6) [OF that] d(6) [OF cur(1)] out other [OF that] cur that by (cases "u = cur") (auto simp: node_ok_def)
  have "trie_ok width (K @ [(?w, g)]) (nodes'[cur := ?n]) W'"
    unfolding trie_ok_def using d(1-5,7,8) node cur nth_mem [OF cur(1)] by auto
  then show ?thesis by (auto simp: insert_keyword_def i)
qed

definition column_words :: "nat list \<Rightarrow> (string \<times> Gate) list \<Rightarrow> (nat list \<times> Gate) list" where
  "column_words classes kws = map (\<lambda>(k, g). (map (\<lambda>b. classes ! byte b) k, g)) kws"

lemma trie_of_ok:
  assumes "list_all (\<lambda>(k, g). list_all (\<lambda>b. classes ! byte b < width) k \<and> 0 \<le> g \<and> nat g < maxGates) kws"
  shows "\<exists>W. trie_ok width (column_words classes kws) (trie_of classes width kws) W"
  using assms
proof (induction kws rule: rev_induct)
  case Nil
  then show ?case using trie_start by (auto simp: trie_of_def column_words_def)
next
  case (snoc kg kws)
  obtain k g where kg: "kg = (k, g)" by (rule prod.exhaust)
  from snoc obtain W where "trie_ok width (column_words classes kws) (trie_of classes width kws) W" by auto
  from insert_keyword_ok [OF this, of classes k g] snoc.prems kg show ?case
    by (auto simp: trie_of_def column_words_def)
qed

section \<open>One node of the breadth-first pass\<close>

text \<open>The columns of a node whose absent edges become a fixed row: the root and the queued nodes alike.\<close>

definition link_column :: "nat \<Rightarrow> (nat \<Rightarrow> int) \<Rightarrow> node list \<times> nat list \<Rightarrow> nat \<Rightarrow> node list \<times> nat list" where
  "link_column u via st c =
     (let (nodes, queue) = st; child = nd_next (nodes ! u) ! c
      in if child < 0 then (set_next u c (via c) nodes, queue)
         else (nodes[nat child := (nodes ! nat child)\<lparr>nd_fail := nat (via c)\<rparr>], queue @ [nat child]))"

lemma root_column_link: "root_column = link_column 0 (\<lambda>c. 0)"
  by (intro ext) (simp add: root_column_def link_column_def Let_def split: prod.split)

definition kids :: "int list \<Rightarrow> nat \<Rightarrow> nat list" where
  "kids row k = map nat (filter (\<lambda>x. 0 \<le> x) (take k row))"

text \<open>What the first \<open>k\<close> columns do.\<close>

definition linked_to :: "nat \<Rightarrow> (nat \<Rightarrow> int) \<Rightarrow> nat \<Rightarrow> node list \<Rightarrow> nat list \<Rightarrow> node list \<Rightarrow> nat list \<Rightarrow> bool" where
  "linked_to u via k ns q ns' q' \<longleftrightarrow>
     (let row = nd_next (ns ! u)
      in q' = q @ kids row k \<and> length ns' = length ns \<and>
         (\<forall>x < length ns. nd_out (ns' ! x) = nd_out (ns ! x)) \<and>
         (\<forall>x < length ns. x \<noteq> u \<longrightarrow> nd_next (ns' ! x) = nd_next (ns ! x)) \<and>
         length (nd_next (ns' ! u)) = length row \<and>
         (\<forall>c < length row. nd_next (ns' ! u) ! c = (if c < k \<and> row ! c < 0 then via c else row ! c)) \<and>
         (\<forall>c < k. 0 \<le> row ! c \<longrightarrow> nd_fail (ns' ! nat (row ! c)) = nat (via c)) \<and>
         (\<forall>x < length ns. (\<forall>c < k. row ! c \<noteq> int x) \<longrightarrow> nd_fail (ns' ! x) = nd_fail (ns ! x)))"

lemma kids_Suc: "k < length row \<Longrightarrow> kids row (Suc k) = kids row k @ (if row ! k < 0 then [] else [nat (row ! k)])"
  by (simp add: kids_def take_Suc_conv_app_nth)

lemma link_columns:
  assumes "u < length ns" "k \<le> length (nd_next (ns ! u))"
    and "\<And>c. c < length (nd_next (ns ! u)) \<Longrightarrow> 0 \<le> nd_next (ns ! u) ! c \<Longrightarrow> nat (nd_next (ns ! u) ! c) < length ns"
    and "\<And>c d. c < d \<Longrightarrow> d < length (nd_next (ns ! u)) \<Longrightarrow> 0 \<le> nd_next (ns ! u) ! c \<Longrightarrow> nd_next (ns ! u) ! c \<noteq> nd_next (ns ! u) ! d"
  shows "linked_to u via k ns q (fst (foldl (link_column u via) (ns, q) [0 ..< k])) (snd (foldl (link_column u via) (ns, q) [0 ..< k]))"
  using assms(2)
proof (induction k)
  case 0
  show ?case by (simp add: linked_to_def kids_def)
next
  case (Suc k)
  define row where "row = nd_next (ns ! u)"
  obtain ns' q' where st: "foldl (link_column u via) (ns, q) [0 ..< k] = (ns', q')" by (rule prod.exhaust)
  have k: "k < length row" using Suc.prems by (simp add: row_def)
  have ih: "linked_to u via k ns q ns' q'" using Suc.IH Suc.prems by (simp add: st)
  then have q': "q' = q @ kids row k" and len: "length ns' = length ns"
    and out: "\<And>x. x < length ns \<Longrightarrow> nd_out (ns' ! x) = nd_out (ns ! x)"
    and nxt: "\<And>x. x < length ns \<Longrightarrow> x \<noteq> u \<Longrightarrow> nd_next (ns' ! x) = nd_next (ns ! x)"
    and lrow: "length (nd_next (ns' ! u)) = length row"
    and urow: "\<And>c. c < length row \<Longrightarrow> nd_next (ns' ! u) ! c = (if c < k \<and> row ! c < 0 then via c else row ! c)"
    and fail: "\<And>c. c < k \<Longrightarrow> 0 \<le> row ! c \<Longrightarrow> nd_fail (ns' ! nat (row ! c)) = nat (via c)"
    and keep: "\<And>x. x < length ns \<Longrightarrow> (\<And>c. c < k \<Longrightarrow> row ! c \<noteq> int x) \<Longrightarrow> nd_fail (ns' ! x) = nd_fail (ns ! x)"
    unfolding linked_to_def Let_def row_def [symmetric] by blast+
  have cell: "nd_next (ns' ! u) ! k = row ! k" using urow [OF k] by simp
  have step: "foldl (link_column u via) (ns, q) [0 ..< Suc k] =
      (if row ! k < 0 then (set_next u k (via k) ns', q')
       else (ns'[nat (row ! k) := (ns' ! nat (row ! k))\<lparr>nd_fail := nat (via k)\<rparr>], q' @ [nat (row ! k)]))"
    by (simp add: st link_column_def cell Let_def)
  show ?case
  proof (cases "row ! k < 0")
    case True
    show ?thesis unfolding step if_P [OF True] fst_conv snd_conv linked_to_def Let_def row_def [symmetric]
    proof (intro conjI allI impI)
      show "q' = q @ kids row (Suc k)"
        using True by (simp add: q' kids_Suc [OF k])
      fix c assume "c < Suc k" "0 \<le> row ! c"
      with True have "c < k" by (cases "c = k") auto
      with fail [OF this \<open>0 \<le> row ! c\<close>] True len assms(1)
      show "nd_fail (set_next u k (via k) ns' ! nat (row ! c)) = nat (via c)"
        by (simp add: set_next_def nth_list_update)
    next
      fix c assume "c < length row"
      then show "nd_next (set_next u k (via k) ns' ! u) ! c =
          (if c < Suc k \<and> row ! c < 0 then via c else row ! c)"
        using True urow len lrow assms(1) by (cases "c = k") (auto simp: set_next_def nth_list_update less_Suc_eq)
    next
      fix x assume x: "x < length ns" "\<forall>c < Suc k. row ! c \<noteq> int x"
      with keep [of x] show "nd_fail (set_next u k (via k) ns' ! x) = nd_fail (ns ! x)"
        using True len assms(1) by (auto simp: set_next_def nth_list_update)
    qed (use True out nxt len lrow assms(1) in \<open>simp_all add: set_next_def nth_list_update\<close>)
  next
    case False
    have v: "nat (row ! k) < length ns" using assms(3) [of k] k False by (simp add: row_def)
    have other: "nat (row ! c) \<noteq> nat (row ! k)" if "c < k" "0 \<le> row ! c" for c
      using assms(4) [of c k] that k False unfolding row_def by (simp add: eq_nat_nat_iff)
    show ?thesis unfolding step if_not_P [OF False] fst_conv snd_conv linked_to_def Let_def row_def [symmetric]
    proof (intro conjI allI impI)
      show "q' @ [nat (row ! k)] = q @ kids row (Suc k)"
        using False by (simp add: q' kids_Suc [OF k])
      fix c assume c: "c < Suc k" "0 \<le> row ! c"
      then show "nd_fail (ns'[nat (row ! k) := (ns' ! nat (row ! k))\<lparr>nd_fail := nat (via k)\<rparr>] ! nat (row ! c)) = nat (via c)"
      proof (cases "c = k")
        case neq: False
        with c(1) have "c < k" by simp
        from other [OF this c(2)] fail [OF this c(2)] show ?thesis by simp
      qed (use False v len in \<open>simp add: nth_list_update\<close>)
    next
      fix c assume "c < length row"
      then show "nd_next (ns'[nat (row ! k) := (ns' ! nat (row ! k))\<lparr>nd_fail := nat (via k)\<rparr>] ! u) ! c =
          (if c < Suc k \<and> row ! c < 0 then via c else row ! c)"
        using False urow len v by (auto simp: nth_list_update less_Suc_eq)
    next
      fix x assume x: "x < length ns" "\<forall>c < Suc k. row ! c \<noteq> int x"
      then have "x \<noteq> nat (row ! k)" using False by (metis lessI nat_0_le not_less)
      with x keep [of x] show "nd_fail (ns'[nat (row ! k) := (ns' ! nat (row ! k))\<lparr>nd_fail := nat (via k)\<rparr>] ! x) = nd_fail (ns ! x)"
        using False by simp
    qed (use False out nxt len lrow v in \<open>simp_all add: nth_list_update\<close>)
  qed
qed

text \<open>A queued node reads the row of its failure target, which its own columns leave alone.\<close>

lemma node_columns:
  assumes "u < length ns" "k \<le> length (nd_next (ns ! u))" "nd_fail (ns ! u) < length ns" "nd_fail (ns ! u) \<noteq> u"
    and "\<And>c. c < length (nd_next (ns ! u)) \<Longrightarrow> 0 \<le> nd_next (ns ! u) ! c \<Longrightarrow>
           nat (nd_next (ns ! u) ! c) < length ns \<and> nat (nd_next (ns ! u) ! c) \<noteq> u"
    and "\<And>c d. c < d \<Longrightarrow> d < length (nd_next (ns ! u)) \<Longrightarrow> 0 \<le> nd_next (ns ! u) ! c \<Longrightarrow> nd_next (ns ! u) ! c \<noteq> nd_next (ns ! u) ! d"
  shows "foldl (node_column u) (ns, q) [0 ..< k] = foldl (link_column u (\<lambda>c. nd_next (ns ! nd_fail (ns ! u)) ! c)) (ns, q) [0 ..< k]"
  using assms(2)
proof (induction k)
  case (Suc k)
  let ?via = "\<lambda>c. nd_next (ns ! nd_fail (ns ! u)) ! c"
  obtain ns' q' where st: "foldl (link_column u ?via) (ns, q) [0 ..< k] = (ns', q')" by (rule prod.exhaust)
  have l: "linked_to u ?via k ns q ns' q'"
    using link_columns [of u ns k ?via q] assms Suc.prems by (simp add: st)
  have "nd_fail (ns' ! u) = nd_fail (ns ! u)"
  proof -
    have "nd_next (ns ! u) ! c \<noteq> int u" if "c < k" for c
      using assms(5) [of c] Suc.prems that by force
    with l assms(1) show ?thesis unfolding linked_to_def Let_def by blast
  qed
  moreover have "nd_next (ns' ! nd_fail (ns ! u)) = nd_next (ns ! nd_fail (ns ! u))"
    using l assms(3,4) unfolding linked_to_def Let_def by blast
  ultimately have "node_column u (ns', q') k = link_column u ?via (ns', q') k"
    by (simp add: node_column_def link_column_def Let_def)
  with Suc st show ?case by simp
qed simp

section \<open>The breadth-first pass\<close>

definition leads :: "nat list list \<Rightarrow> nat \<Rightarrow> nat \<Rightarrow> int \<Rightarrow> bool" where
  "leads W u c x \<longleftrightarrow> 0 \<le> x \<and> nat x < length W \<and> W ! nat x = lsuf W (W ! u @ [c])"

definition outs :: "(nat list \<times> Gate) list \<Rightarrow> nat list \<Rightarrow> Seen \<Rightarrow> bool" where
  "outs K w s \<longleftrightarrow> length s = seenWords \<and> (\<forall>g. hasBit s g \<longleftrightarrow> (\<exists>v. (v, int g) \<in> set K \<and> suffix v w))"

definition fails :: "nat list list \<Rightarrow> nat \<Rightarrow> nat \<Rightarrow> bool" where
  "fails W v f \<longleftrightarrow> f < length W \<and> W ! f = lsuf W (tl (W ! v))"

definition solved :: "nat \<Rightarrow> (nat list \<times> Gate) list \<Rightarrow> nat list list \<Rightarrow> nat \<Rightarrow> node \<Rightarrow> bool" where
  "solved width K W u n \<longleftrightarrow> length (nd_next n) = width \<and> (\<forall>c < width. leads W u c (nd_next n ! c)) \<and> outs K (W ! u) (nd_out n)"

text \<open>
  The state of the pass: the nodes already taken from the queue, and the root, are solved; the others are
  as the trie has them; the queue holds the children of the solved nodes, shallow ones first.
\<close>

definition visited :: "nat list \<Rightarrow> nat \<Rightarrow> nat set" where
  "visited q i = insert 0 (set (take i q))"

definition child_of :: "nat \<Rightarrow> nat list list \<Rightarrow> nat \<Rightarrow> nat \<Rightarrow> bool" where
  "child_of width W u v \<longleftrightarrow> v < length W \<and> (\<exists>c < width. W ! v = W ! u @ [c])"

definition pass_ok :: "nat \<Rightarrow> (nat list \<times> Gate) list \<Rightarrow> nat list list \<Rightarrow> node list \<Rightarrow> nat list \<Rightarrow> nat \<Rightarrow> bool" where
  "pass_ok width K W ns q i \<longleftrightarrow>
     length ns = length W \<and> i \<le> length q \<and> distinct q \<and> sorted (map (\<lambda>v. length (W ! v)) q) \<and>
     (\<forall>v \<in> set q. v < length W \<and> v \<noteq> 0 \<and> fails W v (nd_fail (ns ! v))) \<and>
     (\<forall>u < length W. if u \<in> visited q i then solved width K W u (ns ! u) else node_ok width K W u (ns ! u)) \<and>
     (\<forall>u \<in> visited q i. \<forall>v. child_of width W u v \<longrightarrow> v \<in> set q) \<and>
     (\<forall>v \<in> set q. \<exists>u \<in> visited q i. child_of width W u v)"

lemma pass_okD:
  assumes "pass_ok width K W ns q i"
  shows "length ns = length W" "i \<le> length q" "distinct q" "sorted (map (\<lambda>v. length (W ! v)) q)"
    "\<And>v. v \<in> set q \<Longrightarrow> v < length W \<and> v \<noteq> 0 \<and> fails W v (nd_fail (ns ! v))"
    "\<And>u. u < length W \<Longrightarrow> u \<in> visited q i \<Longrightarrow> solved width K W u (ns ! u)"
    "\<And>u. u < length W \<Longrightarrow> u \<notin> visited q i \<Longrightarrow> node_ok width K W u (ns ! u)"
    "\<And>u v. u \<in> visited q i \<Longrightarrow> child_of width W u v \<Longrightarrow> v \<in> set q"
    "\<And>v. v \<in> set q \<Longrightarrow> \<exists>u \<in> visited q i. child_of width W u v"
proof -
  note all = assms [unfolded pass_ok_def]
  show "length ns = length W" "i \<le> length q" "distinct q" "sorted (map (\<lambda>v. length (W ! v)) q)" using all by simp_all
  show "\<And>v. v \<in> set q \<Longrightarrow> v < length W \<and> v \<noteq> 0 \<and> fails W v (nd_fail (ns ! v))" using all by blast
  have rows: "\<forall>u < length W. if u \<in> visited q i then solved width K W u (ns ! u) else node_ok width K W u (ns ! u)"
    using all by blast
  show "\<And>u. u < length W \<Longrightarrow> u \<in> visited q i \<Longrightarrow> solved width K W u (ns ! u)"
    "\<And>u. u < length W \<Longrightarrow> u \<notin> visited q i \<Longrightarrow> node_ok width K W u (ns ! u)"
    using rows by (simp_all split: if_splits)
  show "\<And>u v. u \<in> visited q i \<Longrightarrow> child_of width W u v \<Longrightarrow> v \<in> set q" using all by blast
  show "\<And>v. v \<in> set q \<Longrightarrow> \<exists>u \<in> visited q i. child_of width W u v" using all by blast
qed

text \<open>Every word but the empty one is a child, and of one node only.\<close>

lemma has_parent:
  assumes "trie_ok width K nodes W" "v < length W" "W ! v \<noteq> []"
  shows "\<exists>u. u < length W \<and> child_of width W u v \<and> length (W ! v) = Suc (length (W ! u))"
proof -
  note t = trie_okD [OF assms(1)]
  have mem: "W ! v \<in> set W" using assms(2) by simp
  have split: "W ! v = butlast (W ! v) @ [last (W ! v)]" using assms(3) by simp
  have "butlast (W ! v) \<in> set W" using prefix_closedD(1) [OF t(5)] mem split by metis
  then obtain u where u: "u < length W" "W ! u = butlast (W ! v)" by (metis in_set_conv_nth)
  moreover have "last (W ! v) < width" using t(7) [OF mem] assms(3) by simp
  ultimately show ?thesis using split assms(2,3) unfolding child_of_def by (metis length_append_singleton)
qed

lemma one_parent:
  "distinct W \<Longrightarrow> u < length W \<Longrightarrow> u' < length W \<Longrightarrow> child_of width W u v \<Longrightarrow> child_of width W u' v \<Longrightarrow> u = u'"
  by (auto simp: child_of_def nth_eq_iff_index_eq)

lemma visited_length: "trie_ok width K nodes W \<Longrightarrow> pass_ok width K W ns q i \<Longrightarrow> u \<in> visited q i \<Longrightarrow> u < length W"
  using pass_okD(5) [of width K W ns q i u] trie_okD(3) [of width K nodes W] by (auto simp: visited_def dest: in_set_takeD)

text \<open>What is shallower than the head of the queue has been visited.\<close>

lemma shallow_visited:
  assumes "trie_ok width K nodes W" "pass_ok width K W ns q i" "x < length W"
    "i < length q \<Longrightarrow> length (W ! x) < length (W ! (q ! i))"
  shows "x \<in> visited q i"
  using assms(3,4)
proof (induction "length (W ! x)" arbitrary: x rule: less_induct)
  case less
  note t = trie_okD [OF assms(1)] and p = pass_okD [OF assms(2)]
  show ?case
  proof (cases "W ! x = []")
    case True
    then have "x = 0" using t(2-4) less.prems(1) by (metis nth_eq_iff_index_eq)
    then show ?thesis by (simp add: visited_def)
  next
    case False
    then obtain u where u: "u < length W" "child_of width W u x" "length (W ! x) = Suc (length (W ! u))"
      using has_parent [OF assms(1) less.prems(1)] by blast
    have "length (W ! u) < length (W ! (q ! i))" if "i < length q" using less.prems(2) [OF that] u(3) by simp
    with less.hyps [OF _ u(1)] u(3) have "u \<in> visited q i" by simp
    then have "x \<in> set q" using p(8) u(2) by blast
    then obtain j where j: "j < length q" "q ! j = x" by (metis in_set_conv_nth)
    have "j < i"
    proof (rule ccontr)
      assume "\<not> j < i"
      then have "i < length q" "length (W ! (q ! i)) \<le> length (W ! (q ! j))"
        using p(4) j(1) by (auto simp: sorted_iff_nth_mono)
      with less.prems(2) j(2) show False by simp
    qed
    with j show ?thesis by (auto simp: visited_def in_set_conv_nth)
  qed
qed

lemma kids_iff:
  assumes "node_ok width K W u n" "distinct W"
  shows "v \<in> set (kids (nd_next n) width) \<longleftrightarrow> child_of width W u v"
proof -
  note n = assms(1) [unfolded node_ok_def edge_ok_def]
  have "v \<in> set (kids (nd_next n) width) \<longleftrightarrow> (\<exists>c < width. 0 \<le> nd_next n ! c \<and> v = nat (nd_next n ! c))"
    using n by (auto simp: kids_def in_set_conv_nth image_iff)
  also have "\<dots> \<longleftrightarrow> child_of width W u v"
  proof
    show "\<exists>c < width. 0 \<le> nd_next n ! c \<and> v = nat (nd_next n ! c) \<Longrightarrow> child_of width W u v"
      using n unfolding child_of_def by (metis not_less)
    assume "child_of width W u v"
    then obtain c where c: "c < width" "v < length W" "W ! v = W ! u @ [c]" by (auto simp: child_of_def)
    have "0 \<le> nd_next n ! c"
    proof (rule ccontr)
      assume "\<not> 0 \<le> nd_next n ! c"
      then have "W ! u @ [c] \<notin> set W" using n c(1) by (simp add: not_le)
      with c nth_mem [OF c(2)] show False by simp
    qed
    moreover from this have "nat (nd_next n ! c) < length W" "W ! nat (nd_next n ! c) = W ! u @ [c]"
      using n c(1) by (metis not_less)+
    ultimately show "\<exists>c < width. 0 \<le> nd_next n ! c \<and> v = nat (nd_next n ! c)"
      using c assms(2) by (metis nth_eq_iff_index_eq)
  qed
  finally show ?thesis .
qed

lemma node_edge:
  assumes "node_ok width K W u n" "c < width" "0 \<le> nd_next n ! c"
  shows "nat (nd_next n ! c) < length W" "W ! nat (nd_next n ! c) = W ! u @ [c]"
  using assms by (auto simp: node_ok_def edge_ok_def)

lemma row_apart:
  assumes "node_ok width K W u n" "c < d" "d < width" "0 \<le> nd_next n ! c"
  shows "nd_next n ! c \<noteq> nd_next n ! d"
proof
  assume eq: "nd_next n ! c = nd_next n ! d"
  have "W ! nat (nd_next n ! c) = W ! u @ [c]" "W ! nat (nd_next n ! d) = W ! u @ [d]"
    using node_edge(2) [OF assms(1), of c] node_edge(2) [OF assms(1), of d] assms(2-4) eq by simp_all
  with eq assms(2) show False by simp
qed

lemma kids_distinct:
  assumes "node_ok width K W u n"
  shows "distinct (kids (nd_next n) width)"
proof -
  have "distinct (filter (\<lambda>x. 0 \<le> x) (take k (nd_next n)))" if "k \<le> width" for k
    using that
  proof (induction k)
    case (Suc k)
    have len: "k < length (nd_next n)" using assms Suc.prems by (simp add: node_ok_def)
    have "nd_next n ! k \<notin> set (take k (nd_next n))" if "0 \<le> nd_next n ! k"
    proof
      assume "nd_next n ! k \<in> set (take k (nd_next n))"
      then obtain c where "c < k" "nd_next n ! c = nd_next n ! k" using len by (auto simp: in_set_conv_nth)
      with row_apart [OF assms, of c k] Suc.prems that show False by simp
    qed
    with Suc len show ?case by (simp add: take_Suc_conv_app_nth)
  qed simp
  from this [of width] show ?thesis unfolding kids_def by (simp add: distinct_map inj_on_def eq_nat_nat_iff)
qed

text \<open>The root.\<close>

lemma root_pass:
  assumes "trie_ok width K nodes W"
  shows "pass_ok width K W (fst (foldl root_column (nodes, []) [0 ..< width])) (snd (foldl root_column (nodes, []) [0 ..< width])) 0"
proof -
  note t = trie_okD [OF assms]
  have n0: "node_ok width K W 0 (nodes ! 0)" by (rule t(6) [OF t(3)])
  obtain ns q where st: "foldl root_column (nodes, []) [0 ..< width] = (ns, q)" by (rule prod.exhaust)
  have len: "length (nd_next (nodes ! 0)) = width" using n0 by (simp add: node_ok_def)
  have "linked_to 0 (\<lambda>c. 0) width nodes [] ns q"
    using link_columns [of 0 nodes width "\<lambda>c. 0" "[]"] t(1,3) len node_edge(1) [OF n0] row_apart [OF n0] st
    by (simp add: root_column_link)
  then have q: "q = kids (nd_next (nodes ! 0)) width" and ln: "length ns = length nodes"
    and out: "\<And>x. x < length nodes \<Longrightarrow> nd_out (ns ! x) = nd_out (nodes ! x)"
    and nxt: "\<And>x. x < length nodes \<Longrightarrow> x \<noteq> 0 \<Longrightarrow> nd_next (ns ! x) = nd_next (nodes ! x)"
    and lrow: "length (nd_next (ns ! 0)) = width"
    and row: "\<And>c. c < width \<Longrightarrow> nd_next (ns ! 0) ! c = (if nd_next (nodes ! 0) ! c < 0 then 0 else nd_next (nodes ! 0) ! c)"
    and fail: "\<And>c. c < width \<Longrightarrow> 0 \<le> nd_next (nodes ! 0) ! c \<Longrightarrow> nd_fail (ns ! nat (nd_next (nodes ! 0) ! c)) = 0"
    unfolding linked_to_def Let_def len by auto
  have kid: "v \<in> set q \<longleftrightarrow> child_of width W 0 v" for v unfolding q by (rule kids_iff [OF n0 t(2)])
  have depth: "length (W ! v) = 1" if "v \<in> set q" for v using that t(4) by (auto simp: kid child_of_def)
  have "solved width K W 0 (ns ! 0)"
  proof -
    have "leads W 0 c (nd_next (ns ! 0) ! c)" if "c < width" for c
    proof (cases "nd_next (nodes ! 0) ! c < 0")
      case True
      then have "W ! 0 @ [c] \<notin> set W" using n0 that by (simp add: node_ok_def edge_ok_def)
      then show ?thesis using True row [OF that] t(3,4) by (simp add: leads_def)
    next
      case False
      then have e: "nat (nd_next (nodes ! 0) ! c) < length W" "W ! nat (nd_next (nodes ! 0) ! c) = W ! 0 @ [c]"
        using node_edge [OF n0 that] by simp_all
      with nth_mem [OF e(1)] show ?thesis using False row [OF that] lsuf_fix [of "W ! 0 @ [c]" W] by (simp add: leads_def)
    qed
    moreover have "outs K (W ! 0) (nd_out (ns ! 0))"
      using n0 out [of 0] t(1,3,4) by (auto simp: node_ok_def out_ok_def outs_def)
    ultimately show ?thesis using lrow by (simp add: solved_def)
  qed
  moreover have "fails W v (nd_fail (ns ! v))" if "v \<in> set q" for v
  proof -
    from that obtain c where c: "c < width" "v < length W" "W ! v = [c]" using t(4) by (auto simp: kid child_of_def)
    then have "[c] \<in> set W" by (metis nth_mem)
    then have pos: "0 \<le> nd_next (nodes ! 0) ! c" using n0 c(1) t(4) by (auto simp: node_ok_def edge_ok_def not_less split: if_splits)
    have "nat (nd_next (nodes ! 0) ! c) = v"
      using node_edge [OF n0 c(1) pos] c(2,3) t(2,4) by (metis append_Nil nth_eq_iff_index_eq)
    with fail [OF c(1) pos] show ?thesis using c(3) t(3,4) by (simp add: fails_def)
  qed
  moreover have "v \<noteq> 0" if "v \<in> set q" for v using depth [OF that] t(4) by (cases "v = 0") simp_all
  moreover have "node_ok width K W u (ns ! u)" if "u < length W" "u \<noteq> 0" for u
    using t(6) [OF that(1)] nxt [of u] out [of u] that t(1) by (simp add: node_ok_def)
  moreover have "sorted (map (\<lambda>v. length (W ! v)) q)"
    using depth by (auto simp: sorted_iff_nth_mono)
  ultimately show ?thesis
    using ln t(1) kids_distinct [OF n0] kid unfolding st pass_ok_def visited_def q [symmetric]
    by (auto simp: child_of_def)
qed

text \<open>A queued node.\<close>

lemma suffix_proper: "w \<noteq> [] \<Longrightarrow> suffix v w \<longleftrightarrow> v = w \<or> suffix v (tl w)"
  by (cases w) (auto simp: suffix_Cons)

lemma seen_or_has: "length s = seenWords \<Longrightarrow> length t = seenWords \<Longrightarrow> hasBit (seen_or s t) g \<longleftrightarrow> hasBit s g \<or> hasBit t g"
  by (auto simp: seen_or_def hasBit_iff bit_simps)

lemma seen_or_length: "length s = seenWords \<Longrightarrow> length t = seenWords \<Longrightarrow> length (seen_or s t) = seenWords"
  by (simp add: seen_or_def)

lemma queue_pass:
  assumes "trie_ok width K nodes W" "pass_ok width K W ns q i" "i < length q"
  shows "pass_ok width K W (fst (foldl (node_column (q ! i)) (node_out (q ! i) ns, q) [0 ..< width]))
    (snd (foldl (node_column (q ! i)) (node_out (q ! i) ns, q) [0 ..< width])) (i + 1)"
proof -
  note t = trie_okD [OF assms(1)] and p = pass_okD [OF assms(2)]
  define u where "u = q ! i"
  define f where "f = nd_fail (ns ! u)"
  define ns1 where "ns1 = node_out u ns"
  have uq: "u \<in> set q" using assms(3) by (simp add: u_def)
  have u: "u < length W" "u \<noteq> 0" "f < length W" "W ! f = lsuf W (tl (W ! u))" using p(5) [OF uq] by (simp_all add: fails_def f_def)
  have wu: "W ! u \<noteq> []" using t(2-4) u(1,2) by (metis nth_eq_iff_index_eq)
  have fresh: "u \<notin> visited q i"
    using p(3) assms(3) u(2) by (auto simp: visited_def u_def in_set_conv_nth nth_eq_iff_index_eq)
  have nu: "node_ok width K W u (ns ! u)" by (rule p(7) [OF u(1) fresh])
  have "length (W ! f) < length (W ! u)"
    using lsuf_length [of W "tl (W ! u)"] wu by (cases "W ! u") (auto simp: u(4))
  then have fu: "f \<noteq> u" and fv: "f \<in> visited q i"
    using shallow_visited [OF assms(1,2) u(3)] by (auto simp: u_def)
  have nf: "solved width K W f (ns ! f)" by (rule p(6) [OF u(3) fv])
  have l1: "length ns1 = length W" using p(1) by (simp add: ns1_def node_out_def)
  have next1: "nd_next (ns1 ! x) = nd_next (ns ! x)" "nd_fail (ns1 ! x) = nd_fail (ns ! x)" for x
    using u(1) p(1) by (cases "x = u"; simp add: ns1_def node_out_def)+
  have out1: "nd_out (ns1 ! x) = (if x = u then seen_or (nd_out (ns ! u)) (nd_out (ns ! f)) else nd_out (ns ! x))" if "x < length W" for x
    using that p(1) by (auto simp: ns1_def node_out_def f_def)
  let ?row = "nd_next (ns ! u)" and ?via = "\<lambda>c. nd_next (ns ! f) ! c"
  have len: "length ?row = width" using nu by (simp add: node_ok_def)
  have kid_ne: "nat (?row ! c) \<noteq> u" if "c < width" "0 \<le> ?row ! c" for c
    using node_edge(2) [OF nu that] by (metis append_self_conv not_Cons_self2)
  obtain ns' q' where st: "foldl (link_column u ?via) (ns1, q) [0 ..< width] = (ns', q')" by (rule prod.exhaust)
  have fold: "foldl (node_column u) (ns1, q) [0 ..< width] = (ns', q')"
    using node_columns [of u ns1 width q] st u(1,3) fu l1 len next1 node_edge(1) [OF nu] kid_ne row_apart [OF nu]
    by (simp add: f_def [symmetric])
  have "linked_to u ?via width ns1 q ns' q'"
    using link_columns [of u ns1 width ?via q] st u(1) l1 len next1 node_edge(1) [OF nu] row_apart [OF nu] by simp
  then have q': "q' = q @ kids ?row width" and ln: "length ns' = length W"
    and out: "\<And>x. x < length W \<Longrightarrow> nd_out (ns' ! x) = nd_out (ns1 ! x)"
    and nxt: "\<And>x. x < length W \<Longrightarrow> x \<noteq> u \<Longrightarrow> nd_next (ns' ! x) = nd_next (ns ! x)"
    and lrow: "length (nd_next (ns' ! u)) = width"
    and row: "\<And>c. c < width \<Longrightarrow> nd_next (ns' ! u) ! c = (if ?row ! c < 0 then ?via c else ?row ! c)"
    and fail: "\<And>c. c < width \<Longrightarrow> 0 \<le> ?row ! c \<Longrightarrow> nd_fail (ns' ! nat (?row ! c)) = nat (?via c)"
    and keep: "\<And>x. x < length W \<Longrightarrow> (\<And>c. c < width \<Longrightarrow> ?row ! c \<noteq> int x) \<Longrightarrow> nd_fail (ns' ! x) = nd_fail (ns ! x)"
    unfolding linked_to_def Let_def next1 len l1 by auto
  have kid: "v \<in> set (kids ?row width) \<longleftrightarrow> child_of width W u v" for v by (rule kids_iff [OF nu t(2)])
  have new: "v \<notin> set q" if "child_of width W u v" for v
  proof
    assume "v \<in> set q"
    then obtain x where "x \<in> visited q i" "child_of width W x v" using p(9) by blast
    with one_parent [OF t(2) u(1) visited_length [OF assms(1,2)] that] fresh show False by blast
  qed
  have vis: "visited q' (i + 1) = insert u (visited q i)"
    using assms(3) by (auto simp: visited_def q' take_Suc_conv_app_nth u_def)
  have via: "leads W f c (?via c)" if "c < width" for c using nf that by (simp add: solved_def)
  have u_solved: "solved width K W u (ns' ! u)"
  proof -
    have "leads W u c (nd_next (ns' ! u) ! c)" if c: "c < width" for c
    proof (cases "?row ! c < 0")
      case True
      then have "W ! u @ [c] \<notin> set W" using nu c by (simp add: node_ok_def edge_ok_def)
      from lsuf_tail [OF t(5) wu this] via [OF c] True row [OF c] u(4) show ?thesis by (simp add: leads_def)
    next
      case False
      then have e: "nat (?row ! c) < length W" "W ! nat (?row ! c) = W ! u @ [c]" using node_edge [OF nu c] by simp_all
      with nth_mem [OF e(1)] False row [OF c] lsuf_fix [of "W ! u @ [c]" W] show ?thesis by (simp add: leads_def)
    qed
    moreover have "outs K (W ! u) (nd_out (ns' ! u))"
    proof -
      have a: "length (nd_out (ns ! u)) = seenWords" "\<And>g. hasBit (nd_out (ns ! u)) g \<longleftrightarrow> (W ! u, int g) \<in> set K"
        using nu by (simp_all add: node_ok_def out_ok_def)
      have b: "length (nd_out (ns ! f)) = seenWords"
          "\<And>g. hasBit (nd_out (ns ! f)) g \<longleftrightarrow> (\<exists>v. (v, int g) \<in> set K \<and> suffix v (W ! f))"
        using nf by (simp_all add: solved_def outs_def)
      have "suffix v (W ! f) \<longleftrightarrow> suffix v (tl (W ! u))" if "(v, int g) \<in> set K" for v g
        using suffix_lsuf [OF t(8) [OF that], of "tl (W ! u)"] u(4) by simp
      then have ends: "(\<exists>v. (v, int g) \<in> set K \<and> suffix v (W ! u)) \<longleftrightarrow> (W ! u, int g) \<in> set K \<or> (\<exists>v. (v, int g) \<in> set K \<and> suffix v (W ! f))" for g
        unfolding suffix_proper [OF wu] by blast
      have o': "nd_out (ns' ! u) = seen_or (nd_out (ns ! u)) (nd_out (ns ! f))" using out [OF u(1)] out1 [OF u(1)] by simp
      show ?thesis unfolding outs_def o' seen_or_has [OF a(1) b(1)] a(2) b(2) ends
        using seen_or_length [OF a(1) b(1)] by simp
    qed
    ultimately show ?thesis using lrow by (simp add: solved_def)
  qed
  have rows: "if x \<in> visited q' (i + 1) then solved width K W x (ns' ! x) else node_ok width K W x (ns' ! x)" if "x < length W" for x
    using u_solved p(6,7) [OF that] nxt [OF that] out [OF that] out1 [OF that] unfolding vis
    by (cases "x = u") (auto simp: solved_def node_ok_def)
  have failing: "v < length W \<and> v \<noteq> 0 \<and> fails W v (nd_fail (ns' ! v))" if "v \<in> set q'" for v
  proof (cases "v \<in> set q")
    case True
    have "?row ! c \<noteq> int v" if "c < width" for c
      using new [of v] True node_edge [OF nu that] that by (force simp: child_of_def)
    with p(5) [OF True] keep [of v] show ?thesis by simp
  next
    case False
    with that have "child_of width W u v" by (simp add: q' kid)
    then obtain c where c: "c < width" "v < length W" "W ! v = W ! u @ [c]" by (auto simp: child_of_def)
    then have "W ! u @ [c] \<in> set W" by (metis nth_mem)
    then have pos: "0 \<le> ?row ! c" using nu c(1) by (auto simp: node_ok_def edge_ok_def not_less split: if_splits)
    have "nat (?row ! c) = v" using node_edge [OF nu c(1) pos] c(2,3) t(2) by (metis nth_eq_iff_index_eq)
    then have "nd_fail (ns' ! v) = nat (?via c)" using fail [OF c(1) pos] by simp
    moreover have "tl (W ! v) = tl (W ! u) @ [c]" using c(3) wu by simp
    moreover have "v \<noteq> 0" using c(3) t(4) by (cases "v = 0") simp_all
    ultimately show ?thesis using via [OF c(1)] lsuf_step [OF t(5), of "tl (W ! u)" c] u(4) c(2) by (simp add: fails_def leads_def)
  qed
  have deep: "length (W ! v) \<le> Suc (length (W ! u))" if v: "v \<in> set q" for v
  proof -
    obtain x where x: "x \<in> visited q i" "child_of width W x v" using p(9) v by blast
    have "length (W ! x) \<le> length (W ! u)"
    proof (cases "x = 0")
      case False
      with x(1) obtain j where "j < i" "x = q ! j" using p(2) by (auto simp: visited_def in_set_conv_nth)
      with p(4) assms(3) show ?thesis by (simp add: sorted_iff_nth_mono u_def)
    qed (use t(4) in simp)
    with x(2) show ?thesis by (auto simp: child_of_def)
  qed
  have "sorted (map (\<lambda>v. length (W ! v)) q')"
  proof -
    have kd: "length (W ! v) = Suc (length (W ! u))" if "v \<in> set (kids ?row width)" for v
      using that by (auto simp: kid child_of_def)
    then have "sorted (map (\<lambda>v. length (W ! v)) (kids ?row width))" by (simp add: sorted_iff_nth_mono)
    then show ?thesis using p(4) deep kd by (auto simp: q' sorted_append)
  qed
  moreover have "distinct q'" using p(3) kids_distinct [OF nu] new kid by (auto simp: q')
  moreover have "v \<in> set q'" if "x \<in> visited q' (i + 1)" "child_of width W x v" for x v
  proof -
    from that(1) consider "x = u" | "x \<in> visited q i" unfolding vis by blast
    then show ?thesis
    proof cases
      case 1
      then show ?thesis using that(2) kid by (simp add: q')
    next
      case 2
      then show ?thesis using p(8) that(2) by (simp add: q')
    qed
  qed
  moreover have "\<exists>x \<in> visited q' (i + 1). child_of width W x v" if "v \<in> set q'" for v
    using that p(9) kid unfolding vis by (auto simp: q')
  moreover have "i + 1 \<le> length q'" using assms(3) by (simp add: q')
  ultimately have "pass_ok width K W ns' q' (i + 1)"
    unfolding pass_ok_def using ln rows failing by blast
  then show ?thesis using fold by (simp add: u_def [symmetric] ns1_def [symmetric])
qed

text \<open>As many turns as there are nodes empty the queue, and then every node is solved.\<close>

lemma queue_short:
  assumes "trie_ok width K nodes W" "pass_ok width K W ns q i"
  shows "length q < length W"
proof -
  have "set q \<subseteq> {1 ..< length W}" using pass_okD(5) [OF assms(2)] by (fastforce simp: Suc_le_eq)
  then have "card (set q) \<le> length W - 1" using card_mono [of "{1 ..< length W}" "set q"] by simp
  then show ?thesis using distinct_card [OF pass_okD(3) [OF assms(2)]] trie_okD(3) [OF assms(1)] by linarith
qed

lemma link_loop_ok:
  assumes "trie_ok width K nodes W" "pass_ok width K W ns q i" "length W \<le> n + i"
  shows "\<exists>q'. pass_ok width K W (link_loop n width (ns, q) i) q' (length q')"
  using assms(2,3)
proof (induction n arbitrary: ns q i)
  case 0
  with queue_short [OF assms(1) 0(1)] pass_okD(2) [OF 0(1)] have False by simp
  then show ?case ..
next
  case (Suc n)
  show ?case
  proof (cases "i < length q")
    case True
    obtain ns' q' where st: "foldl (node_column (q ! i)) (node_out (q ! i) ns, q) [0 ..< width] = (ns', q')" by (rule prod.exhaust)
    have "pass_ok width K W ns' q' (i + 1)" using queue_pass [OF assms(1) Suc.prems(1) True] by (simp add: st)
    from Suc.IH [OF this] Suc.prems(2) show ?thesis using True st by (simp add: Let_def)
  next
    case False
    then have "i = length q" using pass_okD(2) [OF Suc.prems(1)] by simp
    with Suc.prems(1) show ?thesis by auto
  qed
qed

lemma linked_solved:
  assumes "trie_ok width K nodes W"
  shows "length (linked width nodes) = length W \<and> (\<forall>u < length W. solved width K W u (linked width nodes ! u))"
proof -
  obtain ns q where st: "foldl root_column (nodes, []) [0 ..< width] = (ns, q)" by (rule prod.exhaust)
  have "pass_ok width K W ns q 0" using root_pass [OF assms] by (simp add: st)
  from link_loop_ok [OF assms this, of "length nodes"] trie_okD(1) [OF assms]
  obtain q' where p: "pass_ok width K W (linked width nodes) q' (length q')" by (auto simp: linked_def st)
  have "u \<in> visited q' (length q')" if "u < length W" for u
    by (rule shallow_visited [OF assms p that]) simp
  with pass_okD(1,6) [OF p] show ?thesis by blast
qed

section \<open>The table and the scan\<close>

lemma flat_nth:
  "(\<And>x. x \<in> set xs \<Longrightarrow> length (f x) = w) \<Longrightarrow> u < length xs \<Longrightarrow> c < w \<Longrightarrow> concat (map f xs) ! (u * w + c) = f (xs ! u) ! c"
proof (induction xs arbitrary: u)
  case (Cons x xs)
  show ?case
  proof (cases u)
    case 0
    with Cons.prems show ?thesis by (simp add: nth_append)
  next
    case (Suc n)
    with Cons.IH [of n] Cons.prems show ?thesis by (simp add: nth_append)
  qed
qed simp

lemma output_bit: "hasOutput AND w \<noteq> 0 \<longleftrightarrow> bit w 31" "w AND hasOutput \<noteq> 0 \<longleftrightarrow> bit w 31"
  unfolding hasOutput_def using one_bit [of w 31] by (simp_all add: and.commute)

lemma small_entry:
  assumes "0 \<le> x" "x < 2 ^ 31"
  shows "\<not> bit (word_of_int x :: 32 word) 31" "unat (word_of_int x :: 32 word) = nat x"
proof -
  have "take_bit 31 x = x" using assms by (simp add: take_bit_int_eq_self)
  then have "\<not> bit x 31" by (metis bit_take_bit_iff less_irrefl)
  then show "\<not> bit (word_of_int x :: 32 word) 31" by (simp add: bit_simps)
  show "unat (word_of_int x :: 32 word) = nat x"
    using assms by (simp add: unat_eq_nat_uint word_of_int_inverse uint_word_of_int take_bit_int_eq_self)
qed

lemma entry_parts:
  assumes "0 \<le> x" "x < 2 ^ 31"
  shows "unat (table_entry ns x AND NOT hasOutput) = nat x"
    "table_entry ns x AND hasOutput \<noteq> 0 \<longleftrightarrow> nd_out (ns ! nat x) \<noteq> no_gates"
proof -
  note e = small_entry [OF assms]
  have bits: "bit hasOutput n \<longleftrightarrow> n = 31" for n
    unfolding hasOutput_def bit_push_bit_iff bit_1_iff by auto
  have "table_entry ns x AND NOT hasOutput = word_of_int x"
    using e(1) by (intro bit_word_eqI) (auto simp: table_entry_def Let_def bit_simps bits)
  with e(2) show "unat (table_entry ns x AND NOT hasOutput) = nat x" by simp
  show "table_entry ns x AND hasOutput \<noteq> 0 \<longleftrightarrow> nd_out (ns ! nat x) \<noteq> no_gates"
    using e(1) unfolding output_bit(2) by (simp add: table_entry_def Let_def bit_simps bits)
qed

definition columns_of :: "Prefilter \<Rightarrow> string \<Rightarrow> nat list" where
  "columns_of p s = map (\<lambda>b. pf_classes p ! byte b) s"

lemma scan_states:
  fixes b :: PrefilterBuilder
  defines "used \<equiv> used_bytes (pb_keywords b)"
  defines "ns \<equiv> linked (table_width used) (trie_of (class_table used) (table_width used) (pb_keywords b))"
  assumes t: "trie_ok (table_width used) K nodes W" and l: "length ns = length W"
    and sol: "\<And>u. u < length W \<Longrightarrow> solved (table_width used) K W u (ns ! u)"
    and cols: "\<And>c. class_table used ! byte c < table_width used" and small: "length W < 2 ^ 31"
    and real: "\<And>v g. (v, g) \<in> set K \<Longrightarrow> v \<noteq> []"
  shows "foldl (scan_step (Build b)) (no_gates, 0) s = (seen, state) \<Longrightarrow>
    unat state < length W \<and> W ! unat state = lsuf W (columns_of (Build b) s) \<and> length seen = seenWords \<and>
    (\<forall>g. hasBit seen g \<longleftrightarrow> (\<exists>v i. (v, int g) \<in> set K \<and> i \<le> length s \<and> suffix v (columns_of (Build b) (take i s))))"
proof (induction s arbitrary: seen state rule: rev_induct)
  case Nil
  have "length no_gates = seenWords" by (simp add: no_gates_def)
  with Nil trie_okD(3,4) [OF t] real show ?case by (auto simp: columns_of_def)
next
  case (snoc c s)
  let ?p = "Build b"
  obtain seen0 state0 where st: "foldl (scan_step ?p) (no_gates, 0) s = (seen0, state0)" by (rule prod.exhaust)
  from snoc.IH [OF st] have u: "unat state0 < length W" "W ! unat state0 = lsuf W (columns_of ?p s)" and l0: "length seen0 = seenWords"
    and h0: "\<And>g. hasBit seen0 g \<longleftrightarrow> (\<exists>v i. (v, int g) \<in> set K \<and> i \<le> length s \<and> suffix v (columns_of ?p (take i s)))" by blast+
  define w where "w = table_width used"
  define cc where "cc = class_table used ! byte c"
  define x where "x = nd_next (ns ! unat state0) ! cc"
  have p: "pf_width ?p = w" "pf_classes ?p = class_table used" "pf_outputs ?p = map nd_out ns"
    "pf_next ?p = concat (map (\<lambda>n. map (\<lambda>c. table_entry ns (nd_next n ! c)) [0 ..< w]) ns)"
    by (simp_all add: Build_def Let_def used_def ns_def w_def)
  have cc: "cc < w" using cols by (simp add: cc_def w_def)
  have entry: "pf_next ?p ! (unat state0 * w + cc) = table_entry ns x"
    unfolding p(4) by (subst flat_nth [of ns _ w]) (use u(1) l cc in \<open>simp_all add: x_def\<close>)
  have "leads W (unat state0) cc x" using sol [OF u(1)] cc by (simp add: solved_def x_def w_def)
  then have x: "0 \<le> x" "nat x < length W" "W ! nat x = lsuf W (columns_of ?p (s @ [c]))"
    using lsuf_step [OF trie_okD(5) [OF t], of "columns_of ?p s" cc] u(2) by (simp_all add: leads_def columns_of_def p(2) cc_def)
  then have "x < 2 ^ 31" using less_trans [OF x(2) small] by (simp add: nat_less_iff)
  note parts = entry_parts [OF x(1) this, of ns]
  let ?out = "nd_out (ns ! nat x)"
  have o': "outs K (W ! nat x) ?out" using sol [OF x(2)] by (simp add: solved_def)
  then have lo: "length ?out = seenWords" by (simp add: outs_def)
  have step: "state = table_entry ns x AND NOT hasOutput" "seen = (if ?out \<noteq> no_gates then seen_or seen0 ?out else seen0)"
  proof -
    have "scan_step ?p (seen0, state0) c =
        (if table_entry ns x AND hasOutput \<noteq> 0 then seen_or seen0 (pf_outputs ?p ! unat (table_entry ns x AND NOT hasOutput)) else seen0,
         table_entry ns x AND NOT hasOutput)"
      by (simp only: scan_step_def Let_def prod.case p(1,2) cc_def [symmetric] entry)
    moreover have "scan_step ?p (seen0, state0) c = (seen, state)" using snoc.prems st by simp
    ultimately show "state = table_entry ns x AND NOT hasOutput" "seen = (if ?out \<noteq> no_gates then seen_or seen0 ?out else seen0)"
      using parts x(2) l by (simp_all add: p(3))
  qed
  have has: "hasBit seen g \<longleftrightarrow> hasBit seen0 g \<or> hasBit ?out g" for g
    using seen_or_has [OF l0 lo] by (simp add: step(2))
  have last: "hasBit ?out g \<longleftrightarrow> (\<exists>v. (v, int g) \<in> set K \<and> suffix v (columns_of ?p (s @ [c])))" for g
    using o' suffix_lsuf [OF trie_okD(8) [OF t]] x(3) unfolding outs_def by metis
  have "(\<exists>v i. (v, int g) \<in> set K \<and> i \<le> length (s @ [c]) \<and> suffix v (columns_of ?p (take i (s @ [c])))) \<longleftrightarrow>
      hasBit seen0 g \<or> hasBit ?out g" for g
  proof -
    have "i \<le> length (s @ [c]) \<longleftrightarrow> i \<le> length s \<or> i = length (s @ [c])" for i by auto
    moreover have "i \<le> length s \<Longrightarrow> take i (s @ [c]) = take i s" for i by simp
    moreover have "take (length (s @ [c])) (s @ [c]) = s @ [c]" by simp
    ultimately show ?thesis unfolding h0 last by metis
  qed
  with has parts(1) x step(1,2) l0 lo show ?case by (simp add: seen_or_length)
qed

section \<open>Columns stand for folded bytes\<close>

definition folded_bytes :: "(nat \<Rightarrow> bool) \<Rightarrow> bool" where
  "folded_bytes used \<longleftrightarrow> (\<forall>n. used n \<longrightarrow> n < 0x80 \<and> \<not> (65 \<le> n \<and> n \<le> 90))"

lemma column_less: "column used n < table_width used"
proof (cases "n < 0x80 \<and> used n")
  case True
  then have "[0 ..< 0x80] = [0 ..< n] @ n # [Suc n ..< 0x80]" using upt_add_eq_append [of 0 n "0x80 - n"] by (simp add: upt_conv_Cons)
  then have "filter used [0 ..< 0x80] = filter used [0 ..< n] @ n # filter used [Suc n ..< 0x80]" using True by (simp only: filter_append filter.simps if_True)
  then show ?thesis using True by (simp add: column_def table_width_def)
qed (auto simp: column_def table_width_def)

lemma column_mono: "used m \<Longrightarrow> m < n \<Longrightarrow> length (filter used [0 ..< m]) < length (filter used [0 ..< n])"
proof -
  assume "used m" "m < n"
  then have "[0 ..< n] = [0 ..< m] @ m # [Suc m ..< n]" using upt_add_eq_append [of 0 m "n - m"] by (simp add: upt_conv_Cons)
  then have "filter used [0 ..< n] = filter used [0 ..< m] @ m # filter used [Suc m ..< n]" using \<open>used m\<close> by (simp only: filter_append filter.simps if_True)
  then show ?thesis by simp
qed

lemma column_inj: "used n \<Longrightarrow> n < 0x80 \<Longrightarrow> column used m = column used n \<longleftrightarrow> m = n"
  using column_mono [of used m n] column_mono [of used n m] by (cases m n rule: linorder_cases) (auto simp: column_def)

lemma byte_256: "byte c < 256"
  by (simp add: byte_def)

lemma byte_inj: "byte c = byte d \<longleftrightarrow> c = d"
  by (simp add: byte_def)

lemma class_column: "class_table used ! byte c = column used (byte (asciiLower c))"
proof -
  have "class_table used ! byte c = (if 65 \<le> byte c \<and> byte c \<le> 90 then column used (byte c + 32) else column used (byte c))"
    unfolding class_table_def using byte_256 [of c] by (simp del: upt_Suc)
  moreover have "byte (asciiLower c) = (if 65 \<le> byte c \<and> byte c \<le> 90 then byte c + 32 else byte c)"
    by (auto simp: asciiLower_def is_upper_def byte_def less_eq_char_def)
  ultimately show ?thesis by simp
qed

lemma asciiLower_idem: "\<not> (65 \<le> byte k \<and> byte k \<le> 90) \<Longrightarrow> asciiLower k = k"
  by (auto simp: asciiLower_def is_upper_def byte_def less_eq_char_def)

lemma class_match:
  assumes "folded_bytes used" "used (byte k)"
  shows "class_table used ! byte c = class_table used ! byte k \<longleftrightarrow> asciiLower c = k"
proof -
  have k: "byte k < 0x80" "asciiLower k = k" using assms asciiLower_idem by (auto simp: folded_bytes_def)
  show ?thesis unfolding class_column k(2) using column_inj [of used "byte k" "byte (asciiLower c)"] assms(2) k(1) by (simp add: byte_inj)
qed

lemma columns_match:
  assumes "folded_bytes used" "list_all (\<lambda>b. used (byte b)) k"
  shows "map (\<lambda>b. class_table used ! byte b) s = map (\<lambda>b. class_table used ! byte b) k \<longleftrightarrow> map asciiLower s = k"
  using assms(2)
proof (induction s arbitrary: k)
  case (Cons c s)
  then show ?case by (cases k) (simp_all add: class_match [OF assms(1)])
qed auto

lemma suffix_map_iff: "suffix v (map f t) \<longleftrightarrow> (\<exists>j \<le> length t. v = map f (drop j t))"
proof
  assume "suffix v (map f t)"
  then obtain zs where zs: "map f t = zs @ v" by (auto simp: suffix_def)
  then have "length t = length zs + length v" by (metis length_append length_map)
  then have "v = drop (length t - length v) (map f t)" by (simp add: zs)
  then show "\<exists>j \<le> length t. v = map f (drop j t)" by (metis diff_le_self drop_map)
qed (metis drop_map suffix_drop)

lemma occurrence_columns:
  assumes "folded_bytes used" "list_all (\<lambda>b. used (byte b)) k"
  shows "(\<exists>i \<le> length s. suffix (map (\<lambda>b. class_table used ! byte b) k) (map (\<lambda>b. class_table used ! byte b) (take i s))) \<longleftrightarrow>
    contains (map asciiLower s) k"
proof -
  let ?f = "\<lambda>b. class_table used ! byte b"
  have "(\<exists>i \<le> length s. suffix (map ?f k) (map ?f (take i s))) \<longleftrightarrow> (\<exists>i j. j \<le> i \<and> i \<le> length s \<and> map asciiLower (drop j (take i s)) = k)"
    unfolding suffix_map_iff using columns_match [OF assms] by (metis length_take min.absorb2)
  also have "\<dots> \<longleftrightarrow> (\<exists>j. j + length k \<le> length s \<and> segment j (j + length k) (map asciiLower s) = k)"
  proof
    assume "\<exists>i j. j \<le> i \<and> i \<le> length s \<and> map asciiLower (drop j (take i s)) = k"
    then obtain i j where ij: "j \<le> i" "i \<le> length s" "map asciiLower (drop j (take i s)) = k" by blast
    then have "length k = i - j" by auto
    with ij show "\<exists>j. j + length k \<le> length s \<and> segment j (j + length k) (map asciiLower s) = k"
      by (intro exI [of _ j]) (auto simp: segment_def drop_map take_map drop_take)
  next
    assume "\<exists>j. j + length k \<le> length s \<and> segment j (j + length k) (map asciiLower s) = k"
    then obtain j where j: "j + length k \<le> length s" "segment j (j + length k) (map asciiLower s) = k" by blast
    then show "\<exists>i j. j \<le> i \<and> i \<le> length s \<and> map asciiLower (drop j (take i s)) = k"
      by (intro exI [of _ "j + length k"] exI [of _ j]) (simp add: segment_def drop_map take_map drop_take)
  qed
  also have "\<dots> \<longleftrightarrow> contains (map asciiLower s) k" by (simp add: contains_iff occurs_at_segment)
  finally show ?thesis .
qed

section \<open>The prefilter\<close>

lemma insert_bytes_size:
  "length (snd (insert_bytes classes width bs cur nodes)) \<le> length nodes + length bs"
proof (induction bs arbitrary: cur nodes)
  case (Cons b bs)
  show ?case
    using Cons.IH [of "length nodes" "set_next cur (classes ! byte b) (int (length nodes)) (nodes @ [newNode width])"]
      Cons.IH [of "nat (nd_next (nodes ! cur) ! (classes ! byte b))" nodes]
    by (auto simp: Let_def set_next_def)
qed simp

lemma trie_of_size: "length (trie_of classes width kws) \<le> Suc (sum_list (map (length \<circ> fst) kws))"
proof (induction kws rule: rev_induct)
  case (snoc kg kws)
  have "length (insert_keyword classes width nodes kg) \<le> length nodes + length (fst kg)" for nodes
    using insert_bytes_size [of classes width "fst kg" 0 nodes]
    by (cases "insert_bytes classes width (fst kg) 0 nodes") (simp add: insert_keyword_def)
  from this [of "trie_of classes width kws"] snoc show ?case by (simp add: trie_of_def)
qed (simp add: trie_of_def)

text \<open>What the keywords of a builder are, once they were added.\<close>

definition keywords_ok :: "(string \<times> Gate) list \<Rightarrow> bool" where
  "keywords_ok kws \<longleftrightarrow> (\<forall>(k, g) \<in> set kws. k \<noteq> [] \<and> 0 \<le> g \<and> nat g < maxGates \<and>
     (\<forall>c \<in> set k. byte c < 0x80 \<and> \<not> (65 \<le> byte c \<and> byte c \<le> 90)))"

lemma Build_scan:
  assumes "keywords_ok (pb_keywords b)" "sum_list (map (length \<circ> fst) (pb_keywords b)) < 2 ^ 31 - 1"
  shows "hasBit (Scan (Build b) v) g \<longleftrightarrow> (\<exists>k. (k, int g) \<in> set (pb_keywords b) \<and> contains (map asciiLower v) k)"
proof -
  define used where "used = used_bytes (pb_keywords b)"
  define K where "K = column_words (class_table used) (pb_keywords b)"
  have used: "list_all (\<lambda>c. used (byte c)) k" if "(k, h) \<in> set (pb_keywords b)" for k h
    using that by (force simp: used_def used_bytes_def list_all_iff list_ex_iff)
  have folded: "folded_bytes used"
    using assms(1) by (fastforce simp: folded_bytes_def used_def used_bytes_def list_ex_iff keywords_ok_def)
  have cols: "class_table used ! byte c < table_width used" for c by (simp add: class_column column_less)
  have "list_all (\<lambda>(k, g). list_all (\<lambda>b. class_table used ! byte b < table_width used) k \<and> 0 \<le> g \<and> nat g < maxGates) (pb_keywords b)"
    using assms(1) cols by (auto simp: keywords_ok_def list_all_iff)
  from trie_of_ok [OF this] obtain W where
    t: "trie_ok (table_width used) K (trie_of (class_table used) (table_width used) (pb_keywords b)) W" by (auto simp: K_def)
  have "length W < 2 ^ 31"
    using trie_of_size [of "class_table used" "table_width used" "pb_keywords b"] trie_okD(1) [OF t] assms(2) by linarith
  moreover have "w \<noteq> []" if "(w, h) \<in> set K" for w h
    using that assms(1) by (auto simp: K_def column_words_def keywords_ok_def)
  moreover obtain seen state where st: "foldl (scan_step (Build b)) (no_gates, 0) v = (seen, state)" by (rule prod.exhaust)
  ultimately have "hasBit seen g \<longleftrightarrow> (\<exists>w i. (w, int g) \<in> set K \<and> i \<le> length v \<and> suffix w (columns_of (Build b) (take i v)))"
    using scan_states [where b = b and K = K and W = W and s = v and seen = seen and state = state, folded used_def, OF t _ _ cols _ _ st] linked_solved [OF t] by blast
  also have "\<dots> \<longleftrightarrow> (\<exists>k. (k, int g) \<in> set (pb_keywords b) \<and>
      (\<exists>i \<le> length v. suffix (map (\<lambda>b. class_table used ! byte b) k) (map (\<lambda>b. class_table used ! byte b) (take i v))))"
    unfolding K_def column_words_def columns_of_def by (force simp: Build_def Let_def used_def)
  also have "\<dots> \<longleftrightarrow> (\<exists>k. (k, int g) \<in> set (pb_keywords b) \<and> contains (map asciiLower v) k)"
    using occurrence_columns [OF folded used] by blast
  finally show ?thesis by (simp add: Scan_def st)
qed

text \<open>The registration of rule after rule, as \<^verbatim>\<open>New\<close> does it.\<close>

fun add_all :: "string list list \<Rightarrow> PrefilterBuilder \<Rightarrow> prefilter_error + Gate list \<times> PrefilterBuilder" where
  "add_all [] b = Inr ([], b)"
| "add_all (ks # kss) b =
     (case AddKeywords ks b of
        Inl e \<Rightarrow> Inl e
      | Inr (g, b') \<Rightarrow> (case add_all kss b' of Inl e \<Rightarrow> Inl e | Inr (gs, b'') \<Rightarrow> Inr (g # gs, b'')))"

lemma add_keywords_spec:
  "add_keywords ks g acc = Inr kws \<Longrightarrow>
     kws = acc @ map (\<lambda>k. (map asciiLower k, g)) ks \<and> list_all (\<lambda>k. k \<noteq> [] \<and> list_all (\<lambda>c. byte c < 0x80) k) ks"
proof (induction ks arbitrary: acc)
  case (Cons k ks)
  then show ?case by (fastforce simp: foldKeyword_def split: if_splits)
qed simp

definition rule_keywords :: "Gate \<Rightarrow> string list \<Rightarrow> (string \<times> Gate) list" where
  "rule_keywords g ks = map (\<lambda>k. (map asciiLower k, g)) ks"

lemma rule_keywords_ok:
  assumes "list_all (\<lambda>k. k \<noteq> [] \<and> list_all (\<lambda>c. byte c < 0x80) k) ks" "0 \<le> g" "nat g < maxGates"
  shows "keywords_ok (rule_keywords g ks)"
proof -
  have "byte (asciiLower c) < 0x80 \<and> \<not> (65 \<le> byte (asciiLower c) \<and> byte (asciiLower c) \<le> 90)" if "byte c < 0x80" for c
    using that by (auto simp: asciiLower_def is_upper_def byte_def less_eq_char_def)
  with assms show ?thesis by (fastforce simp: keywords_ok_def rule_keywords_def list_all_iff)
qed

lemma add_all_spec:
  assumes "add_all kss b = Inr (gs, b')" "keywords_ok (pb_keywords b)"
  shows "length gs = length kss \<and> keywords_ok (pb_keywords b') \<and>
    (\<exists>new. pb_keywords b' = pb_keywords b @ new \<and> (\<forall>(k, g) \<in> set new. int (pb_gates b) \<le> g) \<and>
      sum_list (map (length \<circ> fst) new) = sum_list (map length (concat kss)) \<and>
      (\<forall>i < length kss. if kss ! i = [] then gs ! i = AlwaysGate
         else int (pb_gates b) \<le> gs ! i \<and> (\<forall>k. (k, gs ! i) \<in> set new \<longleftrightarrow> k \<in> map asciiLower ` set (kss ! i))))"
  using assms
proof (induction kss arbitrary: b gs)
  case Nil
  then show ?case by simp
next
  case (Cons ks kss)
  from Cons.prems(1) obtain g b1 gs1 where one: "AddKeywords ks b = Inr (g, b1)" and rest: "add_all kss b1 = Inr (gs1, b')"
    and gs: "gs = g # gs1" by (auto split: sum.splits)
  show ?case
  proof (cases "ks = []")
    case True
    with one have b1: "g = AlwaysGate" "b1 = b" by (simp_all add: AddKeywords_def)
    from Cons.IH [OF rest] Cons.prems(2) b1(2) obtain new where len: "length gs1 = length kss" and ok: "keywords_ok (pb_keywords b')"
      and new: "pb_keywords b' = pb_keywords b @ new" "\<forall>(k, h) \<in> set new. int (pb_gates b) \<le> h"
        "sum_list (map (length \<circ> fst) new) = sum_list (map length (concat kss))"
      and each: "\<And>i. i < length kss \<Longrightarrow> if kss ! i = [] then gs1 ! i = AlwaysGate
         else int (pb_gates b) \<le> gs1 ! i \<and> (\<forall>k. (k, gs1 ! i) \<in> set new \<longleftrightarrow> k \<in> map asciiLower ` set (kss ! i))" by blast
    have "if (ks # kss) ! i = [] then gs ! i = AlwaysGate
        else int (pb_gates b) \<le> gs ! i \<and> (\<forall>k. (k, gs ! i) \<in> set new \<longleftrightarrow> k \<in> map asciiLower ` set ((ks # kss) ! i))"
      if "i < length (ks # kss)" for i
    proof (cases i)
      case 0
      with True gs b1(1) show ?thesis by simp
    next
      case (Suc j)
      with each [of j] that gs show ?thesis by simp
    qed
    moreover have "sum_list (map (length \<circ> fst) new) = sum_list (map length (concat (ks # kss)))" using new(3) True by simp
    moreover have "length gs = length (ks # kss)" using len gs by simp
    ultimately show ?thesis using ok new(1,2) by blast
  next
    case False
    with one have b1: "g = int (pb_gates b)" "pb_gates b < maxGates" "pb_gates b1 = Suc (pb_gates b)"
        "add_keywords ks g (pb_keywords b) = Inr (pb_keywords b1)"
      by (auto simp: AddKeywords_def split: if_splits sum.splits)
    note add = add_keywords_spec [OF b1(4)]
    have "keywords_ok (pb_keywords b1)"
      using add rule_keywords_ok [of ks g] b1(1,2) Cons.prems(2) by (auto simp: keywords_ok_def rule_keywords_def)
    from Cons.IH [OF rest this] obtain new where len: "length gs1 = length kss" and ok: "keywords_ok (pb_keywords b')"
      and new: "pb_keywords b' = pb_keywords b1 @ new" "\<forall>(k, h) \<in> set new. int (pb_gates b1) \<le> h"
        "sum_list (map (length \<circ> fst) new) = sum_list (map length (concat kss))"
      and each: "\<And>i. i < length kss \<Longrightarrow> if kss ! i = [] then gs1 ! i = AlwaysGate
         else int (pb_gates b1) \<le> gs1 ! i \<and> (\<forall>k. (k, gs1 ! i) \<in> set new \<longleftrightarrow> k \<in> map asciiLower ` set (kss ! i))" by blast
    let ?new = "rule_keywords g ks @ new"
    have "sum_list (map (length \<circ> fst) (rule_keywords g ks)) = sum_list (map length ks)"
      by (simp add: rule_keywords_def comp_def)
    then have size: "sum_list (map (length \<circ> fst) ?new) = sum_list (map length (concat (ks # kss)))" using new(3) by simp
    have high: "\<forall>(k, h) \<in> set ?new. int (pb_gates b) \<le> h" using new(2) b1(1,3) by (fastforce simp: rule_keywords_def)
    have all: "if (ks # kss) ! i = [] then gs ! i = AlwaysGate
        else int (pb_gates b) \<le> gs ! i \<and> (\<forall>k. (k, gs ! i) \<in> set ?new \<longleftrightarrow> k \<in> map asciiLower ` set ((ks # kss) ! i))"
      if "i < length (ks # kss)" for i
    proof (cases i)
      case 0
      have "(k, g) \<notin> set new" for k using new(2) b1(1,3) by fastforce
      with 0 False gs b1(1) show ?thesis by (auto simp: rule_keywords_def)
    next
      case (Suc j)
      then have j: "j < length kss" using that by simp
      have "(k, gs1 ! j) \<notin> set (rule_keywords g ks)" if "kss ! j \<noteq> []" for k
        using each [OF j] that b1(1,3) by (auto simp: rule_keywords_def)
      with each [OF j] Suc gs b1(3) show ?thesis by auto
    qed
    have "pb_keywords b' = pb_keywords b @ ?new" using add new(1) by (simp add: rule_keywords_def)
    moreover have "length gs = length (ks # kss)" using len gs by simp
    ultimately show ?thesis using ok size high all by blast
  qed
qed

lemma gate_fires_iff:
  assumes "add_all kss NewPrefilterBuilder = Inr (gates, b)" "i < length kss" "sum_list (map length (concat kss)) < 2 ^ 31 - 1"
  shows "seen_Has (Scan (Build b) v) (gates ! i) \<longleftrightarrow>
    kss ! i = [] \<or> list_ex (\<lambda>k. contains (map asciiLower v) (map asciiLower k)) (kss ! i)"
proof -
  have "keywords_ok (pb_keywords NewPrefilterBuilder)" by (simp add: NewPrefilterBuilder_def keywords_ok_def)
  moreover have e: "pb_keywords NewPrefilterBuilder = []" "pb_gates NewPrefilterBuilder = 0" by (simp_all add: NewPrefilterBuilder_def)
  ultimately obtain new where ok: "keywords_ok (pb_keywords b)"
    and new: "pb_keywords b = new" "sum_list (map (length \<circ> fst) new) = sum_list (map length (concat kss))"
    and all: "\<forall>i < length kss. if kss ! i = [] then gates ! i = AlwaysGate
        else int 0 \<le> gates ! i \<and> (\<forall>k. (k, gates ! i) \<in> set new \<longleftrightarrow> k \<in> map asciiLower ` set (kss ! i))"
    using add_all_spec [OF assms(1) \<open>keywords_ok (pb_keywords NewPrefilterBuilder)\<close>, unfolded e append_Nil] by blast
  have each: "if kss ! i = [] then gates ! i = AlwaysGate
      else 0 \<le> gates ! i \<and> (\<forall>k. (k, gates ! i) \<in> set new \<longleftrightarrow> k \<in> map asciiLower ` set (kss ! i))"
    using all [rule_format, OF assms(2)] by (cases "kss ! i = []") simp_all
  show ?thesis
  proof (cases "kss ! i = []")
    case True
    with each show ?thesis by (simp add: seen_Has_def AlwaysGate_def)
  next
    case False
    with each have g: "0 \<le> gates ! i" "\<And>k. (k, gates ! i) \<in> set new \<longleftrightarrow> k \<in> map asciiLower ` set (kss ! i)" by auto
    have "sum_list (map (length \<circ> fst) (pb_keywords b)) < 2 ^ 31 - 1" using new assms(3) by simp
    from Build_scan [OF ok this, of v "nat (gates ! i)"] g False new(1) show ?thesis
      by (auto simp: seen_Has_def list_ex_iff)
  qed
qed

text \<open>
  C34: The prefilter is keyword search. Whatever the rules, the gate of a rule fires on a value exactly
  when the rule has no keyword or one of its keywords occurs in the value with ASCII letters compared
  without case, so a rule is never kept from a value it could match and the pass over the automaton is
  equivalent to searching for every keyword.
\<close>

theorem prefilter_is_keyword_search:
  assumes "add_all kss NewPrefilterBuilder = Inr (gates, b)" "i < length kss" "sum_list (map length (concat kss)) < 2 ^ 31 - 1"
  shows "seen_Has (Scan (Build b) v) (gates ! i) \<longleftrightarrow>
    kss ! i = [] \<or> list_ex (\<lambda>k. contains (map asciiLower v) (map asciiLower k)) (kss ! i)"
  by (rule gate_fires_iff [OF assms])

theorem prefilter_is_keyword_search_witness:
  "case add_all [[''glpat-''], [], [''hf_'', ''HF_'']] NewPrefilterBuilder of
     Inl e \<Rightarrow> False
   | Inr (gates, b) \<Rightarrow> gates = [0, -1, 1] \<and> \<not> seen_Has (Scan (Build b) ''no Glpat'') 0 \<and> seen_Has (Scan (Build b) ''a hF_x'') 1"
proof -
  obtain gates b where a: "add_all [[''glpat-''], [], [''hf_'', ''HF_'']] NewPrefilterBuilder = Inr (gates, b)" and g: "gates = [0, -1, 1]"
  proof -
    have "case add_all [[''glpat-''], [], [''hf_'', ''HF_'']] NewPrefilterBuilder of Inl e \<Rightarrow> False | Inr (gates, b) \<Rightarrow> gates = [0, -1, 1]"
      by code_simp
    then show thesis using that by (auto split: sum.splits)
  qed
  have "\<not> list_ex (\<lambda>k. contains (map asciiLower ''no Glpat'') (map asciiLower k)) [''glpat-'']"
    "list_ex (\<lambda>k. contains (map asciiLower ''a hF_x'') (map asciiLower k)) [''hf_'', ''HF_'']"
    by code_simp+
  then show ?thesis
    using prefilter_is_keyword_search [OF a, of 0 "''no Glpat''"] prefilter_is_keyword_search [OF a, of 2 "''a hF_x''"] g
    by (simp add: a del: add_all.simps)
qed

end
