(* ===== verification/Scrubber_New.thy ===== *)
theory Scrubber_New
  imports Scrub_Plan Aho_Corasick
begin

text \<open>
  Compiling a scrubber: \<^verbatim>\<open>packs.Load\<close> and \<^verbatim>\<open>New\<close> of
  \<^verbatim>\<open>src/internal/transforms/scrub.go\<close>. The embedded corpora are data and enter as the table
  they decode to.
\<close>

section \<open>Loading a pack\<close>

record corpus =
  co_Pack :: string
  co_Rules :: "ruleSpec list"

type_synonym corpora = "string \<rightharpoonup> corpus"

definition GenericEntropy :: string where "GenericEntropy = ''generic-entropy''"

datatype load_error = NoCorpus string | OtherPack string string | RuleError compile_error

fun compile_rules :: "compiler \<Rightarrow> ruleSpec list \<Rightarrow> compile_error + Rule list" where
  "compile_rules compile [] = Inr []"
| "compile_rules compile (spec # specs) =
     (case compileSpec compile spec of
        Inl e \<Rightarrow> Inl e
      | Inr r \<Rightarrow> (case compile_rules compile specs of Inl e \<Rightarrow> Inl e | Inr rs \<Rightarrow> Inr (r # rs)))"

definition Load :: "compiler \<Rightarrow> corpora \<Rightarrow> string \<Rightarrow> load_error + Rule list" where
  "Load compile data pack =
     (case data pack of
        None \<Rightarrow> Inl (NoCorpus pack)
      | Some c \<Rightarrow>
          if co_Pack c \<noteq> pack then Inl (OtherPack pack (co_Pack c))
          else case compile_rules compile (co_Rules c) of Inl e \<Rightarrow> Inl (RuleError e) | Inr rs \<Rightarrow> Inr rs)"

section \<open>New\<close>

text \<open>The configured floor is signed; \<open>ec_MinLength\<close> is what it is once checked.\<close>

record Config =
  cf_RulePacks :: "string list"
  cf_Exemptions :: "(string \<times> FieldPath list) list"
  cf_Username :: string
  cf_SecretKeyNames :: "string list"
  cf_Entropy :: EntropyConfig
  cf_MinLength :: int
  cf_Drops :: "(string \<times> FieldPath list) list"

datatype new_error =
    NegativeFloor int | BadDrops drop_error | BadPack load_error | BadKeyword prefilter_error | NamePatternPanics

record build =
  bd_prefilter :: PrefilterBuilder
  bd_keyValuePrefilter :: PrefilterBuilder
  bd_patterns :: "gatedPattern list"
  bd_keyValue :: "gatedPattern list"
  bd_entropy :: "entropyMatcher option"

definition keyValueRules :: "string list" where
  "keyValueRules = [''aws-secret-key'', ''secret-access-key'']"

definition add_rule :: "Rule \<Rightarrow> build \<Rightarrow> prefilter_error + build" where
  "add_rule r b =
     (case AddKeywords (ru_keywords r) (bd_prefilter b) of
        Inl e \<Rightarrow> Inl e
      | Inr (gate, pf) \<Rightarrow>
          (let b' = b\<lparr>bd_prefilter := pf, bd_patterns := bd_patterns b @ [\<lparr>gp_m = PackRule r, gp_gate = gate\<rparr>]\<rparr>
           in if ru_id r \<in> set keyValueRules
              then case AddKeywords (ru_keywords r) (bd_keyValuePrefilter b) of
                     Inl e \<Rightarrow> Inl e
                   | Inr (kvGate, kv) \<Rightarrow>
                       Inr (b'\<lparr>bd_keyValuePrefilter := kv, bd_keyValue := bd_keyValue b @ [\<lparr>gp_m = PackRule r, gp_gate = kvGate\<rparr>]\<rparr>)
              else Inr b'))"

fun add_rules :: "Rule list \<Rightarrow> build \<Rightarrow> prefilter_error + build" where
  "add_rules [] b = Inr b"
| "add_rules (r # rs) b = (case add_rule r b of Inl e \<Rightarrow> Inl e | Inr b' \<Rightarrow> add_rules rs b')"

definition add_pack :: "compiler \<Rightarrow> corpora \<Rightarrow> entropyMatcher \<Rightarrow> string \<Rightarrow> build \<Rightarrow> new_error + build" where
  "add_pack compile data entropy name b =
     (if name = GenericEntropy then Inr (b\<lparr>bd_entropy := Some entropy\<rparr>)
      else case Load compile data name of
             Inl e \<Rightarrow> Inl (BadPack e)
           | Inr rules \<Rightarrow> (case add_rules rules b of Inl e \<Rightarrow> Inl (BadKeyword e) | Inr b' \<Rightarrow> Inr b'))"

fun add_packs :: "compiler \<Rightarrow> corpora \<Rightarrow> entropyMatcher \<Rightarrow> string list \<Rightarrow> build \<Rightarrow> new_error + build" where
  "add_packs compile data entropy [] b = Inr b"
| "add_packs compile data entropy (name # names) b =
     (case add_pack compile data entropy name b of Inl e \<Rightarrow> Inl e | Inr b' \<Rightarrow> add_packs compile data entropy names b')"

definition start_build :: build where
  "start_build = \<lparr>bd_prefilter = NewPrefilterBuilder, bd_keyValuePrefilter = NewPrefilterBuilder, bd_patterns = [],
     bd_keyValue = [], bd_entropy = None\<rparr>"

definition New :: "compiler \<Rightarrow> (string \<Rightarrow> string) \<Rightarrow> (string \<Rightarrow> string) \<Rightarrow> corpora \<Rightarrow> Config \<Rightarrow> new_error + Scrubber" where
  "New compile lower upper data cfg =
     (let exempt = NewExemptionSet (cf_Exemptions cfg);
          entropy = newEntropyMatcher ((cf_Entropy cfg)\<lparr>ec_MinLength := nat (cf_MinLength cfg)\<rparr>) (cf_Username cfg)
      in if cf_MinLength cfg < 0 then Inl (NegativeFloor (cf_MinLength cfg))
         else case compileDrops (cf_Drops cfg) of
                Inl e \<Rightarrow> Inl (BadDrops e)
              | Inr drops \<Rightarrow>
         (case add_packs compile data entropy (cf_RulePacks cfg) start_build of
            Inl e \<Rightarrow> Inl e
          | Inr b \<Rightarrow>
         (case newKeyNameMatcher compile lower upper (cf_SecretKeyNames cfg) of
            None \<Rightarrow> Inl NamePatternPanics
          | Some names \<Rightarrow>
         (case AddKeywords (km_stems names) (bd_prefilter b) of
            Inl e \<Rightarrow> Inl (BadKeyword e)
          | Inr (keyGate, pf) \<Rightarrow>
              Inr \<lparr>sc_patterns = bd_patterns b @ [\<lparr>gp_m = KeyNames names, gp_gate = keyGate\<rparr>],
                   sc_entropy = bd_entropy b, sc_pathUser = cf_Username cfg, sc_keyNames = names, sc_exempt = exempt,
                   sc_drops = live_drops exempt drops, sc_prefilter = Build pf,
                   sc_keyValue = bd_keyValue b, sc_keyValuePrefilter = Build (bd_keyValuePrefilter b)\<rparr>))))"

section \<open>The gates of a compiled scrubber\<close>

fun matcher_keywords :: "gatedMatcher \<Rightarrow> string list" where
  "matcher_keywords (PackRule r) = ru_keywords r"
| "matcher_keywords (KeyNames m) = km_stems m"

definition registered :: "gatedPattern list \<Rightarrow> PrefilterBuilder \<Rightarrow> bool" where
  "registered ps pf \<longleftrightarrow> add_all (map (matcher_keywords \<circ> gp_m) ps) NewPrefilterBuilder = Inr (map gp_gate ps, pf)"

lemma add_all_snoc:
  "add_all kss b = Inr (gs, b') \<Longrightarrow> AddKeywords ks b' = Inr (g, b'') \<Longrightarrow> add_all (kss @ [ks]) b = Inr (gs @ [g], b'')"
  by (induction kss arbitrary: b gs) (fastforce split: sum.splits)+

lemma registered_snoc:
  "registered ps pf \<Longrightarrow> AddKeywords (matcher_keywords m) pf = Inr (g, pf') \<Longrightarrow>
   registered (ps @ [\<lparr>gp_m = m, gp_gate = g\<rparr>]) pf'"
  using add_all_snoc by (simp add: registered_def)

definition build_ok :: "build \<Rightarrow> bool" where
  "build_ok b \<longleftrightarrow> registered (bd_patterns b) (bd_prefilter b) \<and> registered (bd_keyValue b) (bd_keyValuePrefilter b)"

lemma add_rule_ok:
  assumes "add_rule r b = Inr b'" "build_ok b"
  shows "build_ok b' \<and> gp_m ` set (bd_patterns b') = insert (PackRule r) (gp_m ` set (bd_patterns b)) \<and>
    bd_entropy b' = bd_entropy b"
proof -
  obtain g pf where a: "AddKeywords (matcher_keywords (PackRule r)) (bd_prefilter b) = Inr (g, pf)"
    using assms(1) by (auto simp: add_rule_def split: sum.splits)
  note n1 = registered_snoc [OF _ a, of "bd_patterns b"]
  show ?thesis
  proof (cases "ru_id r \<in> set keyValueRules")
    case True
    then obtain g' kv where kv: "AddKeywords (matcher_keywords (PackRule r)) (bd_keyValuePrefilter b) = Inr (g', kv)"
      using assms(1) a by (auto simp: add_rule_def Let_def split: sum.splits)
    note n2 = registered_snoc [OF _ kv, of "bd_keyValue b"]
    show ?thesis using assms a kv True n1 n2 by (auto simp: add_rule_def Let_def build_ok_def)
  next
    case False
    with assms a n1 show ?thesis by (auto simp: add_rule_def Let_def build_ok_def)
  qed
qed

lemma add_rules_ok:
  "add_rules rs b = Inr b' \<Longrightarrow> build_ok b \<Longrightarrow>
   build_ok b' \<and> gp_m ` set (bd_patterns b') = gp_m ` set (bd_patterns b) \<union> PackRule ` set rs \<and>
   bd_entropy b' = bd_entropy b"
proof (induction rs arbitrary: b)
  case (Cons r rs)
  then obtain b1 where b1: "add_rule r b = Inr b1" "add_rules rs b1 = Inr b'" by (auto split: sum.splits)
  note one = add_rule_ok [OF b1(1) Cons.prems(2)]
  with Cons.IH [OF b1(2)] show ?case by auto
qed simp

text \<open>The rules of the configured packs.\<close>

definition pack_rules :: "compiler \<Rightarrow> corpora \<Rightarrow> string list \<Rightarrow> Rule set" where
  "pack_rules compile data names =
     (\<Union>name \<in> set names. if name = GenericEntropy then {} else case Load compile data name of Inl e \<Rightarrow> {} | Inr rs \<Rightarrow> set rs)"

lemma add_packs_ok:
  "add_packs compile data entropy names b = Inr b' \<Longrightarrow> build_ok b \<Longrightarrow>
   build_ok b' \<and> gp_m ` set (bd_patterns b') = gp_m ` set (bd_patterns b) \<union> PackRule ` pack_rules compile data names \<and>
   bd_entropy b' = (if GenericEntropy \<in> set names then Some entropy else bd_entropy b)"
proof (induction names arbitrary: b)
  case Nil
  then show ?case by (simp add: pack_rules_def)
next
  case (Cons name names)
  then obtain b1 where b1: "add_pack compile data entropy name b = Inr b1" "add_packs compile data entropy names b1 = Inr b'"
    by (auto split: sum.splits)
  show ?case
  proof (cases "name = GenericEntropy")
    case True
    then have "b1 = b\<lparr>bd_entropy := Some entropy\<rparr>" using b1(1) by (simp add: add_pack_def)
    moreover from this Cons.prems(2) have "build_ok b1" by (simp add: build_ok_def)
    moreover have "pack_rules compile data (name # names) = pack_rules compile data names" using True by (simp add: pack_rules_def)
    ultimately show ?thesis using Cons.IH [OF b1(2)] True by simp
  next
    case False
    then obtain rules where l: "Load compile data name = Inr rules" "add_rules rules b = Inr b1"
      using b1(1) by (auto simp: add_pack_def split: sum.splits)
    have "pack_rules compile data (name # names) = set rules \<union> pack_rules compile data names"
      using False l(1) by (simp add: pack_rules_def)
    with add_rules_ok [OF l(2) Cons.prems(2)] Cons.IH [OF b1(2)] False show ?thesis by (simp add: image_Un Un_assoc)
  qed
qed

lemma New_parts:
  assumes "New compile lower upper data cfg = Inr s"
  obtains b names g pf drops where
    "add_packs compile data (newEntropyMatcher ((cf_Entropy cfg)\<lparr>ec_MinLength := nat (cf_MinLength cfg)\<rparr>) (cf_Username cfg))
       (cf_RulePacks cfg) start_build = Inr b"
    "newKeyNameMatcher compile lower upper (cf_SecretKeyNames cfg) = Some names"
    "AddKeywords (matcher_keywords (KeyNames names)) (bd_prefilter b) = Inr (g, pf)"
    "compileDrops (cf_Drops cfg) = Inr drops"
    "s = \<lparr>sc_patterns = bd_patterns b @ [\<lparr>gp_m = KeyNames names, gp_gate = g\<rparr>],
          sc_entropy = bd_entropy b, sc_pathUser = cf_Username cfg, sc_keyNames = names,
          sc_exempt = NewExemptionSet (cf_Exemptions cfg),
          sc_drops = live_drops (NewExemptionSet (cf_Exemptions cfg)) drops, sc_prefilter = Build pf,
          sc_keyValue = bd_keyValue b, sc_keyValuePrefilter = Build (bd_keyValuePrefilter b)\<rparr>"
proof -
  note n = assms [unfolded New_def Let_def]
  obtain drops where d: "compileDrops (cf_Drops cfg) = Inr drops"
    using n by (cases "compileDrops (cf_Drops cfg)") (simp_all split: if_splits)
  note n = n [unfolded d sum.case]
  obtain b where b: "add_packs compile data (newEntropyMatcher ((cf_Entropy cfg)\<lparr>ec_MinLength := nat (cf_MinLength cfg)\<rparr>) (cf_Username cfg))
      (cf_RulePacks cfg) start_build = Inr b"
    using n by (auto split: if_splits sum.splits)
  note n = n [unfolded b sum.case]
  obtain names where k: "newKeyNameMatcher compile lower upper (cf_SecretKeyNames cfg) = Some names"
    using n by (cases "newKeyNameMatcher compile lower upper (cf_SecretKeyNames cfg)") (simp_all split: if_splits)
  note n = n [unfolded k option.case]
  obtain g pf where g: "AddKeywords (km_stems names) (bd_prefilter b) = Inr (g, pf)"
    using n by (cases "AddKeywords (km_stems names) (bd_prefilter b)") (auto split: if_splits)
  note n = n [unfolded g sum.case prod.case]
  show thesis by (rule that [OF b k _ d]) (use n g in \<open>auto split: if_splits\<close>)
qed

lemma New_ok:
  assumes "New compile lower upper data cfg = Inr s"
  shows "\<exists>pf. registered (sc_patterns s) pf \<and> sc_prefilter s = Build pf"
    "gp_m ` set (sc_patterns s) = insert (KeyNames (sc_keyNames s)) (PackRule ` pack_rules compile data (cf_RulePacks cfg))"
    "entropy_ok (sc_entropy s)" "newKeyNameMatcher compile lower upper (cf_SecretKeyNames cfg) = Some (sc_keyNames s)"
proof -
  obtain b names g pf drops where b: "add_packs compile data
        (newEntropyMatcher ((cf_Entropy cfg)\<lparr>ec_MinLength := nat (cf_MinLength cfg)\<rparr>) (cf_Username cfg)) (cf_RulePacks cfg) start_build = Inr b"
    and k: "newKeyNameMatcher compile lower upper (cf_SecretKeyNames cfg) = Some names"
    and g: "AddKeywords (matcher_keywords (KeyNames names)) (bd_prefilter b) = Inr (g, pf)"
    and s: "sc_patterns s = bd_patterns b @ [\<lparr>gp_m = KeyNames names, gp_gate = g\<rparr>]" "sc_prefilter s = Build pf"
      "sc_entropy s = bd_entropy b" "sc_keyNames s = names"
    by (rule New_parts [OF assms]) simp
  have "build_ok start_build" by (simp add: build_ok_def start_build_def registered_def)
  note ok = add_packs_ok [OF b this]
  then have "registered (bd_patterns b) (bd_prefilter b)" by (simp add: build_ok_def)
  from registered_snoc [OF this g] s show "\<exists>pf. registered (sc_patterns s) pf \<and> sc_prefilter s = Build pf" by auto
  show "entropy_ok (sc_entropy s)" using ok unfolding s(3) by (auto simp: entropy_ok_def start_build_def)
  show "gp_m ` set (sc_patterns s) = insert (KeyNames (sc_keyNames s)) (PackRule ` pack_rules compile data (cf_RulePacks cfg))"
    using ok unfolding s(1,4) by (simp add: start_build_def)
  show "newKeyNameMatcher compile lower upper (cf_SecretKeyNames cfg) = Some (sc_keyNames s)" using k s(4) by simp
qed

text \<open>A pattern whose every match holds one of its keywords answers behind its gate as it would without.\<close>

definition marked :: "gatedMatcher \<Rightarrow> string \<Rightarrow> bool" where
  "marked m v \<longleftrightarrow> matcher_keywords m = [] \<or> MatchScannedIn m v = [] \<or>
     list_ex (\<lambda>k. contains (map asciiLower v) (map asciiLower k)) (matcher_keywords m)"

definition keyword_bytes :: "gatedPattern list \<Rightarrow> nat" where
  "keyword_bytes ps = sum_list (map length (concat (map (matcher_keywords \<circ> gp_m) ps)))"

lemma gate_keeps_matches:
  assumes "New compile lower upper data cfg = Inr s" "keyword_bytes (sc_patterns s) < 2 ^ 31 - 1"
    "p \<in> set (sc_patterns s)" "marked (gp_m p) v"
  shows "fired_spans (sc_prefilter s) v p = MatchScannedIn (gp_m p) v"
proof -
  obtain pf where pf: "registered (sc_patterns s) pf" "sc_prefilter s = Build pf" using New_ok(1) [OF assms(1)] by blast
  obtain i where i: "i < length (sc_patterns s)" "sc_patterns s ! i = p" using assms(3) by (auto simp: in_set_conv_nth)
  have "seen_Has (Scan (Build pf) v) (map gp_gate (sc_patterns s) ! i) \<longleftrightarrow>
      map (matcher_keywords \<circ> gp_m) (sc_patterns s) ! i = [] \<or>
      list_ex (\<lambda>k. contains (map asciiLower v) (map asciiLower k)) (map (matcher_keywords \<circ> gp_m) (sc_patterns s) ! i)"
    by (rule gate_fires_iff) (use pf(1) i(1) assms(2) in \<open>simp_all add: registered_def keyword_bytes_def\<close>)
  with i assms(4) pf(2) show ?thesis by (auto simp: fired_spans_def marked_def)
qed

section \<open>No finding of a configured rule survives\<close>

lemma plan_weave:
  assumes "plan_ok v p"
  shows "\<exists>kept. plan_apply p v = Some (weave kept (map rp_Replacement (vp_spans p))) \<and>
    concat kept = map ((!) v) (filter (\<lambda>i. i \<notin> replaced (vp_spans p)) [0 ..< length v])"
proof (cases "vp_spans p = []")
  case True
  then show ?thesis by (intro exI [of _ "[v]"]) (simp add: plan_apply_def map_nth)
next
  case False
  with assms apply_from_weave [of 0 v "vp_spans p"] show ?thesis by (auto simp: plan_ok_def plan_apply_def)
qed


text \<open>The personal-data pack compiled, with one configured name, over a text with a number and a name.\<close>

lemma scrubber_okI:
  assumes "New compile lower upper data cfg = Inr s"
    and "\<And>r. r \<in> pack_rules compile data (cf_RulePacks cfg) \<Longrightarrow> span_matcher (MatchScanned r)"
    and "\<And>m. newKeyNameMatcher compile lower upper (cf_SecretKeyNames cfg) = Some m \<Longrightarrow> span_matcher (key_name_spans m)"
  shows "scrubber_ok s"
proof -
  have "matcher_ok m" if "m \<in> gp_m ` set (sc_patterns s)" for m
  proof (cases m)
    case (PackRule r)
    have "MatchScannedIn (PackRule r) = MatchScanned r" by (rule ext) simp
    with PackRule that New_ok(2) [OF assms(1)] assms(2) show ?thesis by (auto simp: matcher_ok_def)
  next
    case (KeyNames k)
    have "MatchScannedIn (KeyNames k) = key_name_spans k" by (rule ext) simp
    with KeyNames that New_ok(2,4) [OF assms(1)] assms(3) show ?thesis by (auto simp: matcher_ok_def)
  qed
  with New_ok(3) [OF assms(1)] show ?thesis by (simp add: scrubber_ok_def)
qed

definition demo_compile :: compiler where
  "demo_compile p = (case pii_compile p of Some re \<Rightarrow> Some re | None \<Rightarrow> Some (\<lambda>v i. None))"

definition demo_upper :: "string \<Rightarrow> string" where
  "demo_upper = map (\<lambda>c. if is_lower c then char_of (byte c - 32) else c)"

definition demo_corpora :: corpora where
  "demo_corpora = [''pii-core'' \<mapsto> \<lparr>co_Pack = ''pii-core'', co_Rules = map fst pii_core\<rparr>]"

definition demo_config :: Config where
  "demo_config = \<lparr>cf_RulePacks = [''pii-core'', GenericEntropy], cf_Exemptions = [(''*'', [''version''])], cf_Username = ''jo'',
     cf_SecretKeyNames = [''GH_TOKEN''], cf_Entropy = \<lparr>ec_MinLength = 0, ec_scores = \<lambda>hex counts n. True, ec_floor = 12, ec_floorHex = 12\<rparr>,
     cf_MinLength = 24, cf_Drops = []\<rparr>"

lemma pii_matcher:
  assumes "(spec, re) \<in> set pii_core" "compile (rs_Regex spec) = Some (whole_re re)" "compileSpec compile spec = Inr r"
  shows "span_matcher (MatchScanned r)"
proof
  fix sp v assume sp: "sp \<in> set (MatchScanned r v)"
  obtain r' where "compileSpec compile spec = Inr r'" "ru_capture r' = 0" "ru_re r' = whole_re re" "MatchScanned r' v = matchSweep r' v"
    using pii_rule [where compile = compile, OF assms(1,2), of v] by blast
  with assms(3) sp sweep_inside [of r re sp v] pii_consumes [OF assms(1)]
  show "sp_Start sp < sp_End sp \<and> sp_End sp \<le> length v" by simp
qed

lemma compile_rules_from: "compile_rules compile specs = Inr rs \<Longrightarrow> r \<in> set rs \<Longrightarrow> \<exists>spec \<in> set specs. compileSpec compile spec = Inr r"
  by (induction specs arbitrary: rs) (auto split: sum.splits)

lemma demo_ok:
  assumes "New demo_compile to_lower demo_upper demo_corpora demo_config = Inr s"
  shows "scrubber_ok s"
proof (rule scrubber_okI [OF assms])
  fix r assume "r \<in> pack_rules demo_compile demo_corpora (cf_RulePacks demo_config)"
  then obtain rs where rs: "compile_rules demo_compile (map fst pii_core) = Inr rs" "r \<in> set rs"
    by (auto simp: pack_rules_def demo_config_def demo_corpora_def Load_def split: sum.splits if_splits)
  from compile_rules_from [OF this] obtain spec re where
    c: "(spec, re) \<in> set pii_core" "compileSpec demo_compile spec = Inr r" by auto
  have "demo_compile (rs_Regex spec) = Some (whole_re re)" using pii_compile_core [OF c(1)] by (simp add: demo_compile_def)
  from pii_matcher [OF c(1) this c(2)] show "span_matcher (MatchScanned r)" .
next
  fix m assume m: "newKeyNameMatcher demo_compile to_lower demo_upper (cf_SecretKeyNames demo_config) = Some m"
  have none: "find_all_sub (\<lambda>v i. None) v i = []" for v i
    by (induction "Suc (length v) - i" arbitrary: i) (subst find_all_sub.simps, auto)+
  have "demo_compile (key_name_pattern (map name_alt [''GH_TOKEN''])) = Some (\<lambda>v i. None)"
  proof -
    have "pii_compile (key_name_pattern (map name_alt [''GH_TOKEN''])) = None" by code_simp
    then show ?thesis by (simp add: demo_compile_def)
  qed
  then have "km_re m = (\<lambda>v i. None)" using m by (auto simp: newKeyNameMatcher_def Let_def demo_config_def)
  then show "span_matcher (key_name_spans m)" by unfold_locales (simp add: key_name_spans_def none map_filter_simps)
qed

lemma demo_New:
  "\<exists>s. New demo_compile to_lower demo_upper demo_corpora demo_config = Inr s \<and> keyword_bytes (sc_patterns s) = 9"
proof -
  let ?e = "newEntropyMatcher ((cf_Entropy demo_config)\<lparr>ec_MinLength := nat (cf_MinLength demo_config)\<rparr>) (cf_Username demo_config)"
  have c: "compileDrops (cf_Drops demo_config) = Inr []" "\<not> cf_MinLength demo_config < 0" by (simp_all add: demo_config_def)
  have "case add_packs demo_compile demo_corpora ?e (cf_RulePacks demo_config) start_build of
      Inl e \<Rightarrow> False
    | Inr b \<Rightarrow> keyword_bytes (bd_patterns b) = 1 \<and>
        (case AddKeywords [''gh_token''] (bd_prefilter b) of Inl e \<Rightarrow> False | Inr (g, pf) \<Rightarrow> g = 1)"
    by code_simp
  then obtain b pf where b: "add_packs demo_compile demo_corpora ?e (cf_RulePacks demo_config) start_build = Inr b"
      "keyword_bytes (bd_patterns b) = 1" "AddKeywords [''gh_token''] (bd_prefilter b) = Inr (1, pf)"
    by (auto split: sum.splits)
  have "case newKeyNameMatcher demo_compile to_lower demo_upper (cf_SecretKeyNames demo_config) of
      None \<Rightarrow> False | Some m \<Rightarrow> km_stems m = [''gh_token'']"
    by code_simp
  then obtain m where m: "newKeyNameMatcher demo_compile to_lower demo_upper (cf_SecretKeyNames demo_config) = Some m"
      "km_stems m = [''gh_token'']"
    by (auto split: option.splits)
  show ?thesis unfolding New_def Let_def c(1) b(1) m(1) m(2) b(3)
    using c(2) b(2,3) m(2) by (simp add: keyword_bytes_def)
qed


end
