(* ===== verification/Json_Text.thy ===== *)
theory Json_Text
  imports Escapes Go_Runes
begin

text \<open>
  What the JSON walker of \<^verbatim>\<open>src/internal/transforms/jsonwalk.go\<close> uses of
  \<^verbatim>\<open>encoding/json/jsontext\<close>: reading one value of a line, with duplicate names and invalid
  UTF-8 allowed, decoding a string token and quoting a string. A value is read into the tree of its
  tokens, each with its place in the line; where the decoder fails the tree ends in \<open>JBad\<close> or in an
  object that is not closed, so that a walk meets the failure at the point the decoder reports it.
\<close>

section \<open>Tokens\<close>

definition dquote :: char where "dquote = CHR 0x22"

definition is_ws :: "char \<Rightarrow> bool" where
  "is_ws c \<longleftrightarrow> c = CHR '' '' \<or> c = CHR 0x09 \<or> c = CHR 0x0D \<or> c = CHR 0x0A"

text \<open>The length of a valid escape; the backslash itself is not part of the argument.\<close>

definition escape_size :: "string \<Rightarrow> nat option" where
  "escape_size cs =
     (case cs of
        [] \<Rightarrow> None
      | c # rest \<Rightarrow>
          if c \<in> {dquote, backslash} \<union> set ''/bfnrt'' then Some 1
          else if c = CHR ''u'' \<and> length rest \<ge> 4 \<and> hex_digits (take 4 rest) 0 \<noteq> None then Some 5
          else None)"

text \<open>The bytes of a string token after its opening quote, the closing quote included.\<close>

function string_size :: "string \<Rightarrow> nat option" where
  "string_size [] = None"
| "string_size (c # cs) =
     (if c = dquote then Some 1
      else if c = backslash
           then (case escape_size cs of None \<Rightarrow> None | Some n \<Rightarrow> map_option ((+) (Suc n)) (string_size (drop n cs)))
      else if byte c < 0x20 then None
      else map_option Suc (string_size cs))"
  by pat_completeness auto
termination
  by (relation "measure length") auto

text \<open>A number, a literal: the length, or nothing.\<close>

definition digits_size :: "string \<Rightarrow> nat" where
  "digits_size cs = length (takeWhile is_digit cs)"

definition fraction_size :: "string \<Rightarrow> nat option" where
  "fraction_size cs =
     (if cs \<noteq> [] \<and> hd cs = CHR ''.'' then (let n = digits_size (tl cs) in if n = 0 then None else Some (Suc n)) else Some 0)"

definition exponent_size :: "string \<Rightarrow> nat option" where
  "exponent_size cs =
     (if cs \<noteq> [] \<and> (hd cs = CHR ''e'' \<or> hd cs = CHR ''E'')
      then (let sign = (if tl cs \<noteq> [] \<and> (hd (tl cs) = CHR ''+'' \<or> hd (tl cs) = CHR ''-'') then 1 else 0);
                n = digits_size (drop sign (tl cs))
            in if n = 0 then None else Some (Suc (sign + n)))
      else Some 0)"

definition number_size :: "string \<Rightarrow> nat option" where
  "number_size cs =
     (let sign = (if cs \<noteq> [] \<and> hd cs = CHR ''-'' then 1 else 0);
          body = drop sign cs;
          n = (if body \<noteq> [] \<and> hd body = CHR ''0'' then 1 else digits_size body)
      in if n = 0 then None
         else case fraction_size (drop n body) of
                None \<Rightarrow> None
              | Some f \<Rightarrow> map_option (\<lambda>e. sign + n + f + e) (exponent_size (drop (n + f) body)))"

definition literal_size :: "string \<Rightarrow> nat option" where
  "literal_size cs =
     (if prefix ''true'' cs then Some 4 else if prefix ''false'' cs then Some 5 else if prefix ''null'' cs then Some 4 else None)"

section \<open>Reading a value\<close>

datatype jdoc =
    JBad
  | JLit
  | JNum nat nat
  | JStr nat nat
  | JObj "((nat \<times> nat) \<times> jdoc) list" bool
  | JArr "jdoc list"

text \<open>What is left of a line: the position reached and the bytes from there on; nothing after a failure.\<close>

type_synonym rest = "(nat \<times> string) option"

fun skip_ws :: "nat \<Rightarrow> string \<Rightarrow> nat \<times> string" where
  "skip_ws i [] = (i, [])"
| "skip_ws i (c # cs) = (if is_ws c then skip_ws (Suc i) cs else (i, c # cs))"

text \<open>A scalar at a position: its token by its first byte.\<close>

definition read_scalar :: "nat \<Rightarrow> string \<Rightarrow> jdoc \<times> rest" where
  "read_scalar i cs =
     (case cs of
        [] \<Rightarrow> (JBad, None)
      | c # r \<Rightarrow>
          if c = dquote
          then (case string_size r of None \<Rightarrow> (JBad, None) | Some n \<Rightarrow> (JStr i (i + Suc n), Some (i + Suc n, drop n r)))
          else if c = CHR ''-'' \<or> is_digit c
          then (case number_size cs of None \<Rightarrow> (JBad, None) | Some n \<Rightarrow> (JNum i (i + n), Some (i + n, drop n cs)))
          else (case literal_size cs of None \<Rightarrow> (JBad, None) | Some n \<Rightarrow> (JLit, Some (i + n, drop n cs))))"

text \<open>A delimiter the decoder expects between two tokens: a comma before all but the first element, a colon after a name.\<close>

definition expect :: "char \<Rightarrow> nat \<Rightarrow> string \<Rightarrow> rest" where
  "expect d i cs = (case skip_ws i cs of (j, c # r) \<Rightarrow> if c = d then Some (skip_ws (Suc j) r) else None | (j, []) \<Rightarrow> None)"

definition closes :: "char \<Rightarrow> nat \<Rightarrow> string \<Rightarrow> rest" where
  "closes d i cs = (case skip_ws i cs of (j, c # r) \<Rightarrow> if c = d then Some (Suc j, r) else None | (j, []) \<Rightarrow> None)"

definition element_start :: "bool \<Rightarrow> nat \<Rightarrow> string \<Rightarrow> rest" where
  "element_start first i cs = (if first then Some (skip_ws i cs) else expect CHR '','' i cs)"

text \<open>The name of a member and where it ends.\<close>

definition read_name :: "nat \<Rightarrow> string \<Rightarrow> ((nat \<times> nat) \<times> nat \<times> string) option" where
  "read_name i cs =
     (case read_scalar i cs of (JStr a b, Some (j, r)) \<Rightarrow> Some ((a, b), j, r) | _ \<Rightarrow> None)"

text \<open>A reader goes on only with fewer bytes than it was given; it always has fewer, see \<open>read_shorter\<close>.\<close>

definition progress :: "string \<Rightarrow> rest \<Rightarrow> rest" where
  "progress cs r = (case r of None \<Rightarrow> None | Some (j, cs') \<Rightarrow> if length cs' < length cs then Some (j, cs') else None)"

lemma progress_less: "progress cs r = Some (j, cs') \<Longrightarrow> length cs' < length cs"
  by (auto simp: progress_def split: option.splits if_splits)

lemma skip_ws_shorter: "length (snd (skip_ws i cs)) \<le> length cs"
  by (induction i cs rule: skip_ws.induct) auto

lemma skip_ws_tail: "(j, r) = skip_ws i cs \<Longrightarrow> r \<noteq> [] \<Longrightarrow> length r - 1 < length cs \<and> length r \<le> length cs"
  using skip_ws_shorter [of i cs] by (cases r) (auto dest: sym)

lemma closes_shorter: "closes d i cs = Some (j, r) \<Longrightarrow> length r < length cs"
  using skip_ws_shorter [of i cs] by (auto simp: closes_def split: prod.splits list.splits if_splits)

lemma expect_shorter: "expect d i cs = Some (j, r) \<Longrightarrow> length r < length cs"
proof -
  assume e: "expect d i cs = Some (j, r)"
  obtain k ds where s: "skip_ws i cs = (k, ds)" by (rule prod.exhaust)
  with e obtain c t where ds: "ds = c # t" and r: "skip_ws (Suc k) t = (j, r)"
    by (cases ds) (auto simp: expect_def split: if_splits)
  show ?thesis using skip_ws_shorter [of i cs] skip_ws_shorter [of "Suc k" t] s ds r by simp
qed

lemma element_start_shorter: "element_start first i cs = Some (j, r) \<Longrightarrow> length r \<le> length cs"
  using skip_ws_shorter [of i cs] expect_shorter [of _ i cs j r] by (auto simp: element_start_def less_imp_le split: if_splits)

lemma string_size_positive: "string_size cs = Some n \<Longrightarrow> 0 < n"
  by (induction cs arbitrary: n rule: string_size.induct) (auto split: if_splits option.splits)

lemma read_name_shorter: "read_name i cs = Some (name, k, r) \<Longrightarrow> length r < length cs"
  using string_size_positive
  by (auto simp: read_name_def read_scalar_def split: list.splits if_splits option.splits jdoc.splits prod.splits)

function (sequential) read_value :: "nat \<Rightarrow> string \<Rightarrow> jdoc \<times> rest"
  and read_members :: "bool \<Rightarrow> nat \<Rightarrow> string \<Rightarrow> (((nat \<times> nat) \<times> jdoc) list \<times> bool) \<times> rest"
  and read_items :: "bool \<Rightarrow> nat \<Rightarrow> string \<Rightarrow> jdoc list \<times> rest" where
  "read_value i0 cs0 =
     (case skip_ws i0 cs0 of (i, cs) \<Rightarrow>
        if cs \<noteq> [] \<and> hd cs = CHR ''{''
        then (case read_members True (Suc i) (tl cs) of ((ms, closed), r) \<Rightarrow> (JObj ms closed, r))
        else if cs \<noteq> [] \<and> hd cs = CHR ''[''
        then (case read_items True (Suc i) (tl cs) of (vs, r) \<Rightarrow> (JArr vs, r))
        else read_scalar i cs)"
| "read_members first i cs =
     (case closes CHR ''}'' i cs of
        Some r \<Rightarrow> (([], True), Some r)
      | None \<Rightarrow>
          (case element_start first i cs of
             None \<Rightarrow> (([], False), None)
           | Some (j, cs1) \<Rightarrow>
               (case read_name j cs1 of
                  None \<Rightarrow> (([], False), None)
                | Some (name, k, cs2) \<Rightarrow>
                    (case expect CHR '':'' k cs2 of
                       None \<Rightarrow> (([(name, JBad)], False), None)
                     | Some (l, cs3) \<Rightarrow>
                         (case read_value l cs3 of
                            (v, r) \<Rightarrow>
                              (case progress cs r of
                                 None \<Rightarrow> (([(name, v)], False), None)
                               | Some (m, cs4) \<Rightarrow>
                                   (case read_members False m cs4 of ((ms, closed), r') \<Rightarrow> (((name, v) # ms, closed), r'))))))))"
| "read_items first i cs =
     (case closes CHR '']'' i cs of
        Some r \<Rightarrow> ([], Some r)
      | None \<Rightarrow>
          (case element_start first i cs of
             None \<Rightarrow> ([JBad], None)
           | Some (j, cs1) \<Rightarrow>
               (case read_value j cs1 of
                  (v, r) \<Rightarrow>
                    (case progress cs r of
                       None \<Rightarrow> ([v], None)
                     | Some (m, cs2) \<Rightarrow> (case read_items False m cs2 of (vs, r') \<Rightarrow> (v # vs, r'))))))"
  by pat_completeness auto
termination
  by (relation "measures [\<lambda>x. case x of Inl (_, cs) \<Rightarrow> length cs | Inr (Inl (_, _, cs)) \<Rightarrow> length cs | Inr (Inr (_, _, cs)) \<Rightarrow> length cs,
      \<lambda>x. case x of Inl _ \<Rightarrow> 0 | _ \<Rightarrow> 1]")
    (auto dest!: skip_ws_tail element_start_shorter read_name_shorter expect_shorter progress_less)

declare read_value.simps [simp del] read_members.simps [simp del] read_items.simps [simp del]


definition read_doc :: "string \<Rightarrow> jdoc \<times> rest" where
  "read_doc v = read_value 0 v"

text \<open>The guard on progress never stops the reader.\<close>

lemma read_scalar_shorter: "read_scalar i cs = (d, Some (j, r)) \<Longrightarrow> length r < length cs"
  using string_size_positive
  by (auto simp: read_scalar_def number_size_def literal_size_def Let_def split: list.splits if_splits option.splits)

section \<open>Where the tokens are\<close>

fun tokens :: "jdoc \<Rightarrow> (nat \<times> nat) list" where
  "tokens JBad = []"
| "tokens JLit = []"
| "tokens (JNum a b) = [(a, b)]"
| "tokens (JStr a b) = [(a, b)]"
| "tokens (JObj ms closed) = concat (map (\<lambda>(name, v). name # tokens v) ms)"
| "tokens (JArr vs) = concat (map tokens vs)"

text \<open>Tokens in order between two positions, each beginning and ending with an ASCII byte.\<close>

definition edges :: "string \<Rightarrow> nat \<Rightarrow> nat \<Rightarrow> bool" where
  "edges line a b \<longleftrightarrow> byte (line ! a) < 0x80 \<and> byte (line ! (b - 1)) < 0x80"

fun spaced :: "string \<Rightarrow> nat \<Rightarrow> (nat \<times> nat) list \<Rightarrow> nat \<Rightarrow> bool" where
  "spaced line lo [] hi \<longleftrightarrow> lo \<le> hi"
| "spaced line lo ((a, b) # ts) hi \<longleftrightarrow> lo \<le> a \<and> a < b \<and> edges line a b \<and> spaced line b ts hi"

lemma spaced_append: "spaced line lo ts mid \<Longrightarrow> spaced line mid us hi \<Longrightarrow> spaced line lo (ts @ us) hi"
proof (induction ts arbitrary: lo)
  case Nil
  then show ?case by (cases us) auto
qed auto

lemma spaced_mono: "spaced line lo ts hi \<Longrightarrow> lo' \<le> lo \<Longrightarrow> hi \<le> hi' \<Longrightarrow> spaced line lo' ts hi'"
  by (induction ts arbitrary: lo lo') auto

text \<open>A position in a line with the bytes from there on.\<close>

definition at_line :: "string \<Rightarrow> nat \<Rightarrow> string \<Rightarrow> bool" where
  "at_line line i cs \<longleftrightarrow> i \<le> length line \<and> cs = drop i line"

lemma at_line_step: "at_line line i (c # cs) \<Longrightarrow> at_line line (Suc i) cs"
  by (auto simp: at_line_def) (metis Cons_nth_drop_Suc list.inject drop_eq_Nil list.distinct(1) not_less_eq_eq, metis drop_Suc list.sel(3) tl_drop)

lemma at_line_drop: "at_line line i cs \<Longrightarrow> n \<le> length cs \<Longrightarrow> at_line line (i + n) (drop n cs)"
  by (auto simp: at_line_def add.commute)

lemma at_line_skip: "at_line line i cs \<Longrightarrow> skip_ws i cs = (j, r) \<Longrightarrow> at_line line j r \<and> i \<le> j"
proof (induction i cs rule: skip_ws.induct)
  case (2 i c cs)
  show ?case
  proof (cases "is_ws c")
    case True
    from "2.IH" [OF True at_line_step [OF "2.prems"(1)]] "2.prems"(2) True show ?thesis by auto
  next
    case False
    with 2 show ?thesis by auto
  qed
qed simp

lemma closes_Some: "closes d i cs = Some (j, r) \<longleftrightarrow> (\<exists>k. skip_ws i cs = (k, d # r) \<and> j = Suc k)"
  by (cases "skip_ws i cs"; cases "snd (skip_ws i cs)") (auto simp: closes_def)

lemma expect_Some: "expect d i cs = Some (j, r) \<longleftrightarrow> (\<exists>k t. skip_ws i cs = (k, d # t) \<and> skip_ws (Suc k) t = (j, r))"
  by (cases "skip_ws i cs"; cases "snd (skip_ws i cs)") (auto simp: expect_def)

lemma at_line_closes: "at_line line i cs \<Longrightarrow> closes d i cs = Some (j, r) \<Longrightarrow> at_line line j r \<and> i < j"
  unfolding closes_Some using at_line_skip [of line i cs] at_line_step by fastforce

lemma at_line_expect:
  assumes "at_line line i cs" "expect d i cs = Some (j, r)"
  shows "at_line line j r \<and> i < j"
proof -
  from assms(2) obtain k t where k: "skip_ws i cs = (k, d # t)" "skip_ws (Suc k) t = (j, r)" unfolding expect_Some by blast
  have 1: "at_line line k (d # t)" "i \<le> k" using at_line_skip [OF assms(1) k(1)] by auto
  show ?thesis using at_line_skip [OF at_line_step [OF 1(1)] k(2)] 1(2) by auto
qed

lemma at_line_element: "at_line line i cs \<Longrightarrow> element_start first i cs = Some (j, r) \<Longrightarrow> at_line line j r \<and> i \<le> j"
  using at_line_skip [of line i cs j r] at_line_expect [of line i cs _ j r] by (auto simp: element_start_def less_imp_le split: if_splits)

text \<open>The string tokens among them: names and string values.\<close>

fun strings :: "jdoc \<Rightarrow> (nat \<times> nat) list" where
  "strings (JStr a b) = [(a, b)]"
| "strings (JObj ms closed) = concat (map (\<lambda>(name, v). name # strings v) ms)"
| "strings (JArr vs) = concat (map strings vs)"
| "strings _ = []"

definition quoted :: "string \<Rightarrow> nat \<times> nat \<Rightarrow> bool" where
  "quoted line = (\<lambda>(a, b). b \<le> length line \<and> a + 2 \<le> b \<and> line ! a = dquote \<and> line ! (b - 1) = dquote \<and>
     string_size (drop (Suc a) line) = Some (b - Suc a))"

lemma string_size_quote: "string_size cs = Some n \<Longrightarrow> 0 < n \<and> n \<le> length cs \<and> cs ! (n - 1) = dquote"
proof (induction cs arbitrary: n rule: string_size.induct)
  case (2 c cs)
  consider "c = dquote" | e where "c \<noteq> dquote" "c = backslash" "escape_size cs = Some e"
    | "c \<noteq> dquote" "c \<noteq> backslash" "\<not> byte c < 0x20"
    using "2.prems" by (auto split: if_splits option.splits)
  then show ?case
  proof cases
    case 1
    with "2.prems" show ?thesis by simp
  next
    case (2 e)
    with "2.prems" obtain m where m: "string_size (drop e cs) = Some m" "n = Suc (e + m)" by (auto split: option.splits)
    from "2.IH"(1) [OF 2 m(1)] m(2) show ?thesis by (cases m) auto
  next
    case 3
    with "2.prems" obtain m where m: "string_size cs = Some m" "n = Suc m" by auto
    from "2.IH"(2) [OF 3 m(1)] m(2) show ?thesis by (cases m) auto
  qed
qed simp

lemma digits_size_le: "digits_size cs \<le> length cs"
  by (simp add: digits_size_def length_takeWhile_le)

lemma fraction_size_le: "fraction_size cs = Some n \<Longrightarrow> n \<le> length cs"
  using digits_size_le [of "tl cs"] by (cases cs) (auto simp: fraction_size_def Let_def split: if_splits)

lemma exponent_size_le: "exponent_size cs = Some n \<Longrightarrow> n \<le> length cs"
proof -
  assume e: "exponent_size cs = Some n"
  show ?thesis
  proof (cases cs)
    case (Cons c r)
    have "digits_size r \<le> length r" "digits_size (tl r) \<le> length (tl r)" using digits_size_le by blast+
    with e Cons show ?thesis by (cases r) (auto simp: exponent_size_def Let_def split: if_splits)
  qed (use e in \<open>simp add: exponent_size_def\<close>)
qed

lemma digits_ascii: "list_all (\<lambda>c. byte c < 0x80) (take (digits_size cs) cs)"
proof -
  have "take (digits_size cs) cs = takeWhile is_digit cs" unfolding digits_size_def by (rule takeWhile_eq_take [symmetric])
  moreover have "is_digit c \<Longrightarrow> byte c < 0x80" for c
    by (auto simp: is_digit_def byte_def less_eq_char_def)
  ultimately show ?thesis by (auto simp: list_all_iff dest: set_takeWhileD)
qed

lemma number_size_bounds: "number_size cs = Some n \<Longrightarrow> 0 < n \<and> n \<le> length cs"
proof -
  assume e: "number_size cs = Some n"
  define sign where "sign = (if cs \<noteq> [] \<and> hd cs = CHR ''-'' then 1 else 0 :: nat)"
  define body where "body = drop sign cs"
  define k where "k = (if body \<noteq> [] \<and> hd body = CHR ''0'' then 1 else digits_size body)"
  have "number_size cs = (if k = 0 then None else case fraction_size (drop k body) of None \<Rightarrow> None
      | Some f \<Rightarrow> map_option (\<lambda>e. sign + k + f + e) (exponent_size (drop (k + f) body)))"
    unfolding number_size_def Let_def k_def body_def sign_def ..
  with e obtain f x where f: "fraction_size (drop k body) = Some f" "exponent_size (drop (k + f) body) = Some x" "k \<noteq> 0" "n = sign + k + f + x"
    by (auto split: if_splits option.splits)
  have "k \<le> length body" using digits_size_le [of body] by (cases body) (auto simp: k_def)
  moreover have "sign \<le> length cs" by (cases cs) (auto simp: sign_def)
  ultimately show ?thesis using fraction_size_le [OF f(1)] exponent_size_le [OF f(2)] f(3,4) by (auto simp: body_def)
qed

lemma fraction_ascii: "fraction_size cs = Some n \<Longrightarrow> list_all (\<lambda>c. byte c < 0x80) (take n cs)"
proof -
  assume e: "fraction_size cs = Some n"
  show ?thesis
  proof (cases cs)
    case (Cons c r)
    have "byte (CHR ''.'') < 0x80" by (simp add: byte_def)
    with e Cons digits_ascii [of r] show ?thesis by (auto simp: fraction_size_def Let_def split: if_splits)
  qed simp
qed

lemma exponent_ascii: "exponent_size cs = Some n \<Longrightarrow> list_all (\<lambda>c. byte c < 0x80) (take n cs)"
proof -
  assume e: "exponent_size cs = Some n"
  show ?thesis
  proof (cases cs)
    case (Cons c r)
    have "list_all (\<lambda>c. byte c < 0x80) (take (digits_size r) r)" "list_all (\<lambda>c. byte c < 0x80) (take (digits_size (tl r)) (tl r))"
      using digits_ascii by blast+
    with e Cons show ?thesis by (cases r) (auto simp: exponent_size_def Let_def byte_def split: if_splits)
  qed simp
qed

lemma take_plus: "take (m + n) xs = take m xs @ take n (drop m xs)"
  by (simp add: take_add)

lemma number_ascii: "number_size cs = Some n \<Longrightarrow> list_all (\<lambda>c. byte c < 0x80) (take n cs)"
proof -
  assume e: "number_size cs = Some n"
  define sign where "sign = (if cs \<noteq> [] \<and> hd cs = CHR ''-'' then 1 else 0 :: nat)"
  define body where "body = drop sign cs"
  define k where "k = (if body \<noteq> [] \<and> hd body = CHR ''0'' then 1 else digits_size body)"
  have "number_size cs = (if k = 0 then None else case fraction_size (drop k body) of None \<Rightarrow> None
      | Some f \<Rightarrow> map_option (\<lambda>e. sign + k + f + e) (exponent_size (drop (k + f) body)))"
    unfolding number_size_def Let_def k_def body_def sign_def ..
  with e obtain f x where f: "fraction_size (drop k body) = Some f" "exponent_size (drop (k + f) body) = Some x" "n = sign + k + f + x"
    by (auto split: if_splits option.splits)
  have t: "take n cs = take sign cs @ take k body @ take f (drop k body) @ take x (drop (k + f) body)"
  proof -
    have "drop f (drop k body) = drop (k + f) body" by (simp add: add.commute)
    then show ?thesis unfolding f(3) add.assoc take_plus [of sign] take_plus [of k] take_plus [of f] body_def [symmetric] by simp
  qed
  have "list_all (\<lambda>c. byte c < 0x80) (take sign cs)" by (cases cs) (auto simp: sign_def byte_def)
  moreover have "list_all (\<lambda>c. byte c < 0x80) (take k body)"
    using digits_ascii [of body] by (cases body) (auto simp: k_def byte_def)
  ultimately show ?thesis unfolding t using fraction_ascii [OF f(1)] exponent_ascii [OF f(2)] by simp
qed

lemma literal_size_bounds: "literal_size cs = Some n \<Longrightarrow> 0 < n \<and> n \<le> length cs"
  by (auto simp: literal_size_def dest: prefix_length_le split: if_splits)

definition read_ok :: "string \<Rightarrow> nat \<Rightarrow> (nat \<times> nat) list \<Rightarrow> (nat \<times> nat) list \<Rightarrow> rest \<Rightarrow> bool" where
  "read_ok line i ts ss r \<longleftrightarrow>
     (case r of Some (j, cs) \<Rightarrow> at_line line j cs \<and> spaced line i ts j | None \<Rightarrow> spaced line i ts (length line)) \<and> (\<forall>s \<in> set ss. quoted line s)"

lemma read_okI:
  "spaced line i ts (length line) \<Longrightarrow> (\<And>s. s \<in> set ss \<Longrightarrow> quoted line s) \<Longrightarrow> read_ok line i ts ss None"
  "at_line line j cs \<Longrightarrow> spaced line i ts j \<Longrightarrow> (\<And>s. s \<in> set ss \<Longrightarrow> quoted line s) \<Longrightarrow> read_ok line i ts ss (Some (j, cs))"
  by (simp_all add: read_ok_def)

lemma read_ok_le: "read_ok line i ts ss r \<Longrightarrow> i' \<le> i \<Longrightarrow> read_ok line i' ts ss r"
  using spaced_mono by (fastforce simp: read_ok_def split: option.splits)

lemma at_line_le: "at_line line i cs \<Longrightarrow> i \<le> length line"
  by (simp add: at_line_def)

lemma read_scalar_ok:
  assumes "at_line line i cs" "read_scalar i cs = (d, r)"
  shows "read_ok line i (tokens d) (strings d) r"
proof (cases cs)
  case Nil
  with assms show ?thesis by (auto simp: read_scalar_def at_line_le intro!: read_okI(1))
next
  case (Cons c t)
  note line = assms(1) [unfolded Cons]
  have step: "at_line line (Suc i) t" by (rule at_line_step [OF line])
  consider (string) "c = dquote" | (number) "c \<noteq> dquote" "c = CHR ''-'' \<or> is_digit c" | (literal) "c \<noteq> dquote" "\<not> (c = CHR ''-'' \<or> is_digit c)"
    by blast
  then show ?thesis
  proof cases
    case string
    show ?thesis
    proof (cases "string_size t")
      case None
      with string assms Cons show ?thesis by (auto simp: read_scalar_def at_line_le intro!: read_okI(1))
    next
      case (Some n)
      with string assms(2) Cons have d: "d = JStr i (i + Suc n)" "r = Some (i + Suc n, drop n t)" by (auto simp: read_scalar_def)
      note q = string_size_quote [OF Some]
      have line': "line ! i = dquote" "t = drop (Suc i) line" "Suc i \<le> length line" "i < length line"
        using line step string by (auto simp: at_line_def) (metis nth_via_drop)
      have "line ! (i + n) = t ! (n - 1)" using q line'(2,3) by (simp add: nth_drop)
      then have "quoted line (i, i + Suc n)" using q line' Some by (auto simp: quoted_def)
      moreover have "at_line line (i + Suc n) (drop n t)" using at_line_drop [OF step, of n] q by simp
      moreover have "edges line i (i + Suc n)"
        using \<open>quoted line (i, i + Suc n)\<close> by (simp add: quoted_def edges_def byte_def dquote_def)
      ultimately show ?thesis unfolding d by (intro read_okI(2)) auto
    qed
  next
    case number
    show ?thesis
    proof (cases "number_size cs")
      case None
      with number assms Cons show ?thesis by (auto simp: read_scalar_def at_line_le intro!: read_okI(1))
    next
      case (Some n)
      with number assms(2) Cons have d: "d = JNum i (i + n)" "r = Some (i + n, drop n cs)" by (auto simp: read_scalar_def)
      note q = number_size_bounds [OF Some]
      have "line ! (i + k) = take n cs ! k" if "k < n" for k using that q assms(1) by (simp add: at_line_def)
      moreover have "byte (take n cs ! k) < 0x80" if "k < n" for k
        using number_ascii [OF Some] that q by (simp add: list_all_length)
      ultimately have "byte (line ! (i + k)) < 0x80" if "k < n" for k using that by simp
      from this [of 0] this [of "n - 1"] q have "edges line i (i + n)" by (simp add: edges_def)
      then show ?thesis unfolding d using q at_line_drop [OF assms(1), of n] by (intro read_okI(2)) auto
    qed
  next
    case literal
    show ?thesis
    proof (cases "literal_size cs")
      case None
      with literal assms Cons show ?thesis by (auto simp: read_scalar_def at_line_le intro!: read_okI(1))
    next
      case (Some n)
      with literal assms(2) Cons have d: "d = JLit" "r = Some (i + n, drop n cs)" by (auto simp: read_scalar_def)
      note q = literal_size_bounds [OF Some]
      show ?thesis unfolding d using q at_line_drop [OF assms(1), of n] by (intro read_okI(2)) auto
    qed
  qed
qed

lemma read_name_ok:
  assumes "at_line line i cs" "read_name i cs = Some ((a, b), j, r)"
  shows "at_line line j r" "i \<le> a" "a < b" "b \<le> j" "quoted line (a, b)"
proof -
  from assms(2) have s: "read_scalar i cs = (JStr a b, Some (j, r))"
    by (auto simp: read_name_def split: prod.splits jdoc.splits option.splits)
  from read_scalar_ok [OF assms(1) s]
  show "at_line line j r" "i \<le> a" "a < b" "b \<le> j" "quoted line (a, b)" by (simp_all add: read_ok_def)
qed

lemma read_ok_cons:
  assumes "read_ok line j ts ss r" "quoted line (a, b)" "i \<le> a" "a < b" "b \<le> j"
  shows "read_ok line i ((a, b) # ts) ((a, b) # ss) r"
proof -
  have "edges line a b" using assms(2) by (simp add: quoted_def edges_def byte_def dquote_def)
  then have "spaced line i ((a, b) # ts) hi" if "spaced line j ts hi" for hi
    using that assms(3-5) spaced_mono [of line j ts hi b hi] by simp
  with assms(1,2) show ?thesis by (auto simp: read_ok_def split: option.splits)
qed

lemma read_ok_append:
  assumes "read_ok line i ts ss (Some (j, cs))" "read_ok line j us zs r"
  shows "read_ok line i (ts @ us) (ss @ zs) r"
  using assms spaced_append by (fastforce simp: read_ok_def split: option.splits)

lemma read_ok_none:
  "read_ok line i ts ss (Some (j, cs)) \<Longrightarrow> read_ok line i ts ss None"
  using spaced_mono at_line_le by (fastforce simp: read_ok_def)

lemma progress_ok: "read_ok line i ts ss r \<Longrightarrow> read_ok line i ts ss (progress cs r)"
  using read_ok_none by (auto simp: progress_def split: option.splits)

lemma read_ok_all:
  "at_line line i cs \<Longrightarrow> read_value i cs = (d, r) \<Longrightarrow> read_ok line i (tokens d) (strings d) r"
  "at_line line i cs \<Longrightarrow> read_members first i cs = ((ms, closed), r) \<Longrightarrow>
     read_ok line i (tokens (JObj ms closed)) (strings (JObj ms closed)) r"
  "at_line line i cs \<Longrightarrow> read_items first i cs = (vs, r) \<Longrightarrow> read_ok line i (tokens (JArr vs)) (strings (JArr vs)) r"
proof (induction i cs and first i cs and first i cs arbitrary: d r and ms closed r and vs r
    rule: read_value_read_members_read_items.induct)
  case (1 i0 cs0)
  obtain i cs where s: "skip_ws i0 cs0 = (i, cs)" by (rule prod.exhaust)
  note at = at_line_skip [OF "1.prems"(1) s]
  consider (obj) t where "cs = CHR ''{'' # t" | (arr) t where "cs = CHR ''['' # t"
    | (scalar) "\<not> (cs \<noteq> [] \<and> hd cs = CHR ''{'')" "\<not> (cs \<noteq> [] \<and> hd cs = CHR ''['')"
    by (cases cs) auto
  then have "read_ok line i (tokens d) (strings d) r"
  proof cases
    case obj
    obtain ms closed r' where m: "read_members True (Suc i) t = ((ms, closed), r')" by (metis prod.exhaust)
    have d: "d = JObj ms closed" "r = r'" using "1.prems"(2) s obj m by (simp_all add: read_value.simps [of i0 cs0])
    have "read_ok line (Suc i) (tokens (JObj ms closed)) (strings (JObj ms closed)) r'"
      by (rule "1.IH"(1) [OF s [symmetric]]) (use obj m at at_line_step [of line i "CHR ''{''" t] in auto)
    then show ?thesis unfolding d by (rule read_ok_le) simp
  next
    case arr
    obtain vs r' where m: "read_items True (Suc i) t = (vs, r')" by (rule prod.exhaust)
    have d: "d = JArr vs" "r = r'" using "1.prems"(2) s arr m by (simp_all add: read_value.simps [of i0 cs0])
    have "read_ok line (Suc i) (tokens (JArr vs)) (strings (JArr vs)) r'"
      by (rule "1.IH"(2) [OF s [symmetric]]) (use arr m at at_line_step [of line i "CHR ''[''" t] in auto)
    then show ?thesis unfolding d by (rule read_ok_le) simp
  next
    case scalar
    then have "read_scalar i cs = (d, r)" using "1.prems"(2) s by (auto simp: read_value.simps [of i0 cs0] split: if_splits)
    with at show ?thesis by (intro read_scalar_ok) auto
  qed
  then show ?case using at read_ok_le by blast
next
  case (2 first i cs)
  note def = read_members.simps [of first i cs]
  show ?case
  proof (cases "closes CHR ''}'' i cs")
    case (Some q)
    obtain j t where q: "q = (j, t)" by (rule prod.exhaust)
    note at = at_line_closes [OF "2.prems"(1) Some [unfolded q]]
    from "2.prems"(2) Some q have "ms = [] \<and> r = Some (j, t)" by (simp_all add: def)
    with at show ?thesis by (auto intro!: read_okI(2))
  next
    case no: None
    show ?thesis
    proof (cases "element_start first i cs")
      case None
      with no "2.prems" show ?thesis by (auto simp: def at_line_le intro!: read_okI(1))
    next
      case (Some q)
      obtain j cs1 where q: "q = (j, cs1)" by (rule prod.exhaust)
      note e = Some [unfolded q]
      note at1 = at_line_element [OF "2.prems"(1) e]
      show ?thesis
      proof (cases "read_name j cs1")
        case None
        with no e "2.prems" show ?thesis by (auto simp: def at_line_le intro!: read_okI(1))
      next
        case (Some q)
        obtain a b k cs2 where q: "q = ((a, b), k, cs2)" by (metis prod.exhaust)
        note n = Some [unfolded q]
        note at2 = read_name_ok [OF conjunct1 [OF at1] n]
        have none_left: "read_ok line k [] [] None" using at_line_le [OF at2(1)] by (simp add: read_ok_def)
        have head: "read_ok line i ((a, b) # ts) ((a, b) # ss) r'" if "read_ok line l ts ss r'" "k \<le> l" for l ts ss r'
          by (rule read_ok_cons [OF that(1) at2(5)]) (use at1 at2 that(2) in auto)
        show ?thesis
        proof (cases "expect CHR '':'' k cs2")
          case None
          have "read_ok line i [(a, b)] [(a, b)] None" using head [of k "[]" "[]" None] none_left by simp
          with None no e n "2.prems"(2) show ?thesis by (auto simp: def)
        next
          case (Some q)
          obtain l cs3 where q: "q = (l, cs3)" by (rule prod.exhaust)
          note c = Some [unfolded q]
          note at3 = at_line_expect [OF at2(1) c]
          obtain v r1 where v: "read_value l cs3 = (v, r1)" by (rule prod.exhaust)
          have okv: "read_ok line l (tokens v) (strings v) r1"
            by (rule "2.IH"(1) [OF no e refl n refl refl c refl]) (use at3 v in auto)
          show ?thesis
          proof (cases "progress cs r1")
            case None
            have "read_ok line i ((a, b) # tokens v) ((a, b) # strings v) (progress cs r1)"
              by (rule head [OF progress_ok [OF okv]]) (use at3 in simp)
            with None no e n c v "2.prems"(2) show ?thesis by (auto simp: def)
          next
            case (Some q)
            obtain m cs4 where q: "q = (m, cs4)" by (rule prod.exhaust)
            note p = Some [unfolded q]
            note okp = progress_ok [OF okv, of cs, unfolded p]
            then have at4: "at_line line m cs4" by (simp add: read_ok_def)
            obtain ms' closed' r2 where ms: "read_members False m cs4 = ((ms', closed'), r2)" by (metis prod.exhaust)
            have rest: "read_ok line m (tokens (JObj ms' closed')) (strings (JObj ms' closed')) r2"
              by (rule "2.IH"(2) [OF no e refl n refl refl c refl v [symmetric] p refl at4 ms])
            have d: "ms = ((a, b), v) # ms'" "closed = closed'" "r = r2"
              using no e n c v p ms "2.prems"(2) by (simp_all add: def)
            have "read_ok line i ((a, b) # tokens v @ tokens (JObj ms' closed')) ((a, b) # strings v @ strings (JObj ms' closed')) r2"
              by (rule head [OF read_ok_append [OF okp rest]]) (use at3 in simp)
            then show ?thesis unfolding d by simp
          qed
        qed
      qed
    qed
  qed
next
  case (3 first i cs)
  note def = read_items.simps [of first i cs]
  show ?case
  proof (cases "closes CHR '']'' i cs")
    case (Some q)
    obtain j t where q: "q = (j, t)" by (rule prod.exhaust)
    note at = at_line_closes [OF "3.prems"(1) Some [unfolded q]]
    from "3.prems"(2) Some q have "vs = [] \<and> r = Some (j, t)" by (simp_all add: def)
    with at show ?thesis by (auto intro!: read_okI(2))
  next
    case no: None
    show ?thesis
    proof (cases "element_start first i cs")
      case None
      with no "3.prems" show ?thesis by (auto simp: def at_line_le intro!: read_okI(1))
    next
      case (Some q)
      obtain j cs1 where q: "q = (j, cs1)" by (rule prod.exhaust)
      note e = Some [unfolded q]
      note at1 = at_line_element [OF "3.prems"(1) e]
      obtain v r1 where v: "read_value j cs1 = (v, r1)" by (rule prod.exhaust)
      have okv: "read_ok line i (tokens v) (strings v) r1"
        by (rule read_ok_le [OF "3.IH"(1) [OF no e refl conjunct1 [OF at1] v]]) (use at1 in simp)
      note okp = progress_ok [OF okv, of cs]
      show ?thesis
      proof (cases "progress cs r1")
        case None
        with no e v "3.prems"(2) okp show ?thesis by (auto simp: def)
      next
        case (Some q)
        obtain m cs2 where q: "q = (m, cs2)" by (rule prod.exhaust)
        note p = Some [unfolded q]
        have at2: "at_line line m cs2" using okp p by (simp add: read_ok_def)
        obtain vs' r2 where vs: "read_items False m cs2 = (vs', r2)" by (rule prod.exhaust)
        have rest: "read_ok line m (tokens (JArr vs')) (strings (JArr vs')) r2"
          by (rule "3.IH"(2) [OF no e refl v [symmetric] p refl at2 vs])
        have d: "vs = v # vs'" "r = r2" using no e v p vs "3.prems"(2) by (simp_all add: def)
        show ?thesis using read_ok_append [OF okp [unfolded p] rest] unfolding d by simp
      qed
    qed
  qed
qed

end
