(* ===== verification/Json_Strings.thy ===== *)
theory Json_Strings
  imports Json_Text
begin

text \<open>
  The strings of \<^verbatim>\<open>encoding/json/jsontext\<close>: \<^verbatim>\<open>AppendUnquote\<close>, which replaces what is
  not UTF-8 and lone surrogates by the replacement character, \<^verbatim>\<open>AppendQuote\<close>, which fails on
  what is not UTF-8, and \<^verbatim>\<open>decoded\<close> of \<^verbatim>\<open>src/internal/transforms/jsonwalk.go\<close>.
\<close>

section \<open>Valid UTF-8\<close>

definition utf8_valid :: "string \<Rightarrow> bool" where
  "utf8_valid s \<longleftrightarrow> list_all (\<lambda>(r, bs). r \<noteq> RuneError \<or> length bs = 3) (chunks s)"

definition decode_surrogates :: "nat \<Rightarrow> nat \<Rightarrow> nat" where
  "decode_surrogates r1 r2 =
     (if 0xD800 \<le> r1 \<and> r1 < 0xDC00 \<and> 0xDC00 \<le> r2 \<and> r2 < 0xE000
      then (r1 - 0xD800) * 1024 + (r2 - 0xDC00) + 0x10000 else RuneError)"

section \<open>Unquoting\<close>

text \<open>
  The bytes of an escape and how long it is, the backslash not counted; the argument follows it. What is
  no escape ends the string where it stands, with the error the walker does not look at.
\<close>

definition unescape :: "string \<Rightarrow> string \<times> nat" where
  "unescape cs =
     (case cs of
        [] \<Rightarrow> ([], 0)
      | c # rest \<Rightarrow>
          if c = CHR ''b'' then ([CHR 0x08], 1)
          else if c = CHR ''f'' then ([CHR 0x0C], 1)
          else if c = CHR ''n'' then ([CHR 0x0A], 1)
          else if c = CHR ''r'' then ([CHR 0x0D], 1)
          else if c = CHR ''t'' then ([CHR 0x09], 1)
          else if c = dquote \<or> c = backslash \<or> c = CHR ''/'' then ([c], 1)
          else if c \<noteq> CHR ''u'' \<or> length rest < 4 then ([], length cs)
          else case hex_digits (take 4 rest) 0 of
                 None \<Rightarrow> ([], length cs)
               | Some r \<Rightarrow>
                   if \<not> (0xD800 \<le> r \<and> r < 0xE000) then (encode_rune r, 5)
                   else let next_hex = drop 4 rest;
                            pair = (if length next_hex \<ge> 6 \<and> prefix [backslash, CHR ''u''] next_hex
                                    then (case hex_digits (take 4 (drop 2 next_hex)) 0 of None \<Rightarrow> RuneError | Some r2 \<Rightarrow> decode_surrogates r r2)
                                    else RuneError)
                        in (encode_rune pair, if pair = RuneError then 5 else 11))"

function unquote :: "string \<Rightarrow> string" where
  "unquote [] = []"
| "unquote (c # cs) =
     (if c = backslash then (case unescape cs of (bs, n) \<Rightarrow> bs @ unquote (drop n cs))
      else case decode_rune c cs of
             (r, n) \<Rightarrow> if byte c \<ge> 0x80 \<and> n = 1 then encode_rune RuneError @ unquote cs
                       else take n (c # cs) @ unquote (drop (n - 1) cs))"
  by pat_completeness auto
termination
  by (relation "measure length") auto

text \<open>\<^verbatim>\<open>jsonWalker.decoded\<close>, on a string token.\<close>

definition decoded :: "string \<Rightarrow> string" where
  "decoded raw =
     (let body = segment 1 (length raw - 1) raw
      in if backslash \<notin> set body \<and> utf8_valid body then body else unquote body)"

section \<open>Quoting\<close>

definition hex_char :: "nat \<Rightarrow> char" where
  "hex_char d = (if d < 10 then char_of (48 + d) else char_of (87 + d))"

definition quote_char :: "char \<Rightarrow> string" where
  "quote_char c =
     (if c = dquote \<or> c = backslash then [backslash, c]
      else if byte c \<ge> 0x20 then [c]
      else if c = CHR 0x08 then [backslash, CHR ''b'']
      else if c = CHR 0x0C then [backslash, CHR ''f'']
      else if c = CHR 0x0A then [backslash, CHR ''n'']
      else if c = CHR 0x0D then [backslash, CHR ''r'']
      else if c = CHR 0x09 then [backslash, CHR ''t'']
      else [backslash, CHR ''u'', CHR ''0'', CHR ''0'', hex_char (byte c div 16), hex_char (byte c mod 16)])"

definition quote_body :: "string \<Rightarrow> string" where
  "quote_body s = concat (map quote_char s)"

definition append_quote :: "string \<Rightarrow> string option" where
  "append_quote s = (if utf8_valid s then Some (dquote # quote_body s @ [dquote]) else None)"

section \<open>Quoting and unquoting\<close>

lemma hex_char_value: "d < 16 \<Longrightarrow> hex_value (hex_char d) = Some d"
proof -
  have "list_all (\<lambda>d. hex_value (hex_char d) = Some d) [0 ..< 16]" by code_simp
  then show "d < 16 \<Longrightarrow> hex_value (hex_char d) = Some d" by (simp add: list_all_iff)
qed

lemma hex_byte: "b < 256 \<Longrightarrow> hex_digits [CHR ''0'', CHR ''0'', hex_char (b div 16), hex_char (b mod 16)] 0 = Some b"
proof -
  assume "b < 256"
  then have "b div 16 < 16" "b mod 16 < 16" by (simp_all add: less_mult_imp_div_less)
  moreover have "hex_value (CHR ''0'') = Some 0" by code_simp
  moreover have "b div 16 * 16 + b mod 16 = b" by simp
  ultimately show ?thesis by (simp add: hex_char_value)
qed

text \<open>Each byte quoted is one element of a string token that decodes to the byte.\<close>

definition quotes_back :: "char \<Rightarrow> bool" where
  "quotes_back c \<longleftrightarrow>
     (case quote_char c of
        [a] \<Rightarrow> a = c \<and> c \<noteq> dquote \<and> c \<noteq> backslash \<and> byte c \<ge> 0x20
      | a # bs \<Rightarrow> a = backslash \<and> byte c < 0x80 \<and> escape_size bs = Some (length bs) \<and> unescape bs = ([c], length bs) \<and>
          hd bs \<noteq> CHR ''u'' \<or> a = backslash \<and> byte c < 0x20 \<and> length bs = 5 \<and> hd bs = CHR ''u'' \<and> hex_digits (tl bs) 0 = Some (byte c)
      | [] \<Rightarrow> False)"

lemma quotes_back: "quotes_back c"
proof (cases "byte c < 0x20")
  case True
  have b: "byte (CHR 0x08) = 8" "byte (CHR 0x0C) = 12" "byte (CHR 0x0A) = 10" "byte (CHR 0x0D) = 13" "byte (CHR 0x09) = 9"
      "byte dquote = 34" "byte backslash = 92"
    by (simp_all add: byte_def dquote_def backslash_def)
  with True have ne: "c \<noteq> dquote" "c \<noteq> backslash" by auto
  consider (short) "c \<in> {CHR 0x08, CHR 0x0C, CHR 0x0A, CHR 0x0D, CHR 0x09}" | (long) "c \<notin> {CHR 0x08, CHR 0x0C, CHR 0x0A, CHR 0x0D, CHR 0x09}"
    by blast
  then show ?thesis
  proof cases
    case short
    have "list_all quotes_back [CHR 0x08, CHR 0x0C, CHR 0x0A, CHR 0x0D, CHR 0x09]" by code_simp
    with short show ?thesis by (simp only: list.pred_inject insert_iff empty_iff) blast
  next
    case long
    obtain x y where xy: "x = hex_char (byte c div 16)" "y = hex_char (byte c mod 16)" by blast
    have q: "quote_char c = [backslash, CHR ''u'', CHR ''0'', CHR ''0'', x, y]"
      using long ne True unfolding quote_char_def xy by simp
    have h: "hex_digits [CHR ''0'', CHR ''0'', x, y] 0 = Some (byte c)"
      unfolding xy by (rule hex_byte) (use True in simp)
    show ?thesis unfolding quotes_back_def q using h True by simp
  qed
next
  case False
  have b: "byte dquote = 34" "byte backslash = 92" by (simp_all add: byte_def dquote_def backslash_def)
  show ?thesis
  proof (cases "c = dquote \<or> c = backslash")
    case True
    moreover have "quotes_back dquote" "quotes_back backslash" by code_simp+
    ultimately show ?thesis by blast
  next
    case no: False
    with False show ?thesis by (simp add: quotes_back_def quote_char_def)
  qed
qed

lemma quote_char_cases:
  obtains (plain) "quote_char c = [c]" "c \<noteq> dquote" "c \<noteq> backslash" "\<not> byte c < 0x20"
  | (escaped) bs where "quote_char c = backslash # bs" "byte c < 0x80" "escape_size bs = Some (length bs)" "bs \<noteq> []"
      "unescape bs = ([c], length bs)" "hd bs \<noteq> CHR ''u''"
  | (hexed) bs where "quote_char c = backslash # CHR ''u'' # bs" "byte c < 0x20" "length bs = 4" "hex_digits bs 0 = Some (byte c)"
proof (cases "quote_char c")
  case Nil
  with quotes_back [of c] show thesis by (simp add: quotes_back_def)
next
  case (Cons a bs)
  show thesis
  proof (cases bs)
    case Nil
    with Cons quotes_back [of c] plain show thesis by (auto simp: quotes_back_def)
  next
    case (Cons b bs')
    note q = quotes_back [of c, unfolded quotes_back_def \<open>quote_char c = a # bs\<close> Cons list.case]
    then consider "a = backslash" "byte c < 0x80" "escape_size bs = Some (length bs)" "unescape bs = ([c], length bs)" "b \<noteq> CHR ''u''"
      | "a = backslash" "byte c < 0x20" "length bs = 5" "b = CHR ''u''" "hex_digits bs' 0 = Some (byte c)"
      by (auto simp: Cons)
    then show thesis
    proof cases
      case 1
      with escaped [of bs] \<open>quote_char c = a # bs\<close> Cons show thesis by simp
    next
      case 2
      with hexed [of bs'] \<open>quote_char c = a # bs\<close> Cons show thesis by simp
    qed
  qed
qed

lemma escape_size_one: "escape_size bs = Some (length bs) \<Longrightarrow> bs \<noteq> [] \<Longrightarrow> hd bs \<noteq> CHR ''u'' \<Longrightarrow> \<exists>e. bs = [e]"
  by (cases bs) (auto simp: escape_size_def split: if_splits)

lemma escape_size_append: "escape_size [e] = Some 1 \<Longrightarrow> escape_size (e # r) = Some 1"
  by (auto simp: escape_size_def split: if_splits)

lemma unescape_append: "escape_size [e] = Some 1 \<Longrightarrow> unescape (e # r) = unescape [e]"
  by (auto simp: unescape_def escape_size_def dquote_def backslash_def split: if_splits)

lemma string_size_quote_char: "string_size (quote_char c @ r) = map_option ((+) (length (quote_char c))) (string_size r)"
proof (cases c rule: quote_char_cases)
  case plain
  then show ?thesis by (simp add: option.map_comp comp_def) (auto intro!: option.map_cong0)
next
  case (escaped bs)
  obtain e where e: "bs = [e]" using escape_size_one [OF escaped(3,4,6)] by blast
  have "backslash \<noteq> dquote" by (simp add: backslash_def dquote_def)
  with escaped e escape_size_append [of e r] show ?thesis by (cases "string_size r") simp_all
next
  case (hexed bs)
  have "backslash \<noteq> dquote" by (simp add: backslash_def dquote_def)
  moreover have "escape_size (CHR ''u'' # bs @ r) = Some 5"
    using hexed(3,4) by (simp add: escape_size_def dquote_def backslash_def)
  ultimately show ?thesis using hexed by (cases "string_size r") simp_all
qed

text \<open>A quoted string is one token.\<close>

lemma string_size_quote_body: "string_size (quote_body s @ dquote # r) = Some (length (quote_body s) + 1)"
proof (induction s)
  case Nil
  then show ?case by (simp add: quote_body_def)
next
  case (Cons c s)
  have "quote_body (c # s) @ dquote # r = quote_char c @ (quote_body s @ dquote # r)" by (simp add: quote_body_def)
  then have "string_size (quote_body (c # s) @ dquote # r) = map_option ((+) (length (quote_char c))) (Some (length (quote_body s) + 1))"
    by (simp only: string_size_quote_char Cons)
  then show ?case by (simp add: quote_body_def)
qed

lemma encode_low: "byte c < 0x80 \<Longrightarrow> encode_rune (byte c) = [c]"
  by (simp add: encode_rune_def byte_def)

lemma unquote_quote_char:
  assumes "byte c < 0x80"
  shows "unquote (quote_char c @ r) = c # unquote r"
proof (cases c rule: quote_char_cases)
  case plain
  with assms show ?thesis by (simp add: decode_rune_def)
next
  case (escaped bs)
  obtain e where e: "bs = [e]" using escape_size_one [OF escaped(3,4,6)] by blast
  with escaped unescape_append [of e r] show ?thesis by simp
next
  case (hexed bs)
  have "unescape (CHR ''u'' # bs @ r) = ([c], 5)"
    using hexed(2,3,4) encode_low [of c] by (simp add: unescape_def dquote_def backslash_def)
  with hexed(1,3) show ?thesis by simp
qed

lemma quote_char_high: "byte c \<ge> 0x80 \<Longrightarrow> quote_char c = [c]"
proof -
  have "byte dquote = 34" "byte backslash = 92" by (simp_all add: byte_def dquote_def backslash_def)
  then show "byte c \<ge> 0x80 \<Longrightarrow> quote_char c = [c]" by (auto simp: quote_char_def)
qed

lemma quote_body_high: "list_all (\<lambda>c. byte c \<ge> 0x80) s \<Longrightarrow> quote_body s = s"
  by (induction s) (auto simp: quote_body_def quote_char_high)

lemma decode_rune_local:
  assumes "decode_rune c cs = (r, Suc k)" "k \<noteq> 0"
  shows "decode_rune c (take k cs @ x) = (r, Suc k)" "list_all (\<lambda>c. byte c \<ge> 0x80) (c # take k cs)" "k \<le> length cs"
proof -
  obtain lo hi where l: "lead (byte c) = Some (k, lo, hi)" and hi: "\<not> byte c < 0x80"
    and t: "length (take k cs) = k" "lo \<le> hd (map byte (take k cs))" "hd (map byte (take k cs)) \<le> hi"
      "list_all continuation (tl (map byte (take k cs)))"
      "r = foldl (\<lambda>r b. r * 64 + (b - 0x80)) (lead_bits k (byte c)) (map byte (take k cs))"
    using assms by (auto simp: decode_rune_def Let_def split: if_splits option.splits)
  show len: "k \<le> length cs" using t(1) by simp
  have "take k (take k cs @ x) = take k cs" using len by simp
  with l hi t show "decode_rune c (take k cs @ x) = (r, Suc k)" by (simp add: decode_rune_def Let_def)
  have "0x80 \<le> lo" using l by (auto simp: lead_def split: if_splits)
  moreover have "take k cs \<noteq> []" using t(1) assms(2) by auto
  ultimately have "list_all (\<lambda>c. byte c \<ge> 0x80) (take k cs)"
    using t(2,4) by (cases "take k cs") (auto simp: list_all_iff continuation_def)
  with hi show "list_all (\<lambda>c. byte c \<ge> 0x80) (c # take k cs)" by simp
qed

lemma utf8_valid_Cons:
  assumes "decode_rune c cs = (r, n)"
  shows "utf8_valid (c # cs) \<longleftrightarrow> (r \<noteq> RuneError \<or> min (n - 1) (length cs) = 2) \<and> utf8_valid (drop (n - 1) cs)"
proof -
  have "n \<noteq> 0" using decode_rune_size [of c cs] assms by simp
  then obtain m where "n = Suc m" by (cases n) auto
  with assms show ?thesis by (auto simp: utf8_valid_def min.commute)
qed

text \<open>Quoting loses nothing: a string that can be quoted is what the token decodes to.\<close>

lemma unquote_quote_body: "utf8_valid s \<Longrightarrow> unquote (quote_body s) = s"
proof (induction s rule: chunks.induct)
  case (2 c cs)
  obtain r n where d: "decode_rune c cs = (r, n)" by (rule prod.exhaust)
  note v = "2.prems" [unfolded utf8_valid_Cons [OF d]]
  have qb: "quote_body (a @ b) = quote_body a @ quote_body b" for a b by (simp add: quote_body_def)
  have n: "n \<noteq> 0" using decode_rune_size [of c cs] d by simp
  then obtain k where k: "n = Suc k" by (cases n) auto
  have ih: "unquote (quote_body (drop k cs)) = drop k cs"
    using "2.IH" [OF d [symmetric] refl] v k by simp
  show ?case
  proof (cases "k = 0")
    case True
    have "lead b \<noteq> Some (0, lo, hi)" for b lo hi by (auto simp: lead_def)
    with True have low: "byte c < 0x80" using d k v by (auto simp: decode_rune_def Let_def split: if_splits option.splits)
    have "quote_body (c # cs) = quote_char c @ quote_body cs" by (simp add: quote_body_def)
    with unquote_quote_char [OF low] ih True show ?thesis by simp
  next
    case False
    note l = decode_rune_local(2,3) [OF d [unfolded k] False]
    note l1 = decode_rune_local(1) [OF d [unfolded k] False, of "quote_body (drop k cs)"]
    have "quote_body (c # cs) = quote_body ((c # take k cs) @ drop k cs)" by simp
    also have "\<dots> = (c # take k cs) @ quote_body (drop k cs)" unfolding qb quote_body_high [OF l(1)] ..
    finally have q: "quote_body (c # cs) = c # (take k cs @ quote_body (drop k cs))" by simp
    have "c \<noteq> backslash" using l(1) by (auto simp: backslash_def byte_def)
    then show ?thesis unfolding q using l1 l(2) False ih by simp
  qed
qed (simp add: quote_body_def)

lemma quote_body_plain: "backslash \<notin> set (quote_body s) \<Longrightarrow> quote_body s = s"
proof (induction s)
  case (Cons c s)
  have "quote_char c = [c]" using Cons.prems by (cases c rule: quote_char_cases) (auto simp: quote_body_def)
  with Cons show ?case by (simp add: quote_body_def)
qed (simp add: quote_body_def)

lemma append_quote_token:
  assumes "append_quote s = Some raw"
  shows "decoded raw = s" "string_size (tl raw @ r) = Some (length raw - 1)" "raw = dquote # tl raw" "2 \<le> length raw"
    "last raw = dquote"
proof -
  from assms have raw: "raw = dquote # quote_body s @ [dquote]" and v: "utf8_valid s"
    by (auto simp: append_quote_def split: if_splits)
  have "segment 1 (length raw - 1) raw = quote_body s" by (simp add: raw segment_def)
  then show "decoded raw = s" using unquote_quote_body [OF v] quote_body_plain [of s] by (simp add: decoded_def Let_def)
  show "string_size (tl raw @ r) = Some (length raw - 1)" using string_size_quote_body [of s r] by (simp add: raw)
  show "raw = dquote # tl raw" "2 \<le> length raw" "last raw = dquote" by (simp_all add: raw)
qed

end
