(* ===== verification/Utf8_Text.thy ===== *)
theory Utf8_Text
  imports Json_Strings
begin

text \<open>
  Cutting and joining valid UTF-8: what keeps the output of the JSON walk valid, so that quoting it
  never fails. A text may be cut at an ASCII byte and joined anywhere.
\<close>

section \<open>Joining\<close>

lemma decode_rune_ascii: "byte c < 0x80 \<Longrightarrow> decode_rune c cs = (byte c, 1)"
  by (simp add: decode_rune_def)

lemma decode_rune_one:
  assumes "decode_rune c cs = (r, 1)" "r \<noteq> RuneError"
  shows "byte c < 0x80"
proof (rule ccontr)
  assume "\<not> byte c < 0x80"
  moreover have "lead b \<noteq> Some (0, lo, hi)" for b lo hi by (auto simp: lead_def)
  ultimately show False using assms by (auto simp: decode_rune_def Let_def split: option.splits if_splits)
qed

lemma valid_first:
  assumes "utf8_valid (c # cs)" "decode_rune c cs = (r, n)"
  obtains (ascii) "byte c < 0x80" "n = 1" "utf8_valid cs"
  | (wide) k where "n = Suc k" "k \<noteq> 0" "r \<noteq> RuneError \<or> min k (length cs) = 2" "utf8_valid (drop k cs)"
proof -
  have "n \<noteq> 0" using decode_rune_size [of c cs] assms(2) by simp
  then obtain k where k: "n = Suc k" by (cases n) auto
  note v = assms(1) [unfolded utf8_valid_Cons [OF assms(2)]]
  show thesis
  proof (cases "k = 0")
    case True
    with v k have "r \<noteq> RuneError" by auto
    with decode_rune_one [of c cs r] assms(2) k True have "byte c < 0x80" by simp
    with ascii k True v show thesis by simp
  next
    case False
    with wide k v show thesis by simp
  qed
qed

lemma utf8_valid_Nil [simp]: "utf8_valid []"
  by (simp add: utf8_valid_def)

lemma utf8_valid_ascii [simp]: "byte c < 0x80 \<Longrightarrow> utf8_valid (c # cs) \<longleftrightarrow> utf8_valid cs"
  using utf8_valid_Cons [OF decode_rune_ascii, of c cs] by (auto simp: byte_def RuneError_def)

lemma utf8_append: "utf8_valid a \<Longrightarrow> utf8_valid b \<Longrightarrow> utf8_valid (a @ b)"
proof (induction a rule: length_induct)
  case (1 a)
  show ?case
  proof (cases a)
    case (Cons c cs)
    obtain r n where d: "decode_rune c cs = (r, n)" by (rule prod.exhaust)
    show ?thesis
    proof (cases rule: valid_first [OF 1(2) [unfolded Cons] d])
      case 1
      with "1.IH" Cons "1.prems"(2) show ?thesis by simp
    next
      case (2 k)
      note l = decode_rune_local [OF d [unfolded 2(1)] 2(2)]
      have len: "k \<le> length cs" by (rule l(3))
      then have d': "decode_rune c (cs @ b) = (r, Suc k)"
        using l(1) [of "drop k cs @ b"] by (metis append.assoc append_take_drop_id)
      have "utf8_valid (drop k cs @ b)" using "1.IH" Cons 2(4) "1.prems"(2) by simp
      then show ?thesis unfolding Cons using utf8_valid_Cons [OF d'] 2(3) len by auto
    qed
  qed (use 1 in simp)
qed

lemma utf8_concat: "list_all utf8_valid ss \<Longrightarrow> utf8_valid (concat ss)"
  by (induction ss) (auto intro: utf8_append)

section \<open>Cutting\<close>

lemma utf8_cut: "utf8_valid (a @ c # b) \<Longrightarrow> byte c < 0x80 \<Longrightarrow> utf8_valid a \<and> utf8_valid b"
proof (induction a rule: length_induct)
  case (1 a)
  show ?case
  proof (cases a)
    case (Cons d ds)
    obtain r n where dec: "decode_rune d (ds @ c # b) = (r, n)" by (rule prod.exhaust)
    show ?thesis
    proof (cases rule: valid_first [OF 1(2) [unfolded Cons append_Cons] dec])
      case 1
      then have "utf8_valid ds \<and> utf8_valid b" using "1.IH" Cons "1.prems"(2) by (metis length_Cons lessI)
      with 1 Cons show ?thesis by simp
    next
      case (2 k)
      note l = decode_rune_local [OF dec [unfolded 2(1)] 2(2)]
      have k: "k \<le> length ds"
      proof (rule ccontr)
        assume "\<not> k \<le> length ds"
        then have "c \<in> set (take k (ds @ c # b))" by (cases "k - length ds") auto
        moreover have "\<forall>x \<in> set (take k (ds @ c # b)). byte x \<ge> 0x80" using l(2) by (simp add: list_all_iff)
        ultimately have "byte c \<ge> 0x80" by blast
        with "1.prems"(2) show False by simp
      qed
      then have t: "take k (ds @ c # b) = take k ds" by simp
      have d': "decode_rune d ds = (r, Suc k)"
        using l(1) [of "drop k ds"] unfolding t by simp
      have "utf8_valid (drop k ds @ c # b)" using 2(4) k by simp
      moreover have "length (drop k ds) < length a" using Cons by simp
      ultimately have "utf8_valid (drop k ds) \<and> utf8_valid b" using "1.IH" "1.prems"(2) by blast
      moreover have "r \<noteq> RuneError \<or> min k (length ds) = 2" using 2(3) k by auto
      ultimately show ?thesis unfolding Cons using utf8_valid_Cons [OF d'] by simp
    qed
  qed (use 1 in simp)
qed

lemma utf8_take:
  assumes "utf8_valid v" "i < length v \<Longrightarrow> byte (v ! i) < 0x80"
  shows "utf8_valid (take i v)"
proof (cases "i < length v")
  case True
  with utf8_cut [of "take i v" "v ! i" "drop (Suc i) v"] assms show ?thesis by (simp add: id_take_nth_drop [symmetric])
qed (use assms in simp)

lemma utf8_drop:
  assumes "utf8_valid v" "i < length v \<Longrightarrow> byte (v ! i) < 0x80"
  shows "utf8_valid (drop i v)"
proof (cases "i < length v")
  case True
  with utf8_cut [of "take i v" "v ! i" "drop (Suc i) v"] assms
  show ?thesis by (simp add: id_take_nth_drop [symmetric] Cons_nth_drop_Suc [symmetric])
qed (use assms in simp)

lemma utf8_drop_after:
  assumes "utf8_valid v" "0 < i" "i \<le> length v" "byte (v ! (i - 1)) < 0x80"
  shows "utf8_valid (drop i v)"
proof -
  obtain k where k: "i = Suc k" using assms(2) by (cases i) auto
  with utf8_cut [of "take k v" "v ! k" "drop (Suc k) v"] assms show ?thesis by (simp add: id_take_nth_drop [symmetric])
qed

section \<open>Encoding and unquoting\<close>

lemma utf8_wide:
  assumes "decode_rune c cs = (r, Suc k)" "k \<noteq> 0" "r \<noteq> RuneError \<or> k = 2" "length cs = k"
  shows "utf8_valid (c # cs)"
  using utf8_valid_Cons [OF assms(1)] assms(2-4) by auto

lemma byte_of_code [simp]: "n < 256 \<Longrightarrow> byte (char_of n) = n"
  by (simp add: byte_def)

lemma sextets:
  fixes x :: nat
  shows "x = x div 4096 * 4096 + x div 64 mod 64 * 64 + x mod 64"
    "x = x div 262144 * 262144 + x div 4096 mod 64 * 4096 + x div 64 mod 64 * 64 + x mod 64"
proof -
  have d: "x div 4096 = x div 64 div 64" "x div 262144 = x div 64 div 64 div 64" by (simp_all only: div_mult2_eq [symmetric]) simp_all
  have m: "y = y div 64 * 64 + y mod 64" for y :: nat by simp
  show "x = x div 4096 * 4096 + x div 64 mod 64 * 64 + x mod 64"
    unfolding d using m [of x] m [of "x div 64"] by linarith
  show "x = x div 262144 * 262144 + x div 4096 mod 64 * 4096 + x div 64 mod 64 * 64 + x mod 64"
    unfolding d using m [of x] m [of "x div 64"] m [of "x div 64 div 64"] by linarith
qed

lemma utf8_encode: "utf8_valid (encode_rune r)"
proof -
  define x where "x = (if r > 0x10FFFF \<or> (0xD800 \<le> r \<and> r \<le> 0xDFFF) then RuneError else r)"
  have bound: "x \<le> 0x10FFFF" "\<not> (0xD800 \<le> x \<and> x \<le> 0xDFFF)" by (auto simp: x_def RuneError_def)
  define c0 c1 c2 where "c0 = x mod 64" "c1 = x div 64 mod 64" "c2 = x div 64 ^ 2 mod 64"
  have c: "c0 < 64" "c1 < 64" "c2 < 64" by (simp_all add: c0_c1_c2_def)
  consider (one) "x < 0x80" | (two) "0x80 \<le> x" "x < 0x800" | (three) "0x800 \<le> x" "x < 0x10000" | (four) "0x10000 \<le> x" by linarith
  then show ?thesis
  proof cases
    case one
    then have "encode_rune r = [char_of x]" by (simp add: encode_rune_def Let_def x_def [symmetric])
    with one show ?thesis by simp
  next
    case two
    define h where "h = x div 64"
    have h: "2 \<le> h" "h < 32" using two by (auto simp: h_def)
    have e: "encode_rune r = [char_of (0xC0 + h), char_of (0x80 + c0)]"
      using two by (simp add: encode_rune_def Let_def x_def [symmetric] h_def c0_c1_c2_def)
    have "lead (0xC0 + h) = Some (1, 0x80, 0xBF)" using h by (simp add: lead_def)
    then have "decode_rune (char_of (0xC0 + h)) [char_of (0x80 + c0)] = (h * 64 + c0, Suc 1)"
      using h c by (simp add: decode_rune_def Let_def lead_bits_def)
    moreover have "h * 64 + c0 \<noteq> RuneError" using h c by (simp add: RuneError_def)
    ultimately show ?thesis unfolding e by (intro utf8_wide) auto
  next
    case three
    define h where "h = x div 64 ^ 2"
    have h: "h < 16" using three by (auto simp: h_def)
    have x: "x = h * 4096 + c1 * 64 + c0" using sextets(1) [of x] by (simp add: h_def c0_c1_c2_def)
    have e: "encode_rune r = [char_of (0xE0 + h), char_of (0x80 + c1), char_of (0x80 + c0)]"
      using three by (simp add: encode_rune_def Let_def x_def [symmetric] h_def c0_c1_c2_def)
    have zero: "h = 0 \<Longrightarrow> 32 \<le> c1" using three(1) x c by linarith
    have thirteen: "h = 13 \<Longrightarrow> c1 < 32"
    proof (rule ccontr)
      assume "h = 13" "\<not> c1 < 32"
      with x c bound(2) show False by linarith
    qed
    have "\<exists>lo hi. lead (0xE0 + h) = Some (2, lo, hi) \<and> lo \<le> 0x80 + c1 \<and> 0x80 + c1 \<le> hi"
      using h zero thirteen c by (auto simp: lead_def)
    then obtain lo hi where l: "lead (0xE0 + h) = Some (2, lo, hi)" "lo \<le> 0x80 + c1" "0x80 + c1 \<le> hi" by blast
    have "decode_rune (char_of (0xE0 + h)) [char_of (0x80 + c1), char_of (0x80 + c0)] = ((h * 64 + c1) * 64 + c0, Suc 2)"
      using h c l by (simp add: decode_rune_def Let_def lead_bits_def continuation_def)
    then show ?thesis unfolding e by (intro utf8_wide) auto
  next
    case four
    define h where "h = x div 64 ^ 3"
    have h: "h < 5" using bound(1) by (auto simp: h_def)
    have x: "x = h * 262144 + c2 * 4096 + c1 * 64 + c0" using sextets(2) [of x] by (simp add: h_def c0_c1_c2_def)
    have e: "encode_rune r = [char_of (0xF0 + h), char_of (0x80 + c2), char_of (0x80 + c1), char_of (0x80 + c0)]"
      using four by (simp add: encode_rune_def Let_def x_def [symmetric] h_def c0_c1_c2_def)
    have zero: "h = 0 \<Longrightarrow> 16 \<le> c2" using four x c by linarith
    have lastc: "h = 4 \<Longrightarrow> c2 < 16" using bound(1) x c by linarith
    have "\<exists>lo hi. lead (0xF0 + h) = Some (3, lo, hi) \<and> lo \<le> 0x80 + c2 \<and> 0x80 + c2 \<le> hi"
      using h zero lastc c by (auto simp: lead_def)
    then obtain lo hi where l: "lead (0xF0 + h) = Some (3, lo, hi)" "lo \<le> 0x80 + c2" "0x80 + c2 \<le> hi" by blast
    have "decode_rune (char_of (0xF0 + h)) [char_of (0x80 + c2), char_of (0x80 + c1), char_of (0x80 + c0)] =
        (((h * 64 + c2) * 64 + c1) * 64 + c0, Suc 3)"
      using h c l by (simp add: decode_rune_def Let_def lead_bits_def continuation_def)
    moreover have "((h * 64 + c2) * 64 + c1) * 64 + c0 \<noteq> RuneError" using x four by (simp add: RuneError_def)
    ultimately show ?thesis unfolding e by (intro utf8_wide) auto
  qed
qed

lemma utf8_unescape: "utf8_valid (fst (unescape cs))"
proof (cases cs)
  case (Cons c rest)
  have one: "utf8_valid [CHR 0x08]" "utf8_valid [CHR 0x0C]" "utf8_valid [CHR 0x0A]" "utf8_valid [CHR 0x0D]" "utf8_valid [CHR 0x09]"
    by (simp_all add: byte_def)
  have same: "c = dquote \<or> c = backslash \<or> c = CHR ''/'' \<Longrightarrow> utf8_valid [c]"
    by (auto simp: byte_def dquote_def backslash_def)
  show ?thesis unfolding unescape_def Cons list.case
    using one same by (simp add: Let_def utf8_encode split: option.split)
qed (simp add: unescape_def)

text \<open>A sequence that decodes to the replacement character is that of the character itself.\<close>

lemma decode_rune_error:
  assumes "decode_rune c cs = (RuneError, Suc k)" "k \<noteq> 0"
  shows "k = 2"
proof -
  obtain lo hi where l: "lead (byte c) = Some (k, lo, hi)"
    and t: "length (take k cs) = k" "lo \<le> hd (map byte (take k cs))" "hd (map byte (take k cs)) \<le> hi"
      "list_all continuation (tl (map byte (take k cs)))"
      "RuneError = foldl (\<lambda>r b. r * 64 + (b - 0x80)) (lead_bits k (byte c)) (map byte (take k cs))"
    using assms by (auto simp: decode_rune_def Let_def split: if_splits option.splits)
  consider (two) "k = 1" "0xC2 \<le> byte c" "byte c \<le> 0xDF" "hi = 0xBF" | (three) "k = 2"
    | (four) "k = 3" "byte c = 0xF0 \<and> lo = 0x90 \<or> 0xF1 \<le> byte c"
    using l by (auto simp: lead_def split: if_splits)
  then show ?thesis
  proof cases
    case two
    then obtain a where a: "take 1 cs = [a]" using t(1) by (cases cs) auto
    with two t(3,5) show ?thesis by (simp add: lead_bits_def RuneError_def)
  next
    case four
    then have "length (take 3 cs) = Suc (Suc (Suc 0))" using t(1) by simp
    then obtain a b d where a: "take 3 cs = [a, b, d]" unfolding length_Suc_conv by auto
    with four t(2,5) show ?thesis by (auto simp: lead_bits_def RuneError_def)
  qed
qed

text \<open>What a token decodes to is valid UTF-8, whatever the token held.\<close>

lemma utf8_unquote: "utf8_valid (unquote s)"
proof (induction s rule: unquote.induct)
  case (2 c cs)
  obtain r n where d: "decode_rune c cs = (r, n)" by (rule prod.exhaust)
  obtain bs m where u: "unescape cs = (bs, m)" by (rule prod.exhaust)
  have n: "n \<noteq> 0" using decode_rune_size [of c cs] d by simp
  consider (esc) "c = backslash" | (bad) "c \<noteq> backslash" "byte c \<ge> 0x80 \<and> n = 1" | (good) "c \<noteq> backslash" "\<not> (byte c \<ge> 0x80 \<and> n = 1)" by blast
  then show ?case
  proof cases
    case esc
    have "utf8_valid (unquote (drop m cs))" by (rule "2.IH"(1) [OF esc u [symmetric]])
    moreover have "utf8_valid bs" using utf8_unescape [of cs] u by simp
    ultimately show ?thesis using esc u by (simp add: utf8_append)
  next
    case bad
    have "utf8_valid (unquote cs)" by (rule "2.IH"(2) [OF bad(1) d [symmetric] bad(2)])
    then show ?thesis using bad d by (simp add: utf8_append utf8_encode)
  next
    case good
    have ih: "utf8_valid (unquote (drop (n - 1) cs))" by (rule "2.IH"(3) [OF good(1) d [symmetric] good(2)])
    have "utf8_valid (take n (c # cs))"
    proof (cases "n = 1")
      case True
      with good show ?thesis by simp
    next
      case False
      with n obtain k where k: "n = Suc k" "k \<noteq> 0" by (cases n) auto
      note l = decode_rune_local [OF d [unfolded k(1)] k(2)]
      have "decode_rune c (take k cs) = (r, Suc k)" using l(1) [of "[]"] by simp
      moreover have "r \<noteq> RuneError \<or> k = 2" using decode_rune_error [of c cs k] d k by auto
      ultimately show ?thesis using l(3) k by (simp add: utf8_wide)
    qed
    with ih good d show ?thesis by (auto simp: utf8_append)
  qed
qed simp

lemma utf8_decoded: "utf8_valid (decoded raw)"
  by (simp add: decoded_def Let_def utf8_unquote)

lemma utf8_quote_char: "byte c < 0x80 \<Longrightarrow> utf8_valid (quote_char c)"
proof -
  assume "byte c < 0x80"
  moreover have "byte (hex_char d) < 0x80" if "d < 16" for d using that by (simp add: hex_char_def)
  moreover have "byte c div 16 < 16" if "byte c < 0x20" using that by simp
  moreover have "byte backslash = 92" by (simp add: byte_def backslash_def)
  moreover have "byte (CHR ''b'') = 98" "byte (CHR ''f'') = 102" "byte (CHR ''n'') = 110" "byte (CHR ''r'') = 114"
      "byte (CHR ''t'') = 116" "byte (CHR ''u'') = 117" "byte (CHR ''0'') = 48"
    by (simp_all add: byte_def)
  ultimately show ?thesis unfolding quote_char_def by simp
qed

lemma utf8_quote_body: "utf8_valid s \<Longrightarrow> utf8_valid (quote_body s)"
proof (induction s rule: length_induct)
  case (1 s)
  have qb: "quote_body (a @ b) = quote_body a @ quote_body b" for a b by (simp add: quote_body_def)
  show ?case
  proof (cases s)
    case (Cons c cs)
    obtain r n where d: "decode_rune c cs = (r, n)" by (rule prod.exhaust)
    show ?thesis
    proof (cases rule: valid_first [OF 1(2) [unfolded Cons] d])
      case 1
      then have "utf8_valid (quote_body cs)" using "1.IH" Cons by simp
      with utf8_quote_char [OF 1(1)] show ?thesis by (simp add: Cons quote_body_def utf8_append)
    next
      case (2 k)
      note l = decode_rune_local [OF d [unfolded 2(1)] 2(2)]
      have rest: "utf8_valid (quote_body (drop k cs))" using "1.IH" Cons 2(4) by simp
      have dd: "decode_rune c (take k cs) = (r, Suc k)" using l(1) [of "[]"] by simp
      have "r \<noteq> RuneError \<or> k = 2" using decode_rune_error [of c "take k cs" k] dd 2(2) by auto
      then have "utf8_valid (c # take k cs)" using utf8_wide [OF dd 2(2)] l(3) by simp
      then have "utf8_valid (quote_body (c # take k cs))" unfolding quote_body_high [OF l(2)] .
      with rest have "utf8_valid (quote_body ((c # take k cs) @ drop k cs))" unfolding qb by (rule utf8_append [rotated])
      then show ?thesis by (simp add: Cons)
    qed
  qed (simp add: quote_body_def)
qed

lemma utf8_quoted: "append_quote s = Some q \<Longrightarrow> utf8_valid q"
proof -
  assume "append_quote s = Some q"
  then have q: "q = dquote # quote_body s @ [dquote]" "utf8_valid s" by (auto simp: append_quote_def split: if_splits)
  moreover have "byte dquote < 0x80" by (simp add: byte_def dquote_def)
  ultimately show ?thesis using utf8_quote_body by (simp add: utf8_append)
qed

end
