(* ===== verification/Json_Walk.thy ===== *)
theory Json_Walk
  imports Scrub_Plan Utf8_Text "HOL-Library.Sublist"
begin

text \<open>
  The JSON walk, \<^verbatim>\<open>src/internal/transforms/jsonwalk.go\<close>: every key and string of a line goes
  through the ladder, a string that is itself a document is walked in turn, and what changes is
  recorded as edits of the line. The decoder is \<open>Json_Text\<close>; a walk follows the tree it reads and
  fails where the reading failed. \<open>Panics\<close> stands for a slice out of range.
\<close>

section \<open>The walker\<close>

definition maxDepth :: nat where "maxDepth = 256"

datatype walk_error = SyntaxError | TooDeep | TrailingContent | StringToken | EmbeddedEdit | Panics

datatype append_error = InvalidEdit | NotUTF8

record walkEnv =
  we_s :: Scrubber
  we_lower :: "string \<Rightarrow> string"
  we_upper :: "string \<Rightarrow> string"
  we_family :: string
  we_drops :: "FieldPath list"
  we_embedded :: bool

record walkState =
  wk_edits :: "replacementSpan list"
  wk_redacted :: int
  wk_hits :: ledger

definition fresh_state :: walkState where
  "fresh_state = \<lparr>wk_edits = [], wk_redacted = 0, wk_hits = []\<rparr>"

definition looksLikeDocument :: "string \<Rightarrow> bool" where
  "looksLikeDocument text = (case dropWhile is_ws text of [] \<Rightarrow> False | c # _ \<Rightarrow> c = CHR ''{'' \<or> c = CHR ''['')"

definition replace_token :: "nat \<Rightarrow> nat \<Rightarrow> string \<Rightarrow> walkState \<Rightarrow> walkState" where
  "replace_token a b text st = st\<lparr>wk_edits := wk_edits st @ [\<lparr>rp_Start = a, rp_End = b, rp_Replacement = text\<rparr>]\<rparr>"

definition addLedger :: "valuePlan \<Rightarrow> walkState \<Rightarrow> walkState" where
  "addLedger plan st = st\<lparr>wk_redacted := wk_redacted st + vp_redacted plan, wk_hits := add_ledger (vp_hits plan) (wk_hits st)\<rparr>"

definition addPlan :: "nat \<Rightarrow> nat \<Rightarrow> string \<Rightarrow> valuePlan \<Rightarrow> walkState \<Rightarrow> walk_error + walkState" where
  "addPlan a b text plan st =
     (if vp_spans plan = [] then Inr st
      else case plan_apply plan text of
             None \<Rightarrow> Inl Panics
           | Some out \<Rightarrow> Inr (addLedger plan (replace_token a b out st)))"

text \<open>\<^verbatim>\<open>appendTo\<close>: the line with every edited token replaced by its quoted text.\<close>

fun append_to :: "nat \<Rightarrow> replacementSpan list \<Rightarrow> string \<Rightarrow> append_error + string" where
  "append_to cursor [] line = Inr (drop cursor line)"
| "append_to cursor (e # es) line =
     (if rp_Start e < cursor \<or> rp_End e < rp_Start e \<or> length line < rp_End e then Inl InvalidEdit
      else case append_quote (rp_Replacement e) of
             None \<Rightarrow> Inl NotUTF8
           | Some q \<Rightarrow> map_sum id (\<lambda>out. segment cursor (rp_Start e) line @ q @ out) (append_to (rp_End e) es line))"

definition bad_token :: "string \<Rightarrow> bool" where
  "bad_token raw \<longleftrightarrow> length raw < 2 \<or> raw ! 0 \<noteq> dquote \<or> raw ! (length raw - 1) \<noteq> dquote"

definition drop_applies :: "walkEnv \<Rightarrow> FieldPath \<Rightarrow> string \<Rightarrow> bool" where
  "drop_applies env path raw \<longleftrightarrow> length raw \<ge> dropMinLength + 2 \<and> we_drops env \<noteq> [] \<and> path \<in> set (we_drops env)"

definition drop_value :: "nat \<Rightarrow> nat \<Rightarrow> string \<Rightarrow> walkState \<Rightarrow> walkState" where
  "drop_value a b raw st =
     (let st1 = replace_token a b droppedSentinel st
      in st1\<lparr>wk_redacted := wk_redacted st1 + int (length (decoded raw)), wk_hits := bump Dropped 1 (wk_hits st1)\<rparr>)"

definition walkNumber :: "walkEnv \<Rightarrow> string \<Rightarrow> FieldPath \<Rightarrow> string \<Rightarrow> nat \<Rightarrow> nat \<Rightarrow> walkState \<Rightarrow> walk_error + walkState" where
  "walkNumber env key path line a b st =
     (let text = segment a b line;
          plan = planValue (we_s env) text (keyNamesSecret (we_lower env) (we_upper env) (we_s env) key text) path (we_family env)
      in addPlan a b text plan st)"

text \<open>The next token is the end of the input: only space is left.\<close>

definition at_end :: "rest \<Rightarrow> bool" where
  "at_end r \<longleftrightarrow> (case r of None \<Rightarrow> False | Some (j, cs) \<Rightarrow> snd (skip_ws j cs) = [])"

definition embedded_env :: "walkEnv \<Rightarrow> walkEnv" where
  "embedded_env env = env\<lparr>we_drops := [], we_embedded := True\<rparr>"

text \<open>What \<^verbatim>\<open>walkEmbedded\<close> makes of the inner walk.\<close>

definition embedded_result :: "string \<Rightarrow> rest \<Rightarrow> walk_error + walkState \<Rightarrow> walkState \<Rightarrow> walk_error + string \<times> bool \<times> walkState" where
  "embedded_result text r inner st =
     (case inner of
        Inl e \<Rightarrow> if e = EmbeddedEdit \<or> e = Panics then Inl e else Inr (text, False, st)
      | Inr w \<Rightarrow>
          if \<not> at_end r then Inr (text, False, st)
          else if wk_edits w = [] then Inr (text, True, st)
          else case append_to 0 (wk_edits w) text of
                 Inl e \<Rightarrow> Inl EmbeddedEdit
               | Inr out \<Rightarrow> Inr (out, True, st\<lparr>wk_redacted := wk_redacted st + wk_redacted w,
                                             wk_hits := add_ledger (wk_hits w) (wk_hits st)\<rparr>))"

text \<open>
  The walk. A document in a string one level below the bound is not walked: the walk would return
  \<^verbatim>\<open>errTooDeep\<close> at once, which leaves the string as it is.
\<close>

function (sequential) walk_value :: "walkEnv \<Rightarrow> nat \<Rightarrow> string \<Rightarrow> FieldPath \<Rightarrow> string \<Rightarrow> jdoc \<Rightarrow> walkState \<Rightarrow> walk_error + walkState"
  and walkMembers :: "walkEnv \<Rightarrow> nat \<Rightarrow> FieldPath \<Rightarrow> string \<Rightarrow> ((nat \<times> nat) \<times> jdoc) list \<Rightarrow> bool \<Rightarrow> walkState \<Rightarrow> walk_error + walkState"
  and walkItems :: "walkEnv \<Rightarrow> nat \<Rightarrow> FieldPath \<Rightarrow> string \<Rightarrow> jdoc list \<Rightarrow> walkState \<Rightarrow> walk_error + walkState"
  and walkString :: "walkEnv \<Rightarrow> nat \<Rightarrow> string \<Rightarrow> FieldPath \<Rightarrow> string \<Rightarrow> nat \<Rightarrow> nat \<Rightarrow> walkState \<Rightarrow> walk_error + walkState"
  and walkEmbedded :: "walkEnv \<Rightarrow> nat \<Rightarrow> FieldPath \<Rightarrow> string \<Rightarrow> walkState \<Rightarrow> walk_error + string \<times> bool \<times> walkState" where
  "walk_value env depth key path line d st =
     (if maxDepth < depth then Inl TooDeep
      else case d of
             JBad \<Rightarrow> Inl SyntaxError
           | JLit \<Rightarrow> Inr st
           | JNum a b \<Rightarrow> if we_embedded env then walkNumber env key path line a b st else Inr st
           | JStr a b \<Rightarrow> walkString env depth key path line a b st
           | JObj ms closed \<Rightarrow> walkMembers env depth path line ms closed st
           | JArr vs \<Rightarrow> walkItems env depth (path @ ''[]'') line vs st)"
| "walkMembers env depth path line [] closed st = (if closed then Inr st else Inl SyntaxError)"
| "walkMembers env depth path line (((a, b), v) # ms) closed st =
     (let raw = segment a b line in
      if bad_token raw then Inl StringToken
      else let key = decoded raw;
               plan = planKey (we_s env) key path (we_family env)
           in case addPlan a b key plan st of
                Inl e \<Rightarrow> Inl e
              | Inr st1 \<Rightarrow>
                  (let name = (if vp_spans plan = [] then key else the (plan_apply plan key))
                   in case walk_value env (Suc depth) key (joinFieldPath path name) line v st1 of
                        Inl e \<Rightarrow> Inl e
                      | Inr st2 \<Rightarrow> walkMembers env depth path line ms closed st2))"
| "walkItems env depth path line [] st = Inr st"
| "walkItems env depth path line (v # vs) st =
     (case walk_value env (Suc depth) [] path line v st of
        Inl e \<Rightarrow> Inl e
      | Inr st1 \<Rightarrow> walkItems env depth path line vs st1)"
| "walkString env depth key path line a b st =
     (let raw = segment a b line in
      if bad_token raw then Inl StringToken
      else if drop_applies env path raw then Inr (drop_value a b raw st)
      else let text = decoded raw;
               secretKey = keyNamesSecret (we_lower env) (we_upper env) (we_s env) key text
           in case (if \<not> secretKey \<and> looksLikeDocument text \<and> \<not> spansKeyAndValue (we_s env) text
                    then walkEmbedded env depth path text st else Inr (text, False, st)) of
                Inl e \<Rightarrow> Inl e
              | Inr (embedded, walked, st1) \<Rightarrow>
                  if walked then Inr (if embedded \<noteq> text then replace_token a b embedded st1 else st1)
                  else let plan = planValue (we_s env) text secretKey path (we_family env)
                       in if vp_spans plan = [] then Inr st1
                          else case plan_apply plan text of
                                 None \<Rightarrow> Inl Panics
                               | Some out \<Rightarrow>
                                   (case (if looksLikeDocument out then walkEmbedded env depth path out st1 else Inr (out, False, st1)) of
                                      Inl e \<Rightarrow> Inl e
                                    | Inr (out', _, st2) \<Rightarrow> Inr (addLedger plan (replace_token a b out' st2))))"
| "walkEmbedded env depth path text st =
     (case read_doc text of
        (d, r) \<Rightarrow>
          embedded_result text r
            (if maxDepth < Suc depth then Inl TooDeep
             else walk_value (embedded_env env) (Suc depth) [] (path @ embeddedSuffix) text d fresh_state) st)"
  by pat_completeness auto
termination
  by (relation "measures
      [\<lambda>x. case x of Inl (Inl (_, depth, _)) \<Rightarrow> 258 - depth
          | Inl (Inr (_, depth, _)) \<Rightarrow> 258 - depth
          | Inr (Inl (_, depth, _)) \<Rightarrow> 258 - depth
          | Inr (Inr (Inl (_, depth, _))) \<Rightarrow> 258 - depth
          | Inr (Inr (Inr (_, depth, _))) \<Rightarrow> 258 - depth,
       \<lambda>x. case x of Inl (Inl (_, _, _, _, _, d, _)) \<Rightarrow> 3 * size d + 2
          | Inl (Inr (_, _, _, _, ms, _)) \<Rightarrow> 3 * size_list (size_prod (\<lambda>x. 0) size) ms + 1
          | Inr (Inl (_, _, _, _, vs, _)) \<Rightarrow> 3 * size_list size vs + 1
          | Inr (Inr (Inl _)) \<Rightarrow> 1
          | Inr (Inr (Inr _)) \<Rightarrow> 0]")
    (auto simp: maxDepth_def)

end
