(* ===== verification/Walk_Edits.thy ===== *)
theory Walk_Edits
  imports Json_Walk
begin

text \<open>
  What a walk records: its edits replace tokens of the line in order, so applying them never finds one
  out of place, and every replacement is valid UTF-8, so quoting it never fails.
\<close>

section \<open>Edits of tokens\<close>

definition span_of :: "replacementSpan \<Rightarrow> nat \<times> nat" where
  "span_of e = (rp_Start e, rp_End e)"

lemma spaced_subseq: "spaced line lo ts hi \<Longrightarrow> subseq us ts \<Longrightarrow> spaced line lo us hi"
proof (induction ts arbitrary: lo us)
  case (Cons t ts)
  obtain a b where t: "t = (a, b)" by (rule prod.exhaust)
  with Cons.prems have s: "lo \<le> a" "a < b" "edges line a b" "spaced line b ts hi" by auto
  show ?case
  proof (cases "\<exists>us'. us = t # us' \<and> subseq us' ts")
    case True
    with Cons.IH [OF s(4)] s t show ?thesis by auto
  next
    case False
    have "subseq us ts"
    proof (cases us)
      case (Cons u us')
      with False \<open>subseq us (t # ts)\<close> show ?thesis by (cases "u = t") simp_all
    qed simp
    from Cons.IH [OF s(4) this] have "spaced line b us hi" .
    then show ?thesis by (rule spaced_mono) (use s in simp_all)
  qed
qed (auto dest: list_emb_Nil2)

lemma spaced_bounds: "spaced line lo ts hi \<Longrightarrow> lo \<le> hi"
  by (induction ts arbitrary: lo) fastforce+

lemma utf8_piece:
  assumes "utf8_valid line" "c = 0 \<or> byte (line ! (c - 1)) < 0x80" "c \<le> s" "s \<le> length line"
    "s < length line \<Longrightarrow> byte (line ! s) < 0x80"
  shows "utf8_valid (segment c s line)"
proof -
  have d: "utf8_valid (drop c line)" using assms utf8_drop_after [of line c] by (cases "c = 0") auto
  have "utf8_valid (take (s - c) (drop c line))"
    by (rule utf8_take [OF d]) (use assms(3-5) in auto)
  then show ?thesis by (simp add: segment_def)
qed

lemma append_to_ok:
  assumes "spaced line cursor (map span_of es) hi" "hi \<le> length line" "\<forall>e \<in> set es. utf8_valid (rp_Replacement e)"
  shows "\<exists>out. append_to cursor es line = Inr out \<and>
    (utf8_valid line \<longrightarrow> cursor = 0 \<or> byte (line ! (cursor - 1)) < 0x80 \<longrightarrow> utf8_valid out)"
  using assms
proof (induction es arbitrary: cursor)
  case Nil
  then have "utf8_valid (drop cursor line)" if "utf8_valid line" "cursor = 0 \<or> byte (line ! (cursor - 1)) < 0x80"
    using that utf8_drop_after [of line cursor] by (cases "cursor = 0") auto
  then show ?case by simp
next
  case (Cons e es)
  let ?a = "rp_Start e" and ?b = "rp_End e"
  from Cons.prems(1) have s: "cursor \<le> ?a" "?a < ?b" "edges line ?a ?b" "spaced line ?b (map span_of es) hi"
    by (simp_all add: span_of_def [of e])
  have b: "?b \<le> length line" using spaced_bounds [OF s(4)] Cons.prems(2) by simp
  obtain out where out: "append_to ?b es line = Inr out"
    "utf8_valid line \<longrightarrow> ?b = 0 \<or> byte (line ! (?b - 1)) < 0x80 \<longrightarrow> utf8_valid out"
    using Cons.IH [OF s(4) Cons.prems(2)] Cons.prems(3) by auto
  obtain q where q: "append_quote (rp_Replacement e) = Some q" using Cons.prems(3) by (auto simp: append_quote_def)
  have "append_to cursor (e # es) line = Inr (segment cursor ?a line @ q @ out)"
    using s b out(1) q by simp
  moreover have "utf8_valid (segment cursor ?a line @ q @ out)"
    if "utf8_valid line" "cursor = 0 \<or> byte (line ! (cursor - 1)) < 0x80"
  proof -
    have "utf8_valid (segment cursor ?a line)"
      by (rule utf8_piece [OF that s(1)]) (use s(2,3) b in \<open>auto simp: edges_def\<close>)
    with utf8_quoted [OF q] out(2) that(1) s(3) show ?thesis by (simp add: utf8_append edges_def)
  qed
  ultimately show ?case by blast
qed

section \<open>Soundness of the walk\<close>

text \<open>The law on the compiled rules: a plan of valid UTF-8 leaves valid UTF-8.\<close>

definition keeps_utf8 :: "Scrubber \<Rightarrow> bool" where
  "keeps_utf8 s \<longleftrightarrow> (\<forall>v e secret out. (e = None \<or> e = sc_entropy s) \<longrightarrow> utf8_valid v \<longrightarrow>
     plan_apply (planValueWith s v e secret) v = Some out \<longrightarrow> utf8_valid out)"

definition sound_scrubber :: "Scrubber \<Rightarrow> bool" where
  "sound_scrubber s \<longleftrightarrow> scrubber_ok s \<and> keeps_utf8 s"

lemma plan_applies:
  assumes "scrubber_ok s" "e = None \<or> e = sc_entropy s"
  shows "\<exists>out. plan_apply (planValueWith s v e secret) v = Some out"
proof -
  have "entropy_ok e" using assms by (auto simp: scrubber_ok_def entropy_ok_def)
  from planValueWith_spec(1) [OF assms(1) this, of v secret]
  have "edits_ok 0 (length v) (vp_spans (planValueWith s v e secret))" by (simp add: plan_ok_def)
  from apply_from_weave [OF this] show ?thesis by (auto simp: plan_apply_def)
qed

lemma plan_out:
  assumes "sound_scrubber s" "utf8_valid v"
  shows "\<exists>out. plan_apply (planValue s v secret field family) v = Some out \<and> utf8_valid out"
    "\<exists>out. plan_apply (planKey s v parent family) v = Some out \<and> utf8_valid out"
  using assms plan_applies [of s _ v] unfolding planValue_def planKey_def sound_scrubber_def keeps_utf8_def by metis+

definition new_edits :: "walkState \<Rightarrow> walkState \<Rightarrow> (nat \<times> nat) list \<Rightarrow> bool" where
  "new_edits st st' ts \<longleftrightarrow>
     (\<exists>new. wk_edits st' = wk_edits st @ new \<and> subseq (map span_of new) ts \<and> (\<forall>e \<in> set new. utf8_valid (rp_Replacement e)))"

lemma new_edits_refl [simp]: "wk_edits st' = wk_edits st \<Longrightarrow> new_edits st st' ts"
  by (auto simp: new_edits_def intro!: exI [of _ "[]"])

lemma new_edits_one:
  "wk_edits st' = wk_edits st @ [e] \<Longrightarrow> span_of e = t \<Longrightarrow> utf8_valid (rp_Replacement e) \<Longrightarrow> new_edits st st' [t]"
  by (auto simp: new_edits_def intro!: exI [of _ "[e]"])

lemma new_edits_append:
  assumes "new_edits st st1 ts" "new_edits st1 st2 us"
  shows "new_edits st st2 (ts @ us)"
proof -
  obtain n1 n2 where n: "wk_edits st1 = wk_edits st @ n1" "subseq (map span_of n1) ts" "\<forall>e \<in> set n1. utf8_valid (rp_Replacement e)"
      "wk_edits st2 = wk_edits st1 @ n2" "subseq (map span_of n2) us" "\<forall>e \<in> set n2. utf8_valid (rp_Replacement e)"
    using assms unfolding new_edits_def by blast
  then show ?thesis unfolding new_edits_def
    by (intro exI [of _ "n1 @ n2"]) (auto intro: list_emb_append_mono)
qed

lemma addPlan_sound:
  assumes "plan_apply plan text = Some out" "utf8_valid out"
  shows "\<exists>st'. addPlan a b text plan st = Inr st' \<and> new_edits st st' [(a, b)]"
  using assms new_edits_one [of _ st "\<lparr>rp_Start = a, rp_End = b, rp_Replacement = out\<rparr>"]
  by (auto simp: addPlan_def addLedger_def replace_token_def span_of_def)

definition never :: "walk_error \<Rightarrow> bool" where
  "never e \<longleftrightarrow> e = Panics \<or> e = StringToken \<or> e = EmbeddedEdit"

definition walked_ok :: "walkState \<Rightarrow> (nat \<times> nat) list \<Rightarrow> walk_error + walkState \<Rightarrow> bool" where
  "walked_ok st ts res \<longleftrightarrow> (case res of Inl e \<Rightarrow> \<not> never e | Inr st' \<Rightarrow> new_edits st st' ts)"

lemma walked_ok_simps [simp]:
  "walked_ok st ts (Inl e) \<longleftrightarrow> \<not> never e" "walked_ok st ts (Inr st') \<longleftrightarrow> new_edits st st' ts"
  "\<not> never SyntaxError" "\<not> never TooDeep" "\<not> never TrailingContent"
  by (simp_all add: walked_ok_def never_def)

lemma quoted_token: "quoted line (a, b) \<Longrightarrow> \<not> bad_token (segment a b line)"
proof -
  assume "quoted line (a, b)"
  then have q: "b \<le> length line" "a + 2 \<le> b" "line ! a = dquote" "line ! (b - 1) = dquote" by (auto simp: quoted_def)
  then have "segment a b line ! 0 = dquote" "segment a b line ! (b - a - 1) = dquote"
    using segment_nth [of 0 b a line] segment_nth [of "b - a - 1" b a line] by auto
  with q show ?thesis by (simp add: bad_token_def)
qed

lemma utf8_ascii: "list_all (\<lambda>c. byte c < 0x80) s \<Longrightarrow> utf8_valid s"
  by (induction s) simp_all

lemma utf8_dropped: "utf8_valid droppedSentinel"
  by (rule utf8_ascii) (simp add: droppedSentinel_def Sentinel_def sentinelPrefix_def Dropped_def byte_def)

definition line_ok :: "walkEnv \<Rightarrow> string \<Rightarrow> bool" where
  "line_ok env line \<longleftrightarrow> sound_scrubber (we_s env) \<and> (we_embedded env \<longrightarrow> utf8_valid line)"

definition tree_ok :: "string \<Rightarrow> (nat \<times> nat) list \<Rightarrow> (nat \<times> nat) list \<Rightarrow> bool" where
  "tree_ok line ts ss \<longleftrightarrow> (\<exists>lo. spaced line lo ts (length line)) \<and> (\<forall>s \<in> set ss. quoted line s)"

lemma tree_ok_subseq: "tree_ok line ts ss \<Longrightarrow> subseq us ts \<Longrightarrow> set zs \<subseteq> set ss \<Longrightarrow> tree_ok line us zs"
  using spaced_subseq unfolding tree_ok_def by blast

lemma tree_ok_number:
  assumes "tree_ok line [(a, b)] ss" "utf8_valid line"
  shows "utf8_valid (segment a b line)"
proof -
  from assms(1) have t: "a < b" "edges line a b" "b \<le> length line" by (auto simp: tree_ok_def)
  define k where "k = b - 1 - a"
  have k: "b - a = Suc k" "k < length (drop a line)" "drop a line ! k = line ! (b - 1)" using t by (auto simp: k_def)
  have "utf8_valid (drop a line)" by (rule utf8_drop [OF assms(2)]) (use t in \<open>simp add: edges_def\<close>)
  then have "utf8_valid (take k (drop a line) @ drop a line ! k # drop (Suc k) (drop a line))"
    by (subst (asm) id_take_nth_drop [OF k(2)])
  moreover have "byte (drop a line ! k) < 0x80" using t(2) unfolding k(3) edges_def by simp
  ultimately have "utf8_valid (take k (drop a line))" by (rule utf8_cut [THEN conjunct1])
  moreover have "segment a b line = take k (drop a line) @ [line ! (b - 1)]"
    using take_Suc_conv_app_nth [OF k(2)] unfolding segment_def k(1) k(3) .
  moreover have "utf8_valid [line ! (b - 1)]" using t(2) by (simp add: edges_def)
  ultimately show ?thesis using utf8_append by metis
qed

declare walk_value.simps [simp del] walkMembers.simps [simp del] walkItems.simps [simp del] walkString.simps [simp del] walkEmbedded.simps [simp del]

lemma embedded_result_ok:
  assumes "utf8_valid text" "read_doc text = (d, r)" "walked_ok fresh_state (tokens d) inner"
  shows "\<exists>out w st'. embedded_result text r inner st = Inr (out, w, st') \<and> wk_edits st' = wk_edits st \<and> utf8_valid out"
proof (cases inner)
  case (Inl e)
  with assms(1,3) show ?thesis by (auto simp: embedded_result_def never_def)
next
  case (Inr w)
  with assms(3) obtain new where new: "wk_edits w = new" "subseq (map span_of new) (tokens d)" "\<forall>e \<in> set new. utf8_valid (rp_Replacement e)"
    by (auto simp: new_edits_def fresh_state_def)
  have "at_line text 0 text" by (simp add: at_line_def)
  from read_ok_all(1) [OF this assms(2) [unfolded read_doc_def]] have "\<exists>hi \<le> length text. spaced text 0 (tokens d) hi"
    by (auto simp: read_ok_def at_line_def split: option.splits)
  then obtain hi where hi: "hi \<le> length text" "spaced text 0 (tokens d) hi" by blast
  from append_to_ok [OF spaced_subseq [OF hi(2) new(2)] hi(1) new(3)] assms(1)
  obtain out where "append_to 0 new text = Inr out" "utf8_valid out" by auto
  with Inr new(1) assms(1) show ?thesis by (auto simp: embedded_result_def)
qed

lemma tree_ok_parts:
  "tree_ok line (ts @ us) (ss @ zs) \<Longrightarrow> tree_ok line ts ss \<and> tree_ok line us zs"
  using tree_ok_subseq [of line "ts @ us" "ss @ zs" ts ss] tree_ok_subseq [of line "ts @ us" "ss @ zs" us zs]
  by (auto simp: list_emb_prefix intro: list_emb_append2)

lemma tree_ok_Cons:
  "tree_ok line (t # ts) (t # ss) \<Longrightarrow> quoted line t \<and> tree_ok line ts ss"
  using tree_ok_subseq [of line "t # ts" "t # ss" ts ss] by (auto simp: tree_ok_def intro: list_emb_Cons)

lemma tree_ok_read:
  assumes "read_doc text = (d, r)"
  shows "tree_ok text (tokens d) (strings d)"
proof -
  have "at_line text 0 text" by (simp add: at_line_def)
  note ok = read_ok_all(1) [OF this assms [unfolded read_doc_def]]
  then have "spaced text 0 (tokens d) (length text)"
    using spaced_mono [of "text" 0 "tokens d" _ 0 "length text"] by (auto simp: read_ok_def at_line_def split: option.splits)
  with ok show ?thesis by (auto simp: tree_ok_def read_ok_def)
qed

lemma walk_sound:
  "line_ok env line \<Longrightarrow> tree_ok line (tokens d) (strings d) \<Longrightarrow> walked_ok st (tokens d) (walk_value env depth key path line d st)"
  "line_ok env line \<Longrightarrow> tree_ok line (tokens (JObj ms closed)) (strings (JObj ms closed)) \<Longrightarrow>
     walked_ok st (tokens (JObj ms closed)) (walkMembers env depth path line ms closed st)"
  "line_ok env line \<Longrightarrow> tree_ok line (tokens (JArr vs)) (strings (JArr vs)) \<Longrightarrow>
     walked_ok st (tokens (JArr vs)) (walkItems env depth path line vs st)"
  "line_ok env line \<Longrightarrow> quoted line (a, b) \<Longrightarrow> walked_ok st [(a, b)] (walkString env depth key path line a b st)"
  "sound_scrubber (we_s env) \<Longrightarrow> utf8_valid text \<Longrightarrow>
     \<exists>out w st'. walkEmbedded env depth path text st = Inr (out, w, st') \<and> wk_edits st' = wk_edits st \<and> utf8_valid out"
proof (induction env depth key path line d st and env depth path line ms closed st and env depth path line vs st
    and env depth key path line a b st and env depth path "text" st
    rule: walk_value_walkMembers_walkItems_walkString_walkEmbedded.induct)
  case (1 env depth key path line d st)
  show ?case
  proof (cases "maxDepth < depth")
    case False
    note ih = "1.IH" [OF False]
    show ?thesis
    proof (cases d)
      case (JNum a b)
      show ?thesis
      proof (cases "we_embedded env")
        case True
        with "1.prems" JNum have "utf8_valid (segment a b line)" by (intro tree_ok_number) (auto simp: line_ok_def)
        note p = plan_out(1) [OF _ this, where s = "we_s env" and field = path and family = "we_family env"]
        then obtain out where "plan_apply (planValue (we_s env) (segment a b line)
            (keyNamesSecret (we_lower env) (we_upper env) (we_s env) key (segment a b line)) path (we_family env)) (segment a b line) = Some out"
            "utf8_valid out" using "1.prems"(1) by (auto simp: line_ok_def)
        from addPlan_sound [OF this, of a b st] True JNum False show ?thesis
          by (auto simp: walk_value.simps [of env depth] walkNumber_def Let_def)
      qed (use JNum False in \<open>simp add: walk_value.simps [of env depth]\<close>)
    next
      case (JStr a b)
      with ih(1) "1.prems" False show ?thesis by (simp add: walk_value.simps [of env depth] tree_ok_def)
    next
      case (JObj ms closed)
      with ih(2) [OF JObj] "1.prems" False show ?thesis by (simp add: walk_value.simps [of env depth])
    next
      case (JArr vs)
      with ih(3) [OF JArr] "1.prems" False show ?thesis by (simp add: walk_value.simps [of env depth])
    qed (use False in \<open>simp_all add: walk_value.simps [of env depth]\<close>)
  qed (simp add: walk_value.simps [of env depth])
next
  case (3 env depth path line a b v ms closed st)
  define raw where "raw = segment a b line"
  define plan where "plan = planKey (we_s env) (decoded raw) path (we_family env)"
  have q: "quoted line (a, b)" and t: "tree_ok line (tokens v @ tokens (JObj ms closed)) (strings v @ strings (JObj ms closed))"
    using tree_ok_Cons [of line "(a, b)"] "3.prems"(2) by auto
  note parts = tree_ok_parts [OF t]
  have good: "\<not> bad_token raw" using quoted_token [OF q] by (simp add: raw_def)
  obtain out where out: "plan_apply plan (decoded raw) = Some out" "utf8_valid out"
    using plan_out(2) [OF _ utf8_decoded] "3.prems"(1) unfolding plan_def line_ok_def by blast
  obtain st1 where st1: "addPlan a b (decoded raw) plan st = Inr st1" "new_edits st st1 [(a, b)]"
    using addPlan_sound [OF out] by blast
  define field where "field = joinFieldPath path (if vp_spans plan = [] then decoded raw else the (plan_apply plan (decoded raw)))"
  note ih = "3.IH" [OF raw_def good refl plan_def st1(1) refl]
  have w: "walked_ok st1 (tokens v) (walk_value env (Suc depth) (decoded raw) field line v st1)"
    unfolding field_def by (rule ih(1)) (use parts "3.prems"(1) in auto)
  have step: "walkMembers env depth path line (((a, b), v) # ms) closed st =
      (case walk_value env (Suc depth) (decoded raw) field line v st1 of Inl e \<Rightarrow> Inl e | Inr st2 \<Rightarrow> walkMembers env depth path line ms closed st2)"
    using good st1(1) by (simp add: walkMembers.simps(2) Let_def raw_def [symmetric] plan_def [symmetric] field_def)
  show ?case
  proof (cases "walk_value env (Suc depth) (decoded raw) field line v st1")
    case (Inl e)
    with w step show ?thesis by simp
  next
    case (Inr st2)
    have rest: "walked_ok st2 (tokens (JObj ms closed)) (walkMembers env depth path line ms closed st2)"
      by (rule ih(2) [OF Inr [unfolded field_def]]) (use parts "3.prems"(1) in auto)
    have sofar: "new_edits st st2 ((a, b) # tokens v)" using new_edits_append [OF st1(2)] w Inr by fastforce
    show ?thesis
      using rest new_edits_append [OF sofar] step Inr
      by (cases "walkMembers env depth path line ms closed st2") auto
  qed
next
  case (5 env depth path line v vs st)
  have t: "tree_ok line (tokens v) (strings v) \<and> tree_ok line (tokens (JArr vs)) (strings (JArr vs))"
    using tree_ok_parts [of line "tokens v" _ "strings v"] "5.prems"(2) by simp
  have w: "walked_ok st (tokens v) (walk_value env (Suc depth) [] path line v st)" using "5.IH"(1) "5.prems"(1) t by blast
  show ?case
  proof (cases "walk_value env (Suc depth) [] path line v st")
    case (Inl e)
    with w show ?thesis by (simp add: walkItems.simps(2))
  next
    case (Inr st1)
    have rest: "walked_ok st1 (tokens (JArr vs)) (walkItems env depth path line vs st1)"
      using "5.IH"(2) [OF Inr] "5.prems"(1) t by blast
    have "new_edits st st1 (tokens v)" using w Inr by simp
    from rest new_edits_append [OF this] Inr show ?thesis
      by (cases "walkItems env depth path line vs st1") (auto simp: walkItems.simps(2))
  qed
next
  case (6 env depth key path line a b st)
  define raw where "raw = segment a b line"
  define body where "body = decoded raw"
  define secret where "secret = keyNamesSecret (we_lower env) (we_upper env) (we_s env) key body"
  define doc where "doc \<longleftrightarrow> \<not> secret \<and> looksLikeDocument body \<and> \<not> spansKeyAndValue (we_s env) body"
  have good: "\<not> bad_token raw" using quoted_token [OF "6.prems"(2)] by (simp add: raw_def)
  have s: "sound_scrubber (we_s env)" using "6.prems"(1) by (simp add: line_ok_def)
  have v: "utf8_valid body" by (simp add: body_def utf8_decoded)
  show ?case
  proof (cases "drop_applies env path raw")
    case True
    have "new_edits st (drop_value a b raw st) [(a, b)]"
      by (rule new_edits_one [of _ _ "\<lparr>rp_Start = a, rp_End = b, rp_Replacement = droppedSentinel\<rparr>"])
        (simp_all add: drop_value_def Let_def replace_token_def span_of_def utf8_dropped)
    with True good show ?thesis by (simp add: walkString.simps Let_def raw_def [symmetric])
  next
    case False
    note ih = "6.IH" [OF raw_def good False body_def secret_def]
    obtain emb w st1 where e: "(if doc then walkEmbedded env depth path body st else Inr (body, False, st)) = Inr (emb, w, st1)"
        "wk_edits st1 = wk_edits st" "utf8_valid emb"
    proof (cases doc)
      case True
      then have "\<not> secret \<and> looksLikeDocument body \<and> \<not> spansKeyAndValue (we_s env) body" by (simp add: doc_def)
      from ih(1) [OF this s v] True that show thesis by auto
    next
      case False
      with that [of body False st] v show thesis by simp
    qed
    have step: "walkString env depth key path line a b st =
        (if w then Inr (if emb \<noteq> body then replace_token a b emb st1 else st1)
         else let plan = planValue (we_s env) body secret path (we_family env)
              in if vp_spans plan = [] then Inr st1
                 else case plan_apply plan body of
                        None \<Rightarrow> Inl Panics
                      | Some out \<Rightarrow>
                          (case (if looksLikeDocument out then walkEmbedded env depth path out st1 else Inr (out, False, st1)) of
                             Inl e \<Rightarrow> Inl e
                           | Inr (out', _, st2) \<Rightarrow> Inr (addLedger plan (replace_token a b out' st2))))"
      using good False e(1) unfolding walkString.simps [of env depth key path line a b st] Let_def raw_def [symmetric] body_def [symmetric]
        secret_def [symmetric] doc_def [symmetric] by simp
    show ?thesis
    proof (cases w)
      case True
      have "new_edits st (replace_token a b emb st1) [(a, b)]"
        by (rule new_edits_one [of _ _ "\<lparr>rp_Start = a, rp_End = b, rp_Replacement = emb\<rparr>"])
          (use e in \<open>simp_all add: replace_token_def span_of_def\<close>)
      with True step e(2) show ?thesis by simp
    next
      case no: False
      define plan where "plan = planValue (we_s env) body secret path (we_family env)"
      show ?thesis
      proof (cases "vp_spans plan = []")
        case True
        with step no e(2) show ?thesis by (simp add: Let_def plan_def [symmetric])
      next
        case ne: False
        obtain out where out: "plan_apply plan body = Some out" "utf8_valid out"
          using plan_out(1) [OF s v] unfolding plan_def by blast
        obtain o' w' st2 where o: "(if looksLikeDocument out then walkEmbedded env depth path out st1 else Inr (out, False, st1)) = Inr (o', w', st2)"
            "wk_edits st2 = wk_edits st1" "utf8_valid o'"
        proof (cases "looksLikeDocument out")
          case True
          from ih(2) [OF e(1) [unfolded doc_def] refl refl no plan_def ne out(1) True s out(2)] True that show thesis by auto
        next
          case False
          with that [of out False st1] out(2) show thesis by simp
        qed
        have "new_edits st (addLedger plan (replace_token a b o' st2)) [(a, b)]"
          by (rule new_edits_one [of _ _ "\<lparr>rp_Start = a, rp_End = b, rp_Replacement = o'\<rparr>"])
            (use o e(2) in \<open>simp_all add: addLedger_def replace_token_def span_of_def\<close>)
        with step no ne out(1) o(1) show ?thesis by (simp add: Let_def plan_def [symmetric])
      qed
    qed
  qed
next
  case (7 env depth path "text" st)
  obtain d r where d: "read_doc text = (d, r)" by (rule prod.exhaust)
  let ?inner = "if maxDepth < Suc depth then Inl TooDeep
      else walk_value (embedded_env env) (Suc depth) [] (path @ embeddedSuffix) text d fresh_state"
  have "walked_ok fresh_state (tokens d) ?inner"
  proof (cases "maxDepth < Suc depth")
    case False
    have "line_ok (embedded_env env) text" using "7.prems" by (simp add: line_ok_def embedded_env_def)
    with "7.IH" [OF d [symmetric] False] tree_ok_read [OF d] False show ?thesis by simp
  qed simp
  from embedded_result_ok [OF "7.prems"(2) d this, of st] d show ?case by (simp add: walkEmbedded.simps)
qed (simp_all add: walkMembers.simps walkItems.simps)

section \<open>A whole line\<close>

text \<open>\<^verbatim>\<open>walkLine\<close>.\<close>

definition walkLine :: "walkEnv \<Rightarrow> string \<Rightarrow> walk_error + walkState" where
  "walkLine env line =
     (case read_doc line of
        (d, r) \<Rightarrow>
          (case walk_value env 0 [] [] line d fresh_state of
             Inl e \<Rightarrow> Inl e
           | Inr st \<Rightarrow> if at_end r then Inr st else Inl TrailingContent))"

text \<open>The walk of a line fails only as a text that is not one document does, and its edits apply.\<close>

lemma walkLine_sound:
  assumes "sound_scrubber (we_s env)" "\<not> we_embedded env"
  shows "case walkLine env line of Inl e \<Rightarrow> \<not> never e | Inr st \<Rightarrow> \<exists>out. append_to 0 (wk_edits st) line = Inr out"
proof -
  obtain d r where d: "read_doc line = (d, r)" by (rule prod.exhaust)
  have "line_ok env line" using assms by (simp add: line_ok_def)
  from walk_sound(1) [OF this tree_ok_read [OF d], of fresh_state 0 "[]" "[]"]
  have w: "walked_ok fresh_state (tokens d) (walk_value env 0 [] [] line d fresh_state)" .
  show ?thesis
  proof (cases "walk_value env 0 [] [] line d fresh_state")
    case (Inl e)
    with w d show ?thesis by (simp add: walkLine_def)
  next
    case (Inr st)
    with w obtain new where new: "wk_edits st = new" "subseq (map span_of new) (tokens d)" "\<forall>e \<in> set new. utf8_valid (rp_Replacement e)"
      by (auto simp: new_edits_def fresh_state_def)
    from tree_ok_read [OF d] obtain lo where lo: "spaced line lo (tokens d) (length line)" by (auto simp: tree_ok_def)
    then have "spaced line 0 (tokens d) (length line)" by (rule spaced_mono) simp_all
    from append_to_ok [OF spaced_subseq [OF this new(2)] order_refl new(3)]
    show ?thesis using Inr d new(1) by (auto simp: walkLine_def)
  qed
qed

end
