(* ===== verification/Scrub_Lines.thy ===== *)
theory Scrub_Lines
  imports Walk_Edits Prepare
begin

text \<open>
  \<^verbatim>\<open>Scrub\<close> of \<^verbatim>\<open>src/internal/transforms/scrub.go\<close>: the refusal of payloads no scanner sees
  into, the raw scan, and the loop over the lines of a JSONL payload, which copies the payload only from
  the first line that changes on. A panic is \<^const>\<open>None\<close>.
\<close>

section \<open>Opaque payloads\<close>

definition bytes_of :: "nat list \<Rightarrow> string" where
  "bytes_of bs = map char_of bs"

definition isBzip2 :: "string \<Rightarrow> bool" where
  "isBzip2 p =
     (if length p < 10 \<or> \<not> prefix ''BZh'' p \<or> p ! 3 < CHR ''1'' \<or> CHR ''9'' < p ! 3 then False
      else segment 4 10 p = bytes_of [0x31, 0x41, 0x59, 0x26, 0x53, 0x59] \<or>
           segment 4 10 p = bytes_of [0x17, 0x72, 0x45, 0x38, 0x50, 0x90])"

definition opaqueKind :: "string \<Rightarrow> string" where
  "opaqueKind p =
     (if prefix (bytes_of [0x28, 0xb5, 0x2f, 0xfd]) p then ''zstd''
      else if prefix (bytes_of [0x1f, 0x8b]) p then ''gzip''
      else if prefix (''PK'' @ bytes_of [3, 4]) p \<or> prefix (''PK'' @ bytes_of [5, 6]) p \<or> prefix (''PK'' @ bytes_of [7, 8]) p then ''zip''
      else if isBzip2 p then ''bzip2''
      else if prefix (bytes_of [0xfd] @ ''7zXZ'' @ bytes_of [0]) p then ''xz''
      else if prefix (''SQLite format 3'' @ bytes_of [0]) p then ''sqlite''
      else [])"

section \<open>Lines\<close>

text \<open>The next line without its ending, the ending, and what is left.\<close>

definition nextLine :: "string \<Rightarrow> string \<times> string \<times> string" where
  "nextLine p =
     (case index_byte (CHR 0x0A) p of
        None \<Rightarrow> (p, [], [])
      | Some idx \<Rightarrow>
          (let body = take idx p
           in if body \<noteq> [] \<and> last body = CHR 0x0D then (butlast body, [CHR 0x0D, CHR 0x0A], drop (idx + 1) p)
              else (body, [CHR 0x0A], drop (idx + 1) p)))"

lemma nextLine_parts:
  assumes "nextLine p = (body, ending, rest)"
  shows "body @ ending @ rest = p" "p \<noteq> [] \<Longrightarrow> length rest < length p"
proof -
  have "body @ ending @ rest = p \<and> (p \<noteq> [] \<longrightarrow> length rest < length p)"
  proof (cases "index_byte (CHR 0x0A) p")
    case (Some idx)
    then have i: "idx < length p" "p ! idx = CHR 0x0A" by (simp_all add: index_byte_Some)
    then have split: "take idx p @ CHR 0x0A # drop (idx + 1) p = p" using id_take_nth_drop [OF i(1)] by simp
    show ?thesis
    proof (cases "take idx p \<noteq> [] \<and> last (take idx p) = CHR 0x0D")
      case True
      then have "take idx p = butlast (take idx p) @ [CHR 0x0D]" using append_butlast_last_id by metis
      with split have "butlast (take idx p) @ [CHR 0x0D, CHR 0x0A] @ drop (idx + 1) p = p" by (metis append.assoc append_Cons append_Nil)
      with Some True assms i show ?thesis by (auto simp: nextLine_def Let_def)
    next
      case False
      with Some split assms i show ?thesis by (auto simp: nextLine_def Let_def)
    qed
  qed (use assms in \<open>auto simp: nextLine_def\<close>)
  then show "body @ ending @ rest = p" "p \<noteq> [] \<Longrightarrow> length rest < length p" by blast+
qed

section \<open>The loop\<close>

definition ScanModeDecodedJSON :: string where "ScanModeDecodedJSON = ''decoded_json_values''"
definition ScanModeRawText :: string where "ScanModeRawText = ''raw_text''"
definition ScanModeMixed :: string where "ScanModeMixed = ''mixed''"
definition viaScrubber :: string where "viaScrubber = ''scrubber''"

text \<open>What the lines have added up to so far; \<open>None\<close> while the output is still the payload itself.\<close>

record lineState =
  ln_out :: "string option"
  ln_redacted :: int
  ln_hits :: ledger
  ln_parsed :: int
  ln_raw :: int

text \<open>\<^verbatim>\<open>res.record\<close>.\<close>

definition record_hits :: "int \<Rightarrow> ledger \<Rightarrow> lineState \<Rightarrow> lineState" where
  "record_hits n hits st = st\<lparr>ln_redacted := ln_redacted st + n, ln_hits := add_ledger hits (ln_hits st)\<rparr>"

definition scrubRawText :: "Scrubber \<Rightarrow> string \<Rightarrow> lineState \<Rightarrow> (string \<times> lineState) option" where
  "scrubRawText s text st =
     (let plan = planValueWith s text None False
      in map_option (\<lambda>out. (out, record_hits (vp_redacted plan) (vp_hits plan) st)) (plan_apply plan text))"

text \<open>\<^verbatim>\<open>ensureOutput\<close>, and the append that does nothing while there is no copy.\<close>

definition ensureOutput :: "string \<Rightarrow> string \<Rightarrow> string option \<Rightarrow> string" where
  "ensureOutput payload rest out = (case out of None \<Rightarrow> take (length payload - length rest) payload | Some b \<Rightarrow> b)"

definition append_out :: "string \<Rightarrow> lineState \<Rightarrow> lineState" where
  "append_out t st = st\<lparr>ln_out := map_option (\<lambda>b. b @ t) (ln_out st)\<rparr>"

definition engine_error :: "string \<Rightarrow> goerr" where
  "engine_error what = new_error (''scrub engine: '' @ what)"

text \<open>One line that is not blank; its ending is not part of it.\<close>

definition scrub_line :: "walkEnv \<Rightarrow> string \<Rightarrow> string \<Rightarrow> string \<Rightarrow> lineState \<Rightarrow> lineState result option" where
  "scrub_line env payload rest body st =
     (case walkLine env body of
        Inr w \<Rightarrow>
          (let st1 = record_hits (wk_redacted w) (wk_hits w) (st\<lparr>ln_parsed := ln_parsed st + 1\<rparr>)
           in if wk_edits w \<noteq> []
              then case append_to 0 (wk_edits w) body of
                     Inl e \<Rightarrow> Some (Inl (engine_error ''apply JSON redaction spans''))
                   | Inr t \<Rightarrow> Some (Inr (st1\<lparr>ln_out := Some (ensureOutput payload rest (ln_out st1) @ t)\<rparr>))
              else Some (Inr (append_out body st1)))
      | Inl e \<Rightarrow>
          if e = Panics then None
          else if e = EmbeddedEdit then Some (Inl (engine_error ''apply embedded JSON redaction spans''))
          else (case scrubRawText (we_s env) body (st\<lparr>ln_raw := ln_raw st + 1\<rparr>) of
                  None \<Rightarrow> None
                | Some (t, st1) \<Rightarrow>
                    if t \<noteq> body then Some (Inr (st1\<lparr>ln_out := Some (ensureOutput payload rest (ln_out st1) @ t)\<rparr>))
                    else Some (Inr (append_out body st1))))"

function scrub_lines :: "walkEnv \<Rightarrow> string \<Rightarrow> string \<Rightarrow> lineState \<Rightarrow> lineState result option" where
  "scrub_lines env payload rest st =
     (if rest = [] then Some (Inr st)
      else case nextLine rest of
             (body, ending, rest') \<Rightarrow>
               if TrimSpace body = [] then scrub_lines env payload rest' (append_out ending (append_out body st))
               else (case scrub_line env payload rest body st of
                       None \<Rightarrow> None
                     | Some (Inl e) \<Rightarrow> Some (Inl e)
                     | Some (Inr st1) \<Rightarrow> scrub_lines env payload rest' (append_out ending st1)))"
  by pat_completeness auto
termination
  by (relation "measure (\<lambda>(env, payload, rest, st). length rest)") (auto dest: nextLine_parts(2) [OF sym])

declare scrub_lines.simps [simp del]

definition line_env :: "Scrubber \<Rightarrow> (string \<Rightarrow> string) \<Rightarrow> (string \<Rightarrow> string) \<Rightarrow> string \<Rightarrow> walkEnv" where
  "line_env s lower upper family =
     \<lparr>we_s = s, we_lower = lower, we_upper = upper, we_family = family,
      we_drops = family_paths (sc_drops s) family, we_embedded = False\<rparr>"

definition start_lines :: lineState where
  "start_lines = \<lparr>ln_out = None, ln_redacted = 0, ln_hits = [], ln_parsed = 0, ln_raw = 0\<rparr>"

definition scrub_result :: "string \<Rightarrow> string \<Rightarrow> string \<Rightarrow> lineState \<Rightarrow> Result" where
  "scrub_result payload out mode st =
     \<lparr>re_Out = \<lparr>sc_b = out, sc_via = viaScrubber\<rparr>, re_BytesRedacted = ln_redacted st, re_BytesTotal = int (length payload),
      re_RuleHits = ln_hits st, re_ScanMode = mode, re_LinesParsed = ln_parsed st, re_LinesRawScanned = ln_raw st\<rparr>"

definition Scrub :: "Scrubber \<Rightarrow> (string \<Rightarrow> string) \<Rightarrow> (string \<Rightarrow> string) \<Rightarrow> string \<Rightarrow> Hint \<Rightarrow> Result result option" where
  "Scrub s lower upper payload hint =
     (if opaqueKind payload \<noteq> [] then Some (Inl (new_error (''scrub refused: '' @ opaqueKind payload @ '' payload'')))
      else if \<not> hi_JSONL hint
      then map_option (\<lambda>(t, st). Inr (scrub_result payload t ScanModeRawText (st\<lparr>ln_raw := 1\<rparr>))) (scrubRawText s payload start_lines)
      else case scrub_lines (line_env s lower upper (hi_Family hint)) payload payload start_lines of
             None \<Rightarrow> None
           | Some (Inl e) \<Rightarrow> Some (Inl e)
           | Some (Inr st) \<Rightarrow>
               (let mode = (if ln_raw st > 0 \<and> ln_parsed st > 0 then ScanModeMixed
                            else if ln_raw st > 0 then ScanModeRawText else ScanModeDecodedJSON)
                in Some (Inr (scrub_result payload (case ln_out st of None \<Rightarrow> payload | Some b \<Rightarrow> b) mode st))))"

section \<open>The loop is a map over the lines\<close>

text \<open>What becomes of one line, without the copying: its text, what was redacted, and whether it parsed.\<close>

definition line_done :: "walkEnv \<Rightarrow> string \<Rightarrow> string \<times> int \<times> ledger \<times> bool" where
  "line_done env body =
     (case walkLine env body of
        Inr w \<Rightarrow> (case append_to 0 (wk_edits w) body of Inr t \<Rightarrow> t | Inl e \<Rightarrow> body, wk_redacted w, wk_hits w, True)
      | Inl e \<Rightarrow>
          (let plan = planValueWith (we_s env) body None False
           in (the (plan_apply plan body), vp_redacted plan, vp_hits plan, False)))"

function lines_of :: "string \<Rightarrow> (string \<times> string) list" where
  "lines_of p = (if p = [] then [] else case nextLine p of (body, ending, rest) \<Rightarrow> (body, ending) # lines_of rest)"
  by pat_completeness auto
termination
  by (relation "measure length") (auto dest: nextLine_parts(2) [OF sym])

declare lines_of.simps [simp del]

lemma lines_of_concat: "concat (map (\<lambda>(body, ending). body @ ending) (lines_of p)) = p"
proof (induction p rule: lines_of.induct)
  case (1 p)
  show ?case
  proof (cases "p = []")
    case False
    obtain body ending rest where n: "nextLine p = (body, ending, rest)" by (rule prod_cases3)
    have "concat (map (\<lambda>(body, ending). body @ ending) (lines_of rest)) = rest" by (rule 1 [OF False n [symmetric] refl])
    with nextLine_parts(1) [OF n] n False show ?thesis by (simp add: lines_of.simps [of p])
  qed (simp add: lines_of.simps)
qed

definition scrubbed_line :: "walkEnv \<Rightarrow> string \<Rightarrow> string" where
  "scrubbed_line env body = (if TrimSpace body = [] then body else fst (line_done env body))"

text \<open>The output so far, whether it was copied or not.\<close>

definition so_far :: "string \<Rightarrow> string \<Rightarrow> lineState \<Rightarrow> string" where
  "so_far payload rest st = ensureOutput payload rest (ln_out st)"

lemma so_far_append:
  assumes "rest = t @ rest'" "length rest \<le> length payload" "drop (length payload - length rest) payload = rest"
  shows "so_far payload rest' (append_out t st) = so_far payload rest st @ t"
proof (cases "ln_out st")
  case None
  have "length payload - length rest' = (length payload - length rest) + length t" using assms(1,2) by simp
  then have "take (length payload - length rest') payload = take (length payload - length rest) payload @ take (length t) (drop (length payload - length rest) payload)"
    by (simp only: take_add)
  with None assms(1,3) show ?thesis by (simp add: so_far_def ensureOutput_def append_out_def)
qed (simp add: so_far_def ensureOutput_def append_out_def)

lemma append_out_sel [simp]:
  "ln_redacted (append_out t st) = ln_redacted st" "ln_hits (append_out t st) = ln_hits st"
  "ln_parsed (append_out t st) = ln_parsed st" "ln_raw (append_out t st) = ln_raw st"
  by (simp_all add: append_out_def)

text \<open>What a line adds to the counters.\<close>

definition line_redacted :: "walkEnv \<Rightarrow> string \<Rightarrow> int" where
  "line_redacted env body = (if TrimSpace body = [] then 0 else fst (snd (line_done env body)))"

definition line_parsed :: "walkEnv \<Rightarrow> string \<Rightarrow> bool" where
  "line_parsed env body \<longleftrightarrow> snd (snd (snd (line_done env body)))"

definition adds :: "string \<Rightarrow> string \<Rightarrow> string \<Rightarrow> lineState \<Rightarrow> string \<Rightarrow> int \<Rightarrow> int \<Rightarrow> int \<Rightarrow> lineState \<Rightarrow> bool" where
  "adds payload rest rest' st t n parsed raw st' \<longleftrightarrow>
     so_far payload rest' st' = so_far payload rest st @ t \<and> ln_redacted st' = ln_redacted st + n \<and>
     ln_parsed st' = ln_parsed st + parsed \<and> ln_raw st' = ln_raw st + raw"

lemma adds_trans:
  "adds payload r0 r1 st t n p q st1 \<Longrightarrow> adds payload r1 r2 st1 t' n' p' q' st2 \<Longrightarrow>
   adds payload r0 r2 st (t @ t') (n + n') (p + p') (q + q') st2"
  by (simp add: adds_def)

definition at_rest :: "string \<Rightarrow> string \<Rightarrow> bool" where
  "at_rest payload rest \<longleftrightarrow> length rest \<le> length payload \<and> drop (length payload - length rest) payload = rest"

lemma at_rest_step:
  assumes "at_rest payload (t @ rest)"
  shows "at_rest payload rest"
proof -
  have split: "length payload - length rest = length t + (length payload - length (t @ rest))"
    using assms by (simp add: at_rest_def)
  have "drop (length payload - length rest) payload = drop (length t) (drop (length payload - length (t @ rest)) payload)"
    unfolding split drop_drop ..
  also have "\<dots> = drop (length t) (t @ rest)" using assms unfolding at_rest_def by metis
  finally show ?thesis using assms by (simp add: at_rest_def)
qed

lemma adds_append:
  assumes "at_rest payload (t @ rest)"
  shows "adds payload (t @ rest) rest st t 0 0 0 (append_out t st)"
  using so_far_append [of "t @ rest" t rest payload st] assms by (simp add: adds_def at_rest_def)

lemma adds_copy:
  assumes "ln_out st1 = ln_out st" "ln_redacted st1 = ln_redacted st + n" "ln_parsed st1 = ln_parsed st + p" "ln_raw st1 = ln_raw st + q"
  shows "adds payload rest rest' st t n p q (st1\<lparr>ln_out := Some (ensureOutput payload rest (ln_out st1) @ t)\<rparr>)"
  using assms by (simp add: adds_def so_far_def ensureOutput_def)

lemma adds_same:
  assumes "at_rest payload (t @ rest)"
    and "ln_out st1 = ln_out st" "ln_redacted st1 = ln_redacted st + n" "ln_parsed st1 = ln_parsed st + p" "ln_raw st1 = ln_raw st + q"
  shows "adds payload (t @ rest) rest st t n p q (append_out t st1)"
  using adds_append [OF assms(1), of st1] assms(2-) by (simp add: adds_def so_far_def)

lemma scrub_line_adds:
  assumes "sound_scrubber (we_s env)" "\<not> we_embedded env" "at_rest payload (body @ rest)" "line_done env body = (t, n, h, parsed)"
  shows "\<exists>st'. scrub_line env payload (body @ rest) body st = Some (Inr st') \<and>
    adds payload (body @ rest) rest st t n (if parsed then 1 else 0) (if parsed then 0 else 1) st'"
proof (cases "walkLine env body")
  case (Inl e)
  with walkLine_sound [OF assms(1,2), of body] have e: "\<not> never e" by simp
  obtain out where out: "plan_apply (planValueWith (we_s env) body None False) body = Some out"
    using plan_applies [of "we_s env" None body False] assms(1) by (auto simp: sound_scrubber_def)
  let ?p = "planValueWith (we_s env) body None False"
  let ?st = "record_hits (vp_redacted ?p) (vp_hits ?p) (st\<lparr>ln_raw := ln_raw st + 1\<rparr>)"
  have d: "t = out" "n = vp_redacted ?p" "\<not> parsed" using assms(4) Inl out by (auto simp: line_done_def Let_def)
  have step: "scrub_line env payload (body @ rest) body st =
      (if out \<noteq> body then Some (Inr (?st\<lparr>ln_out := Some (ensureOutput payload (body @ rest) (ln_out ?st) @ out)\<rparr>))
       else Some (Inr (append_out body ?st)))"
    using Inl e out by (simp add: scrub_line_def scrubRawText_def Let_def never_def)
  have f: "ln_out ?st = ln_out st" "ln_redacted ?st = ln_redacted st + n" "ln_parsed ?st = ln_parsed st + 0" "ln_raw ?st = ln_raw st + 1"
    by (simp_all add: record_hits_def d)
  show ?thesis
  proof (cases "out = body")
    case True
    with step adds_same [OF assms(3) f] d show ?thesis by simp
  next
    case False
    with step adds_copy [OF f, of payload "body @ rest" rest out] d show ?thesis by simp
  qed
next
  case (Inr w)
  with walkLine_sound [OF assms(1,2), of body] obtain out where out: "append_to 0 (wk_edits w) body = Inr out" by auto
  let ?st = "record_hits (wk_redacted w) (wk_hits w) (st\<lparr>ln_parsed := ln_parsed st + 1\<rparr>)"
  have d: "t = out" "n = wk_redacted w" "parsed" using assms(4) Inr out by (auto simp: line_done_def)
  have f: "ln_out ?st = ln_out st" "ln_redacted ?st = ln_redacted st + n" "ln_parsed ?st = ln_parsed st + 1" "ln_raw ?st = ln_raw st + 0"
    by (simp_all add: record_hits_def d)
  show ?thesis
  proof (cases "wk_edits w = []")
    case True
    with out have "out = body" by simp
    with True Inr adds_same [OF assms(3) f] d show ?thesis by (simp add: scrub_line_def Let_def)
  next
    case False
    with Inr out adds_copy [OF f, of payload "body @ rest" rest out] d show ?thesis by (simp add: scrub_line_def Let_def)
  qed
qed

definition lines_text :: "walkEnv \<Rightarrow> string \<Rightarrow> string" where
  "lines_text env p = concat (map (\<lambda>(body, ending). scrubbed_line env body @ ending) (lines_of p))"

definition lines_redacted :: "walkEnv \<Rightarrow> string \<Rightarrow> int" where
  "lines_redacted env p = sum_list (map (line_redacted env \<circ> fst) (lines_of p))"

definition content_lines :: "string \<Rightarrow> string list" where
  "content_lines p = filter (\<lambda>body. TrimSpace body \<noteq> []) (map fst (lines_of p))"

lemma lines_Cons:
  assumes "p \<noteq> []" "nextLine p = (body, ending, rest)"
  shows "lines_text env p = scrubbed_line env body @ ending @ lines_text env rest"
    "lines_redacted env p = line_redacted env body + lines_redacted env rest"
    "content_lines p = (if TrimSpace body = [] then [] else [body]) @ content_lines rest"
  using assms by (simp_all add: lines_text_def lines_redacted_def content_lines_def lines_of.simps [of p])

lemma lines_Nil [simp]: "lines_text env [] = []" "lines_redacted env [] = 0" "content_lines [] = []"
  by (simp_all add: lines_text_def lines_redacted_def content_lines_def lines_of.simps)

lemma scrub_lines_adds:
  assumes "sound_scrubber (we_s env)" "\<not> we_embedded env" "at_rest payload rest"
  shows "\<exists>st'. scrub_lines env payload rest st = Some (Inr st') \<and>
    adds payload rest [] st (lines_text env rest) (lines_redacted env rest)
      (int (length (filter (line_parsed env) (content_lines rest))))
      (int (length (filter (\<lambda>b. \<not> line_parsed env b) (content_lines rest)))) st'"
  using assms
proof (induction env payload rest st rule: scrub_lines.induct)
  case (1 env payload rest st)
  show ?case
  proof (cases "rest = []")
    case True
    then show ?thesis by (simp add: scrub_lines.simps adds_def)
  next
    case False
    obtain body ending rest' where n: "nextLine rest = (body, ending, rest')" by (rule prod_cases3)
    note parts = nextLine_parts(1) [OF n]
    note lines = lines_Cons [OF False n]
    have at: "at_rest payload (body @ (ending @ rest'))" using 1(5) parts by simp
    have at': "at_rest payload (ending @ rest')" by (rule at_rest_step [OF at])
    have at'': "at_rest payload rest'" by (rule at_rest_step [OF at'])
    show ?thesis
    proof (cases "TrimSpace body = []")
      case True
      let ?st = "append_out ending (append_out body st)"
      have head: "adds payload rest rest' st (body @ ending) 0 0 0 ?st"
        using adds_trans [OF adds_append [OF at, of st] adds_append [OF at', of "append_out body st"]] parts by simp
      from 1(1) [OF False n [symmetric] refl True 1(3,4) at''] obtain st' where
        st': "scrub_lines env payload rest' ?st = Some (Inr st')"
        "adds payload rest' [] ?st (lines_text env rest') (lines_redacted env rest')
          (int (length (filter (line_parsed env) (content_lines rest'))))
          (int (length (filter (\<lambda>b. \<not> line_parsed env b) (content_lines rest')))) st'" by blast
      from adds_trans [OF head st'(2)] st'(1) False n True lines show ?thesis
        by (simp add: scrub_lines.simps [of env payload rest st] scrubbed_line_def line_redacted_def)
    next
      case content: False
      obtain t k h parsed where d: "line_done env body = (t, k, h, parsed)" by (rule prod_cases4)
      obtain st1 where st1: "scrub_line env payload rest body st = Some (Inr st1)"
          "adds payload rest (ending @ rest') st t k (if parsed then 1 else 0) (if parsed then 0 else 1) st1"
        using scrub_line_adds [OF 1(3,4) at d, of st] parts by auto
      let ?st = "append_out ending st1"
      note head = adds_trans [OF st1(2) adds_append [OF at', of st1]]
      from 1(2) [OF False n [symmetric] refl content st1(1) refl 1(3,4) at''] obtain st' where
        st': "scrub_lines env payload rest' ?st = Some (Inr st')"
        "adds payload rest' [] ?st (lines_text env rest') (lines_redacted env rest')
          (int (length (filter (line_parsed env) (content_lines rest'))))
          (int (length (filter (\<lambda>b. \<not> line_parsed env b) (content_lines rest')))) st'" by blast
      have texts: "scrubbed_line env body = t" "line_redacted env body = k" "line_parsed env body = parsed"
        using content d by (simp_all add: scrubbed_line_def line_redacted_def line_parsed_def)
      from adds_trans [OF head st'(2)] st'(1) st1(1) False n content lines texts show ?thesis
        by (cases parsed) (simp_all add: scrub_lines.simps [of env payload rest st])
    qed
  qed
qed


section \<open>A scrubber of key names\<close>

text \<open>No rule packs and no backstop: what is left are the values named by their key.\<close>

definition names_only :: Scrubber where
  "names_only =
     \<lparr>sc_patterns = [], sc_entropy = None, sc_pathUser = [],
      sc_keyNames = \<lparr>km_re = (\<lambda>v i. None), km_names = [], km_stems = []\<rparr>, sc_exempt = NewExemptionSet [], sc_drops = [],
      sc_prefilter = \<lparr>pf_classes = [], pf_next = [], pf_width = 0, pf_outputs = []\<rparr>, sc_keyValue = [],
      sc_keyValuePrefilter = \<lparr>pf_classes = [], pf_next = [], pf_width = 0, pf_outputs = []\<rparr>\<rparr>"

lemma names_only_plan:
  "planValueWith names_only v None secret = (if secret then whole_plan v key_name else \<lparr>vp_spans = [], vp_redacted = 0, vp_hits = []\<rparr>)"
proof -
  have no: "appendPatternSpans names_only [] u = []" for u by (simp add: appendPatternSpans_def names_only_def)
  have "unionEscapeShadow names_only v sh esc [] = []" for sh esc
    by (simp add: unionEscapeShadow_def no snapAll_def Let_def split: option.splits)
  then have reads: "\<exists>esc. both_readings names_only v None = ([], [], esc)"
    by (cases "escapeShadow v") (auto simp: both_readings_def no Let_def snapAll_def split: option.splits)
  have b64: "base64Hit names_only v = None" by (auto simp: base64Hit_def Let_def names_only_def split: option.splits)
  have "resolve_plan names_only v None [] [] esc = \<lparr>vp_spans = [], vp_redacted = 0, vp_hits = []\<rparr>" for esc
  proof -
    have "resolveSpans [] [] = ([], 0, [])" by code_simp
    then show ?thesis by (simp add: resolve_plan_def add_user_spans_def names_only_def)
  qed
  with reads b64 show ?thesis by (auto simp: planValueWith_def)
qed

lemma names_only_sound: "sound_scrubber names_only"
proof -
  have key: "utf8_valid (Sentinel key_name)" by (rule utf8_ascii) code_simp
  have "utf8_valid out" if "utf8_valid v" "plan_apply (planValueWith names_only v None secret) v = Some out" for v secret out
    using that key by (cases secret) (auto simp: names_only_plan whole_plan_def plan_apply_def go_slice_def)
  then have "keeps_utf8 names_only" unfolding keeps_utf8_def by (auto simp: names_only_def)
  moreover have "scrubber_ok names_only" by (simp add: scrubber_ok_def names_only_def entropy_ok_def)
  ultimately show ?thesis by (simp add: sound_scrubber_def)
qed

definition sample_lines :: string where
  "sample_lines = ''{\"token\":\"x\"}'' @ [CHR 0x0D, CHR 0x0A, CHR 0x0A] @ ''{'' @ [CHR 0x0A]"

text \<open>Its first line, step by step.\<close>

definition sample_env :: walkEnv where
  "sample_env = line_env names_only to_lower to_lower ''codex''"

definition sample_doc :: string where
  "sample_doc = ''{\"token\":\"x\"}''"

lemma sample_sel [simp]:
  "we_s sample_env = names_only" "we_lower sample_env = to_lower" "we_upper sample_env = to_lower"
  "we_family sample_env = ''codex''" "we_drops sample_env = []" "sc_entropy names_only = None"
  by (simp_all add: sample_env_def line_env_def names_only_def family_paths_def)

lemma decoded_ascii:
  "list_all (\<lambda>c. byte c < 0x80 \<and> c \<noteq> backslash) s \<Longrightarrow> decoded (dquote # s @ [dquote]) = s"
  using utf8_ascii [of s] by (auto simp: decoded_def Let_def segment_def list_all_iff)

lemma sample_value:
  "walkString sample_env 1 ''token'' f sample_doc 9 12 fresh_state =
     Inr \<lparr>wk_edits = [\<lparr>rp_Start = 9, rp_End = 12, rp_Replacement = Sentinel key_name\<rparr>], wk_redacted = 1, wk_hits = [(key_name, 1)]\<rparr>"
proof -
  have raw: "segment 9 12 sample_doc = ''\"x\"''" "\<not> bad_token ''\"x\"''" by code_simp+
  have dec: "decoded ''\"x\"'' = ''x''" using decoded_ascii [of "''x''"] by (simp add: byte_def dquote_def backslash_def)
  have secret: "keyNamesSecret to_lower to_lower names_only ''token'' ''x''" by code_simp
  have out: "plan_apply (whole_plan ''x'' key_name) ''x'' = Some (Sentinel key_name)" "\<not> looksLikeDocument (Sentinel key_name)"
      "vp_spans (whole_plan ''x'' key_name) \<noteq> []" by code_simp+
  have plan: "planValue names_only ''x'' True f ''codex'' = whole_plan ''x'' key_name" by (simp add: planValue_def names_only_plan)
  have drop: "\<not> drop_applies sample_env f ''\"x\"''" by (simp add: drop_applies_def)
  have led: "addLedger (whole_plan ''x'' key_name) (replace_token 9 12 (Sentinel key_name) fresh_state) =
      \<lparr>wk_edits = [\<lparr>rp_Start = 9, rp_End = 12, rp_Replacement = Sentinel key_name\<rparr>], wk_redacted = 1, wk_hits = [(key_name, 1)]\<rparr>"
    by code_simp
  show ?thesis
    unfolding walkString.simps raw(1) Let_def dec sample_sel plan
    using raw(2) secret out drop led by (simp add: plan)
qed

lemma sample_walk:
  "walkLine sample_env sample_doc =
     Inr \<lparr>wk_edits = [\<lparr>rp_Start = 9, rp_End = 12, rp_Replacement = Sentinel key_name\<rparr>], wk_redacted = 1, wk_hits = [(key_name, 1)]\<rparr>"
proof -
  have read: "read_doc sample_doc = (JObj [((1, 8), JStr 9 12)] True, Some (13, []))" by code_simp
  have key: "segment 1 8 sample_doc = ''\"token\"''" "\<not> bad_token ''\"token\"''" by code_simp+
  have dec: "decoded ''\"token\"'' = ''token''" using decoded_ascii [of "''token''"] by (simp add: byte_def dquote_def backslash_def)
  have plan: "planKey names_only ''token'' [] ''codex'' = \<lparr>vp_spans = [], vp_redacted = 0, vp_hits = []\<rparr>"
    by (simp add: planKey_def names_only_plan)
  have members: "walkMembers sample_env 0 [] sample_doc [((1, 8), JStr 9 12)] True fresh_state =
      Inr \<lparr>wk_edits = [\<lparr>rp_Start = 9, rp_End = 12, rp_Replacement = Sentinel key_name\<rparr>], wk_redacted = 1, wk_hits = [(key_name, 1)]\<rparr>"
    using key(2) by (simp add: walkMembers.simps Let_def key(1) [unfolded One_nat_def] dec plan addPlan_def walk_value.simps maxDepth_def sample_value [unfolded One_nat_def])
  show ?thesis by (simp add: walkLine_def read walk_value.simps maxDepth_def members [unfolded One_nat_def] at_end_def)
qed

lemma sample_lines_of: "lines_of sample_lines = [(sample_doc, [CHR 0x0D, CHR 0x0A]), ([], [CHR 0x0A]), (''{'', [CHR 0x0A])]"
  by code_simp

lemma sample_done:
  "line_done sample_env sample_doc = (''{\"token\":\"'' @ Sentinel key_name @ ''\"}'', 1, [(key_name, 1)], True)"
  "line_done sample_env ''{'' = (''{'', 0, [], False)"
proof -
  have "list_all (\<lambda>c. byte c < 0x80) (Sentinel key_name)" "dquote # quote_body (Sentinel key_name) @ [dquote] = ''\"'' @ Sentinel key_name @ ''\"''"
    by code_simp+
  then have q: "append_quote (Sentinel key_name) = Some (''\"'' @ Sentinel key_name @ ''\"'')"
    using utf8_ascii [of "Sentinel key_name"] by (simp add: append_quote_def)
  have "segment 0 9 sample_doc = ''{\"token\":''" "drop 12 sample_doc = ''}''" "length sample_doc = 13" by code_simp+
  then have "append_to 0 [\<lparr>rp_Start = 9, rp_End = 12, rp_Replacement = Sentinel key_name\<rparr>] sample_doc =
      Inr (''{\"token\":\"'' @ Sentinel key_name @ ''\"}'')" by (simp add: q)
  then show "line_done sample_env sample_doc = (''{\"token\":\"'' @ Sentinel key_name @ ''\"}'', 1, [(key_name, 1)], True)"
    by (simp add: line_done_def sample_walk)
  have "walkLine sample_env ''{'' = Inl SyntaxError" by code_simp
  then show "line_done sample_env ''{'' = (''{'', 0, [], False)" by (simp add: line_done_def names_only_plan plan_apply_def)
qed


end
