(* ===== verification/Spec2Isabelle.thy ===== *)
theory Spec2Isabelle
  imports Ticket Failure_Log Pool_Memory End_To_End Entropy Key_Names Exemptions Scrubber_New Scrub_Lines
begin

text \<open>
  A verification library of the shipper: the program that collects the transcripts coding agents leave
  on a machine, redacts them, seals them and uploads them to the storage of an organization.

  \<^bold>\<open>The program.\<close> A flush (\<^verbatim>\<open>src/internal/engine\<close>) takes a plan, the list of resolved sources, and goes
  through them in turn. For a source it discovers candidates, and a pass over them runs a pool of
  workers: each file is compared with its fingerprint, loaded, scrubbed, sealed into an object and staged;
  staged objects are sent in groups through an upload port, and what the port confirms is recorded as a
  fingerprint. Enrichers then derive further objects. A restarted flush reads the fingerprints and does
  not send what is recorded. What must not go wrong: something is recorded that was never stored; bytes
  leave that were not scrubbed or under a ticket for something else; a secret a rule knows survives the
  scrubber; a run hangs; a crash loses or invents a fingerprint.

  \<^bold>\<open>Theories and the code they model\<close> (paths under \<^verbatim>\<open>src/src\<close>):

  \<^item> The vocabulary: \<open>Go_Prelude\<close> (errors as values, bytes, strings), \<open>Go_Map\<close> (maps as association lists
    behind the interface \<open>dict\<close>), \<open>Go_Strings\<close>, \<open>Go_Runes\<close> (UTF-8 decoding), \<open>Go_Time\<close>, \<open>Go_Regexp\<close> (the
    pattern pieces the personal-data corpus uses, and the leftmost sweep), \<open>Bitset\<close>, \<open>Sha256\<close>. They model the
    language and its standard library as the sources use them.
  \<^item> Names and state: \<open>Naming\<close> (\<^verbatim>\<open>formats/naming.go\<close>), \<open>Fingerprints\<close> (\<^verbatim>\<open>engine/state.go\<close>), \<open>Commit_Buffer\<close>
    (\<^verbatim>\<open>engine/commitbuffer.go\<close>), \<open>Outcome\<close> and \<open>Failure_Log\<close> (\<^verbatim>\<open>formats/model.go\<close>). The store is a record over the
    document on disk; every operation returns the new store, and a crash is a cut between two writes.
  \<^item> The platform: \<open>Safe_IO\<close> (\<^verbatim>\<open>platform/safeio.go\<close>) over a file system whose operations can fail or be cut
    by a crash, \<open>Pause\<close> (\<^verbatim>\<open>platform/pause.go\<close>).
  \<^item> Configuration: \<open>Path_Expansion\<close> (\<^verbatim>\<open>sources/pathexp.go\<close>).
  \<^item> The flush: \<open>Prepare\<close> (\<^verbatim>\<open>engine/file.go\<close>, \<^verbatim>\<open>engine/manifest.go\<close>), \<open>Upload_Group\<close> (\<^verbatim>\<open>engine/upload.go\<close>), \<open>Pool\<close>
    (\<^verbatim>\<open>engine/pool.go\<close>), \<open>Enrichment\<close> (\<^verbatim>\<open>engine/derived.go\<close>, \<^verbatim>\<open>transforms/enrich.go\<close>), \<open>Engine\<close>
    (\<^verbatim>\<open>engine/engine.go\<close>). A pass is the inductive step relation \<open>pass_step\<close>: a step is what the loop does
    when a worker reports, a group answers or nothing is in flight, so every interleaving of workers and groups
    is a path of it. \<open>Pool_Properties\<close>, \<open>Pool_Memory\<close>, \<open>World_Invariant\<close>, \<open>Engine_Properties\<close> and
    \<open>Run_Properties\<close> hold what is proved of passes and flushes, \<open>Pool_Demo\<close> the concrete pass they are applied to.
  \<^item> Leaving the machine: \<open>Seal\<close> (\<^verbatim>\<open>transforms/seal.go\<close>, \<^verbatim>\<open>transforms/manifest.go\<close>), \<open>Ticket\<close>
    (\<^verbatim>\<open>upload/ticket.go\<close>, \<^verbatim>\<open>upload/target.go\<close>), \<open>Http_Put\<close> (\<^verbatim>\<open>upload/http.go\<close>), \<open>Vend_Port\<close>
    (\<^verbatim>\<open>controlplane/uploads.go\<close>, \<^verbatim>\<open>app/vendupload.go\<close>), and \<open>End_To_End\<close>, the flush on top of that port.
  \<^item> The rules: \<open>Scrub_Spans\<close> (\<^verbatim>\<open>transforms/matcher.go\<close>), \<open>Pii_Scan\<close>, \<open>Email_Scan\<close>, \<open>Checksums\<close>, \<open>Anchor\<close>,
    \<open>Pattern_Rules\<close>, \<open>Prefilter\<close> (\<^verbatim>\<open>transforms/packs\<close>), \<open>Suffix_Words\<close> and \<open>Aho_Corasick\<close> (what the automaton of
    the prefilter computes), \<open>Entropy\<close> (\<^verbatim>\<open>transforms/heuristic.go\<close>), \<open>Key_Names\<close> (\<^verbatim>\<open>transforms/keyname.go\<close>).
  \<^item> The scrubber: \<open>Redaction_Plan\<close>, \<open>Escapes\<close>, \<open>Base64_Text\<close>, \<open>Scrub_Plan\<close>, \<open>Scrubber_New\<close>, \<open>Scrub_Lines\<close>
    (\<^verbatim>\<open>transforms/scrub.go\<close>), \<open>Exemptions\<close> (\<^verbatim>\<open>transforms/drops.go\<close>, \<^verbatim>\<open>transforms/matcher.go\<close>), \<open>Json_Text\<close>,
    \<open>Json_Strings\<close> and \<open>Utf8_Text\<close> (what the walk uses of \<^verbatim>\<open>encoding/json/jsontext\<close>), \<open>Json_Walk\<close> and
    \<open>Walk_Edits\<close> (\<^verbatim>\<open>transforms/jsonwalk.go\<close>).

  \<^bold>\<open>Interfaces.\<close> Where one part relies on another, the laws it needs are a locale and the model of the
  other part interprets it: \<open>dict\<close> by association lists, the span matchers of the ladder (\<open>span_matcher\<close>) by the
  compiled rules, the name matcher and the backstop, the world behind the port (\<open>World_Invariant\<close>) by the real
  port, and so on; each interpretation stands in the theory of the part that provides it.

  \<^bold>\<open>What is proved.\<close> Of a flush: that it ends; that what it records was confirmed by the port, and with the
  real port was PUT under a ticket validated for exactly its key; that previews and paused runs leave no
  trace; that budgets and memory bounds hold at every moment; that every file and source is accounted for once.
  Of the store: durability, and that no crash leaves anything but old or committed fingerprints. Of the rules: that
  every optimisation (the automaton, the anchored search, the hand-written scanners, the probing of the
  backstop) returns what the naive search returns. Of the scrubber: that what a configured rule reports is redacted,
  that redactions are exact and never split an escape, and that scrubbing a payload is a map over its lines that
  never fails.

  \<^bold>\<open>Bounds and fuel.\<close> Loops are recursive functions with a measure. The two with fuel are \<open>link_loop\<close> of the
  prefilter, whose fuel is the number of trie nodes and which is proved to visit each once, and the reader of JSON,
  which stops where a step makes no progress (proved never to happen before the end of the text). The walk is bounded by its own depth limit of 256.
  Machine integers are words where the source shifts or masks them (bit sets, digests, transition
  tables) and \<^typ>\<open>int\<close> or \<^typ>\<open>nat\<close> where it counts bytes in memory.

  \<^bold>\<open>Parameters.\<close> What is not under \<^verbatim>\<open>src\<close> is an argument: the regular expression compiler (with the law that a
  match lies inside its value; for the personal-data corpus the compiled patterns are modelled and
  nothing is assumed), the HTTP round trip, URL parsing, JSON and YAML decoding of documents, age, zstd and tar, glob
  matching, random bytes, the clock, the environment, the Unicode folding of \<^verbatim>\<open>strings.ToLower\<close>, and the
  comparison of floating-point entropy sums.

  \<^bold>\<open>Not modelled.\<close> Reading SQLite stores and the cursor join (third-party drivers; the contract of an enricher is
  modelled), directory walks, the HTTP handlers and storage clients of the fleet manager, enrollment and identity files, the
  command line, installers and services. The shared walk of \<^verbatim>\<open>ValueScan\<close> is a cache and is modelled as the value it
  caches; \<^verbatim>\<open>noteCost\<close> and \<^verbatim>\<open>Slowest\<close> read the clock. Data races are excluded by the source itself, which keeps all state of
  a pass on the loop's goroutine. The vendored corpora of regular expressions are data, not code.
\<close>

end
